(* ===== verification/Prelude.thy ===== *)
theory Prelude
  imports Main "HOL-Library.Word"
begin

text \<open>
  Shared vocabulary of the development: bytes and byte strings, the memory image of machine
  integers on the little-endian hosts the server is built for (x86-64 and AArch64 Linux), the
  \<^verbatim>\<open>memcpy\<close>/\<^verbatim>\<open>std::copy\<close> write into the middle of an array, substring search, and the generic
  notion of a transition system with an invariant.  The \<^theory_text>\<open>named_theorems\<close> collections
  declared here carry the component proofs.
\<close>

unbundle bit_operations_syntax

named_theorems bytes_simps \<open>lengths and inverses of the byte images of integers\<close>
named_theorems overwrite_simps \<open>reading back an array after a block write\<close>

section \<open>Bytes, strings and memory images\<close>

type_synonym byte = "8 word"
type_synonym bytes = "byte list"
type_synonym int32 = "32 word"
type_synonym int64 = "64 word"
type_synonym int16 = "16 word"

text \<open>A C++ string literal as the bytes it denotes.\<close>

definition lit :: "string \<Rightarrow> bytes" where
  "lit s = map of_char s"

text \<open>
  The memory image of an \<open>n\<close>-byte integer (least significant byte first) and the integer
  that a \<^verbatim>\<open>memcpy\<close> out of such an image yields.
\<close>

definition le_bytes :: "nat \<Rightarrow> 'a::len word \<Rightarrow> bytes" where
  "le_bytes n w = map (\<lambda>i. ucast (drop_bit (8 * i) w)) [0..<n]"

primrec of_le_bytes :: "bytes \<Rightarrow> 'a::len word" where
  "of_le_bytes [] = 0"
| "of_le_bytes (b # bs) = ucast b OR push_bit 8 (of_le_bytes bs)"

text \<open>Reversal of the byte order of an \<open>n\<close>-byte integer: what \<^verbatim>\<open>htobe\<close>/\<^verbatim>\<open>htonl\<close> do here.\<close>

definition byte_swap :: "nat \<Rightarrow> 'a::len word \<Rightarrow> 'a word" where
  "byte_swap n w = of_le_bytes (rev (le_bytes n w))"

lemma length_le_bytes [simp, bytes_simps]: "length (le_bytes n w) = n"
  by (simp add: le_bytes_def)

lemma nth_le_bytes: "i < n \<Longrightarrow> le_bytes n w ! i = ucast (drop_bit (8 * i) w)"
  by (simp add: le_bytes_def)

lemma bit_of_le_bytes:
  "bit (of_le_bytes bs :: 'a::len word) k \<longleftrightarrow>
     k < LENGTH('a) \<and> k div 8 < length bs \<and> bit (bs ! (k div 8)) (k mod 8)"
proof (induction bs arbitrary: k)
  case Nil
  then show ?case by simp
next
  case (Cons b bs)
  show ?case
  proof (cases "k < 8")
    case True
    then show ?thesis
      by (auto simp: bit_simps)
  next
    case False
    then have "k div 8 = Suc ((k - 8) div 8)" and "k mod 8 = (k - 8) mod 8"
      by (auto simp: le_div_geq le_mod_geq)
    moreover have "\<not> bit b k"
      using False by (auto dest: bit_imp_le_length)
    ultimately show ?thesis
      using False Cons.IH [of "k - 8"] by (auto simp: bit_simps)
  qed
qed

lemma of_le_bytes_le_bytes [bytes_simps]:
  assumes "LENGTH('a::len) = 8 * n"
  shows "of_le_bytes (le_bytes n (w :: 'a word)) = w"
proof (rule bit_word_eqI)
  fix k
  assume "k < LENGTH('a)"
  then have "k div 8 < n" and "8 * (k div 8) + k mod 8 = k" and "k mod 8 < 8"
    using assms by auto
  then show "bit (of_le_bytes (le_bytes n w) :: 'a word) k = bit w k"
    using \<open>k < LENGTH('a)\<close> by (simp add: bit_of_le_bytes nth_le_bytes bit_simps)
qed

lemma le_bytes_of_le_bytes [bytes_simps]:
  assumes "LENGTH('a::len) = 8 * n" and "length bs = n"
  shows "le_bytes n (of_le_bytes bs :: 'a word) = bs"
proof (rule nth_equalityI)
  show "length (le_bytes n (of_le_bytes bs :: 'a word)) = length bs"
    using assms by simp
next
  fix i
  assume i: "i < length (le_bytes n (of_le_bytes bs :: 'a word))"
  show "le_bytes n (of_le_bytes bs :: 'a word) ! i = bs ! i"
  proof (rule bit_word_eqI)
    fix k
    assume "k < LENGTH(8)"
    then have "k < 8" by simp
    then have "(8 * i + k) div 8 = i" and "(8 * i + k) mod 8 = k" and "8 * i + k < 8 * n"
      using i by auto
    then show "bit (le_bytes n (of_le_bytes bs :: 'a word) ! i) k = bit (bs ! i) k"
      using i assms \<open>k < 8\<close> by (simp add: nth_le_bytes bit_simps bit_of_le_bytes)
  qed
qed

lemma le_bytes_byte_swap [bytes_simps]:
  assumes "LENGTH('a::len) = 8 * n"
  shows "le_bytes n (byte_swap n (w :: 'a word)) = rev (le_bytes n w)"
  using assms by (simp add: byte_swap_def le_bytes_of_le_bytes)

lemma byte_swap_byte_swap [bytes_simps]:
  assumes "LENGTH('a::len) = 8 * n"
  shows "byte_swap n (byte_swap n (w :: 'a word)) = w"
  using assms by (simp add: byte_swap_def [of n "byte_swap n w"] le_bytes_byte_swap of_le_bytes_le_bytes)

lemma byte_swap_of_le_bytes [bytes_simps]:
  assumes "LENGTH('a::len) = 8 * n" and "length bs = n"
  shows "byte_swap n (of_le_bytes bs :: 'a word) = of_le_bytes (rev bs)"
  using assms by (simp add: byte_swap_def le_bytes_of_le_bytes)

lemma unat_drop_bit: "unat (drop_bit n (w :: 'a::len word)) = unat w div 2 ^ n"
  unfolding unat_drop_bit_eq by (rule drop_bit_eq_div)

lemma unat_take_bit: "unat (take_bit n (w :: 'a::len word)) = unat w mod 2 ^ n"
  unfolding unsigned_take_bit_eq by (rule take_bit_eq_mod)

lemma unat_bound: "unat (w :: 'a::len word) < 2 ^ LENGTH('a)"
  by (rule unsigned_less)

lemma unat_word_of_nat_small: "n < 2 ^ LENGTH('a) \<Longrightarrow> unat (word_of_nat n :: 'a::len word) = n"
  by (simp add: unat_of_nat take_bit_nat_eq_self)

lemma unat_ucast_up:
  assumes "LENGTH('a::len) \<le> LENGTH('b::len)"
  shows "unat (ucast (w :: 'a word) :: 'b word) = unat w"
proof -
  have "unat w < 2 ^ LENGTH('b)"
    by (rule less_le_trans [OF unat_bound power_increasing [OF assms]]) simp
  then show ?thesis by (simp add: unsigned_ucast_eq take_bit_nat_eq_self)
qed

section \<open>Block writes and slices of an array\<close>

text \<open>\<open>overwrite i ys xs\<close> overwrites \<open>xs\<close> from index \<open>i\<close> with the block \<open>ys\<close>.\<close>

definition overwrite :: "nat \<Rightarrow> 'a list \<Rightarrow> 'a list \<Rightarrow> 'a list" where
  "overwrite i ys xs = take i xs @ ys @ drop (i + length ys) xs"

text \<open>The elements at indices \<open>i..<j\<close>.\<close>

definition segment :: "nat \<Rightarrow> nat \<Rightarrow> 'a list \<Rightarrow> 'a list" where
  "segment i j xs = take (j - i) (drop i xs)"

lemma length_overwrite [simp, overwrite_simps]:
  "i + length ys \<le> length xs \<Longrightarrow> length (overwrite i ys xs) = length xs"
  by (simp add: overwrite_def)

lemma length_segment [simp, overwrite_simps]: "j \<le> length xs \<Longrightarrow> length (segment i j xs) = j - i"
  by (simp add: segment_def)

lemma segment_self [simp]: "segment i i xs = []"
  by (simp add: segment_def)

lemma segment_split:
  "i \<le> j \<Longrightarrow> j \<le> k \<Longrightarrow> segment i k xs = segment i j xs @ segment j k xs"
proof -
  assume "i \<le> j" and "j \<le> k"
  then have "k - i = (j - i) + (k - j)" and "drop (j - i) (drop i xs) = drop j xs" by simp_all
  then show ?thesis by (simp add: segment_def take_add)
qed

lemma segment_overwrite_same [overwrite_simps]:
  "i \<le> length xs \<Longrightarrow> segment i (i + length ys) (overwrite i ys xs) = ys"
  by (simp add: segment_def overwrite_def)

lemma segment_overwrite_before [overwrite_simps]:
  "j \<le> i \<Longrightarrow> i \<le> length xs \<Longrightarrow> segment k j (overwrite i ys xs) = segment k j xs"
  by (cases "k \<le> j") (auto simp: segment_def overwrite_def take_drop min_def)

lemma segment_append_left [overwrite_simps]:
  "j \<le> length xs \<Longrightarrow> segment i j (xs @ ys) = segment i j xs"
  by (cases "i \<le> j") (auto simp: segment_def)

lemma segment_take [overwrite_simps]: "j \<le> n \<Longrightarrow> segment i j (take n xs) = segment i j xs"
  by (cases "i \<le> j") (auto simp: segment_def take_drop min_def)

lemma take_segment: "i \<le> j \<Longrightarrow> n \<le> j - i \<Longrightarrow> take n (segment i j xs) = segment i (i + n) xs"
  by (simp add: segment_def min_def)

lemma drop_segment: "n \<le> j - i \<Longrightarrow> drop n (segment i j xs) = segment (i + n) j xs"
  by (simp add: segment_def drop_take add.commute)

section \<open>Substring search\<close>

text \<open>
  \<^verbatim>\<open>std::search\<close>: the least offset at which \<open>pat\<close> occurs in \<open>xs\<close>, and \<open>length xs\<close>
  (the end iterator) when there is none.
\<close>

fun search :: "'a list \<Rightarrow> 'a list \<Rightarrow> nat" where
  "search pat xs =
     (if pat = take (length pat) xs then 0
      else (case xs of [] \<Rightarrow> 0 | _ # ys \<Rightarrow> Suc (search pat ys)))"

declare search.simps [simp del]

text \<open>\<^verbatim>\<open>memchr\<close>: the least offset of a byte, if any.\<close>

primrec find_byte :: "'a \<Rightarrow> 'a list \<Rightarrow> nat option" where
  "find_byte c [] = None"
| "find_byte c (x # xs) = (if x = c then Some 0 else map_option Suc (find_byte c xs))"

lemma search_le_length: "search pat xs \<le> length xs"
proof (induction xs)
  case Nil
  show ?case by (subst search.simps) simp
next
  case (Cons x xs)
  then show ?case by (subst search.simps) simp
qed

lemma search_found:
  "search pat xs < length xs \<Longrightarrow> take (length pat) (drop (search pat xs) xs) = pat"
proof (induction xs)
  case Nil
  then show ?case by (simp add: search.simps)
next
  case (Cons x xs)
  show ?case
  proof (cases "pat = take (length pat) (x # xs)")
    case True
    then show ?thesis by (subst (1) search.simps) simp
  next
    case False
    then have "search pat (x # xs) = Suc (search pat xs)"
      by (subst search.simps) simp
    then show ?thesis using Cons by simp
  qed
qed

lemma search_least:
  "i < search pat xs \<Longrightarrow> take (length pat) (drop i xs) \<noteq> pat"
proof (induction xs arbitrary: i)
  case Nil
  then show ?case by (simp add: search.simps split: if_splits)
next
  case (Cons x xs)
  show ?case
  proof (cases "pat = take (length pat) (x # xs)")
    case True
    then have "search pat (x # xs) = 0" by (subst search.simps) simp
    then show ?thesis using Cons.prems by simp
  next
    case False
    then have "search pat (x # xs) = Suc (search pat xs)"
      by (subst search.simps) simp
    then show ?thesis using Cons False by (cases i) auto
  qed
qed

lemma find_byte_Some:
  "find_byte c xs = Some i \<longleftrightarrow> i < length xs \<and> xs ! i = c \<and> c \<notin> set (take i xs)"
proof (induction xs arbitrary: i)
  case Nil
  then show ?case by simp
next
  case (Cons x xs)
  then show ?case by (cases i) auto
qed

lemma find_byte_None: "find_byte c xs = None \<longleftrightarrow> c \<notin> set xs"
  by (induction xs) auto

section \<open>Transition systems and invariants\<close>

text \<open>
  A component whose operations are steps: if the initial states satisfy \<open>inv\<close> and every
  step keeps it, then it holds along every finite run.
\<close>

locale stepping =
  fixes step :: "'e \<Rightarrow> 's \<Rightarrow> 's"
    and inv :: "'s \<Rightarrow> bool"
    and ok :: "'e \<Rightarrow> bool"
  assumes step_inv: "inv s \<Longrightarrow> ok e \<Longrightarrow> inv (step e s)"
begin

lemma run_inv: "inv s \<Longrightarrow> \<forall>e\<in>set es. ok e \<Longrightarrow> inv (fold step es s)"
  by (induction es arbitrary: s) (auto intro: step_inv)

end

end
