(* ===== verification/Byte_Buffer.thy ===== *)
theory Byte_Buffer
  imports Prelude
begin

text \<open>
  The growable buffer of the network layer, \<^verbatim>\<open>net/ByteBuffer.h\<close> and \<^verbatim>\<open>net/ByteBuffer.cpp\<close>,
  with the byte-order helpers of \<^verbatim>\<open>net/Endian.h\<close>.  A pointer into the vector is the index it
  points at (\<^verbatim>\<open>begin()\<close> is 0), \<^verbatim>\<open>size_t\<close> is \<^typ>\<open>nat\<close>: the sizes of a vector in memory stay
  below \<open>2 ^ 63\<close>.  The interface the connection and the session rely on is the locale
  \<open>byte_fifo\<close>, interpreted on the buffer at the end.
\<close>

section \<open>Byte order (net/Endian.h)\<close>

definition hostToNetwork64 :: "int64 \<Rightarrow> int64" where
  "hostToNetwork64 host64 = byte_swap 8 host64"

definition hostToNetwork32 :: "int32 \<Rightarrow> int32" where
  "hostToNetwork32 host32 = byte_swap 4 host32"

definition hostToNetwork16 :: "int16 \<Rightarrow> int16" where
  "hostToNetwork16 host16 = byte_swap 2 host16"

definition networkToHost64 :: "int64 \<Rightarrow> int64" where
  "networkToHost64 net64 = byte_swap 8 net64"

definition networkToHost32 :: "int32 \<Rightarrow> int32" where
  "networkToHost32 net32 = byte_swap 4 net32"

definition networkToHost16 :: "int16 \<Rightarrow> int16" where
  "networkToHost16 net16 = byte_swap 2 net16"

section \<open>State and accessors\<close>

record byte_buffer =
  m_buffer :: bytes
  m_readerIndex :: nat
  m_writerIndex :: nat

definition kCheapPrepend :: nat where
  "kCheapPrepend = 8"

definition kInitialSize :: nat where
  "kInitialSize = 1024"

definition ByteBuffer :: "nat \<Rightarrow> byte_buffer" where
  "ByteBuffer initialSize =
     \<lparr>m_buffer = replicate (kCheapPrepend + initialSize) 0,
      m_readerIndex = kCheapPrepend, m_writerIndex = kCheapPrepend\<rparr>"

definition swap_buffers :: "byte_buffer \<times> byte_buffer \<Rightarrow> byte_buffer \<times> byte_buffer" where
  "swap_buffers p =
     (\<lparr>m_buffer = m_buffer (snd p), m_readerIndex = m_readerIndex (snd p),
       m_writerIndex = m_writerIndex (snd p)\<rparr>,
      \<lparr>m_buffer = m_buffer (fst p), m_readerIndex = m_readerIndex (fst p),
       m_writerIndex = m_writerIndex (fst p)\<rparr>)"

definition readableBytes :: "byte_buffer \<Rightarrow> nat" where
  "readableBytes b = m_writerIndex b - m_readerIndex b"

definition writableBytes :: "byte_buffer \<Rightarrow> nat" where
  "writableBytes b = length (m_buffer b) - m_writerIndex b"

definition prependableBytes :: "byte_buffer \<Rightarrow> nat" where
  "prependableBytes b = m_readerIndex b"

text \<open>The readable bytes, from \<^verbatim>\<open>peek()\<close> to \<^verbatim>\<open>beginWrite()\<close>.\<close>

definition content :: "byte_buffer \<Rightarrow> bytes" where
  "content b = segment (m_readerIndex b) (m_writerIndex b) (m_buffer b)"

section \<open>Searching\<close>

definition kCRLF :: bytes where
  "kCRLF = [13, 10]"

definition findString :: "bytes \<Rightarrow> byte_buffer \<Rightarrow> nat option" where
  "findString targetStr b =
     (let found = m_readerIndex b + search targetStr (content b)
      in if found = m_writerIndex b then None else Some found)"

definition findCRLF :: "byte_buffer \<Rightarrow> nat option" where
  "findCRLF b =
     (let crlf = m_readerIndex b + search kCRLF (content b)
      in if crlf = m_writerIndex b then None else Some crlf)"

definition findCRLF_from :: "nat \<Rightarrow> byte_buffer \<Rightarrow> nat option" where
  "findCRLF_from start b =
     (if m_readerIndex b > start then None
      else if start > m_writerIndex b then None
      else (let crlf = start + search kCRLF (segment start (m_writerIndex b) (m_buffer b))
            in if crlf = m_writerIndex b then None else Some crlf))"

definition findEOL :: "byte_buffer \<Rightarrow> nat option" where
  "findEOL b = map_option ((+) (m_readerIndex b)) (find_byte 10 (content b))"

definition findEOL_from :: "nat \<Rightarrow> byte_buffer \<Rightarrow> nat option" where
  "findEOL_from start b =
     (if m_readerIndex b > start then None
      else if start > m_writerIndex b then None
      else map_option ((+) start) (find_byte 10 (segment start (m_writerIndex b) (m_buffer b))))"

section \<open>Consuming\<close>

definition retrieveAll :: "byte_buffer \<Rightarrow> byte_buffer" where
  "retrieveAll b = b\<lparr>m_readerIndex := kCheapPrepend, m_writerIndex := kCheapPrepend\<rparr>"

definition retrieve :: "nat \<Rightarrow> byte_buffer \<Rightarrow> bool \<times> byte_buffer" where
  "retrieve len b =
     (if len > readableBytes b then (False, b)
      else if len < readableBytes b then (True, b\<lparr>m_readerIndex := m_readerIndex b + len\<rparr>)
      else (True, retrieveAll b))"

definition retrieveUntil :: "nat \<Rightarrow> byte_buffer \<Rightarrow> bool \<times> byte_buffer" where
  "retrieveUntil endp b =
     (if m_readerIndex b > endp then (False, b)
      else if endp > m_writerIndex b then (False, b)
      else (True, snd (retrieve (endp - m_readerIndex b) b)))"

definition retrieveInt64 :: "byte_buffer \<Rightarrow> byte_buffer" where
  "retrieveInt64 b = snd (retrieve 8 b)"

definition retrieveInt32 :: "byte_buffer \<Rightarrow> byte_buffer" where
  "retrieveInt32 b = snd (retrieve 4 b)"

definition retrieveInt16 :: "byte_buffer \<Rightarrow> byte_buffer" where
  "retrieveInt16 b = snd (retrieve 2 b)"

definition retrieveInt8 :: "byte_buffer \<Rightarrow> byte_buffer" where
  "retrieveInt8 b = snd (retrieve 1 b)"

definition retrieveAsString :: "nat \<Rightarrow> byte_buffer \<Rightarrow> bytes \<times> byte_buffer" where
  "retrieveAsString len b =
     (if len > readableBytes b then ([], b)
      else (segment (m_readerIndex b) (m_readerIndex b + len) (m_buffer b), snd (retrieve len b)))"

definition retrieveAllAsString :: "byte_buffer \<Rightarrow> bytes \<times> byte_buffer" where
  "retrieveAllAsString b = retrieveAsString (readableBytes b) b"

text \<open>
  \<^verbatim>\<open>toStringPiece\<close> narrows the length to \<^verbatim>\<open>int\<close>; a negative length becomes a huge
  \<^verbatim>\<open>size_t\<close> and the string constructor throws \<^verbatim>\<open>std::length_error\<close>.
\<close>

datatype buffer_error = Length_error

definition toStringPiece :: "byte_buffer \<Rightarrow> buffer_error + bytes" where
  "toStringPiece b =
     (let n = sint (word_of_nat (readableBytes b) :: int32)
      in if n < 0 then Inl Length_error
         else Inr (segment (m_readerIndex b) (m_readerIndex b + nat n) (m_buffer b)))"

section \<open>Producing\<close>

definition resize_vector :: "nat \<Rightarrow> bytes \<Rightarrow> bytes" where
  "resize_vector n v = take n v @ replicate (n - length v) 0"

definition makeSpace :: "nat \<Rightarrow> byte_buffer \<Rightarrow> byte_buffer" where
  "makeSpace len b =
     (if writableBytes b + prependableBytes b < len + kCheapPrepend
      then b\<lparr>m_buffer := resize_vector (m_writerIndex b + len) (m_buffer b)\<rparr>
      else if kCheapPrepend \<ge> m_readerIndex b then b
      else (let readable = readableBytes b
            in b\<lparr>m_buffer := overwrite kCheapPrepend (content b) (m_buffer b),
                 m_readerIndex := kCheapPrepend,
                 m_writerIndex := kCheapPrepend + readable\<rparr>))"

definition ensureWritableBytes :: "nat \<Rightarrow> byte_buffer \<Rightarrow> byte_buffer" where
  "ensureWritableBytes len b = (if writableBytes b < len then makeSpace len b else b)"

definition hasWritten :: "nat \<Rightarrow> byte_buffer \<Rightarrow> bool \<times> byte_buffer" where
  "hasWritten len b =
     (if len > writableBytes b then (False, b)
      else (True, b\<lparr>m_writerIndex := m_writerIndex b + len\<rparr>))"

definition unwrite :: "nat \<Rightarrow> byte_buffer \<Rightarrow> bool \<times> byte_buffer" where
  "unwrite len b =
     (if len > readableBytes b then (False, b)
      else (True, b\<lparr>m_writerIndex := m_writerIndex b - len\<rparr>))"

definition append_data :: "bytes \<Rightarrow> byte_buffer \<Rightarrow> byte_buffer" where
  "append_data data b =
     (let b1 = ensureWritableBytes (length data) b;
          b2 = b1\<lparr>m_buffer := overwrite (m_writerIndex b1) data (m_buffer b1)\<rparr>
      in snd (hasWritten (length data) b2))"

definition appendInt64 :: "int64 \<Rightarrow> byte_buffer \<Rightarrow> byte_buffer" where
  "appendInt64 x b = append_data (le_bytes 8 (hostToNetwork64 x)) b"

definition appendInt32 :: "int32 \<Rightarrow> byte_buffer \<Rightarrow> byte_buffer" where
  "appendInt32 x b = append_data (le_bytes 4 (hostToNetwork32 x)) b"

definition appendInt16 :: "int16 \<Rightarrow> byte_buffer \<Rightarrow> byte_buffer" where
  "appendInt16 x b = append_data (le_bytes 2 (hostToNetwork16 x)) b"

definition appendInt8 :: "byte \<Rightarrow> byte_buffer \<Rightarrow> byte_buffer" where
  "appendInt8 x b = append_data (le_bytes 1 x) b"

definition peekInt64 :: "byte_buffer \<Rightarrow> int64" where
  "peekInt64 b =
     (if readableBytes b < 8 then - 1
      else networkToHost64 (of_le_bytes (segment (m_readerIndex b) (m_readerIndex b + 8) (m_buffer b))))"

definition peekInt32 :: "byte_buffer \<Rightarrow> int32" where
  "peekInt32 b =
     (if readableBytes b < 4 then - 1
      else networkToHost32 (of_le_bytes (segment (m_readerIndex b) (m_readerIndex b + 4) (m_buffer b))))"

definition peekInt16 :: "byte_buffer \<Rightarrow> int16" where
  "peekInt16 b =
     (if readableBytes b < 2 then - 1
      else networkToHost16 (of_le_bytes (segment (m_readerIndex b) (m_readerIndex b + 2) (m_buffer b))))"

definition peekInt8 :: "byte_buffer \<Rightarrow> byte" where
  "peekInt8 b = (if readableBytes b < 1 then - 1 else m_buffer b ! m_readerIndex b)"

definition readInt64 :: "byte_buffer \<Rightarrow> int64 \<times> byte_buffer" where
  "readInt64 b = (peekInt64 b, retrieveInt64 b)"

definition readInt32 :: "byte_buffer \<Rightarrow> int32 \<times> byte_buffer" where
  "readInt32 b = (peekInt32 b, retrieveInt32 b)"

definition readInt16 :: "byte_buffer \<Rightarrow> int16 \<times> byte_buffer" where
  "readInt16 b = (peekInt16 b, retrieveInt16 b)"

definition readInt8 :: "byte_buffer \<Rightarrow> byte \<times> byte_buffer" where
  "readInt8 b = (peekInt8 b, retrieveInt8 b)"

definition prepend :: "bytes \<Rightarrow> byte_buffer \<Rightarrow> bool \<times> byte_buffer" where
  "prepend data b =
     (if length data > prependableBytes b then (False, b)
      else (True, b\<lparr>m_readerIndex := m_readerIndex b - length data,
                    m_buffer := overwrite (m_readerIndex b - length data) data (m_buffer b)\<rparr>))"

definition prependInt64 :: "int64 \<Rightarrow> byte_buffer \<Rightarrow> byte_buffer" where
  "prependInt64 x b = snd (prepend (le_bytes 8 (hostToNetwork64 x)) b)"

definition prependInt32 :: "int32 \<Rightarrow> byte_buffer \<Rightarrow> byte_buffer" where
  "prependInt32 x b = snd (prepend (le_bytes 4 (hostToNetwork32 x)) b)"

definition prependInt16 :: "int16 \<Rightarrow> byte_buffer \<Rightarrow> byte_buffer" where
  "prependInt16 x b = snd (prepend (le_bytes 2 (hostToNetwork16 x)) b)"

definition prependInt8 :: "byte \<Rightarrow> byte_buffer \<Rightarrow> byte_buffer" where
  "prependInt8 x b = snd (prepend (le_bytes 1 x) b)"

definition shrink :: "nat \<Rightarrow> byte_buffer \<Rightarrow> buffer_error + byte_buffer" where
  "shrink reserve b =
     (let other = ensureWritableBytes (readableBytes b + reserve) (ByteBuffer kInitialSize)
      in case toStringPiece b of
           Inl e \<Rightarrow> Inl e
         | Inr s \<Rightarrow> Inr (fst (swap_buffers (b, append_data s other))))"

section \<open>Reading from the socket (net/ByteBuffer.cpp)\<close>

text \<open>
  The result of \<^verbatim>\<open>readv\<close>/\<^verbatim>\<open>read\<close> on a descriptor: the bytes the kernel delivered (none at end
  of stream) or a failure that left \<^verbatim>\<open>errno\<close> set.  \<^verbatim>\<open>readFd\<close> hands the kernel the writable part of
  the buffer and, when that is smaller than 64 KiB, a stack buffer of 64 KiB behind it.
\<close>

datatype io_result = IO_data bytes | IO_error

definition extrabuf_size :: nat where
  "extrabuf_size = 65536"

definition readv_capacity :: "byte_buffer \<Rightarrow> nat" where
  "readv_capacity b =
     (let writable = writableBytes b
      in if writable < extrabuf_size then writable + extrabuf_size else writable)"

definition readFd :: "io_result \<Rightarrow> int \<Rightarrow> byte_buffer \<Rightarrow> int \<times> int option \<times> byte_buffer" where
  "readFd r errno b =
     (let writable = writableBytes b in
      case r of
        IO_error \<Rightarrow> (- 1, Some errno, b)
      | IO_data data \<Rightarrow>
          (let n = length data;
               b1 = b\<lparr>m_buffer := overwrite (m_writerIndex b) (take writable data) (m_buffer b)\<rparr>
           in if n = 0 then (0, Some errno, b)
              else if n \<le> writable then (int n, None, b1\<lparr>m_writerIndex := m_writerIndex b1 + n\<rparr>)
              else (int n, None,
                    append_data (drop writable data) (b1\<lparr>m_writerIndex := length (m_buffer b1)\<rparr>))))"


section \<open>The representation invariant\<close>

text \<open>The picture in the class comment: \<open>0 <= readerIndex <= writerIndex <= size\<close>.\<close>

definition buf_inv :: "byte_buffer \<Rightarrow> bool" where
  "buf_inv b \<longleftrightarrow> m_readerIndex b \<le> m_writerIndex b \<and> m_writerIndex b \<le> length (m_buffer b) \<and>
     kCheapPrepend \<le> length (m_buffer b)"

lemmas buf_defs = readableBytes_def writableBytes_def prependableBytes_def content_def
  kCheapPrepend_def kInitialSize_def

lemma buf_inv_ByteBuffer [simp, intro]: "buf_inv (ByteBuffer n)"
  by (simp add: buf_inv_def ByteBuffer_def kCheapPrepend_def)

lemma content_ByteBuffer [simp]: "content (ByteBuffer n) = []"
  by (simp add: ByteBuffer_def buf_defs)

lemma length_content: "buf_inv b \<Longrightarrow> length (content b) = readableBytes b"
  by (simp add: buf_inv_def buf_defs)

lemma readable_segment:
  "buf_inv b \<Longrightarrow> n \<le> readableBytes b \<Longrightarrow>
     segment (m_readerIndex b) (m_readerIndex b + n) (m_buffer b) = take n (content b)"
  by (simp add: content_def buf_inv_def readableBytes_def take_segment)

lemma fst_swap_buffers [simp]: "fst (swap_buffers (a, b)) = b"
  and snd_swap_buffers [simp]: "snd (swap_buffers (a, b)) = a"
  by (simp_all add: swap_buffers_def)

subsection \<open>Consuming operations\<close>

lemma buf_inv_retrieveAll: "buf_inv b \<Longrightarrow> buf_inv (retrieveAll b)"
  by (simp add: buf_inv_def retrieveAll_def)

lemma content_retrieveAll [simp]: "content (retrieveAll b) = []"
  by (simp add: retrieveAll_def buf_defs)

lemma buf_inv_retrieve: "buf_inv b \<Longrightarrow> buf_inv (snd (retrieve n b))"
  by (auto simp: retrieve_def buf_inv_retrieveAll) (auto simp: buf_inv_def readableBytes_def)

lemma retrieve_content:
  assumes "buf_inv b"
  shows "fst (retrieve n b) \<longleftrightarrow> n \<le> length (content b)"
    and "content (snd (retrieve n b)) = (if n \<le> length (content b) then drop n (content b) else content b)"
  using assms by (auto simp: retrieve_def length_content) (simp add: content_def readableBytes_def drop_segment)

lemma retrieve_fails: "buf_inv b \<Longrightarrow> length (content b) < n \<Longrightarrow> retrieve n b = (False, b)"
  by (simp add: retrieve_def length_content)

lemma retrieveUntil_content:
  assumes "buf_inv b" and "m_readerIndex b \<le> e" and "e \<le> m_writerIndex b"
  shows "fst (retrieveUntil e b) \<and>
    content (snd (retrieveUntil e b)) = drop (e - m_readerIndex b) (content b)"
  using assms diff_le_mono [OF assms(3), of "m_readerIndex b"]
  by (simp add: retrieveUntil_def retrieve_content length_content readableBytes_def)

lemma buf_inv_retrieveUntil: "buf_inv b \<Longrightarrow> buf_inv (snd (retrieveUntil e b))"
  by (simp add: retrieveUntil_def buf_inv_retrieve)

lemma retrieveAsString_content:
  "buf_inv b \<Longrightarrow> n \<le> length (content b) \<Longrightarrow>
     fst (retrieveAsString n b) = take n (content b) \<and>
     content (snd (retrieveAsString n b)) = drop n (content b)"
  by (simp add: retrieveAsString_def retrieve_content length_content readable_segment)

subsection \<open>Producing operations\<close>

lemma ensureWritable_post:
  assumes "buf_inv b"
  shows "buf_inv (ensureWritableBytes n b)"
    and "content (ensureWritableBytes n b) = content b"
    and "n \<le> writableBytes (ensureWritableBytes n b)"
proof -
  let ?r = "m_readerIndex b" and ?w = "m_writerIndex b" and ?v = "m_buffer b"
  have inv: "?r \<le> ?w" "?w \<le> length ?v" "8 \<le> length ?v"
    using assms by (auto simp: buf_inv_def kCheapPrepend_def)
  consider "n \<le> writableBytes b"
    | (grow) "writableBytes b < n" "writableBytes b + ?r < n + 8"
    | (move) "writableBytes b < n" "n + 8 \<le> writableBytes b + ?r" "8 < ?r"
    by (force simp: writableBytes_def)
  then have "buf_inv (ensureWritableBytes n b) \<and> content (ensureWritableBytes n b) = content b \<and>
    n \<le> writableBytes (ensureWritableBytes n b)"
  proof cases
    case 1
    then show ?thesis using assms by (simp add: ensureWritableBytes_def)
  next
    case grow
    then have "length ?v < ?w + n" using inv by (simp add: writableBytes_def)
    with grow inv show ?thesis
      by (simp add: ensureWritableBytes_def makeSpace_def resize_vector_def buf_inv_def buf_defs overwrite_simps)
  next
    case move
    then have fit: "8 + length (content b) + n \<le> length ?v"
      using inv length_content [OF assms] by (simp add: buf_defs)
    have "segment 8 (8 + length (content b)) (overwrite 8 (content b) ?v) = content b"
      using inv by (simp add: segment_overwrite_same)
    with move fit inv length_content [OF assms] show ?thesis
      by (simp add: ensureWritableBytes_def makeSpace_def buf_inv_def Let_def
          writableBytes_def prependableBytes_def kCheapPrepend_def content_def [of "b\<lparr>m_buffer := _, m_readerIndex := _, m_writerIndex := _\<rparr>"])
  qed
  then show "buf_inv (ensureWritableBytes n b)" "content (ensureWritableBytes n b) = content b"
    "n \<le> writableBytes (ensureWritableBytes n b)" by blast+
qed

text \<open>Writing a block at \<^verbatim>\<open>beginWrite()\<close> and advancing the writer index over it.\<close>

lemma write_block:
  assumes "buf_inv b" and "length d \<le> writableBytes b"
  defines "b' \<equiv> b\<lparr>m_buffer := overwrite (m_writerIndex b) d (m_buffer b),
                  m_writerIndex := m_writerIndex b + length d\<rparr>"
  shows "buf_inv b'" and "content b' = content b @ d"
proof -
  have inv: "m_readerIndex b \<le> m_writerIndex b" "m_writerIndex b + length d \<le> length (m_buffer b)"
    "m_writerIndex b \<le> length (m_buffer b)" "kCheapPrepend \<le> length (m_buffer b)"
    using assms(1,2) by (auto simp: buf_inv_def writableBytes_def)
  then show "buf_inv b'" by (simp add: b'_def buf_inv_def)
  have "content b' = segment (m_readerIndex b) (m_writerIndex b + length d) (overwrite (m_writerIndex b) d (m_buffer b))"
    by (simp add: b'_def content_def)
  also have "\<dots> = segment (m_readerIndex b) (m_writerIndex b) (overwrite (m_writerIndex b) d (m_buffer b)) @
      segment (m_writerIndex b) (m_writerIndex b + length d) (overwrite (m_writerIndex b) d (m_buffer b))"
    using inv by (intro segment_split) auto
  also have "\<dots> = content b @ d"
    using inv by (simp add: overwrite_simps content_def)
  finally show "content b' = content b @ d" .
qed

lemma append_post:
  assumes "buf_inv b"
  shows "buf_inv (append_data d b)" and "content (append_data d b) = content b @ d"
proof -
  let ?e = "ensureWritableBytes (length d) b"
  have fit: "length d \<le> writableBytes ?e" and e: "buf_inv ?e" and c: "content ?e = content b"
    using ensureWritable_post [OF assms] by auto
  have room: "m_writerIndex ?e + length d \<le> length (m_buffer ?e)"
    using fit e by (auto simp: buf_inv_def writableBytes_def)
  then have "append_data d b = ?e\<lparr>m_buffer := overwrite (m_writerIndex ?e) d (m_buffer ?e),
      m_writerIndex := m_writerIndex ?e + length d\<rparr>"
    by (simp add: append_data_def hasWritten_def Let_def writableBytes_def)
  then show "buf_inv (append_data d b)" and "content (append_data d b) = content b @ d"
    using write_block [OF e fit] c by simp_all
qed

lemma hasWritten_inv: "buf_inv b \<Longrightarrow> buf_inv (snd (hasWritten n b))"
  by (auto simp: hasWritten_def buf_inv_def writableBytes_def)

lemma unwrite_post:
  assumes "buf_inv b"
  shows "buf_inv (snd (unwrite n b))"
    and "n \<le> length (content b) \<Longrightarrow> content (snd (unwrite n b)) = take (length (content b) - n) (content b)"
proof -
  have inv: "m_readerIndex b \<le> m_writerIndex b" using assms by (simp add: buf_inv_def)
  show "buf_inv (snd (unwrite n b))"
    using assms by (auto simp: unwrite_def buf_inv_def readableBytes_def)
  assume "n \<le> length (content b)"
  then have n: "n \<le> readableBytes b" using assms by (simp add: length_content)
  then have "m_readerIndex b + (readableBytes b - n) = m_writerIndex b - n"
    using inv by (simp add: readableBytes_def)
  then show "content (snd (unwrite n b)) = take (length (content b) - n) (content b)"
    using n inv take_segment [of "m_readerIndex b" "m_writerIndex b" "readableBytes b - n" "m_buffer b"]
    by (simp add: unwrite_def length_content [OF assms]) (simp add: content_def readableBytes_def)
qed

lemma prepend_post:
  assumes "buf_inv b"
  shows "buf_inv (snd (prepend d b))"
    and "length d \<le> prependableBytes b \<Longrightarrow> fst (prepend d b) \<and> content (snd (prepend d b)) = d @ content b"
proof -
  let ?r = "m_readerIndex b" and ?w = "m_writerIndex b" and ?v = "m_buffer b"
  have inv: "?r \<le> ?w" "?w \<le> length ?v" "kCheapPrepend \<le> length ?v"
    using assms by (auto simp: buf_inv_def)
  then show "buf_inv (snd (prepend d b))"
    by (auto simp: prepend_def buf_inv_def prependableBytes_def)
  assume fit: "length d \<le> prependableBytes b"
  have tail: "segment ?r ?w (overwrite (?r - length d) d ?v) = segment ?r ?w ?v"
    using inv fit by (simp add: segment_def overwrite_def prependableBytes_def)
  have front: "segment (?r - length d) ?r (overwrite (?r - length d) d ?v) = d"
    using inv fit segment_overwrite_same [of "?r - length d" ?v d] by (simp add: prependableBytes_def)
  have "segment (?r - length d) ?w (overwrite (?r - length d) d ?v) =
      segment (?r - length d) (?r - length d + length d) (overwrite (?r - length d) d ?v) @
      segment (?r - length d + length d) ?w (overwrite (?r - length d) d ?v)"
    using inv fit by (intro segment_split) (auto simp: prependableBytes_def)
  also have "\<dots> = d @ content b"
    using inv fit tail front by (simp add: content_def prependableBytes_def)
  finally show "fst (prepend d b) \<and> content (snd (prepend d b)) = d @ content b"
    using fit by (simp add: prepend_def content_def [of "b\<lparr>m_readerIndex := _, m_buffer := _\<rparr>"])
qed

lemma toStringPiece_content:
  assumes "buf_inv b" and "readableBytes b < 2 ^ 31"
  shows "toStringPiece b = Inr (content b)"
proof -
  have "sint (word_of_nat (readableBytes b) :: int32) = int (readableBytes b)"
    using assms(2) by (simp add: signed_of_nat signed_take_bit_int_eq_self_iff)
  then show ?thesis
    using assms(1) by (simp add: toStringPiece_def readable_segment length_content [symmetric])
qed

lemma shrink_post:
  assumes "buf_inv b" and "readableBytes b < 2 ^ 31"
  obtains b' where "shrink n b = Inr b'" and "buf_inv b'" and "content b' = content b"
  using assms ensureWritable_post [OF buf_inv_ByteBuffer] append_post
  by (simp add: shrink_def toStringPiece_content)

lemma shrink_inv:
  assumes "buf_inv b" and "shrink n b = Inr b'"
  shows "buf_inv b'"
  using assms ensureWritable_post(1) [OF buf_inv_ByteBuffer] append_post(1)
  by (auto simp: shrink_def split: sum.splits)

lemma readFd_post:
  assumes "buf_inv b"
  shows "buf_inv (snd (snd (readFd r e b)))"
    and "content (snd (snd (readFd (IO_data d) e b))) = content b @ d"
    and "fst (readFd (IO_data d) e b) = int (length d)"
    and "content (snd (snd (readFd IO_error e b))) = content b"
proof -
  have b1: "buf_inv (b\<lparr>m_buffer := overwrite (m_writerIndex b) (take (writableBytes b) d) (m_buffer b),
        m_writerIndex := m_writerIndex b + min (length d) (writableBytes b)\<rparr>)"
    "content (b\<lparr>m_buffer := overwrite (m_writerIndex b) (take (writableBytes b) d) (m_buffer b),
        m_writerIndex := m_writerIndex b + min (length d) (writableBytes b)\<rparr>) =
      content b @ take (writableBytes b) d" for d
    using write_block [OF assms, of "take (writableBytes b) d"] by simp_all
  have full: "m_writerIndex b + min (length d) (writableBytes b) = length (m_buffer b)"
    if "writableBytes b < length d" for d :: bytes
    using assms that by (simp add: buf_inv_def writableBytes_def)
  show "buf_inv (snd (snd (readFd r e b)))"
  proof (cases r)
    case (IO_data d)
    with b1 [of d] append_post(1) [OF b1(1) [of d]] assms full [of d] show ?thesis
      by (auto simp: readFd_def Let_def buf_inv_def writableBytes_def)
  qed (simp add: readFd_def assms)
  show "content (snd (snd (readFd (IO_data d) e b))) = content b @ d"
  proof (cases "d = [] \<or> writableBytes b < length d")
    case False
    with b1(2) [of d] show ?thesis by (simp add: readFd_def Let_def)
  next
    case True
    with append_post(2) [OF b1(1) [of d]] b1(2) [of d] full [of d] assms show ?thesis
      by (auto simp: readFd_def Let_def buf_inv_def writableBytes_def)
  qed
  show "fst (readFd (IO_data d) e b) = int (length d)"
    by (simp add: readFd_def Let_def)
  show "content (snd (snd (readFd IO_error e b))) = content b"
    by (simp add: readFd_def Let_def)
qed


section \<open>The interface: a byte queue\<close>

text \<open>
  What the connection (output side) and the session (input side) rely on: bytes put at the
  back come out at the front, in order, and a request for more bytes than there are changes
  nothing.
\<close>

locale byte_fifo =
  fixes contents :: "'b \<Rightarrow> 'x list"
    and valid :: "'b \<Rightarrow> bool"
    and put :: "'x list \<Rightarrow> 'b \<Rightarrow> 'b"
    and skip :: "nat \<Rightarrow> 'b \<Rightarrow> bool \<times> 'b"
    and pop :: "nat \<Rightarrow> 'b \<Rightarrow> 'x list \<times> 'b"
    and avail :: "'b \<Rightarrow> nat"
  assumes put_contents: "valid b \<Longrightarrow> contents (put d b) = contents b @ d"
    and put_valid: "valid b \<Longrightarrow> valid (put d b)"
    and skip_ok: "valid b \<Longrightarrow> n \<le> length (contents b) \<Longrightarrow>
      fst (skip n b) \<and> contents (snd (skip n b)) = drop n (contents b)"
    and skip_short: "valid b \<Longrightarrow> length (contents b) < n \<Longrightarrow> skip n b = (False, b)"
    and skip_valid: "valid b \<Longrightarrow> valid (snd (skip n b))"
    and pop_ok: "valid b \<Longrightarrow> n \<le> length (contents b) \<Longrightarrow>
      fst (pop n b) = take n (contents b) \<and> contents (snd (pop n b)) = drop n (contents b)"
    and pop_short: "valid b \<Longrightarrow> length (contents b) < n \<Longrightarrow> pop n b = ([], b)"
    and pop_valid: "valid b \<Longrightarrow> valid (snd (pop n b))"
    and avail_eq: "valid b \<Longrightarrow> avail b = length (contents b)"
begin

lemma puts: "valid b \<Longrightarrow> valid (fold put ds b) \<and> contents (fold put ds b) = contents b @ concat ds"
  by (induction ds arbitrary: b) (simp_all add: put_contents put_valid)

lemma skip_add:
  assumes "valid b" and "m + n \<le> length (contents b)"
  shows "contents (snd (skip n (snd (skip m b)))) = contents (snd (skip (m + n) b))"
  using assms by (simp add: skip_ok skip_valid add.commute)

lemma skip_put:
  assumes "valid b"
  shows "contents (snd (skip (length (contents b)) (put d b))) = d"
  using assms by (simp add: skip_ok put_valid put_contents)

lemma pop_put: "valid b \<Longrightarrow> fst (pop n (put d b)) @ contents (snd (pop n (put d b))) = contents b @ d"
  using pop_ok [OF put_valid, of b n d] pop_short [OF put_valid, of b d n] put_contents [of b d]
  by (cases "n \<le> length (contents (put d b))") (auto simp del: take_append drop_append)

end

text \<open>A session of writes and reads on a buffer, and the bytes the reads returned.\<close>

datatype buf_io = Put bytes | Pop nat

fun buf_io_run :: "buf_io list \<Rightarrow> byte_buffer \<Rightarrow> bytes \<times> byte_buffer" where
  "buf_io_run [] b = ([], b)"
| "buf_io_run (Put d # ios) b = buf_io_run ios (append_data d b)"
| "buf_io_run (Pop n # ios) b =
     (let (s, b1) = retrieveAsString n b; (s', b2) = buf_io_run ios b1 in (s @ s', b2))"

fun puts_of :: "buf_io list \<Rightarrow> bytes" where
  "puts_of [] = []"
| "puts_of (Put d # ios) = d @ puts_of ios"
| "puts_of (Pop n # ios) = puts_of ios"

interpretation bb: byte_fifo content buf_inv append_data retrieve retrieveAsString readableBytes
proof unfold_locales
  fix b n
  assume "buf_inv b"
  then show "buf_inv (snd (retrieveAsString n b))"
    by (simp add: retrieveAsString_def buf_inv_retrieve)
qed (simp_all add: append_post retrieve_content retrieve_fails buf_inv_retrieve
      retrieveAsString_content length_content, simp add: retrieveAsString_def length_content)

lemma buf_io_run_stream:
  "buf_inv b \<Longrightarrow> buf_inv (snd (buf_io_run ios b)) \<and>
     fst (buf_io_run ios b) @ content (snd (buf_io_run ios b)) = content b @ puts_of ios"
proof (induction ios b rule: buf_io_run.induct)
  case (3 n ios b)
  let ?p = "retrieveAsString n b"
  have split: "fst ?p @ content (snd ?p) = content b"
    using bb.pop_ok [OF "3.prems", of n] bb.pop_short [OF "3.prems", of n]
    by (cases "n \<le> length (content b)") simp_all
  have "fst ?p @ (fst (buf_io_run ios (snd ?p)) @ content (snd (buf_io_run ios (snd ?p)))) =
      (fst ?p @ content (snd ?p)) @ puts_of ios"
    using "3.IH" [of ?p "fst ?p" "snd ?p"] bb.pop_valid [OF "3.prems", of n] by simp
  then show ?case
    using "3.IH" [of ?p "fst ?p" "snd ?p"] bb.pop_valid [OF "3.prems", of n] split
    by (simp add: split_beta)
qed (simp_all add: bb.put_contents bb.put_valid)

section \<open>All public operations as steps\<close>

datatype buf_op = Append bytes | Retrieve nat | RetrieveUntil nat | RetrieveAll | Ensure nat
  | HasWritten nat | Unwrite nat | Prepend bytes | Shrink nat | ReadFd io_result int

fun buf_step :: "buf_op \<Rightarrow> byte_buffer \<Rightarrow> byte_buffer" where
  "buf_step (Append d) b = append_data d b"
| "buf_step (Retrieve n) b = snd (retrieve n b)"
| "buf_step (RetrieveUntil e) b = snd (retrieveUntil e b)"
| "buf_step RetrieveAll b = retrieveAll b"
| "buf_step (Ensure n) b = ensureWritableBytes n b"
| "buf_step (HasWritten n) b = snd (hasWritten n b)"
| "buf_step (Unwrite n) b = snd (unwrite n b)"
| "buf_step (Prepend d) b = snd (prepend d b)"
| "buf_step (Shrink n) b = (case shrink n b of Inl _ \<Rightarrow> b | Inr b' \<Rightarrow> b')"
| "buf_step (ReadFd r e) b = snd (snd (readFd r e b))"

lemma buf_step_inv: "buf_inv b \<Longrightarrow> buf_inv (buf_step op b)"
  by (cases op) (auto simp: append_post buf_inv_retrieve buf_inv_retrieveUntil buf_inv_retrieveAll
      ensureWritable_post hasWritten_inv unwrite_post prepend_post readFd_post
      split: sum.splits intro: shrink_inv)

interpretation bb_steps: stepping buf_step buf_inv "\<lambda>_. True"
  by unfold_locales (simp add: buf_step_inv)

lemma read_network_order:
  assumes "buf_inv b" and "length d = 4" and "content b = d @ r"
  shows "peekInt32 b = of_le_bytes (rev d)"
  using assms length_content [OF assms(1)]
  by (simp add: peekInt32_def readable_segment networkToHost32_def byte_swap_of_le_bytes)

section \<open>Properties\<close>

text \<open>
  Whatever sequence of public operations is applied to a freshly constructed buffer
  (appends, retrieves, prepends, unwrites, shrinks, socket reads with any result), the
  indices stay ordered as the class comment pictures them:
  reader index, writer index and vector size, with the prepend area inside the vector.
\<close>

theorem buffer_indices_ordered:
  "m_readerIndex (fold buf_step ops (ByteBuffer n)) \<le> m_writerIndex (fold buf_step ops (ByteBuffer n)) \<and>
   m_writerIndex (fold buf_step ops (ByteBuffer n)) \<le> length (m_buffer (fold buf_step ops (ByteBuffer n))) \<and>
   kCheapPrepend \<le> length (m_buffer (fold buf_step ops (ByteBuffer n)))"
  using bb_steps.run_inv [OF buf_inv_ByteBuffer, of ops n] by (simp add: buf_inv_def)

text \<open>
  C38: The buffer is a byte queue: for every sequence of appends and string retrievals on a
  new buffer, the bytes retrieved so far followed by the bytes still readable are exactly the
  bytes appended, in order. Nothing is lost, duplicated or reordered by growing the vector
  or by moving data to its front.
\<close>

theorem buffer_is_fifo:
  "fst (buf_io_run ios (ByteBuffer n)) @ content (snd (buf_io_run ios (ByteBuffer n))) = puts_of ios"
  using buf_io_run_stream [of "ByteBuffer n" ios] by simp

text \<open>
  A socket read of any length, whether it fits in the writable part or spills into the
  64 KiB stack buffer, appends exactly the bytes the kernel delivered and reports their number.
\<close>

theorem readFd_appends:
  assumes "buf_inv b"
  shows "fst (readFd (IO_data d) e b) = int (length d) \<and>
    content (snd (snd (readFd (IO_data d) e b))) = content b @ d \<and>
    buf_inv (snd (snd (readFd (IO_data d) e b)))"
  using readFd_post [OF assms] by blast

theorem readFd_appends_witness:
  "content (snd (snd (readFd (IO_data [1, 2, 3]) 0 (ByteBuffer 2)))) = [1, 2, 3]"
  using readFd_appends [OF buf_inv_ByteBuffer, of "[1, 2, 3]" 0 2] by simp

text \<open>
  After \<^verbatim>\<open>ensureWritableBytes(len)\<close> there is room for \<open>len\<close> bytes (so the block copy of
  \<^verbatim>\<open>append\<close> stays inside the vector) and the readable bytes are unchanged, on the growing
  path and on the compacting path alike.
\<close>

theorem ensureWritable_makes_room:
  assumes "buf_inv b"
  shows "n \<le> writableBytes (ensureWritableBytes n b) \<and>
    content (ensureWritableBytes n b) = content b"
  using ensureWritable_post [OF assms] by blast

theorem ensureWritable_makes_room_witness:
  "5 \<le> writableBytes (ensureWritableBytes 5 (ByteBuffer 2))"
  using ensureWritable_makes_room [OF buf_inv_ByteBuffer, of 5 2] by simp

text \<open>
  Integers round-trip in network byte order: a 32-bit value appended to an empty buffer
  lies there most significant byte first, \<^verbatim>\<open>readInt32\<close> returns it and leaves the buffer
  empty; and a value prepended in front of any content is what \<^verbatim>\<open>peekInt32\<close> sees.
\<close>

theorem int32_roundtrip:
  assumes "buf_inv b" and "content b = []" and "buf_inv b'" and "4 \<le> prependableBytes b'"
  shows "content (appendInt32 x b) = rev (le_bytes 4 x) \<and>
    fst (readInt32 (appendInt32 x b)) = x \<and>
    content (snd (readInt32 (appendInt32 x b))) = [] \<and>
    peekInt32 (prependInt32 x b') = x"
proof (intro conjI)
  let ?d = "le_bytes 4 (hostToNetwork32 x)"
  have d: "?d = rev (le_bytes 4 x)"
    by (simp add: hostToNetwork32_def le_bytes_byte_swap)
  have x: "of_le_bytes (rev ?d) = x"
    by (simp add: d of_le_bytes_le_bytes)
  show c: "content (appendInt32 x b) = rev (le_bytes 4 x)"
    using assms(1,2) by (simp add: appendInt32_def bb.put_contents d)
  have inv: "buf_inv (appendInt32 x b)"
    using assms(1) by (simp add: appendInt32_def bb.put_valid)
  show "fst (readInt32 (appendInt32 x b)) = x"
    using read_network_order [OF inv, of ?d "[]"] c d x by (simp add: readInt32_def)
  show "content (snd (readInt32 (appendInt32 x b))) = []"
    using inv c by (simp add: readInt32_def retrieveInt32_def bb.skip_ok)
  show "peekInt32 (prependInt32 x b') = x"
    using read_network_order [OF prepend_post(1) [OF assms(3)], of ?d ?d "content b'"]
      prepend_post(2) [OF assms(3), of ?d] assms(4) x
    by (simp add: prependInt32_def)
qed

theorem int32_roundtrip_witness:
  "fst (readInt32 (appendInt32 258 (ByteBuffer 2))) = 258 \<and>
   peekInt32 (prependInt32 258 (ByteBuffer 2)) = 258"
  using int32_roundtrip [OF buf_inv_ByteBuffer content_ByteBuffer buf_inv_ByteBuffer, of 2 258 2]
  by (simp add: ByteBuffer_def prependableBytes_def kCheapPrepend_def)

end
