(* ===== verification/Protocol_Stream.thy ===== *)
theory Protocol_Stream
  imports Prelude
begin

text \<open>
  The binary protocol of \<^verbatim>\<open>net/ProtocolStream.h\<close> and \<^verbatim>\<open>net/ProtocolStream.cpp\<close>: the Internet
  checksum, the 7-bit variable-length integers, \<^verbatim>\<open>BinaryStreamReader\<close> and
  \<^verbatim>\<open>BinaryStreamWriter\<close>.  A reader works on the bytes of a \<^verbatim>\<open>std::string\<close> passed by \<^verbatim>\<open>c_str()\<close>:
  one NUL byte lies behind the last byte, and reading beyond that is undefined behaviour,
  which the model makes an error value.  Uninitialised stack bytes are the parameter
  \<open>junk\<close>.  The codec interface is the locale \<open>stream_field\<close>.
\<close>

section \<open>Constants and errors\<close>

definition BINARY_PACKLEN_LEN_2 :: nat where
  "BINARY_PACKLEN_LEN_2 = 4"

definition CHECKSUM_LEN :: nat where
  "CHECKSUM_LEN = 2"

datatype stream_error = Out_of_bounds_read | Buffer_overflow | Assertion_failed

section \<open>Checksum\<close>

text \<open>The 16-bit little-endian words of the buffer are summed in a 32-bit accumulator.\<close>

fun checksum_sum :: "32 word \<Rightarrow> bytes \<Rightarrow> 32 word" where
  "checksum_sum cksum (a # b # rest) = checksum_sum (cksum + ucast (of_le_bytes [a, b] :: 16 word)) rest"
| "checksum_sum cksum [a] = cksum + ucast a"
| "checksum_sum cksum [] = cksum"

lemma unat_drop_bit_16: "unat (drop_bit 16 (c :: 32 word)) = unat c div 65536"
  by (simp add: unat_drop_bit)

lemma unat_and_mask_16: "unat (c AND 0xffff :: 32 word) = unat c mod 65536"
proof -
  have "c AND 0xffff = take_bit 16 c"
    by (simp add: take_bit_eq_mask mask_numeral)
  then show ?thesis by (simp add: unat_take_bit)
qed

lemma unat_fold_step:
  "unat (drop_bit 16 c + (c AND 0xffff) :: 32 word) = unat c div 65536 + unat c mod 65536"
proof -
  have "unat c < 4294967296" using unat_bound [of c] by simp
  then have "unat c div 65536 < 65536" and "unat c mod 65536 < 65536" by auto
  then show ?thesis
    by (simp add: unat_word_ariths unat_drop_bit_16 unat_and_mask_16)
qed

lemma drop_bit_16_nonzero: "drop_bit 16 (c :: 32 word) \<noteq> 0 \<longleftrightarrow> 65536 \<le> unat c"
  unfolding unat_eq_zero [symmetric] unat_drop_bit_16 by auto

function checksum_fold :: "32 word \<Rightarrow> 32 word" where
  "checksum_fold cksum =
     (if drop_bit 16 cksum \<noteq> 0 then checksum_fold (drop_bit 16 cksum + (cksum AND 0xffff)) else cksum)"
  by pat_completeness auto
termination
proof (relation "measure unat")
  fix c :: "32 word"
  assume "drop_bit 16 c \<noteq> 0"
  then have "65536 \<le> unat c" by (simp add: drop_bit_16_nonzero)
  then have "unat c div 65536 + unat c mod 65536 < unat c"
    using div_mult_mod_eq [of "unat c" 65536] div_le_mono [of 65536 "unat c" 65536] by linarith
  then show "(drop_bit 16 c + (c AND 0xffff), c) \<in> measure unat"
    by (simp only: in_measure unat_fold_step)
qed simp

declare checksum_fold.simps [simp del]

definition checksum :: "bytes \<Rightarrow> 16 word" where
  "checksum buffer = ucast (NOT (checksum_fold (checksum_sum 0 buffer)))"

section \<open>Variable-length integers\<close>

lemma unat_drop_bit_7_less:
  "drop_bit 7 (v :: 'a::len word) \<noteq> 0 \<Longrightarrow> unat (drop_bit 7 v) < unat v"
proof -
  assume "drop_bit 7 v \<noteq> 0"
  then have "unat v div 128 \<noteq> 0"
    unfolding unat_eq_zero [symmetric] by (simp add: unat_drop_bit)
  then show ?thesis by (simp add: unat_drop_bit)
qed

text \<open>
  The two overloads (\<^verbatim>\<open>uint32_t\<close>, \<^verbatim>\<open>uint64_t\<close>) have the same body: the word length is the type
  argument.
\<close>

function write7BitEncoded :: "'a::len word \<Rightarrow> bytes \<Rightarrow> bytes" where
  "write7BitEncoded value buf =
     (let c = ucast (value AND 0x7F) :: byte;
          value' = drop_bit 7 value;
          c' = (if value' \<noteq> 0 then c OR 0x80 else c)
      in if value' \<noteq> 0 then write7BitEncoded value' (buf @ [c']) else buf @ [c'])"
  by pat_completeness auto
termination
  by (relation "measure (\<lambda>(value, buf). unat value)") (auto intro: unat_drop_bit_7_less)

declare write7BitEncoded.simps [simp del]

text \<open>
  The decoder follows the continuation bits and never looks at its length argument: running
  off the array, or shifting by the width of the type or more, is undefined (\<open>None\<close>).
\<close>

fun read7BitLoop :: "bytes \<Rightarrow> nat \<Rightarrow> 'a::len word \<Rightarrow> 'a word option" where
  "read7BitLoop [] bitCount value = None"
| "read7BitLoop (c # cs) bitCount value =
     (if LENGTH('a) \<le> bitCount then None
      else (let value' = value + push_bit bitCount (ucast (c AND 0x7F))
            in if c AND 0x80 \<noteq> 0 then read7BitLoop cs (bitCount + 7) value' else Some value'))"

definition read7BitEncoded :: "bytes \<Rightarrow> nat \<Rightarrow> 'a::len word option" where
  "read7BitEncoded buf len = read7BitLoop buf 0 0"

section \<open>BinaryStreamReader\<close>

record stream_reader =
  rd_data :: bytes
  rd_cur :: nat

definition BinaryStreamReader :: "bytes \<Rightarrow> stream_reader" where
  "BinaryStreamReader data = \<lparr>rd_data = data, rd_cur = BINARY_PACKLEN_LEN_2 + CHECKSUM_LEN\<rparr>"

definition IsEmpty :: "stream_reader \<Rightarrow> bool" where
  "IsEmpty r \<longleftrightarrow> length (rd_data r) \<le> BINARY_PACKLEN_LEN_2"

definition GetSize :: "stream_reader \<Rightarrow> nat" where
  "GetSize r = length (rd_data r)"

definition GetData :: "stream_reader \<Rightarrow> bytes" where
  "GetData r = rd_data r"

definition IsEnd :: "stream_reader \<Rightarrow> stream_error + bool" where
  "IsEnd r = (if rd_cur r \<le> length (rd_data r) then Inr (rd_cur r = length (rd_data r))
              else Inl Assertion_failed)"

text \<open>A one-byte load at offset \<open>i\<close>: the string, its terminating NUL, or undefined.\<close>

definition load :: "stream_reader \<Rightarrow> nat \<Rightarrow> byte option" where
  "load r i = (if i < length (rd_data r) then Some (rd_data r ! i)
               else if i = length (rd_data r) then Some 0 else None)"

fun scanLength :: "nat \<Rightarrow> stream_reader \<Rightarrow> nat \<Rightarrow> bytes \<Rightarrow> stream_error + bytes" where
  "scanLength 0 r temp buf = Inr buf"
| "scanLength (Suc k) r temp buf =
     (case load r temp of
        None \<Rightarrow> Inl Out_of_bounds_read
      | Some c \<Rightarrow> if c AND 0x80 = 0 then Inr (buf @ [c]) else scanLength k r (Suc temp) (buf @ [c]))"

text \<open>Result: the return value with, on success, the length of the head and the value.\<close>

definition ReadLengthWithoutOffset :: "stream_reader \<Rightarrow> stream_error + (nat \<times> nat) option" where
  "ReadLengthWithoutOffset r =
     (case scanLength 5 r (rd_cur r) [] of
        Inl e \<Rightarrow> Inl e
      | Inr buf \<Rightarrow>
          (let headlen = length buf
           in if rd_cur r + headlen > length (rd_data r) then Inr None
              else (case (read7BitEncoded buf headlen :: 32 word option) of
                      None \<Rightarrow> Inl Out_of_bounds_read
                    | Some value \<Rightarrow> Inr (Some (headlen, unat value)))))"

definition ReadLength :: "stream_reader \<Rightarrow> stream_error + (nat option \<times> stream_reader)" where
  "ReadLength r =
     (case ReadLengthWithoutOffset r of
        Inl e \<Rightarrow> Inl e
      | Inr None \<Rightarrow> Inr (None, r)
      | Inr (Some (headlen, outlen)) \<Rightarrow> Inr (Some outlen, r\<lparr>rd_cur := rd_cur r + headlen\<rparr>))"

text \<open>
  The string readers return the bytes read (\<open>None\<close> when the method returns false), the value
  left in the \<^verbatim>\<open>outlen\<close> argument (\<open>None\<close> when it is not written) and the reader.
\<close>

definition ReadCString ::
  "nat \<Rightarrow> stream_reader \<Rightarrow> stream_error + (bytes option \<times> nat option \<times> stream_reader)" where
  "ReadCString strlen r =
     (case ReadLengthWithoutOffset r of
        Inl e \<Rightarrow> Inl e
      | Inr None \<Rightarrow> Inr (None, None, r)
      | Inr (Some (headlen, fieldlen)) \<Rightarrow>
          if fieldlen > strlen then Inr (None, None, r)
          else (let r1 = r\<lparr>rd_cur := rd_cur r + headlen\<rparr>
                in if rd_cur r1 + fieldlen > length (rd_data r1) then Inr (None, Some 0, r1)
                   else Inr (Some (segment (rd_cur r1) (rd_cur r1 + fieldlen) (rd_data r1)),
                             Some fieldlen, r1\<lparr>rd_cur := rd_cur r1 + fieldlen\<rparr>)))"

definition ReadString ::
  "nat \<Rightarrow> stream_reader \<Rightarrow> stream_error + (bytes option \<times> nat option \<times> stream_reader)" where
  "ReadString maxlen r =
     (case ReadLengthWithoutOffset r of
        Inl e \<Rightarrow> Inl e
      | Inr None \<Rightarrow> Inr (None, None, r)
      | Inr (Some (headlen, fieldlen)) \<Rightarrow>
          if maxlen \<noteq> 0 \<and> fieldlen > maxlen then Inr (None, None, r)
          else (let r1 = r\<lparr>rd_cur := rd_cur r + headlen\<rparr>
                in if rd_cur r1 + fieldlen > length (rd_data r1) then Inr (None, Some 0, r1)
                   else Inr (Some (segment (rd_cur r1) (rd_cur r1 + fieldlen) (rd_data r1)),
                             Some fieldlen, r1\<lparr>rd_cur := rd_cur r1 + fieldlen\<rparr>)))"

text \<open>\<^verbatim>\<open>ReadCCString\<close> hands out the position of the field instead of a copy.\<close>

definition ReadCCString ::
  "nat \<Rightarrow> stream_reader \<Rightarrow> stream_error + (nat option \<times> nat option \<times> stream_reader)" where
  "ReadCCString maxlen r =
     (case ReadLengthWithoutOffset r of
        Inl e \<Rightarrow> Inl e
      | Inr None \<Rightarrow> Inr (None, None, r)
      | Inr (Some (headlen, fieldlen)) \<Rightarrow>
          if maxlen \<noteq> 0 \<and> fieldlen > maxlen then Inr (None, None, r)
          else (let r1 = r\<lparr>rd_cur := rd_cur r + headlen\<rparr>
                in if rd_cur r1 + fieldlen > length (rd_data r1) then Inr (None, Some 0, r1)
                   else Inr (Some (rd_cur r1), Some fieldlen, r1\<lparr>rd_cur := rd_cur r1 + fieldlen\<rparr>)))"

definition ReadInt32 :: "stream_reader \<Rightarrow> int32 option \<times> stream_reader" where
  "ReadInt32 r =
     (if rd_cur r + 4 > length (rd_data r) then (None, r)
      else (Some (byte_swap 4 (of_le_bytes (segment (rd_cur r) (rd_cur r + 4) (rd_data r)))),
            r\<lparr>rd_cur := rd_cur r + 4\<rparr>))"

definition ReadShort :: "stream_reader \<Rightarrow> int16 option \<times> stream_reader" where
  "ReadShort r =
     (if rd_cur r + 2 > length (rd_data r) then (None, r)
      else (Some (byte_swap 2 (of_le_bytes (segment (rd_cur r) (rd_cur r + 2) (rd_data r)))),
            r\<lparr>rd_cur := rd_cur r + 2\<rparr>))"

definition ReadChar :: "stream_reader \<Rightarrow> byte option \<times> stream_reader" where
  "ReadChar r =
     (if rd_cur r + 1 > length (rd_data r) then (None, r)
      else (Some (rd_data r ! rd_cur r), r\<lparr>rd_cur := rd_cur r + 1\<rparr>))"

definition ReadAll :: "nat \<Rightarrow> stream_reader \<Rightarrow> nat \<times> bytes" where
  "ReadAll iLen r =
     (let iRealLen = min iLen (length (rd_data r)) in (iRealLen, take iRealLen (rd_data r)))"

subsection \<open>Decimal text: sprintf and atoll\<close>

definition is_digit :: "byte \<Rightarrow> bool" where
  "is_digit c \<longleftrightarrow> 48 \<le> c \<and> c \<le> 57"

definition is_space :: "byte \<Rightarrow> bool" where
  "is_space c \<longleftrightarrow> c = 32 \<or> 9 \<le> c \<and> c \<le> 13"

fun nat_digits :: "nat \<Rightarrow> bytes" where
  "nat_digits n = (if n < 10 then [48 + word_of_nat n] else nat_digits (n div 10) @ [48 + word_of_nat (n mod 10)])"

declare nat_digits.simps [simp del]

text \<open>\<^verbatim>\<open>sprintf\<close> with the conversions \<^verbatim>\<open>%ld\<close> and \<^verbatim>\<open>%d\<close>.\<close>

definition print_int :: "int \<Rightarrow> bytes" where
  "print_int i = (if i < 0 then 45 # nat_digits (nat (- i)) else nat_digits (nat i))"

definition digits_value :: "bytes \<Rightarrow> int" where
  "digits_value ds = foldl (\<lambda>acc c. 10 * acc + (uint c - 48)) 0 ds"

text \<open>
  \<^verbatim>\<open>atoll\<close> on the characters of an array: white space, a sign, digits up to the first other
  character; the value saturates at the range of \<^verbatim>\<open>int64_t\<close> (glibc).  \<open>None\<close>: no character
  of the array ends the number, the scan leaves the array.
\<close>

definition atoll :: "bytes \<Rightarrow> int option" where
  "atoll s =
     (let s1 = dropWhile is_space s;
          neg = (s1 \<noteq> [] \<and> hd s1 = 45);
          s2 = (if s1 \<noteq> [] \<and> (hd s1 = 45 \<or> hd s1 = 43) then tl s1 else s1);
          v = digits_value (takeWhile is_digit s2)
      in if dropWhile is_digit s2 = [] then None
         else Some (if neg then max (- (2 ^ 63)) (- v) else min (2 ^ 63 - 1) v))"

text \<open>
  \<^verbatim>\<open>ReadInt64\<close> copies the field over the first bytes of an uninitialised 128-byte array and
  scans that array; no terminating NUL is written.
\<close>

definition ReadInt64 :: "(nat \<Rightarrow> byte) \<Rightarrow> stream_reader \<Rightarrow> stream_error + (int option \<times> stream_reader)" where
  "ReadInt64 junk r =
     (case ReadCString 128 r of
        Inl e \<Rightarrow> Inl e
      | Inr (None, _, r1) \<Rightarrow> Inr (None, r1)
      | Inr (Some s, _, r1) \<Rightarrow>
          (case atoll (overwrite 0 s (map junk [0..<128])) of
             None \<Rightarrow> Inl Out_of_bounds_read
           | Some i \<Rightarrow> Inr (Some i, r1)))"

section \<open>BinaryStreamWriter\<close>

text \<open>The writer is the string it appends to; its constructor puts six uninitialised bytes first.\<close>

definition BinaryStreamWriter :: "(nat \<Rightarrow> byte) \<Rightarrow> bytes" where
  "BinaryStreamWriter junk = map junk [0..<BINARY_PACKLEN_LEN_2 + CHECKSUM_LEN]"

definition WriterClear :: "(nat \<Rightarrow> byte) \<Rightarrow> bytes \<Rightarrow> bytes" where
  "WriterClear junk m_data = map junk [0..<BINARY_PACKLEN_LEN_2 + CHECKSUM_LEN]"

definition WriteCString :: "bytes \<Rightarrow> bytes \<Rightarrow> bytes" where
  "WriteCString str m_data =
     (let buf = write7BitEncoded (word_of_nat (length str) :: 64 word) [] in m_data @ buf @ str)"

definition WriteString :: "bytes \<Rightarrow> bytes \<Rightarrow> bytes" where
  "WriteString str m_data = WriteCString str m_data"

definition WriteInt32 :: "int32 \<Rightarrow> bool \<Rightarrow> bytes \<Rightarrow> bytes" where
  "WriteInt32 i isNULL m_data =
     (let i2 = (if isNULL then 999999999 else byte_swap 4 i) in m_data @ le_bytes 4 i2)"

definition WriteInt64 :: "int64 \<Rightarrow> bool \<Rightarrow> bytes \<Rightarrow> bytes" where
  "WriteInt64 value isNULL m_data =
     (if \<not> isNULL then WriteCString (print_int (sint value)) m_data else WriteCString [] m_data)"

definition WriteShort :: "int16 \<Rightarrow> bool \<Rightarrow> bytes \<Rightarrow> bytes" where
  "WriteShort i isNULL m_data =
     (let i2 = (if isNULL then 0 else byte_swap 2 i) in m_data @ le_bytes 2 i2)"

definition WriteChar :: "byte \<Rightarrow> bool \<Rightarrow> bytes \<Rightarrow> bytes" where
  "WriteChar c isNULL m_data = m_data @ [if isNULL then 0 else c]"

text \<open>
  \<^verbatim>\<open>WriteDouble\<close> prints with \<^verbatim>\<open>%f\<close> (the argument \<open>fmt\<close>) into a 128-byte array: a longer text
  overflows it.
\<close>

definition WriteDouble :: "('d \<Rightarrow> bytes) \<Rightarrow> 'd \<Rightarrow> bool \<Rightarrow> bytes \<Rightarrow> stream_error + bytes" where
  "WriteDouble fmt value isNULL m_data =
     (if \<not> isNULL
      then (if length (fmt value) + 1 > 128 then Inl Buffer_overflow
            else Inr (WriteCString (fmt value) m_data))
      else Inr (WriteCString [] m_data))"

definition Flush :: "bytes \<Rightarrow> bytes" where
  "Flush m_data = overwrite 0 (le_bytes 4 (byte_swap 4 (word_of_nat (length m_data) :: 32 word))) m_data"


section \<open>Lemmas: variable-length integers\<close>

lemma high_bit: "(c :: byte) AND 0x80 = 0 \<longleftrightarrow> \<not> bit c 7"
  using and_exp_eq_0_iff_not_bit [of c 7] by simp

lemma low_bits: "(c :: 'a::len word) AND 0x7F = take_bit 7 c"
  by (simp add: take_bit_eq_mask mask_numeral)

lemma write7_acc: "write7BitEncoded v buf = buf @ write7BitEncoded v []"
proof (induction "unat v" arbitrary: v buf rule: less_induct)
  case less
  show ?case
  proof (cases "drop_bit 7 v = 0")
    case True
    then show ?thesis by (simp add: write7BitEncoded.simps [of v buf] write7BitEncoded.simps [of v "[]"])
  next
    case False
    let ?c = "ucast (v AND 0x7F) OR 0x80 :: byte"
    note IH = less [OF unat_drop_bit_7_less [OF False]]
    show ?thesis
      using False IH [of "buf @ [?c]"] IH [of "[?c]"]
      by (simp add: write7BitEncoded.simps [of v buf] write7BitEncoded.simps [of v "[]"] Let_def)
  qed
qed

lemma write7_step:
  "write7BitEncoded v [] =
     (if drop_bit 7 v = 0 then [ucast (take_bit 7 v)]
      else (ucast (take_bit 7 v) OR 0x80) # write7BitEncoded (drop_bit 7 v) [])"
  using write7_acc [of "drop_bit 7 v" "[ucast (take_bit 7 v) OR 0x80]"]
  by (simp add: write7BitEncoded.simps [of v "[]"] low_bits Let_def)

lemma low7_byte: "unat (ucast (take_bit 7 v) :: byte) = unat (v :: 'a::len word) mod 128"
proof -
  have "unat (ucast (take_bit 7 v) :: byte) = unat (take_bit 7 v) mod 256"
    by (simp add: unsigned_ucast_eq take_bit_nat_def)
  moreover have "unat v mod 128 < 256" by (rule less_le_trans [OF mod_less_divisor]) simp_all
  ultimately show ?thesis by (simp add: unat_take_bit)
qed

lemma low7_clear: "\<not> bit (ucast (take_bit 7 (v :: 'a::len word)) :: byte) 7"
  by (simp add: bit_simps)

lemma low7_value:
  fixes v :: "'a::len word"
  shows "(ucast ((ucast (take_bit 7 v) :: byte) AND 0x7F) :: 'b::len word) = word_of_nat (unat v mod 128)"
    and "(ucast ((ucast (take_bit 7 v) OR 0x80 :: byte) AND 0x7F) :: 'b::len word) = word_of_nat (unat v mod 128)"
proof -
  have t: "take_bit 7 (ucast (take_bit 7 v) :: byte) = ucast (take_bit 7 v)"
    by (rule bit_word_eqI) (auto simp: bit_simps)
  have u: "(ucast w :: 'b word) = word_of_nat (unat w)" for w :: byte
    by simp
  show "(ucast ((ucast (take_bit 7 v) :: byte) AND 0x7F) :: 'b word) = word_of_nat (unat v mod 128)"
    by (simp only: low_bits t u low7_byte)
  have "take_bit 7 (ucast (take_bit 7 v) OR 0x80 :: byte) = ucast (take_bit 7 v)"
    by (simp add: t)
  then show "(ucast ((ucast (take_bit 7 v) OR 0x80 :: byte) AND 0x7F) :: 'b word) = word_of_nat (unat v mod 128)"
    by (simp only: low_bits u low7_byte)
qed

lemma word_of_nat_split128:
  "(word_of_nat n :: 'b::len word) = word_of_nat (n div 128) * 128 + word_of_nat (n mod 128)"
  using arg_cong [OF div_mult_mod_eq [of n 128, symmetric], of "word_of_nat :: nat \<Rightarrow> 'b word"]
  by (simp only: of_nat_add of_nat_mult of_nat_numeral)

lemma read7_write7:
  fixes v :: "'a::len word" and acc :: "'b::len word"
  assumes "bc < LENGTH('b)" and "unat v < 2 ^ (LENGTH('b) - bc)"
  shows "read7BitLoop (write7BitEncoded v [] @ rest) bc acc = Some (acc + push_bit bc (word_of_nat (unat v)))"
  using assms
proof (induction "unat v" arbitrary: v bc acc rule: less_induct)
  case less
  show ?case
  proof (cases "drop_bit 7 v = 0")
    case True
    then have "unat v div 128 = 0" using unat_drop_bit [of 7 v] by simp
    then have "unat v mod 128 = unat v" by simp
    then show ?thesis
      using True less.prems low7_value(1) [of v, where 'b = 'b]
      by (simp add: write7_step [of v] high_bit low7_clear)
  next
    case False
    have v': "unat (drop_bit 7 v) = unat v div 128" by (simp add: unat_drop_bit)
    with False have ge: "128 \<le> unat v" unfolding unat_eq_zero [symmetric] by auto
    then have "(2::nat) ^ 7 < 2 ^ (LENGTH('b) - bc)"
      using less.prems(2) by simp
    then have "7 < LENGTH('b) - bc" by (rule power_less_imp_less_exp [rotated]) simp
    then have bc': "bc + 7 < LENGTH('b)" by simp
    then have e: "LENGTH('b) - bc = (LENGTH('b) - (bc + 7)) + 7" by simp
    have lt: "unat (drop_bit 7 v) < 2 ^ (LENGTH('b) - (bc + 7))"
      using less.prems(2) v' unfolding e power_add by (simp add: less_mult_imp_div_less)
    let ?x = "word_of_nat (unat v mod 128) :: 'b word"
    have "read7BitLoop (write7BitEncoded v [] @ rest) bc acc =
        read7BitLoop (write7BitEncoded (drop_bit 7 v) [] @ rest) (bc + 7) (acc + push_bit bc ?x)"
      using False less.prems(1) low7_value(2) [of v, where 'b = 'b]
      by (simp add: write7_step [of v] high_bit bit_or_iff)
    also have "\<dots> = Some (acc + push_bit bc ?x + push_bit (bc + 7) (word_of_nat (unat v div 128)))"
      using less.hyps [OF unat_drop_bit_7_less [OF False] bc' lt] v' by simp
    also have "acc + push_bit bc ?x + push_bit (bc + 7) (word_of_nat (unat v div 128)) =
        acc + push_bit bc (word_of_nat (unat v))"
      unfolding word_of_nat_split128 [of "unat v"]
      by (simp add: push_bit_eq_mult power_add algebra_simps)
    finally show ?thesis .
  qed
qed

lemma length_write7: "0 < n \<Longrightarrow> unat v < 2 ^ (7 * n) \<Longrightarrow> length (write7BitEncoded v []) \<le> n"
proof (induction n arbitrary: v)
  case 0
  then show ?case by simp
next
  case (Suc n)
  show ?case
  proof (cases "drop_bit 7 v = 0")
    case True
    then show ?thesis by (simp add: write7_step)
  next
    case False
    have v': "unat (drop_bit 7 v) = unat v div 128" by (simp add: unat_drop_bit)
    with False have ge: "128 \<le> unat v" unfolding unat_eq_zero [symmetric] by auto
    then have "0 < n" using Suc.prems(2) by (cases n) auto
    moreover have "unat (drop_bit 7 v) < 2 ^ (7 * n)"
      using Suc.prems(2) v' by (simp add: power_add less_mult_imp_div_less)
    ultimately show ?thesis
      using Suc.IH [of "drop_bit 7 v"] False by (simp add: write7_step [of v])
  qed
qed

text \<open>The shape of an encoded integer: continuation bits on all bytes but the last.\<close>

definition varint :: "bytes \<Rightarrow> bool" where
  "varint e \<longleftrightarrow> e \<noteq> [] \<and> (\<forall>c\<in>set (butlast e). c AND 0x80 \<noteq> 0) \<and> last e AND 0x80 = 0"

lemma varint_Cons:
  "varint (c # e) \<longleftrightarrow> (if c AND 0x80 = 0 then e = [] else varint e)"
  by (auto simp: varint_def)

lemma write7_varint: "varint (write7BitEncoded v [])"
proof (induction "unat v" arbitrary: v rule: less_induct)
  case less
  show ?case
    using less [OF unat_drop_bit_7_less]
    by (auto simp: write7_step [of v] varint_Cons high_bit low7_clear bit_or_iff)
qed

lemma write7_nonempty [simp]: "write7BitEncoded v [] \<noteq> []"
  using write7_varint by (auto simp: varint_def)

section \<open>Lemmas: readers\<close>

definition unread :: "stream_reader \<Rightarrow> bytes" where
  "unread r = drop (rd_cur r) (rd_data r)"

definition advance :: "nat \<Rightarrow> stream_reader \<Rightarrow> stream_reader" where
  "advance n r = r\<lparr>rd_cur := rd_cur r + n\<rparr>"

definition in_range :: "stream_reader \<Rightarrow> bool" where
  "in_range r \<longleftrightarrow> rd_cur r \<le> length (rd_data r)"

lemma segment_unread:
  "unread r = e @ t \<Longrightarrow> segment (rd_cur r) (rd_cur r + length e) (rd_data r) = e"
  by (simp add: unread_def segment_def)

lemma unread_length: "unread r = e @ t \<Longrightarrow> e \<noteq> [] \<Longrightarrow> rd_cur r + length e \<le> length (rd_data r)"
proof -
  assume "unread r = e @ t" and "e \<noteq> []"
  then have "length (drop (rd_cur r) (rd_data r)) = length (e @ t)" and "0 < length e"
    by (simp_all only: unread_def length_greater_0_conv not_False_eq_True)
  then show ?thesis unfolding length_drop length_append by linarith
qed

lemma unread_advance: "unread r = e @ t \<Longrightarrow> unread (advance (length e) r) = t"
  by (simp add: unread_def advance_def add.commute flip: drop_drop)

lemma in_range_advance: "in_range r \<Longrightarrow> unread r = e @ t \<Longrightarrow> in_range (advance (length e) r)"
  using unread_length [of r e t] by (cases "e = []") (auto simp: in_range_def advance_def)

lemma scanLength_varint:
  "varint e \<Longrightarrow> length e \<le> k \<Longrightarrow> drop temp (rd_data r) = e @ t \<Longrightarrow> scanLength k r temp buf = Inr (buf @ e)"
proof (induction k arbitrary: temp buf e)
  case 0
  then show ?case by (simp add: varint_def)
next
  case (Suc k)
  then obtain c e' where e: "e = c # e'" by (cases e) (auto simp: varint_def)
  then have l: "load r temp = Some c"
    using Suc.prems(3) by (auto simp: load_def intro: nth_via_drop) (metis drop_eq_Nil2 linorder_not_le list.distinct(1))
  have "drop (Suc temp) (rd_data r) = e' @ t"
    using Suc.prems(3) e by (metis append_Cons drop_Suc list.sel(3) tl_drop)
  then show ?case
    using Suc.IH [of e' "Suc temp" "buf @ [c]"] Suc.prems e l by (auto simp: varint_Cons split: if_splits)
qed


lemma read7_prefix: "varint e \<Longrightarrow> read7BitLoop (e @ t) bc acc = read7BitLoop e bc acc"
  by (induction e arbitrary: bc acc) (auto simp: varint_Cons Let_def varint_def split: if_splits)

lemma ReadLength_field:
  assumes "n < 2 ^ 32" and "unread r = write7BitEncoded (word_of_nat n :: 64 word) [] @ t"
  shows "ReadLengthWithoutOffset r = Inr (Some (length (write7BitEncoded (word_of_nat n :: 64 word) []), n))"
proof -
  let ?w = "word_of_nat n :: 64 word" and ?e = "write7BitEncoded (word_of_nat n :: 64 word) []"
  have n: "unat ?w = n" using assms(1) by (intro unat_word_of_nat_small) simp
  have "length ?e \<le> 5" by (rule length_write7) (use n assms(1) in simp_all)
  then have "scanLength 5 r (rd_cur r) [] = Inr ?e"
    using scanLength_varint [OF write7_varint, of ?w 5 "rd_cur r" r t "[]"] assms(2)
    by (simp add: unread_def)
  moreover have "read7BitEncoded ?e (length ?e) = Some (word_of_nat n :: 32 word)"
    using read7_write7 [of 0 ?w "[]", where 'b = 32] n assms(1) by (simp add: read7BitEncoded_def)
  moreover have "unat (word_of_nat n :: 32 word) = n"
    using assms(1) by (intro unat_word_of_nat_small) simp
  ultimately show ?thesis
    using unread_length [OF assms(2)] by (simp add: ReadLengthWithoutOffset_def)
qed

text \<open>
  \<^verbatim>\<open>scanLength\<close> on an arbitrary reader inside its string: the loads never leave the string and
  its terminator, and the head that is found is a varint unless all five bytes continue.
\<close>

lemma scanLength_total:
  "temp \<le> length (rd_data r) \<Longrightarrow> \<forall>c\<in>set buf. c AND 0x80 \<noteq> 0 \<Longrightarrow>
     \<exists>buf'. scanLength k r temp buf = Inr buf' \<and> length buf' \<le> length buf + k \<and>
       (varint buf' \<or> length buf' = length buf + k \<and> (\<forall>c\<in>set buf'. c AND 0x80 \<noteq> 0) \<and>
          temp + k \<le> length (rd_data r) \<and> buf' = buf @ segment temp (temp + k) (rd_data r))"
proof (induction k arbitrary: temp buf)
  case 0
  then show ?case by simp
next
  case (Suc k)
  show ?case
  proof (cases "temp = length (rd_data r)")
    case True
    then show ?thesis using Suc.prems(2) by (simp add: load_def varint_def)
  next
    case False
    with Suc.prems(1) have lt: "temp < length (rd_data r)" by simp
    let ?c = "rd_data r ! temp"
    have seg: "segment temp (temp + Suc k) (rd_data r) = ?c # segment (Suc temp) (Suc temp + k) (rd_data r)"
      using lt by (simp add: segment_def Cons_nth_drop_Suc [symmetric])
    show ?thesis
    proof (cases "?c AND 0x80 = 0")
      case True
      then show ?thesis using Suc.prems(2) lt by (simp add: load_def varint_def)
    next
      case cont: False
      then show ?thesis
        using Suc.IH [of "Suc temp" "buf @ [?c]"] Suc.prems(2) lt seg by (auto simp: load_def)
    qed
  qed
qed

lemma varint_read7: 
  "varint e \<Longrightarrow> bc + 7 * length e < LENGTH('b::len) + 7 \<Longrightarrow> \<exists>v. read7BitLoop e bc (acc :: 'b word) = Some v"
proof (induction e arbitrary: bc acc)
  case (Cons c e)
  then show ?case
    using Cons.IH [of "bc + 7"] by (cases "c AND 0x80 = 0"; cases e) (auto simp: varint_Cons Let_def)
qed (simp add: varint_def)

lemma scanLength_runaway:
  "k \<le> length (drop temp (rd_data r)) \<Longrightarrow> \<forall>c\<in>set (take k (drop temp (rd_data r))). c AND 0x80 \<noteq> 0 \<Longrightarrow>
     scanLength k r temp buf = Inr (buf @ take k (drop temp (rd_data r)))"
proof (induction k arbitrary: temp buf)
  case (Suc k)
  then have "temp < length (rd_data r)" by simp
  moreover from this have "drop temp (rd_data r) = rd_data r ! temp # drop (Suc temp) (rd_data r)"
    by (simp add: Cons_nth_drop_Suc)
  ultimately show ?case
    using Suc by (simp add: load_def)
qed simp

lemma read7_all_continue:
  "\<forall>c\<in>set e. c AND 0x80 \<noteq> 0 \<Longrightarrow> read7BitLoop e bc acc = None"
  by (induction e arbitrary: bc acc) (auto simp: Let_def)

text \<open>The only way to undefined behaviour: five continuation bytes where a length is expected.\<close>

definition runaway_length :: "stream_reader \<Rightarrow> bool" where
  "runaway_length r \<longleftrightarrow> 5 \<le> length (unread r) \<and> (\<forall>c\<in>set (take 5 (unread r)). c AND 0x80 \<noteq> 0)"

lemma ReadLengthWithoutOffset_safe:
  assumes "in_range r"
  shows "ReadLengthWithoutOffset r = Inl e \<longleftrightarrow> e = Out_of_bounds_read \<and> runaway_length r"
proof -
  obtain buf where buf: "scanLength 5 r (rd_cur r) [] = Inr buf" "length buf \<le> 5"
    and shape: "varint buf \<or> length buf = 5 \<and> (\<forall>c\<in>set buf. c AND 0x80 \<noteq> 0) \<and>
      rd_cur r + 5 \<le> length (rd_data r) \<and> buf = segment (rd_cur r) (rd_cur r + 5) (rd_data r)"
    using scanLength_total [of "rd_cur r" r "[]" 5] assms by (auto simp: in_range_def)
  show ?thesis
  proof (cases "varint buf")
    case True
    then obtain v where "read7BitLoop buf 0 (0 :: 32 word) = Some v"
      using varint_read7 [of buf 0, where 'b = 32] buf(2) by auto
    moreover have "\<not> runaway_length r"
    proof
      assume run: "runaway_length r"
      then have "scanLength 5 r (rd_cur r) [] = Inr (take 5 (unread r))"
        using scanLength_runaway [of 5 "rd_cur r" r "[]"] by (simp add: runaway_length_def unread_def)
      then show False using True buf run by (auto simp: varint_def runaway_length_def)
    qed
    ultimately show ?thesis using buf by (simp add: ReadLengthWithoutOffset_def read7BitEncoded_def Let_def)
  next
    case False
    with shape have all: "length buf = 5" "\<forall>c\<in>set buf. c AND 0x80 \<noteq> 0"
      "rd_cur r + 5 \<le> length (rd_data r)" "buf = take 5 (unread r)"
      by (auto simp: segment_def unread_def)
    then have "runaway_length r" by (simp add: runaway_length_def unread_def)
    then show ?thesis
      using buf all read7_all_continue [OF all(2), of 0 "0 :: 32 word"]
      by (auto simp: ReadLengthWithoutOffset_def read7BitEncoded_def)
  qed
qed


lemma ReadLengthWithoutOffset_bounds:
  "ReadLengthWithoutOffset r = Inr (Some (h, n)) \<Longrightarrow> rd_cur r + h \<le> length (rd_data r) \<and> n < 2 ^ 32"
  using unat_bound [where 'a = 32]
  by (auto simp: ReadLengthWithoutOffset_def Let_def split: sum.splits if_splits option.splits)

lemma ReadString_in_range:
  "in_range r \<Longrightarrow> ReadString m r = Inr (s, l, r') \<Longrightarrow> in_range r' \<and> rd_data r' = rd_data r"
  using ReadLengthWithoutOffset_bounds [of r]
  by (fastforce simp: ReadString_def in_range_def Let_def split: sum.splits option.splits if_splits)

lemma ReadString_Inl: "ReadString m r = Inl e \<longleftrightarrow> ReadLengthWithoutOffset r = Inl e"
  by (auto simp: ReadString_def Let_def split: sum.splits option.splits)

lemma ReadInt32_in_range:
  "ReadInt32 r = (Some x, r') \<Longrightarrow> in_range r' \<and> rd_data r' = rd_data r \<and> rd_cur r' = rd_cur r + 4"
  by (auto simp: ReadInt32_def in_range_def split: if_splits)

lemma ReadInt32_field:
  assumes "unread r = rev (le_bytes 4 x) @ t"
  shows "ReadInt32 r = (Some x, advance 4 r)"
proof -
  have "rd_cur r + 4 \<le> length (rd_data r)"
    using unread_length [OF assms] by (simp flip: length_0_conv)
  moreover have "segment (rd_cur r) (rd_cur r + 4) (rd_data r) = rev (le_bytes 4 x)"
    using segment_unread [OF assms] by simp
  ultimately show ?thesis
    by (simp add: ReadInt32_def advance_def byte_swap_of_le_bytes of_le_bytes_le_bytes)
qed

lemma field_read:
  assumes "length s < 2 ^ 32" and "unread r = write7BitEncoded (word_of_nat (length s) :: 64 word) [] @ s @ t"
  defines "e \<equiv> write7BitEncoded (word_of_nat (length s) :: 64 word) []"
  shows "ReadLengthWithoutOffset r = Inr (Some (length e, length s))"
    and "rd_cur r + length e + length s \<le> length (rd_data r)"
    and "segment (rd_cur r + length e) (rd_cur r + length e + length s) (rd_data r) = s"
proof -
  show "ReadLengthWithoutOffset r = Inr (Some (length e, length s))"
    using ReadLength_field [OF assms(1,2)] by (simp add: e_def)
  have u: "unread r = e @ (s @ t)" and u': "unread r = (e @ s) @ t" using assms(2) by (simp_all add: e_def)
  show "rd_cur r + length e + length s \<le> length (rd_data r)"
    using unread_length [OF u'] by (simp add: e_def)
  show "segment (rd_cur r + length e) (rd_cur r + length e + length s) (rd_data r) = s"
    using segment_unread [OF unread_advance [OF u]] by (simp add: advance_def)
qed

lemma ReadString_field:
  assumes "length s < 2 ^ 32" and "m = 0 \<or> length s \<le> m"
    and "unread r = write7BitEncoded (word_of_nat (length s) :: 64 word) [] @ s @ t"
  shows "ReadString m r = Inr (Some s, Some (length s),
     advance (length (write7BitEncoded (word_of_nat (length s) :: 64 word) []) + length s) r)"
  using field_read [OF assms(1,3)] assms(2) by (auto simp: ReadString_def Let_def advance_def add.assoc)

lemma ReadCString_field:
  assumes "length s < 2 ^ 32" and "length s \<le> m"
    and "unread r = write7BitEncoded (word_of_nat (length s) :: 64 word) [] @ s @ t"
  shows "ReadCString m r = Inr (Some s, Some (length s),
     advance (length (write7BitEncoded (word_of_nat (length s) :: 64 word) []) + length s) r)"
  using field_read [OF assms(1,3)] assms(2) by (auto simp: ReadCString_def Let_def advance_def add.assoc)

section \<open>The codec interface\<close>

text \<open>
  A kind of field: the writer appends an encoding, and a reader positioned at that encoding
  returns the value and stops right behind it.
\<close>

locale stream_field =
  fixes enc :: "'a \<Rightarrow> bytes"
    and wr :: "'a \<Rightarrow> bytes \<Rightarrow> bytes"
    and rd :: "stream_reader \<Rightarrow> stream_error + ('a option \<times> stream_reader)"
    and good :: "'a \<Rightarrow> bool"
  assumes wr_appends: "wr x d = d @ enc x"
    and rd_enc: "good x \<Longrightarrow> unread r = enc x @ t \<Longrightarrow> rd r = Inr (Some x, advance (length (enc x)) r)"
begin

text \<open>A sequence of such fields is read back value by value.\<close>

lemma wr_all: "fold wr xs d = d @ concat (map enc xs)"
  by (induction xs arbitrary: d) (simp_all add: wr_appends)

lemma rd_after_wr:
  assumes "good x"
  shows "rd \<lparr>rd_data = wr x d @ t, rd_cur = length d\<rparr> =
    Inr (Some x, \<lparr>rd_data = wr x d @ t, rd_cur = length (wr x d)\<rparr>)"
  using rd_enc [OF assms, of "\<lparr>rd_data = wr x d @ t, rd_cur = length d\<rparr>" t]
  by (simp add: wr_appends unread_def advance_def)

end

definition enc_int32 :: "int32 \<Rightarrow> bytes" where
  "enc_int32 x = rev (le_bytes 4 x)"

definition enc_string :: "bytes \<Rightarrow> bytes" where
  "enc_string s = write7BitEncoded (word_of_nat (length s) :: 64 word) [] @ s"

definition rd_int32 :: "stream_reader \<Rightarrow> stream_error + (int32 option \<times> stream_reader)" where
  "rd_int32 r = Inr (ReadInt32 r)"

definition rd_string :: "stream_reader \<Rightarrow> stream_error + (bytes option \<times> stream_reader)" where
  "rd_string r = (case ReadString 0 r of Inl e \<Rightarrow> Inl e | Inr (s, l, r') \<Rightarrow> Inr (s, r'))"

interpretation int32_field: stream_field enc_int32 "\<lambda>x. WriteInt32 x False" rd_int32 "\<lambda>_. True"
  by unfold_locales
    (simp_all add: enc_int32_def WriteInt32_def le_bytes_byte_swap rd_int32_def ReadInt32_field)

interpretation string_field: stream_field enc_string WriteString rd_string "\<lambda>s. length s < 2 ^ 32"
proof unfold_locales
  fix x r t
  assume "length x < 2 ^ 32" and "unread r = enc_string x @ t"
  then show "rd_string r = Inr (Some x, advance (length (enc_string x)) r)"
    using ReadString_field [of x 0 r t] by (simp add: rd_string_def enc_string_def)
qed (simp add: enc_string_def WriteString_def WriteCString_def)


section \<open>Lemmas: headers, decimal text, checksum\<close>

lemma drop_Flush: "4 \<le> n \<Longrightarrow> 4 \<le> length d \<Longrightarrow> drop n (Flush d) = drop n d"
  by (simp add: Flush_def overwrite_def)

lemma length_Flush [simp]: "4 \<le> length d \<Longrightarrow> length (Flush d) = length d"
  by (simp add: Flush_def)

lemma length_Writer [simp]: "length (BinaryStreamWriter junk) = 6"
  by (simp add: BinaryStreamWriter_def BINARY_PACKLEN_LEN_2_def CHECKSUM_LEN_def)

lemma digit_byte:
  assumes "k < 10"
  shows "is_digit (48 + word_of_nat k)" and "uint (48 + word_of_nat k :: byte) = int k + 48"
proof -
  have "k \<in> {0, 1, 2, 3, 4, 5, 6, 7, 8, 9}" using assms by auto
  then show "is_digit (48 + word_of_nat k)" and "uint (48 + word_of_nat k :: byte) = int k + 48"
    by (auto simp: is_digit_def)
qed

lemma nat_digits_digits: "nat_digits n \<noteq> [] \<and> (\<forall>c\<in>set (nat_digits n). is_digit c)"
proof (induction n rule: nat_digits.induct)
  case (1 n)
  then show ?case
    by (cases "n < 10") (simp_all add: nat_digits.simps [of n] digit_byte(1))
qed

lemma digits_value_snoc: "digits_value (ds @ [c]) = 10 * digits_value ds + (uint c - 48)"
  by (simp add: digits_value_def)

lemma digits_value_nat_digits: "digits_value (nat_digits n) = int n"
proof (induction n rule: nat_digits.induct)
  case (1 n)
  show ?case
  proof (cases "n < 10")
    case True
    then show ?thesis by (simp add: nat_digits.simps [of n] digits_value_def digit_byte(2))
  next
    case False
    then have "digits_value (nat_digits n) = 10 * int (n div 10) + int (n mod 10)"
      using 1 by (simp add: nat_digits.simps [of n] digits_value_snoc digit_byte(2))
    also have "\<dots> = int n"
      by (metis mult_div_mod_eq of_nat_add of_nat_mult of_nat_numeral)
    finally show ?thesis .
  qed
qed

lemma is_digit_not_space: "is_digit c \<Longrightarrow> \<not> is_space c \<and> c \<noteq> 45 \<and> c \<noteq> 43"
  by (auto simp: is_digit_def is_space_def word_le_nat_alt)

lemma scan_digits:
  assumes "\<forall>c\<in>set ds. is_digit c" and "\<not> is_digit x"
  shows "takeWhile is_digit (ds @ x # t) = ds" and "dropWhile is_digit (ds @ x # t) = x # t"
  using assms by (simp_all add: takeWhile_append2 dropWhile_append2)

lemma atoll_print_int:
  assumes "- (2 ^ 63) \<le> i" and "i < 2 ^ 63" and "\<not> is_digit x"
  shows "atoll (print_int i @ x # t) = Some i"
proof (cases "i < 0")
  case True
  have "\<not> is_space 45" by (simp add: is_space_def)
  then show ?thesis
    using True assms nat_digits_digits [of "nat (- i)"]
      scan_digits [OF _ assms(3), of "nat_digits (nat (- i))" t]
    by (simp add: atoll_def print_int_def digits_value_nat_digits Let_def)
next
  case False
  obtain c cs where ds: "nat_digits (nat i) = c # cs" and "is_digit c"
    using nat_digits_digits [of "nat i"] by (cases "nat_digits (nat i)") auto
  then have c: "\<not> is_space c" "c \<noteq> 45" "c \<noteq> 43" using is_digit_not_space by blast+
  have scan: "takeWhile is_digit ((c # cs) @ x # t) = c # cs" "dropWhile is_digit ((c # cs) @ x # t) = x # t"
    using scan_digits [OF _ assms(3), of "c # cs" t] nat_digits_digits [of "nat i"] ds by simp_all
  have "digits_value (c # cs) = i"
    using False digits_value_nat_digits [of "nat i"] ds by simp
  then show ?thesis
    using False assms c ds scan by (simp add: atoll_def print_int_def Let_def del: takeWhile.simps dropWhile.simps(2))
      (simp add: c)
qed

lemma length_nat_digits: "0 < k \<Longrightarrow> n < 10 ^ k \<Longrightarrow> length (nat_digits n) \<le> k"
proof (induction k arbitrary: n)
  case (Suc k)
  show ?case
  proof (cases "n < 10")
    case False
    then have "0 < k" using Suc.prems(2) by (cases k) auto
    moreover have "n div 10 < 10 ^ k" using Suc.prems(2) by (simp add: less_mult_imp_div_less mult.commute)
    ultimately show ?thesis using Suc.IH False by (simp add: nat_digits.simps [of n])
  qed (simp add: nat_digits.simps [of n])
qed simp

lemma length_print_int64: "length (print_int (sint (v :: int64))) \<le> 20"
proof -
  have "- (2 ^ 63) \<le> sint v" "sint v < 2 ^ 63"
    using sint_ge [of v] sint_lt [of v] by simp_all
  then have "nat (- sint v) < 10 ^ 19" "nat (sint v) < 10 ^ 19" by simp_all
  then show ?thesis
    using length_nat_digits [of 19 "nat (- sint v)"] length_nat_digits [of 19 "nat (sint v)"]
    by (auto simp: print_int_def)
qed

text \<open>The sum of the 16-bit words of a buffer, and its one's complement residue in \<open>1..65535\<close>.\<close>

fun sum16 :: "bytes \<Rightarrow> nat" where
  "sum16 (a # b # rest) = unat a + 256 * unat b + sum16 rest"
| "sum16 [a] = unat a"
| "sum16 [] = 0"

definition ones_residue :: "nat \<Rightarrow> nat" where
  "ones_residue s = (if s = 0 then 0 else (s - 1) mod 65535 + 1)"

lemma unat_byte_pair: "unat (ucast (of_le_bytes [a, b] :: 16 word) :: 32 word) = unat a + 256 * unat b"
proof -
  have disj: "(ucast a :: 16 word) AND push_bit 8 (ucast b) = 0"
    by (rule bit_word_eqI) (auto simp: bit_simps dest: bit_imp_le_length)
  have bounds: "unat a < 256" "unat b < 256" using unat_bound [of a] unat_bound [of b] by simp_all
  have up: "unat (ucast c :: 16 word) = unat c" for c :: byte
    by (rule unat_ucast_up) simp
  have "unat (ucast a + push_bit 8 (ucast b) :: 16 word) = unat a + 256 * unat b"
    using bounds by (simp add: push_bit_eq_mult unat_word_ariths up)
  then have "unat (of_le_bytes [a, b] :: 16 word) = unat a + 256 * unat b"
    using disjunctive_add_eq_or [OF disj] by simp
  then show ?thesis by (simp add: unat_ucast_up)
qed

lemma unat_ucast_byte: "unat (ucast (a :: byte) :: 32 word) = unat a"
  by (rule unat_ucast_up) simp

lemma unat_checksum_sum:
  "unat c + sum16 bs < 2 ^ 32 \<Longrightarrow> unat (checksum_sum c bs) = unat c + sum16 bs"
proof (induction c bs rule: checksum_sum.induct)
  case (1 c a b rest)
  let ?w = "ucast (of_le_bytes [a, b] :: 16 word) :: 32 word"
  have "unat (c + ?w) = unat c + (unat a + 256 * unat b)"
    using "1.prems" unat_byte_pair [of a b] by (simp add: unat_word_ariths del: of_le_bytes.simps)
  then show ?case using "1.IH" "1.prems" by (simp del: of_le_bytes.simps)
next
  case (2 c a)
  then show ?case by (simp add: unat_word_ariths unat_ucast_byte)
qed simp

lemma sum16_bound: "sum16 bs \<le> 65535 * ((length bs + 1) div 2)"
proof (induction bs rule: sum16.induct)
  case (1 a b rest)
  have "unat a < 256" "unat b < 256" using unat_bound [of a] unat_bound [of b] by simp_all
  then show ?case using 1 by simp
next
  case (2 a)
  then show ?case using unat_bound [of a] by simp
qed simp

lemma ones_residue_fold:
  assumes "65536 \<le> s"
  shows "ones_residue (s div 65536 + s mod 65536) = ones_residue s"
proof -
  let ?t = "s div 65536 + s mod 65536"
  have "1 \<le> s div 65536" using div_le_mono [OF assms, of 65536] by simp
  moreover have "s = 65536 * (s div 65536) + s mod 65536" by simp
  ultimately have "s - 1 = (?t - 1) + 65535 * (s div 65536)" and "?t \<noteq> 0" by linarith+
  then have "(s - 1) mod 65535 = (?t - 1) mod 65535" by (metis mod_mult_self2)
  then show ?thesis using \<open>?t \<noteq> 0\<close> assms by (simp add: ones_residue_def)
qed

lemma unat_checksum_fold: "unat (checksum_fold c) = ones_residue (unat c)"
proof (induction c rule: checksum_fold.induct)
  case (1 c)
  show ?case
  proof (cases "drop_bit 16 c \<noteq> 0")
    case True
    then have "65536 \<le> unat c" by (simp only: drop_bit_16_nonzero)
    then show ?thesis
      using 1 [OF True] True ones_residue_fold [of "unat c"]
      by (simp add: checksum_fold.simps [of c] unat_fold_step)
  next
    case False
    then have "unat c < 65536" using drop_bit_16_nonzero [of c] by simp
    then show ?thesis using False by (simp add: checksum_fold.simps [of c] ones_residue_def)
  qed
qed

lemma ones_residue_bound: "ones_residue s \<le> 65535"
  by (simp add: ones_residue_def Suc_le_eq)

lemma unat_not16: "unat c \<le> 65535 \<Longrightarrow> unat (ucast (NOT (c :: 32 word)) :: 16 word) = 65535 - unat c"
proof -
  assume c: "unat c \<le> 65535"
  have "(ucast (NOT c) :: 16 word) = NOT (ucast c)"
    by (rule bit_word_eqI) (auto simp: bit_simps)
  also have "\<dots> = - 1 - ucast c"
    by (simp add: not_eq_complement)
  finally have "unat (ucast (NOT c) :: 16 word) = unat (- 1 - (ucast c :: 16 word))" by simp
  also have "\<dots> = 65535 - unat (ucast c :: 16 word)"
    by (simp add: unat_sub unsigned_minus_1_eq_mask mask_numeral)
  finally show ?thesis using c by (simp add: unsigned_ucast_eq take_bit_nat_eq_self)
qed


text \<open>A message of the chat protocol, field by field.\<close>

lemma message_fields:
  assumes "length data < 2 ^ 32"
  defines "m \<equiv> \<lambda>seq cmd junk. Flush (WriteCString data (WriteInt32 seq False (WriteInt32 cmd False (BinaryStreamWriter junk))))"
  shows "\<exists>r1 r2 r3. ReadInt32 (BinaryStreamReader (m seq cmd junk)) = (Some cmd, r1) \<and> ReadInt32 r1 = (Some seq, r2) \<and>
     ReadString 0 r2 = Inr (Some data, Some (length data), r3) \<and> IsEnd r3 = Inr True"
proof -
  let ?b = "WriteString data (WriteInt32 seq False (WriteInt32 cmd False (BinaryStreamWriter junk)))"
  let ?m = "m seq cmd junk"
  have b: "?b = BinaryStreamWriter junk @ enc_int32 cmd @ enc_int32 seq @ enc_string data"
    by (simp add: int32_field.wr_appends string_field.wr_appends)
  have m: "?m = Flush ?b" by (simp add: m_def WriteString_def)
  define r where "r = BinaryStreamReader ?m"
  have len: "length ?m = length ?b" and "drop 6 ?m = drop 6 ?b"
    by (simp_all add: m drop_Flush b)
  then have u: "unread r = enc_int32 cmd @ enc_int32 seq @ enc_string data"
    by (simp add: r_def unread_def BinaryStreamReader_def BINARY_PACKLEN_LEN_2_def CHECKSUM_LEN_def b)
  note u1 = unread_advance [OF u]
  note u2 = unread_advance [OF u1]
  have 4: "length (enc_int32 x) = 4" for x by (simp add: enc_int32_def)
  let ?r1 = "advance 4 r" and ?r2 = "advance 4 (advance 4 r)"
  let ?r3 = "advance (length (enc_string data)) ?r2"
  have "ReadInt32 r = (Some cmd, ?r1)" "ReadInt32 ?r1 = (Some seq, ?r2)"
    using ReadInt32_field [of r cmd] ReadInt32_field [of ?r1 seq] u u1 4 by (simp_all add: enc_int32_def)
  moreover have "ReadString 0 ?r2 = Inr (Some data, Some (length data), ?r3)"
    using ReadString_field [of data 0 ?r2 "[]"] assms(1) u2 4 by (simp add: enc_string_def)
  moreover have "IsEnd ?r3 = Inr True"
    using len by (simp add: IsEnd_def advance_def r_def BinaryStreamReader_def b 4
        BINARY_PACKLEN_LEN_2_def CHECKSUM_LEN_def)
  ultimately show ?thesis
    unfolding r_def by blast
qed

lemma message_header:
  fixes data :: bytes and seq cmd :: int32 and junk :: "nat \<Rightarrow> byte"
  defines "m \<equiv> Flush (WriteCString data (WriteInt32 seq False (WriteInt32 cmd False (BinaryStreamWriter junk))))"
  shows "take 4 m = rev (le_bytes 4 (word_of_nat (length m) :: 32 word))"
    and "length m = 14 + length (enc_string data)"
  by (simp_all add: m_def Flush_def overwrite_def le_bytes_byte_swap WriteCString_def WriteInt32_def enc_string_def)

section \<open>Properties\<close>

text \<open>
  C39: Variable-length integers round-trip at both widths, whatever follows them in the buffer,
  and their size is what the comments promise: 1 to 5 bytes for 32 bits, 1 to 10 for 64 bits.
\<close>

theorem varint_roundtrip:
  fixes v :: "32 word" and w :: "64 word"
  shows "read7BitEncoded (write7BitEncoded v [] @ rest) n = Some v \<and>
    read7BitEncoded (write7BitEncoded w [] @ rest) n = Some w \<and>
    length (write7BitEncoded v []) \<in> {1..5} \<and> length (write7BitEncoded w []) \<in> {1..10}"
proof -
  have "unat v < 2 ^ 32" "unat w < 2 ^ 64" using unat_bound [of v] unat_bound [of w] by simp_all
  then show ?thesis
    using read7_write7 [where 'b = 32 and bc = 0 and v = v and rest = rest and acc = 0]
      read7_write7 [where 'b = 64 and bc = 0 and v = w and rest = rest and acc = 0]
      length_write7 [of 5 v] length_write7 [of 10 w]
    by (simp add: read7BitEncoded_def Suc_le_eq)
qed

text \<open>
  C32: What \<^verbatim>\<open>BinaryStreamWriter\<close> writes, \<^verbatim>\<open>BinaryStreamReader\<close> reads: for every command, sequence
  number and payload below 4 GiB, the reader returns exactly these three fields and is then
  at the end, whatever the uninitialised header bytes were; and the first four bytes hold the
  total length in network order.
\<close>

theorem message_roundtrip:
  assumes "length data < 2 ^ 32"
    and m: "m = Flush (WriteString data (WriteInt32 seq False (WriteInt32 cmd False (BinaryStreamWriter junk))))"
  shows "(\<exists>r1 r2 r3. ReadInt32 (BinaryStreamReader m) = (Some cmd, r1) \<and> ReadInt32 r1 = (Some seq, r2) \<and>
     ReadString 0 r2 = Inr (Some data, Some (length data), r3) \<and> IsEnd r3 = Inr True) \<and>
     take 4 m = rev (le_bytes 4 (word_of_nat (length m) :: 32 word))"
  using message_fields [OF assms(1)] message_header unfolding m WriteString_def by blast

theorem message_roundtrip_witness:
  "\<exists>r1. ReadInt32 (BinaryStreamReader (Flush (WriteString [104, 105] (WriteInt32 7 False
       (WriteInt32 1100 False (BinaryStreamWriter (\<lambda>_. 170))))))) = (Some 1100, r1)"
  using message_roundtrip [of "[104, 105]" _ 7 1100 "\<lambda>_. 170", OF _ refl] by auto

text \<open>
  C40: Reading a string field from any byte string, well-formed or not, never loads a byte
  outside the string and its terminating NUL, never moves the cursor past the end, and is
  defined in all cases but one: five continuation bytes in the place of a length make the
  decoder run off its five-byte array.
\<close>

theorem ReadString_memory_safe:
  assumes "rd_cur r \<le> length (rd_data r)"
  shows "(ReadString m r = Inl e \<longleftrightarrow> e = Out_of_bounds_read \<and> runaway_length r) \<and>
    (ReadString m r = Inr (s, l, r') \<longrightarrow> rd_cur r' \<le> length (rd_data r') \<and> rd_data r' = rd_data r)"
  using assms ReadLengthWithoutOffset_safe [of r e] ReadString_in_range [of r m s l r']
  by (auto simp: ReadString_Inl in_range_def)

theorem ReadString_memory_safe_witness:
  "ReadString 0 \<lparr>rd_data = [255, 255, 255, 255, 255, 0], rd_cur = 0\<rparr> = Inl Out_of_bounds_read"
  using ReadString_memory_safe [of "\<lparr>rd_data = [255, 255, 255, 255, 255, 0], rd_cur = 0\<rparr>" 0 Out_of_bounds_read]
  by (simp add: runaway_length_def unread_def)

text \<open>
  \<^verbatim>\<open>ReadInt64\<close> reads back the number \<^verbatim>\<open>WriteInt64\<close> wrote when the stack byte behind the copied
  digits happens not to be a digit.  Without that luck it does not, because the digits are not
  NUL-terminated: there is stack content with which 12 is read back as 127.
\<close>

theorem int64_roundtrip:
  assumes "\<not> is_digit (junk (length (print_int (sint (v :: int64)))))"
    and "unread r = WriteInt64 v False [] @ t"
  shows "(\<exists>r'. ReadInt64 junk r = Inr (Some (sint v), r') \<and> unread r' = t) \<and>
    fst (projr (ReadInt64 (\<lambda>i. if i = 2 then 55 else 0)
      \<lparr>rd_data = WriteInt64 12 False [], rd_cur = 0\<rparr>)) = Some 127"
proof
  let ?s = "print_int (sint v)"
  have l: "length ?s \<le> 20" by (rule length_print_int64)
  have u: "unread r = write7BitEncoded (word_of_nat (length ?s) :: 64 word) [] @ ?s @ t"
    using assms(2) by (simp add: WriteInt64_def WriteCString_def)
  have read: "ReadCString 128 r = Inr (Some ?s, Some (length ?s),
      advance (length (write7BitEncoded (word_of_nat (length ?s) :: 64 word) [] @ ?s)) r)"
    using ReadCString_field [of ?s 128 r t] l u by simp
  have rest: "drop (length ?s) (map junk [0..<128]) = junk (length ?s) # drop (Suc (length ?s)) (map junk [0..<128])"
    using l by (subst Cons_nth_drop_Suc [symmetric]) simp_all
  have "- (2 ^ 63) \<le> sint v" "sint v < 2 ^ 63"
    using sint_ge [of v] sint_lt [of v] by simp_all
  then have "atoll (overwrite 0 ?s (map junk [0..<128])) = Some (sint v)"
    using atoll_print_int [of "sint v", OF _ _ assms(1)] rest by (simp add: overwrite_def)
  then show "\<exists>r'. ReadInt64 junk r = Inr (Some (sint v), r') \<and> unread r' = t"
    using read unread_advance [of r "write7BitEncoded (word_of_nat (length ?s) :: 64 word) [] @ ?s" t] u
    by (simp add: ReadInt64_def)
  show "fst (projr (ReadInt64 (\<lambda>i. if i = 2 then 55 else 0)
      \<lparr>rd_data = WriteInt64 12 False [], rd_cur = 0\<rparr>)) = Some 127"
    by code_simp
qed

theorem int64_roundtrip_witness:
  "\<exists>r'. ReadInt64 (\<lambda>_. 0) \<lparr>rd_data = WriteInt64 (- 5) False [], rd_cur = 0\<rparr> = Inr (Some (- 5), r')"
  using int64_roundtrip [of "\<lambda>_. 0" "- 5" "\<lparr>rd_data = WriteInt64 (- 5) False [], rd_cur = 0\<rparr>" "[]"]
  by (auto simp: unread_def is_digit_def)

text \<open>
  The checksum is the one's complement of the one's complement sum of the 16-bit words, for
  every buffer of at most 128 KiB (so that the 32-bit accumulator does not wrap), of odd or
  even length; the folding loop terminates on every accumulator.
\<close>

theorem checksum_ones_complement:
  assumes "length bs \<le> 131072"
  shows "unat (checksum bs) = 65535 - ones_residue (sum16 bs)"
proof -
  have "(length bs + 1) div 2 \<le> 65536" using assms by simp
  then have "sum16 bs \<le> 65535 * 65536"
    by (meson order_trans sum16_bound mult_le_mono2)
  then have "unat (checksum_sum 0 bs) = sum16 bs"
    using unat_checksum_sum [of 0 bs] by simp
  then show ?thesis
    using unat_not16 [of "checksum_fold (checksum_sum 0 bs)"] ones_residue_bound
    by (simp add: checksum_def unat_checksum_fold)
qed

theorem checksum_ones_complement_witness: "unat (checksum [1, 2, 3]) = 65535 - ones_residue 516"
  using checksum_ones_complement [of "[1, 2, 3]"] by simp

end
