(* ===== verification/Mysql_Api.thy ===== *)
theory Mysql_Api
  imports Protocol_Stream
begin

text \<open>
  The database layer: \<^verbatim>\<open>mysqlapi/\<close> (\<^verbatim>\<open>Field\<close>, \<^verbatim>\<open>Row\<close>, \<^verbatim>\<open>QueryResult\<close>, \<^verbatim>\<open>CDatabaseMysql\<close>) and
  \<^verbatim>\<open>mysqlmgr/MysqlManager\<close>.  The MySQL client library and the server behind it are the parameter
  \<open>mysql_api\<close>, functions on a world \<open>'m\<close>.  Undefined behaviour (a connection handle used after
  \<^verbatim>\<open>mysql_close\<close>, an index outside a vector, \<^verbatim>\<open>back()\<close> of an empty string) is an error value.
\<close>

section \<open>Fields and rows\<close>

datatype db_error = Use_after_free | Index_out_of_range | Back_of_empty

datatype DataTypes = DB_TYPE_UNKNOWN | DB_TYPE_STRING | DB_TYPE_INTEGER | DB_TYPE_FLOAT | DB_TYPE_BOOL

datatype enum_field_types =
    FIELD_TYPE_TIMESTAMP | FIELD_TYPE_DATE | FIELD_TYPE_TIME | FIELD_TYPE_DATETIME | FIELD_TYPE_YEAR
  | FIELD_TYPE_STRING | FIELD_TYPE_VAR_STRING | FIELD_TYPE_BLOB | FIELD_TYPE_SET | FIELD_TYPE_NULL
  | FIELD_TYPE_TINY | FIELD_TYPE_SHORT | FIELD_TYPE_LONG | FIELD_TYPE_INT24 | FIELD_TYPE_LONGLONG
  | FIELD_TYPE_ENUM | FIELD_TYPE_DECIMAL | FIELD_TYPE_FLOAT | FIELD_TYPE_DOUBLE | FIELD_TYPE_OTHER nat

definition toLowerString :: "bytes \<Rightarrow> bytes" where
  "toLowerString str = map (\<lambda>c. if 65 \<le> c \<and> c \<le> 90 then c + 32 else c) str"

record field =
  m_strFieldName :: bytes
  m_iType :: DataTypes

definition Field_default :: field where
  "Field_default = \<lparr>m_strFieldName = [], m_iType = DB_TYPE_UNKNOWN\<rparr>"

definition Field :: "bytes \<Rightarrow> DataTypes \<Rightarrow> field" where
  "Field name ty = \<lparr>m_strFieldName = toLowerString name, m_iType = ty\<rparr>"

definition setName :: "bytes \<Rightarrow> field \<Rightarrow> field" where
  "setName strName f = f\<lparr>m_strFieldName := toLowerString strName\<rparr>"

fun printType :: "DataTypes \<Rightarrow> bytes" where
  "printType DB_TYPE_STRING = lit ''DB_TYPE_STRING''"
| "printType DB_TYPE_INTEGER = lit ''DB_TYPE_INTEGER''"
| "printType DB_TYPE_FLOAT = lit ''DB_TYPE_FLOAT''"
| "printType DB_TYPE_BOOL = lit ''DB_TYPE_BOOL''"
| "printType DB_TYPE_UNKNOWN = lit ''DB_TYPE_UNKNOWN''"

definition Field_toString :: "field \<Rightarrow> bytes" where
  "Field_toString f = lit ''| '' @ m_strFieldName f @ lit '' ( '' @ printType (m_iType f) @ lit '' ) | ''"

text \<open>
  A row of the client library: one cell per column, \<open>None\<close> for SQL NULL (a null pointer of
  length 0, which \<^verbatim>\<open>std::string(p, 0)\<close> turns into the empty string).
\<close>

type_synonym mysql_row = "bytes option list"

record row =
  m_strValues :: "bytes list"
  m_uLens :: "nat list"

definition Row :: "mysql_row \<Rightarrow> nat \<Rightarrow> row" where
  "Row r fieldCounts =
     (let vals = map (\<lambda>c. case c of None \<Rightarrow> [] | Some v \<Rightarrow> v) (take fieldCounts r)
      in \<lparr>m_strValues = vals, m_uLens = map length vals\<rparr>)"

definition Row_toString :: "row \<Rightarrow> bytes" where
  "Row_toString r =
     lit ''|'' @ concat (map (\<lambda>(v, n). lit ''('' @ v @ lit '')('' @ print_int (int n) @ lit '')'')
                   (zip (m_strValues r) (m_uLens r))) @ lit ''|'' @ [10]"

section \<open>QueryResult\<close>

text \<open>\<^verbatim>\<open>MYSQL_RES\<close> after \<^verbatim>\<open>mysql_store_result\<close>: the columns and all rows.\<close>

record mysql_res =
  res_fields :: "(bytes \<times> enum_field_types) list"
  res_rows :: "mysql_row list"

record query_result =
  m_FieldCount :: nat
  m_Fields :: "field list"
  m_RowCount :: nat
  m_Rows :: "row list"

fun convertNativeType :: "enum_field_types \<Rightarrow> DataTypes" where
  "convertNativeType FIELD_TYPE_TIMESTAMP = DB_TYPE_STRING"
| "convertNativeType FIELD_TYPE_DATE = DB_TYPE_STRING"
| "convertNativeType FIELD_TYPE_TIME = DB_TYPE_STRING"
| "convertNativeType FIELD_TYPE_DATETIME = DB_TYPE_STRING"
| "convertNativeType FIELD_TYPE_YEAR = DB_TYPE_STRING"
| "convertNativeType FIELD_TYPE_STRING = DB_TYPE_STRING"
| "convertNativeType FIELD_TYPE_VAR_STRING = DB_TYPE_STRING"
| "convertNativeType FIELD_TYPE_BLOB = DB_TYPE_STRING"
| "convertNativeType FIELD_TYPE_SET = DB_TYPE_STRING"
| "convertNativeType FIELD_TYPE_NULL = DB_TYPE_STRING"
| "convertNativeType FIELD_TYPE_TINY = DB_TYPE_INTEGER"
| "convertNativeType FIELD_TYPE_SHORT = DB_TYPE_INTEGER"
| "convertNativeType FIELD_TYPE_LONG = DB_TYPE_INTEGER"
| "convertNativeType FIELD_TYPE_INT24 = DB_TYPE_INTEGER"
| "convertNativeType FIELD_TYPE_LONGLONG = DB_TYPE_INTEGER"
| "convertNativeType FIELD_TYPE_ENUM = DB_TYPE_INTEGER"
| "convertNativeType FIELD_TYPE_DECIMAL = DB_TYPE_FLOAT"
| "convertNativeType FIELD_TYPE_FLOAT = DB_TYPE_FLOAT"
| "convertNativeType FIELD_TYPE_DOUBLE = DB_TYPE_FLOAT"
| "convertNativeType (FIELD_TYPE_OTHER n) = DB_TYPE_UNKNOWN"

definition QueryResult :: "mysql_res \<Rightarrow> query_result" where
  "QueryResult res =
     (let n = length (res_fields res)
      in \<lparr>m_FieldCount = n,
          m_Fields = map (\<lambda>(name, ty). Field name (convertNativeType ty)) (res_fields res),
          m_RowCount = length (res_rows res),
          m_Rows = map (\<lambda>r. Row r n) (res_rows res)\<rparr>)"

text \<open>\<^verbatim>\<open>printResult\<close> indexes both vectors up to the stored counts.\<close>

definition printResult :: "query_result \<Rightarrow> db_error + bytes" where
  "printResult q =
     (if m_FieldCount q > length (m_Fields q) \<or> m_RowCount q > length (m_Rows q) then Inl Index_out_of_range
      else Inr (lit ''fields:============================='' @ [10] @
                concat (map Field_toString (take (m_FieldCount q) (m_Fields q))) @ [10] @
                lit ''Rows:==========================='' @ [10] @
                concat (map Row_toString (take (m_RowCount q) (m_Rows q)))))"

section \<open>CDatabaseMysql\<close>

record 'm mysql_api =
  mysql_real_connect :: "bytes \<Rightarrow> bytes \<Rightarrow> bytes \<Rightarrow> bytes \<Rightarrow> 'm \<Rightarrow> bool \<times> 'm"
  mysql_real_query :: "bytes \<Rightarrow> 'm \<Rightarrow> int \<times> 'm"
  mysql_errno :: "'m \<Rightarrow> nat"
  mysql_store_result :: "'m \<Rightarrow> mysql_res option \<times> 'm"
  mysql_field_count :: "'m \<Rightarrow> nat"

definition CR_SERVER_GONE_ERROR :: nat where
  "CR_SERVER_GONE_ERROR = 2006"

record database_info =
  strHost :: bytes
  strUser :: bytes
  strPwd :: bytes
  strDBName :: bytes

text \<open>The handle \<^verbatim>\<open>m_Mysql\<close> is null or not; \<^verbatim>\<open>mysql_close\<close> frees it but leaves the pointer as it is.\<close>

record database =
  m_DBInfo :: database_info
  m_Mysql :: bool
  m_bInit :: bool

definition CDatabaseMysql :: database where
  "CDatabaseMysql = \<lparr>m_DBInfo = \<lparr>strHost = [], strUser = [], strPwd = [], strDBName = []\<rparr>,
                     m_Mysql = False, m_bInit = False\<rparr>"

text \<open>
  \<^verbatim>\<open>initialize\<close>: on an initialised object the handle is closed, hence freed, and then passed to
  \<^verbatim>\<open>mysql_init\<close>.  The result of the \<^verbatim>\<open>set names utf8\<close> statement is not looked at.
\<close>

definition initialize ::
  "'m mysql_api \<Rightarrow> bytes \<Rightarrow> bytes \<Rightarrow> bytes \<Rightarrow> bytes \<Rightarrow> database \<Rightarrow> 'm \<Rightarrow> db_error + (bool \<times> database \<times> 'm)" where
  "initialize api host user pwd dbname db w =
     (if m_bInit db \<and> m_Mysql db then Inl Use_after_free
      else (let (ok, w1) = mysql_real_connect api host user pwd dbname w;
                info = \<lparr>strHost = host, strUser = user, strPwd = pwd, strDBName = dbname\<rparr>
            in if ok
               then Inr (True, db\<lparr>m_DBInfo := info, m_Mysql := True, m_bInit := True\<rparr>,
                         snd (mysql_real_query api (lit ''set names utf8'') w1))
               else Inr (False, db\<lparr>m_DBInfo := info, m_Mysql := False\<rparr>, w1)))"

definition reinitialize :: "'m mysql_api \<Rightarrow> database \<Rightarrow> 'm \<Rightarrow> db_error + (bool \<times> database \<times> 'm)" where
  "reinitialize api db w =
     initialize api (strHost (m_DBInfo db)) (strUser (m_DBInfo db)) (strPwd (m_DBInfo db)) (strDBName (m_DBInfo db)) db w"

definition fetch_result ::
  "'m mysql_api \<Rightarrow> database \<Rightarrow> 'm \<Rightarrow> db_error + (query_result option \<times> database \<times> 'm)" where
  "fetch_result api db w =
     (case mysql_store_result api w of
        (None, w1) \<Rightarrow> Inr (None, db, w1)
      | (Some res, w1) \<Rightarrow>
          if mysql_field_count api w1 = 0 then Inr (None, db, w1) else Inr (Some (QueryResult res), db, w1))"

definition run_query ::
  "'m mysql_api \<Rightarrow> bytes \<Rightarrow> database \<Rightarrow> 'm \<Rightarrow> db_error + (query_result option \<times> database \<times> 'm)" where
  "run_query api sql db w =
     (let (ret, w1) = mysql_real_query api sql w
      in if ret = 0 then fetch_result api db w1
         else if mysql_errno api w1 = CR_SERVER_GONE_ERROR
         then (case reinitialize api db w1 of
                 Inl e \<Rightarrow> Inl e
               | Inr (False, db1, w2) \<Rightarrow> Inr (None, db1, w2)
               | Inr (True, db1, w2) \<Rightarrow> fetch_result api db1 (snd (mysql_real_query api sql w2)))
         else Inr (None, db, w1))"

definition query ::
  "'m mysql_api \<Rightarrow> bytes \<Rightarrow> database \<Rightarrow> 'm \<Rightarrow> db_error + (query_result option \<times> database \<times> 'm)" where
  "query api sql db w =
     (if \<not> m_Mysql db
      then (case reinitialize api db w of
              Inl e \<Rightarrow> Inl e
            | Inr (False, db1, w1) \<Rightarrow> Inr (None, db1, w1)
            | Inr (True, db1, w1) \<Rightarrow> run_query api sql db1 w1)
      else run_query api sql db w)"

text \<open>
  \<^verbatim>\<open>execute\<close> (both overloads; the second also reports the return value of the retry): once the
  first attempt has failed, the result is false even when the retry succeeds.
\<close>

definition execute_errno ::
  "'m mysql_api \<Rightarrow> bytes \<Rightarrow> int \<Rightarrow> database \<Rightarrow> 'm \<Rightarrow> db_error + (bool \<times> int \<times> database \<times> 'm)" where
  "execute_errno api sql nErrno db w =
     (if \<not> m_Mysql db then Inr (False, nErrno, db, w)
      else (let (ret, w1) = mysql_real_query api sql w
            in if ret = 0 then Inr (True, nErrno, db, w1)
               else if mysql_errno api w1 = CR_SERVER_GONE_ERROR
               then (case reinitialize api db w1 of
                       Inl e \<Rightarrow> Inl e
                     | Inr (False, db1, w2) \<Rightarrow> Inr (False, nErrno, db1, w2)
                     | Inr (True, db1, w2) \<Rightarrow>
                         (let (ret2, w3) = mysql_real_query api sql w2 in Inr (False, ret2, db1, w3)))
               else Inr (False, nErrno, db, w1)))"

definition execute :: "'m mysql_api \<Rightarrow> bytes \<Rightarrow> database \<Rightarrow> 'm \<Rightarrow> db_error + (bool \<times> database \<times> 'm)" where
  "execute api sql db w =
     (if \<not> m_Mysql db then Inr (False, db, w)
      else (let (ret, w1) = mysql_real_query api sql w
            in if ret = 0 then Inr (True, db, w1)
               else if mysql_errno api w1 = CR_SERVER_GONE_ERROR
               then (case reinitialize api db w1 of
                       Inl e \<Rightarrow> Inl e
                     | Inr (False, db1, w2) \<Rightarrow> Inr (False, db1, w2)
                     | Inr (True, db1, w2) \<Rightarrow> Inr (False, db1, snd (mysql_real_query api sql w2)))
               else Inr (False, db, w1)))"

section \<open>CMysqlManager\<close>

record mysql_manager =
  m_poConn :: "database option"
  m_strHost :: bytes
  m_strUser :: bytes
  m_strPassword :: bytes
  m_strDataBase :: bytes

definition isDBExist ::
  "'m mysql_api \<Rightarrow> mysql_manager \<Rightarrow> 'm \<Rightarrow> db_error + (bool \<times> mysql_manager \<times> 'm)" where
  "isDBExist api mm w =
     (case m_poConn mm of
        None \<Rightarrow> Inr (False, mm, w)
      | Some db \<Rightarrow>
          (case query api (lit ''SHOW DATABASES;'') db w of
             Inl e \<Rightarrow> Inl e
           | Inr (None, db1, w1) \<Rightarrow> Inr (False, mm\<lparr>m_poConn := Some db1\<rparr>, w1)
           | Inr (Some res, db1, w1) \<Rightarrow>
               Inr (\<exists>r\<in>set (m_Rows res). m_strDataBase mm \<in> set (m_strValues r), mm\<lparr>m_poConn := Some db1\<rparr>, w1)))"

definition createDB ::
  "'m mysql_api \<Rightarrow> mysql_manager \<Rightarrow> 'm \<Rightarrow> db_error + (bool \<times> mysql_manager \<times> 'm)" where
  "createDB api mm w =
     (case m_poConn mm of
        None \<Rightarrow> Inr (False, mm, w)
      | Some db \<Rightarrow>
          (case execute_errno api (lit ''CREATE DATABASE '' @ m_strDataBase mm @ lit '';'') 0 db w of
             Inl e \<Rightarrow> Inl e
           | Inr (True, _, db1, w1) \<Rightarrow> isDBExist api (mm\<lparr>m_poConn := Some db1\<rparr>) w1
           | Inr (False, _, db1, w1) \<Rightarrow> Inr (False, mm\<lparr>m_poConn := Some db1\<rparr>, w1)))"

text \<open>\<^verbatim>\<open>std::getline\<close> until it fails: the newline-separated lines, without an empty last one.\<close>

fun getlines :: "bytes \<Rightarrow> bytes \<Rightarrow> bytes list" where
  "getlines cur [] = (if cur = [] then [] else [cur])"
| "getlines cur (c # cs) = (if c = 10 then cur # getlines [] cs else getlines (cur @ [c]) cs)"

fun initDataLoop ::
  "'m mysql_api \<Rightarrow> bytes \<Rightarrow> bytes list \<Rightarrow> database \<Rightarrow> 'm \<Rightarrow> db_error + (bool \<times> database \<times> 'm)" where
  "initDataLoop api q [] db w = Inr (True, db, w)"
| "initDataLoop api q (line # rest) db w =
     (if line = [] then Inl Back_of_empty
      else if last line = 59
      then (case execute api (q @ line) db w of
              Inl e \<Rightarrow> Inl e
            | Inr (False, db1, w1) \<Rightarrow> Inr (False, db1, w1)
            | Inr (True, db1, w1) \<Rightarrow> initDataLoop api [] rest db1 w1)
      else initDataLoop api (q @ line) rest db w)"

text \<open>\<^verbatim>\<open>initData\<close> on the content of the file, \<open>None\<close> when it cannot be opened.\<close>

definition initData ::
  "'m mysql_api \<Rightarrow> bytes option \<Rightarrow> database \<Rightarrow> 'm \<Rightarrow> db_error + (bool \<times> database \<times> 'm)" where
  "initData api file db w =
     (case file of None \<Rightarrow> Inr (False, db, w) | Some content \<Rightarrow> initDataLoop api [] (getlines [] content) db w)"

text \<open>\<^verbatim>\<open>init\<close>: the password argument may be a null pointer; the argument \<open>file\<close> is \<^verbatim>\<open>../etc/Data.sql\<close>.\<close>

definition mysql_init_tail ::
  "'m mysql_api \<Rightarrow> bytes option \<Rightarrow> mysql_manager \<Rightarrow> 'm \<Rightarrow> db_error + (bool \<times> mysql_manager \<times> 'm)" where
  "mysql_init_tail api file mm w =
     (case initialize api (m_strHost mm) (m_strUser mm) (m_strPassword mm) (m_strDataBase mm) CDatabaseMysql w of
        Inl e \<Rightarrow> Inl e
      | Inr (False, db, w1) \<Rightarrow> Inr (False, mm\<lparr>m_poConn := Some db\<rparr>, w1)
      | Inr (True, db, w1) \<Rightarrow>
          (case initData api file db w1 of
             Inl e \<Rightarrow> Inl e
           | Inr (False, db1, w2) \<Rightarrow> Inr (False, mm\<lparr>m_poConn := Some db1\<rparr>, w2)
           | Inr (True, db1, w2) \<Rightarrow> Inr (True, mm\<lparr>m_poConn := None\<rparr>, w2)))"

definition MysqlManager_init ::
  "'m mysql_api \<Rightarrow> bytes option \<Rightarrow> bytes \<Rightarrow> bytes \<Rightarrow> bytes option \<Rightarrow> bytes \<Rightarrow> mysql_manager \<Rightarrow> 'm
     \<Rightarrow> db_error + (bool \<times> mysql_manager \<times> 'm)" where
  "MysqlManager_init api file host user pwd dbname mm w =
     (let mm1 = mm\<lparr>m_strHost := host, m_strUser := user,
                   m_strPassword := (case pwd of None \<Rightarrow> m_strPassword mm | Some p \<Rightarrow> p), m_strDataBase := dbname\<rparr>
      in case initialize api host user (m_strPassword mm1) [] CDatabaseMysql w of
           Inl e \<Rightarrow> Inl e
         | Inr (False, db, w1) \<Rightarrow> Inr (False, mm1\<lparr>m_poConn := Some db\<rparr>, w1)
         | Inr (True, db, w1) \<Rightarrow>
             (case isDBExist api (mm1\<lparr>m_poConn := Some db\<rparr>) w1 of
                Inl e \<Rightarrow> Inl e
              | Inr (True, mm2, w2) \<Rightarrow> mysql_init_tail api file mm2 w2
              | Inr (False, mm2, w2) \<Rightarrow>
                  (case createDB api mm2 w2 of
                     Inl e \<Rightarrow> Inl e
                   | Inr (False, mm3, w3) \<Rightarrow> Inr (False, mm3, w3)
                   | Inr (True, mm3, w3) \<Rightarrow> mysql_init_tail api file mm3 w3)))"

section \<open>Lemmas\<close>

text \<open>Reference reading of a script: the statements it holds, each ending in a semicolon.\<close>

fun statements :: "bytes \<Rightarrow> bytes list \<Rightarrow> bytes list" where
  "statements q [] = []"
| "statements q (line # rest) =
     (if line \<noteq> [] \<and> last line = 59 then (q @ line) # statements [] rest else statements (q @ line) rest)"

fun execute_all ::
  "'m mysql_api \<Rightarrow> bytes list \<Rightarrow> database \<Rightarrow> 'm \<Rightarrow> db_error + (bool \<times> database \<times> 'm)" where
  "execute_all api [] db w = Inr (True, db, w)"
| "execute_all api (s # ss) db w =
     (case execute api s db w of
        Inl e \<Rightarrow> Inl e
      | Inr (ok, db1, w1) \<Rightarrow> if ok then execute_all api ss db1 w1 else Inr (False, db1, w1))"

lemma initDataLoop_execute_all:
  "[] \<notin> set ls \<Longrightarrow> initDataLoop api q ls db w = execute_all api (statements q ls) db w"
  by (induction api q ls db w rule: initDataLoop.induct) (auto split: sum.splits bool.splits)

lemma statements_end: "s \<in> set (statements q ls) \<Longrightarrow> s \<noteq> [] \<and> last s = 59"
  by (induction q ls rule: statements.induct) (auto split: if_splits)

lemma statements_text: "\<exists>r. concat (statements q ls) @ r = q @ concat ls"
proof (induction q ls rule: statements.induct)
  case (2 q line rest)
  then show ?case by (cases "line \<noteq> [] \<and> last line = 59") auto
qed auto

lemma concat_getlines: "concat (getlines cur cs) = cur @ filter (\<lambda>c. c \<noteq> 10) cs"
  by (induction cur cs rule: getlines.induct) auto

text \<open>A handle in use is an initialised one: kept by every operation of the class.\<close>

definition db_inv :: "database \<Rightarrow> bool" where
  "db_inv db \<longleftrightarrow> (m_Mysql db \<longrightarrow> m_bInit db)"

lemma db_inv_new [simp]: "db_inv CDatabaseMysql"
  by (simp add: db_inv_def CDatabaseMysql_def)

lemma initialize_inv: "db_inv db \<Longrightarrow> initialize api h u p d db w = Inr (ok, db', w') \<Longrightarrow> db_inv db' \<and> m_Mysql db' = ok"
  by (auto simp: initialize_def db_inv_def Let_def split: prod.splits if_splits)

lemma initialize_fresh: "\<not> m_Mysql db \<Longrightarrow> \<exists>r. initialize api h u p d db w = Inr r"
  by (auto simp: initialize_def Let_def split: prod.splits)

lemma execute_keeps:
  "db_inv db \<Longrightarrow> execute api sql db w = Inr (ok, db', w') \<Longrightarrow> db' = db"
  by (auto simp: execute_def reinitialize_def initialize_def db_inv_def Let_def split: prod.splits if_splits sum.splits bool.splits)

lemma execute_lost_connection:
  assumes "m_Mysql db" and "db_inv db"
  shows "execute api sql db w = Inl Use_after_free \<longleftrightarrow>
    fst (mysql_real_query api sql w) \<noteq> 0 \<and> mysql_errno api (snd (mysql_real_query api sql w)) = CR_SERVER_GONE_ERROR"
  using assms by (auto simp: execute_def reinitialize_def initialize_def db_inv_def Let_def split: prod.splits)

lemma query_lost_connection:
  assumes "m_Mysql db" and "db_inv db"
  shows "query api sql db w = Inl Use_after_free \<longleftrightarrow>
    fst (mysql_real_query api sql w) \<noteq> 0 \<and> mysql_errno api (snd (mysql_real_query api sql w)) = CR_SERVER_GONE_ERROR"
  using assms
  by (auto simp: query_def run_query_def fetch_result_def reinitialize_def initialize_def db_inv_def Let_def
      split: prod.splits option.splits)

lemma query_connected:
  assumes "m_Mysql db" and "mysql_real_query api sql w = (0, w1)"
    and "mysql_store_result api w1 = (Some res, w2)" and "mysql_field_count api w2 \<noteq> 0"
  shows "query api sql db w = Inr (Some (QueryResult res), db, w2)"
  using assms by (simp add: query_def run_query_def fetch_result_def)

lemma QueryResult_rows:
  "r \<in> set (m_Rows (QueryResult res)) \<Longrightarrow> length (m_strValues r) \<le> m_FieldCount (QueryResult res)"
  by (auto simp: QueryResult_def Row_def Let_def)

lemma printResult_QueryResult: "\<exists>s. printResult (QueryResult res) = Inr s"
  by (simp add: printResult_def QueryResult_def Let_def)

section \<open>Properties\<close>

text \<open>
  A connection that has gone away is never re-established: whenever a statement on a connected
  object fails with \<^verbatim>\<open>CR_SERVER_GONE_ERROR\<close>, the reconnect path hands the handle that
  \<^verbatim>\<open>mysql_close\<close> has just freed to \<^verbatim>\<open>mysql_init\<close>; in every other case \<^verbatim>\<open>query\<close> and \<^verbatim>\<open>execute\<close> are
  defined.
\<close>

theorem reconnect_uses_freed_handle:
  assumes "initialize api host user pwd dbname CDatabaseMysql w0 = Inr (True, db, w1)"
  shows "(query api sql db w = Inl Use_after_free \<longleftrightarrow>
      fst (mysql_real_query api sql w) \<noteq> 0 \<and> mysql_errno api (snd (mysql_real_query api sql w)) = CR_SERVER_GONE_ERROR) \<and>
    (execute api sql db w = Inl Use_after_free \<longleftrightarrow>
      fst (mysql_real_query api sql w) \<noteq> 0 \<and> mysql_errno api (snd (mysql_real_query api sql w)) = CR_SERVER_GONE_ERROR)"
  using initialize_inv [OF db_inv_new assms] query_lost_connection [of db api sql w]
    execute_lost_connection [of db api sql w] by simp

text \<open>A client library whose world counts the calls: the connection is lost from the third statement on.\<close>

definition flaky_api :: "nat mysql_api" where
  "flaky_api = \<lparr>mysql_real_connect = (\<lambda>_ _ _ _ n. (True, n)), mysql_real_query = (\<lambda>_ n. (if n < 2 then 0 else 1, n + 1)),
     mysql_errno = (\<lambda>_. 2006), mysql_store_result = (\<lambda>n. (Some \<lparr>res_fields = [], res_rows = []\<rparr>, n)),
     mysql_field_count = (\<lambda>_. 1)\<rparr>"

theorem reconnect_uses_freed_handle_witness:
  "execute flaky_api (lit ''SELECT 1'') (fst (snd (projr (initialize flaky_api [] [] [] [] CDatabaseMysql 0)))) 2
     = Inl Use_after_free"
  using reconnect_uses_freed_handle [of flaky_api "[]" "[]" "[]" "[]" 0
      "fst (snd (projr (initialize flaky_api [] [] [] [] CDatabaseMysql 0)))" 1 "lit ''SELECT 1''" 2]
  by (simp add: flaky_api_def initialize_def CDatabaseMysql_def CR_SERVER_GONE_ERROR_def)

text \<open>
  A database script without empty lines is executed statement by statement, in order and up to
  the first failure: each statement ends in a semicolon and together they are a prefix of the
  text of the file without its line breaks.  (An empty line makes \<^verbatim>\<open>initData\<close> call \<^verbatim>\<open>back()\<close> on an
  empty string, which is undefined, as the last conjunct shows.)
\<close>

theorem initData_runs_statements:
  assumes "[] \<notin> set (getlines [] content)"
  shows "\<exists>ss r. initData api (Some content) db w = execute_all api ss db w \<and>
      (\<forall>s\<in>set ss. s \<noteq> [] \<and> last s = 59) \<and> concat ss @ r = filter (\<lambda>c. c \<noteq> 10) content \<and>
      initData api (Some (10 # content)) db w = Inl Back_of_empty"
proof -
  obtain r where "concat (statements [] (getlines [] content)) @ r = concat (getlines [] content)"
    using statements_text [of "[]" "getlines [] content"] by auto
  then show ?thesis
    using initDataLoop_execute_all [OF assms, of api "[]" db w] statements_end
    by (intro exI [of _ "statements [] (getlines [] content)"] exI [of _ r])
      (auto simp: initData_def concat_getlines)
qed

theorem initData_runs_statements_witness:
  "\<exists>ss r. initData flaky_api (Some (lit ''USE t;'')) CDatabaseMysql 0 = execute_all flaky_api ss CDatabaseMysql 0 \<and>
     concat ss @ r = lit ''USE t;''"
  using initData_runs_statements [of "lit ''USE t;''" flaky_api CDatabaseMysql 0] by (auto simp: lit_def)

end
