(* ===== verification/Std_Map.thy ===== *)
theory Std_Map
  imports Prelude
begin

text \<open>
  \<^verbatim>\<open>std::map\<close> as the list of its pairs in the order of the keys, with the operations the program uses:
  \<^verbatim>\<open>find\<close>, \<^verbatim>\<open>insert\<close> (an existing key keeps its value), assignment through \<^verbatim>\<open>operator[]\<close> and \<^verbatim>\<open>erase\<close>.
  The locale states what a client may rely on.
\<close>

fun map_find :: "'k \<Rightarrow> ('k \<times> 'v) list \<Rightarrow> 'v option" where
  "map_find k [] = None"
| "map_find k ((k', v) # m) = (if k = k' then Some v else map_find k m)"

fun map_insert :: "'k::linorder \<Rightarrow> 'v \<Rightarrow> ('k \<times> 'v) list \<Rightarrow> ('k \<times> 'v) list" where
  "map_insert k v [] = [(k, v)]"
| "map_insert k v ((k', v') # m) =
     (if k < k' then (k, v) # (k', v') # m else if k' < k then (k', v') # map_insert k v m else (k', v') # m)"

fun map_assign :: "'k \<Rightarrow> 'v \<Rightarrow> ('k \<times> 'v) list \<Rightarrow> ('k \<times> 'v) list" where
  "map_assign k v [] = []"
| "map_assign k v ((k', v') # m) = (if k = k' then (k', v) # m else (k', v') # map_assign k v m)"

text \<open>\<^verbatim>\<open>m[k] = v\<close>.\<close>

definition map_set :: "'k::linorder \<Rightarrow> 'v \<Rightarrow> ('k \<times> 'v) list \<Rightarrow> ('k \<times> 'v) list" where
  "map_set k v m = (if map_find k m \<noteq> None then map_assign k v m else map_insert k v m)"

definition map_erase :: "'k \<Rightarrow> ('k \<times> 'v) list \<Rightarrow> ('k \<times> 'v) list" where
  "map_erase k m = filter (\<lambda>p. fst p \<noteq> k) m"

definition map_ok :: "('k::linorder \<times> 'v) list \<Rightarrow> bool" where
  "map_ok m \<longleftrightarrow> sorted_wrt (<) (map fst m)"

lemma map_find_None: "map_find k m = None \<longleftrightarrow> k \<notin> fst ` set m"
  by (induction m) (auto split: if_splits)

lemma map_find_in: "map_find k m = Some v \<Longrightarrow> (k, v) \<in> set m"
  by (induction m) (auto split: if_splits)

lemma map_find_iff: "map_ok m \<Longrightarrow> map_find k m = Some v \<longleftrightarrow> (k, v) \<in> set m"
  by (induction m) (auto simp: map_ok_def split: if_splits)

lemma map_find_assign: "map_find k m \<noteq> None \<Longrightarrow> map_find j (map_assign k v m) = (if j = k then Some v else map_find j m)"
  by (induction m) auto

lemma map_find_insert: "map_find k m = None \<Longrightarrow> map_find j (map_insert k v m) = (if j = k then Some v else map_find j m)"
  by (induction m) (auto split: if_splits)

lemma map_find_erase: "map_find j (map_erase k m) = (if j = k then None else map_find j m)"
  by (induction m) (auto simp: map_erase_def)

lemma map_assign_keys: "map fst (map_assign k v m) = map fst m"
  by (induction m) auto

lemma map_assign_set: "set (map_assign k v m) \<subseteq> insert (k, v) (set m)"
  by (induction m) (auto split: if_splits)

lemma map_insert_set: "set (map_insert k v m) \<subseteq> insert (k, v) (set m)"
  by (induction m) (auto split: if_splits)

lemma map_set_length: "length (map_assign k v m) = length m" "length (map_insert k v m) \<le> Suc (length m)"
  by (induction m) auto

lemma map_insert_ok: "map_ok m \<Longrightarrow> map_ok (map_insert k v m)"
proof (induction m)
  case (Cons p m)
  obtain k' v' where "p = (k', v')" by (cases p)
  then show ?case using Cons map_insert_set [of k v m] by (fastforce simp: map_ok_def)
qed (simp add: map_ok_def)

lemma map_erase_ok: "map_ok m \<Longrightarrow> map_ok (map_erase k m)"
  by (induction m) (auto simp: map_ok_def map_erase_def)

lemma map_set_post:
  assumes "map_ok m"
  shows "map_ok (map_set k v m)" and "map_find j (map_set k v m) = (if j = k then Some v else map_find j m)"
    and "set (map_set k v m) \<subseteq> insert (k, v) (set m)"
  using assms map_assign_set [of k v m] map_insert_set [of k v m]
  by (simp_all add: map_set_def map_ok_def map_assign_keys map_find_assign map_find_insert map_insert_ok [unfolded map_ok_def])

lemma map_insert_last: "\<forall>q\<in>set m. fst q < k \<Longrightarrow> map_insert k v m = m @ [(k, v)]"
  by (induction m) auto

lemma insert_sorted_pairs:
  "map_ok (m @ ps) \<Longrightarrow> fold (\<lambda>p. map_insert (fst p) (snd p)) ps m = m @ ps"
proof (induction ps arbitrary: m)
  case (Cons p ps)
  then have "map_insert (fst p) (snd p) m = m @ [p]"
    by (intro map_insert_last [of m "fst p" "snd p", simplified]) (auto simp: map_ok_def sorted_wrt_append)
  then show ?case using Cons by simp
qed simp

section \<open>The interface\<close>

locale finite_map_interface =
  fixes find_in :: "'k \<Rightarrow> 'm \<Rightarrow> 'v option"
    and assign :: "'k \<Rightarrow> 'v \<Rightarrow> 'm \<Rightarrow> 'm"
    and erase :: "'k \<Rightarrow> 'm \<Rightarrow> 'm"
    and ok :: "'m \<Rightarrow> bool"
  assumes assign_ok: "ok m \<Longrightarrow> ok (assign k v m)"
    and erase_ok: "ok m \<Longrightarrow> ok (erase k m)"
    and find_assign: "ok m \<Longrightarrow> find_in j (assign k v m) = (if j = k then Some v else find_in j m)"
    and find_erase: "ok m \<Longrightarrow> find_in j (erase k m) = (if j = k then None else find_in j m)"
begin

text \<open>A fresh key can be added and taken away again; other keys are not touched by any sequence of operations.\<close>

lemma erase_assign_fresh: "ok m \<Longrightarrow> find_in k m = None \<Longrightarrow> find_in j (erase k (assign k v m)) = find_in j m"
  by (simp add: find_erase find_assign assign_ok)

lemma assigns_find:
  "ok m \<Longrightarrow> ok (fold (\<lambda>(k, v). assign k v) kvs m) \<and>
   (j \<notin> fst ` set kvs \<longrightarrow> find_in j (fold (\<lambda>(k, v). assign k v) kvs m) = find_in j m)"
  by (induction kvs arbitrary: m) (auto simp: assign_ok find_assign)

end

interpretation std_map: finite_map_interface map_find map_set map_erase map_ok
  by unfold_locales (simp_all add: map_set_post map_erase_ok map_find_erase)

end
