(* ===== verification/Json_Value.thy ===== *)
theory Json_Value
  imports Std_Map "HOL-Library.List_Lexorder"
begin

text \<open>
  The values of \<^verbatim>\<open>nlohmann::json\<close> (\<^verbatim>\<open>json/json.hpp\<close>) and the member functions the server calls on them:
  \<^verbatim>\<open>operator[]\<close> with a key, assignment through it, \<^verbatim>\<open>push_back\<close>, and the conversion to a string.  An
  object is a \<^verbatim>\<open>std::map<std::string, json>\<close>: the list of its members in the order of the keys
  (\<^verbatim>\<open>Std_Map\<close>).  Integers are kept at 64 bits, in the signed and the unsigned kind the library has;
  a \<^verbatim>\<open>double\<close> is its bit pattern.  The kinds \<^verbatim>\<open>binary\<close> and \<^verbatim>\<open>discarded\<close> are left out: neither the
  parser as the server calls it nor the server's own code makes such a value.
\<close>

section \<open>Values\<close>

datatype json =
  JNull | JBool bool | JInt int64 | JUnsigned int64 | JFloat int64 | JString bytes
| JArray "json list" | JObject "(bytes \<times> json) list"

text \<open>What is true of every value the class can hold: the members of an object are sorted by key.\<close>

fun json_ok :: "json \<Rightarrow> bool" where
  "json_ok (JArray js) = list_all json_ok js"
| "json_ok (JObject ms) = (map_ok ms \<and> list_all (\<lambda>m. json_ok (snd m)) ms)"
| "json_ok _ = True"

text \<open>\<^verbatim>\<open>std::isfinite\<close> on the bit pattern of a \<^verbatim>\<open>double\<close>.\<close>

definition is_finite :: "int64 \<Rightarrow> bool" where
  "is_finite x \<longleftrightarrow> drop_bit 52 x AND 0x7FF \<noteq> 0x7FF"

section \<open>Member functions\<close>

text \<open>
  \<^verbatim>\<open>j[key]\<close> on a value that is not const: null turns into an empty object, a missing member is made
  null, and anything but an object throws.  The result is the changed value; the reference is the
  member of that name.
\<close>

definition json_index :: "bytes \<Rightarrow> json \<Rightarrow> json option" where
  "json_index key j =
     (case j of
        JNull \<Rightarrow> Some (JObject [(key, JNull)])
      | JObject ms \<Rightarrow> Some (JObject (map_insert key JNull ms))
      | _ \<Rightarrow> None)"

definition json_member :: "bytes \<Rightarrow> json \<Rightarrow> json option" where
  "json_member key j = (case j of JObject ms \<Rightarrow> map_find key ms | _ \<Rightarrow> None)"

text \<open>\<^verbatim>\<open>j[key] = v\<close>.\<close>

definition json_set :: "bytes \<Rightarrow> json \<Rightarrow> json \<Rightarrow> json option" where
  "json_set key v j =
     (case json_index key j of
        Some (JObject ms) \<Rightarrow> Some (JObject (map_assign key v ms))
      | _ \<Rightarrow> None)"

text \<open>\<^verbatim>\<open>j.push_back(v)\<close>: null turns into an array, anything else but an array throws.\<close>

definition json_push_back :: "json \<Rightarrow> json \<Rightarrow> json option" where
  "json_push_back v j =
     (case j of JNull \<Rightarrow> Some (JArray [v]) | JArray js \<Rightarrow> Some (JArray (js @ [v])) | _ \<Rightarrow> None)"

text \<open>The conversion of a value to \<^verbatim>\<open>std::string\<close> throws unless it is a string.\<close>

definition json_get_string :: "json \<Rightarrow> bytes option" where
  "json_get_string j = (case j of JString s \<Rightarrow> Some s | _ \<Rightarrow> None)"

text \<open>\<^verbatim>\<open>string s = j["key"]\<close>.\<close>

definition json_string :: "bytes \<Rightarrow> json \<Rightarrow> bytes option" where
  "json_string key j =
     (case json_index key j of
        None \<Rightarrow> None
      | Some j' \<Rightarrow> (case json_member key j' of None \<Rightarrow> None | Some v \<Rightarrow> json_get_string v))"

section \<open>Lemmas\<close>

lemma map_find_above: "\<forall>q\<in>set m. a < fst q \<Longrightarrow> map_find k m = Some v \<Longrightarrow> a < k"
  by (drule map_find_in) auto

lemma map_insert_present: "map_ok m \<Longrightarrow> map_find k m = Some v \<Longrightarrow> map_insert k w m = m"
proof (induction m)
  case (Cons q m)
  then show ?case
    using map_find_above [of m "fst q" k v] by (cases q) (auto simp: map_ok_def split: if_splits)
qed simp

lemma map_assign_inserted: "map_find k m = None \<Longrightarrow> map_assign k v (map_insert k w m) = map_insert k v m"
  by (induction m) (auto split: if_splits)

lemma json_string_object [simp]:
  assumes "map_ok ms"
  shows "json_string key (JObject ms) = (case map_find key ms of Some (JString s) \<Rightarrow> Some s | _ \<Rightarrow> None)"
proof (cases "map_find key ms")
  case None
  then show ?thesis
    by (simp add: json_string_def json_index_def json_member_def json_get_string_def map_find_insert)
next
  case (Some v)
  then show ?thesis
    using map_insert_present [OF assms Some] by (simp add: json_string_def json_index_def json_member_def json_get_string_def split: json.split)
qed

lemma json_string_only_object: "json_string key j = Some s \<Longrightarrow> \<exists>ms. j = JObject ms"
  by (cases j) (auto simp: json_string_def json_index_def json_member_def json_get_string_def)

text \<open>Assigning a member keeps the order of the members.\<close>

lemma json_set_JNull: "json_set key v JNull = Some (JObject [(key, v)])"
  by (simp add: json_set_def json_index_def)

lemma map_assign_insert:
  "map_ok ms \<Longrightarrow> map_assign key v (map_insert key w ms) = map_set key v ms"
  by (cases "map_find key ms") (simp_all add: map_set_def map_insert_present map_assign_inserted)

lemma json_set_JObject: "map_ok ms \<Longrightarrow> json_set key v (JObject ms) = Some (JObject (map_set key v ms))"
  by (simp add: json_set_def json_index_def map_assign_insert)

lemma json_set_ok: "json_ok j \<Longrightarrow> json_ok v \<Longrightarrow> json_set key v j = Some j' \<Longrightarrow> json_ok j'"
proof (cases j)
  case (JObject ms)
  assume *: "json_ok j" "json_ok v" "json_set key v j = Some j'"
  then have "j' = JObject (map_set key v ms)" "map_ok ms" using JObject by (auto simp: json_set_JObject)
  then show ?thesis using * JObject map_set_post(1,3) [of ms key v] by (fastforce simp: list_all_iff)
qed (auto simp: json_set_def json_index_def map_ok_def)

lemma json_push_back_ok: "json_ok j \<Longrightarrow> json_ok v \<Longrightarrow> json_push_back v j = Some j' \<Longrightarrow> json_ok j'"
  by (cases j) (auto simp: json_push_back_def)

end
