(* ===== verification/Chat_Data.thy ===== *)
theory Chat_Data
  imports Mysql_Api Json_Value
begin

text \<open>
  The data the chat server keeps: \<^verbatim>\<open>UserManager\<close> (the users loaded from the database) and
  \<^verbatim>\<open>MsgCacheManager\<close> (the messages in a redis list), with \<^verbatim>\<open>utils/ConvertStringUtil.h\<close>.  The redis
  client is the parameter \<open>redis_api\<close>, functions on a world \<open>'r\<close> in which \<open>None\<close> or \<open>False\<close>
  is a thrown \<^verbatim>\<open>sw::redis::Error\<close>; the JSON printer and parser are a parameter \<open>json_api\<close>, in which
  \<open>None\<close> is a thrown \<^verbatim>\<open>nlohmann::json::exception\<close> (the theory \<^verbatim>\<open>Chat_Json\<close> puts the library's own there).
  What the code relies on of redis lists is the predicate \<open>redis_lists\<close>.
\<close>

section \<open>The JSON library as the server calls it\<close>

record json_api =
  json_parse :: "bytes \<Rightarrow> json option"
  json_dump :: "json \<Rightarrow> bytes option"

text \<open>A default-constructed value with elements pushed back: null until the first one arrives.\<close>

definition json_array :: "json list \<Rightarrow> json" where
  "json_array js = (if js = [] then JNull else JArray js)"

text \<open>A default-constructed value with members assigned one after the other.\<close>

fun json_sets :: "(bytes \<times> json) list \<Rightarrow> json \<Rightarrow> json option" where
  "json_sets [] j = Some j"
| "json_sets ((k, v) # kvs) j = (case json_set k v j of None \<Rightarrow> None | Some j' \<Rightarrow> json_sets kvs j')"

section \<open>ConvertStringUtil\<close>

definition clamp32 :: "int \<Rightarrow> int32" where
  "clamp32 v = word_of_int (max (- (2 ^ 31)) (min (2 ^ 31 - 1) v))"

text \<open>
  \<^verbatim>\<open>convertFromString<int>\<close>: formatted extraction from a string stream.  With nothing but white
  space the extraction does not touch the (uninitialised) result \<open>junk\<close>; without digits it
  stores 0; out of range it stores the nearest \<^verbatim>\<open>int\<close>.
\<close>

definition convertFromString :: "int32 \<Rightarrow> bytes \<Rightarrow> int32" where
  "convertFromString junk str =
     (let s1 = dropWhile is_space str;
          neg = (s1 \<noteq> [] \<and> hd s1 = 45);
          s2 = (if s1 \<noteq> [] \<and> (hd s1 = 45 \<or> hd s1 = 43) then tl s1 else s1);
          v = digits_value (takeWhile is_digit s2)
      in if s1 = [] then junk else clamp32 (if neg then - v else v))"

section \<open>UserManager\<close>

record user =
  userid :: int32
  username :: bytes
  password :: bytes

record user_manager =
  m_allCachedUsers :: "user list"
  um_strDbServer :: bytes
  um_strDbUserName :: bytes
  um_strDbPassword :: bytes
  um_strDbName :: bytes

definition getUserListInfo :: "user_manager \<Rightarrow> user list" where
  "getUserListInfo um = m_allCachedUsers um"

definition user_of_row :: "int32 \<Rightarrow> row \<Rightarrow> db_error + user" where
  "user_of_row junk r =
     (case m_strValues r of
        v0 # v1 # v2 # _ \<Rightarrow> Inr \<lparr>userid = convertFromString junk v0, username = v1, password = v2\<rparr>
      | _ \<Rightarrow> Inl Index_out_of_range)"

fun push_users :: "int32 \<Rightarrow> row list \<Rightarrow> user list \<Rightarrow> db_error + user list" where
  "push_users junk [] us = Inr us"
| "push_users junk (r # rs) us =
     (case user_of_row junk r of Inl e \<Rightarrow> Inl e | Inr u \<Rightarrow> push_users junk rs (us @ [u]))"

definition loadUsersFromDb ::
  "'m mysql_api \<Rightarrow> int32 \<Rightarrow> user_manager \<Rightarrow> 'm \<Rightarrow> db_error + (bool \<times> user_manager \<times> 'm)" where
  "loadUsersFromDb api junk um w =
     (case initialize api (um_strDbServer um) (um_strDbUserName um) (um_strDbPassword um) (um_strDbName um)
             CDatabaseMysql w of
        Inl e \<Rightarrow> Inl e
      | Inr (False, db, w1) \<Rightarrow> Inr (False, um, w1)
      | Inr (True, db, w1) \<Rightarrow>
          (case query api (lit ''SELECT f_user_id, f_username, f_password FROM t_user'') db w1 of
             Inl e \<Rightarrow> Inl e
           | Inr (None, _, w2) \<Rightarrow> Inr (False, um, w2)
           | Inr (Some res, _, w2) \<Rightarrow>
               (case push_users junk (m_Rows res) (m_allCachedUsers um) of
                  Inl e \<Rightarrow> Inl e
                | Inr us \<Rightarrow> Inr (True, um\<lparr>m_allCachedUsers := us\<rparr>, w2))))"

definition UserManager_init ::
  "'m mysql_api \<Rightarrow> int32 \<Rightarrow> bytes \<Rightarrow> bytes \<Rightarrow> bytes option \<Rightarrow> bytes \<Rightarrow> user_manager \<Rightarrow> 'm
     \<Rightarrow> db_error + (bool \<times> user_manager \<times> 'm)" where
  "UserManager_init api junk dbServer dbUserName dbPassword dbName um w =
     loadUsersFromDb api junk
       (um\<lparr>um_strDbServer := dbServer, um_strDbUserName := dbUserName,
           um_strDbPassword := (case dbPassword of None \<Rightarrow> um_strDbPassword um | Some p \<Rightarrow> p),
           um_strDbName := dbName\<rparr>) w"

fun find_user :: "bytes \<Rightarrow> user list \<Rightarrow> user option" where
  "find_user name [] = None"
| "find_user name (u # us) = (if username u = name then Some u else find_user name us)"

text \<open>\<^verbatim>\<open>getUserInfoByUsername\<close> leaves the out-parameter as it is when there is no such user.\<close>

definition getUserInfoByUsername :: "bytes \<Rightarrow> user \<Rightarrow> user_manager \<Rightarrow> bool \<times> user" where
  "getUserInfoByUsername name u um =
     (case find_user name (m_allCachedUsers um) of None \<Rightarrow> (False, u) | Some u' \<Rightarrow> (True, u'))"

section \<open>MsgCacheManager\<close>

text \<open>
  The redis client: each command on a connection made with the given URL.  \<open>lrange\<close> returns what it
  has pushed into the output iterator and whether it returned normally.
\<close>

record 'r redis_api =
  redis_connect :: "bytes \<Rightarrow> 'r \<Rightarrow> bool"
  redis_exists :: "bytes \<Rightarrow> 'r \<Rightarrow> bool option \<times> 'r"
  redis_del :: "bytes \<Rightarrow> 'r \<Rightarrow> bool \<times> 'r"
  redis_rpush :: "bytes \<Rightarrow> bytes list \<Rightarrow> 'r \<Rightarrow> bool \<times> 'r"
  redis_lrange :: "bytes \<Rightarrow> int \<Rightarrow> int \<Rightarrow> 'r \<Rightarrow> (bytes list \<times> bool) \<times> 'r"

record chat_msg =
  msgid :: int32
  senderid :: int32
  senderusername :: bytes
  msgcontent :: bytes
  sendtime_str :: bytes

record msg_cache_manager =
  mc_strDbServer :: bytes
  mc_strDbUserName :: bytes
  mc_strDbPassword :: bytes
  mc_strDbName :: bytes
  m_strRedisUrl :: bytes

definition msgs_key :: bytes where
  "msgs_key = lit ''414chatmsgs''"

definition msg_of_row :: "int32 \<Rightarrow> row \<Rightarrow> db_error + chat_msg" where
  "msg_of_row junk r =
     (case m_strValues r of
        v0 # v1 # v2 # v3 # v4 # _ \<Rightarrow>
          Inr \<lparr>msgid = convertFromString junk v0, senderid = convertFromString junk v1, senderusername = v2,
               msgcontent = v3, sendtime_str = v4\<rparr>
      | _ \<Rightarrow> Inl Index_out_of_range)"

text \<open>The members of the object in the order of \<^verbatim>\<open>nlohmann::json\<close>'s ordered map.\<close>

definition json_of_msg :: "chat_msg \<Rightarrow> json" where
  "json_of_msg m = JObject
     [(lit ''msgcontent'', JString (msgcontent m)), (lit ''msgid'', JInt (scast (msgid m))),
      (lit ''senderid'', JInt (scast (senderid m))), (lit ''senderusername'', JString (senderusername m)),
      (lit ''sendtime_str'', JString (sendtime_str m))]"

datatype data_error = Db_error db_error | Json_error

fun dump_msgs :: "json_api \<Rightarrow> int32 \<Rightarrow> row list \<Rightarrow> data_error + bytes list" where
  "dump_msgs js junk [] = Inr []"
| "dump_msgs js junk (r # rs) =
     (case msg_of_row junk r of
        Inl e \<Rightarrow> Inl (Db_error e)
      | Inr m \<Rightarrow>
          (case json_dump js (json_of_msg m) of
             None \<Rightarrow> Inl Json_error
           | Some d \<Rightarrow> (case dump_msgs js junk rs of Inl e \<Rightarrow> Inl e | Inr ds \<Rightarrow> Inr (d # ds))))"

text \<open>The \<^verbatim>\<open>try\<close> block: any redis error makes the result false.\<close>

definition store_in_redis :: "'r redis_api \<Rightarrow> bytes \<Rightarrow> bytes list \<Rightarrow> 'r \<Rightarrow> bool \<times> 'r" where
  "store_in_redis red url msgs r =
     (if \<not> redis_connect red url r then (False, r)
      else (case redis_exists red msgs_key r of
              (None, r1) \<Rightarrow> (False, r1)
            | (Some ex, r1) \<Rightarrow>
                (let (ok, r2) = (if ex then redis_del red msgs_key r1 else (True, r1))
                 in if \<not> ok then (False, r2) else redis_rpush red msgs_key msgs r2)))"

definition loadMsgFromDbAndStoreInRedis ::
  "'m mysql_api \<Rightarrow> json_api \<Rightarrow> 'r redis_api \<Rightarrow> int32 \<Rightarrow> msg_cache_manager \<Rightarrow> 'm \<Rightarrow> 'r
     \<Rightarrow> data_error + (bool \<times> 'm \<times> 'r)" where
  "loadMsgFromDbAndStoreInRedis api js red junk mc w r =
     (case initialize api (mc_strDbServer mc) (mc_strDbUserName mc) (mc_strDbPassword mc) (mc_strDbName mc)
             CDatabaseMysql w of
        Inl e \<Rightarrow> Inl (Db_error e)
      | Inr (False, db, w1) \<Rightarrow> Inr (False, w1, r)
      | Inr (True, db, w1) \<Rightarrow>
          (case query api (lit ''SELECT t_chatmsg.f_msg_id, t_chatmsg.f_senderid, t_user.f_username, t_chatmsg.f_msgcontent, t_chatmsg.f_create_time FROM t_chatmsg JOIN t_user ON t_chatmsg.f_senderid = t_user.f_user_id'') db w1 of
             Inl e \<Rightarrow> Inl (Db_error e)
           | Inr (None, _, w2) \<Rightarrow> Inr (False, w2, r)
           | Inr (Some res, _, w2) \<Rightarrow>
               (case dump_msgs js junk (m_Rows res) of
                  Inl e \<Rightarrow> Inl e
                | Inr msgs \<Rightarrow> (let (ok, r1) = store_in_redis red (m_strRedisUrl mc) msgs r in Inr (ok, w2, r1)))))"

definition MsgCacheManager_init ::
  "'m mysql_api \<Rightarrow> json_api \<Rightarrow> 'r redis_api \<Rightarrow> int32 \<Rightarrow> bytes \<Rightarrow> bytes \<Rightarrow> bytes option \<Rightarrow> bytes \<Rightarrow> bytes
     \<Rightarrow> msg_cache_manager \<Rightarrow> 'm \<Rightarrow> 'r \<Rightarrow> data_error + (bool \<times> msg_cache_manager \<times> 'm \<times> 'r)" where
  "MsgCacheManager_init api js red junk dbServer dbUserName dbPassword dbName redisUrl mc w r =
     (let mc1 = mc\<lparr>mc_strDbServer := dbServer, mc_strDbUserName := dbUserName,
                   mc_strDbPassword := (case dbPassword of None \<Rightarrow> mc_strDbPassword mc | Some p \<Rightarrow> p),
                   mc_strDbName := dbName, m_strRedisUrl := redisUrl\<rparr>
      in case loadMsgFromDbAndStoreInRedis api js red junk mc1 w r of
           Inl e \<Rightarrow> Inl e
         | Inr (ok, w1, r1) \<Rightarrow> Inr (ok, mc1, w1, r1))"

definition loadMsgsFromRedis :: "'r redis_api \<Rightarrow> msg_cache_manager \<Rightarrow> 'r \<Rightarrow> bytes list \<times> 'r" where
  "loadMsgsFromRedis red mc r =
     (if \<not> redis_connect red (m_strRedisUrl mc) r then ([], r)
      else (case redis_exists red msgs_key r of
              (None, r1) \<Rightarrow> ([], r1)
            | (Some False, r1) \<Rightarrow> ([], r1)
            | (Some True, r1) \<Rightarrow> (let ((ms, ok), r2) = redis_lrange red msgs_key 0 (- 1) r1 in (ms, r2))))"

definition addChatMsgToRedis :: "'r redis_api \<Rightarrow> msg_cache_manager \<Rightarrow> bytes \<Rightarrow> 'r \<Rightarrow> bool \<times> 'r" where
  "addChatMsgToRedis red mc cache r =
     (if \<not> redis_connect red (m_strRedisUrl mc) r then (False, r) else redis_rpush red msgs_key [cache] r)"

section \<open>What the code relies on\<close>

text \<open>
  The documented behaviour of redis lists, on a view of the world that gives the list stored under
  a key (\<open>[]\<close> when the key does not exist: redis removes empty lists).  The client refuses an
  empty range in \<^verbatim>\<open>rpush\<close>.
\<close>

definition redis_lists :: "'r redis_api \<Rightarrow> ('r \<Rightarrow> bytes \<Rightarrow> bytes list) \<Rightarrow> bytes \<Rightarrow> bool" where
  "redis_lists red view url \<longleftrightarrow>
     (\<forall>r. redis_connect red url r) \<and>
     (\<forall>k r. redis_exists red k r = (Some (view r k \<noteq> []), r)) \<and>
     (\<forall>k r. fst (redis_del red k r) \<and> view (snd (redis_del red k r)) = (view r)(k := [])) \<and>
     (\<forall>k r. redis_rpush red k [] r = (False, r)) \<and>
     (\<forall>k xs r. xs \<noteq> [] \<longrightarrow> fst (redis_rpush red k xs r) \<and>
        view (snd (redis_rpush red k xs r)) = (view r)(k := view r k @ xs)) \<and>
     (\<forall>k r. redis_lrange red k 0 (- 1) r = ((view r k, True), r))"

text \<open>A store in memory that behaves like that.\<close>

definition mem_redis :: "(bytes \<Rightarrow> bytes list) redis_api" where
  "mem_redis = \<lparr>redis_connect = (\<lambda>_ _. True), redis_exists = (\<lambda>k r. (Some (r k \<noteq> []), r)),
     redis_del = (\<lambda>k r. (True, r(k := []))),
     redis_rpush = (\<lambda>k xs r. if xs = [] then (False, r) else (True, r(k := r k @ xs))),
     redis_lrange = (\<lambda>k a b r. ((r k, True), r))\<rparr>"

lemma mem_redis_lists: "redis_lists mem_redis (\<lambda>r. r) url"
  by (simp add: redis_lists_def mem_redis_def)

lemma redis_listsD:
  assumes "redis_lists red view url"
  shows "redis_connect red url r" and "redis_exists red k r = (Some (view r k \<noteq> []), r)"
    and "fst (redis_del red k r)" and "view (snd (redis_del red k r)) = (view r)(k := [])"
    and "redis_rpush red k [] r = (False, r)"
    and "xs \<noteq> [] \<Longrightarrow> fst (redis_rpush red k xs r)"
    and "xs \<noteq> [] \<Longrightarrow> view (snd (redis_rpush red k xs r)) = (view r)(k := view r k @ xs)"
    and "redis_lrange red k 0 (- 1) r = ((view r k, True), r)"
  using assms by (auto simp: redis_lists_def)

section \<open>Lemmas\<close>

text \<open>The statements of the source, in its order, build these values.\<close>

lemma json_of_msg_built:
  "json_sets [(lit ''msgid'', JInt (scast (msgid m))), (lit ''senderid'', JInt (scast (senderid m))),
     (lit ''senderusername'', JString (senderusername m)), (lit ''msgcontent'', JString (msgcontent m)),
     (lit ''sendtime_str'', JString (sendtime_str m))] JNull = Some (json_of_msg m)"
  by (simp add: json_of_msg_def json_set_def json_index_def lit_def)

lemma json_array_built:
  "foldl (\<lambda>j v. Option.bind j (json_push_back v)) (Some JNull) js = Some (json_array js)"
proof (induction js rule: rev_induct)
  case (snoc v js)
  then show ?case by (cases js) (simp_all add: json_array_def json_push_back_def)
qed (simp add: json_array_def)

lemma addChatMsg_view:
  assumes "redis_lists red view (m_strRedisUrl mc)"
  shows "fst (addChatMsgToRedis red mc d r)"
    and "view (snd (addChatMsgToRedis red mc d r)) = (view r)(msgs_key := view r msgs_key @ [d])"
  using assms by (simp_all add: addChatMsgToRedis_def redis_listsD fun_upd_def)

lemma loadMsgs_view:
  assumes "redis_lists red view (m_strRedisUrl mc)"
  shows "loadMsgsFromRedis red mc r = (view r msgs_key, r)"
  using assms by (simp add: loadMsgsFromRedis_def redis_listsD split: bool.splits)

lemma addChatMsgs_view:
  assumes "redis_lists red view (m_strRedisUrl mc)"
  shows "view (fold (\<lambda>d r. snd (addChatMsgToRedis red mc d r)) ds r) msgs_key = view r msgs_key @ ds"
  by (induction ds arbitrary: r) (simp_all add: addChatMsg_view [OF assms])

lemma store_in_redis_view:
  assumes "redis_lists red view url"
  shows "fst (store_in_redis red url msgs r) \<longleftrightarrow> msgs \<noteq> []"
    and "view (snd (store_in_redis red url msgs r)) msgs_key = msgs"
proof -
  note r = redis_listsD [OF assms]
  obtain r2 where d: "redis_del red msgs_key r = (True, r2)" and v: "view r2 msgs_key = []"
    using r(3) [of msgs_key r] r(4) [of msgs_key r] by (cases "redis_del red msgs_key r") auto
  show "fst (store_in_redis red url msgs r) \<longleftrightarrow> msgs \<noteq> []"
    using r(6) [of msgs msgs_key] r(5) [of msgs_key] by (auto simp: store_in_redis_def r(1,2) d)
  show "view (snd (store_in_redis red url msgs r)) msgs_key = msgs"
    using r(7) [of msgs msgs_key] r(5) [of msgs_key] v
    by (cases "msgs = []") (auto simp: store_in_redis_def r(1,2) d)
qed

lemma clamp32_small: "- (2 ^ 31) \<le> v \<Longrightarrow> v < 2 ^ 31 \<Longrightarrow> clamp32 v = word_of_int v"
  by (simp add: clamp32_def)

lemma convert_print_int: "convertFromString junk (print_int (sint (i :: int32))) = i"
proof -
  have range: "- (2 ^ 31) \<le> sint i" "sint i < 2 ^ 31"
    using sint_ge [of i] sint_lt [of i] by simp_all
  have sp: "\<not> is_space 45" by (simp add: is_space_def)
  have all: "takeWhile is_digit (nat_digits n) = nat_digits n" for n
    using nat_digits_digits [of n] by (simp add: takeWhile_eq_all_conv)
  show ?thesis
  proof (cases "sint i < 0")
    case True
    then show ?thesis
      using range sp by (simp add: convertFromString_def print_int_def Let_def all digits_value_nat_digits clamp32_small)
  next
    case False
    obtain c cs where ds: "nat_digits (nat (sint i)) = c # cs" and "is_digit c"
      using nat_digits_digits [of "nat (sint i)"] by (cases "nat_digits (nat (sint i))") auto
    then have c: "\<not> is_space c" "c \<noteq> 45" "c \<noteq> 43" using is_digit_not_space by blast+
    have tw: "takeWhile is_digit (c # cs) = c # cs" using all [of "nat (sint i)"] unfolding ds .
    have dv: "digits_value (c # cs) = sint i"
      using False digits_value_nat_digits [of "nat (sint i)"] unfolding ds by simp
    show ?thesis
      using range False c
      by (simp add: convertFromString_def print_int_def Let_def ds tw dv clamp32_small del: takeWhile.simps)
  qed
qed

text \<open>The row the database returns for a user.\<close>

definition row_of_user :: "user \<Rightarrow> mysql_row" where
  "row_of_user u = [Some (print_int (sint (userid u))), Some (username u), Some (password u)]"

lemma push_users_rows: "push_users junk (map (\<lambda>u. Row (row_of_user u) 3) us) us0 = Inr (us0 @ us)"
  by (induction us arbitrary: us0) (simp_all add: user_of_row_def Row_def row_of_user_def convert_print_int)

lemma find_user_first:
  "find_user name us = Some u \<longleftrightarrow>
     (\<exists>i<length us. us ! i = u \<and> username u = name \<and> (\<forall>j<i. username (us ! j) \<noteq> name))"
proof (induction us)
  case (Cons v us)
  show ?case
  proof (cases "username v = name")
    case True
    then show ?thesis by (auto intro: exI [of _ 0]) (metis gr0I nth_Cons_0)
  next
    case False
    then have "find_user name (v # us) = Some u \<longleftrightarrow>
        (\<exists>i<length us. us ! i = u \<and> username u = name \<and> (\<forall>j<i. username (us ! j) \<noteq> name))"
      using Cons by simp
    also have "\<dots> \<longleftrightarrow> (\<exists>i<length (v # us). (v # us) ! i = u \<and> username u = name \<and>
        (\<forall>j<i. username ((v # us) ! j) \<noteq> name))"
      using False by (auto simp: Ex_less_Suc2 All_less_Suc2)
    finally show ?thesis .
  qed
qed simp

section \<open>Properties\<close>

text \<open>
  The message log in redis: whatever was stored, the messages added one after the other are
  loaded back all, in order and behind the older ones; and initialisation replaces the whole log
  by the messages of the database.  With no message in the database it fails, although the log
  is as it should be, because the client refuses an empty range.
\<close>

theorem message_log_appends:
  assumes "redis_lists red view (m_strRedisUrl mc)"
  shows "fst (loadMsgsFromRedis red mc (fold (\<lambda>d r. snd (addChatMsgToRedis red mc d r)) ds r)) =
      fst (loadMsgsFromRedis red mc r) @ ds \<and>
    fst (loadMsgsFromRedis red mc (snd (store_in_redis red (m_strRedisUrl mc) ds r))) = ds \<and>
    (fst (store_in_redis red (m_strRedisUrl mc) ds r) \<longleftrightarrow> ds \<noteq> [])"
  by (simp add: loadMsgs_view [OF assms] addChatMsgs_view [OF assms] store_in_redis_view [OF assms])

theorem message_log_appends_witness:
  "fst (loadMsgsFromRedis mem_redis \<lparr>mc_strDbServer = [], mc_strDbUserName = [], mc_strDbPassword = [],
     mc_strDbName = [], m_strRedisUrl = []\<rparr> (snd (store_in_redis mem_redis [] [[1], [2]] (\<lambda>_. [])))) = [[1], [2]]"
  using message_log_appends [of mem_redis "\<lambda>r. r" "\<lparr>mc_strDbServer = [], mc_strDbUserName = [],
     mc_strDbPassword = [], mc_strDbName = [], m_strRedisUrl = []\<rparr>" "[[1], [2]]" "\<lambda>_. []"]
  by (simp add: mem_redis_lists)

text \<open>
  The users of the table are exactly the users the server knows: when the connection and the
  query succeed and the table holds \<open>us\<close>, \<^verbatim>\<open>UserManager::init\<close> returns true with exactly these
  users in table order (numbers printed by the database are read back as the same \<^verbatim>\<open>int\<close>), and a
  lookup returns the first user of that name, or leaves the caller's default untouched when
  there is none.
\<close>

theorem users_loaded:
  assumes "mysql_real_connect api srv usr pw dbn w = (True, w1)"
    and "mysql_real_query api (lit ''SELECT f_user_id, f_username, f_password FROM t_user'')
           (snd (mysql_real_query api (lit ''set names utf8'') w1)) = (0, w2)"
    and "mysql_store_result api w2 = (Some \<lparr>res_fields = fs, res_rows = map row_of_user us\<rparr>, w3)"
    and "length fs = 3" and "mysql_field_count api w3 = 3" and "m_allCachedUsers um = []"
  shows "\<exists>um'. UserManager_init api junk srv usr (Some pw) dbn um w = Inr (True, um', w3) \<and>
    getUserListInfo um' = us \<and>
    (\<forall>name u0. case getUserInfoByUsername name u0 um' of
       (True, u) \<Rightarrow> (\<exists>i<length us. us ! i = u \<and> username u = name \<and> (\<forall>j<i. username (us ! j) \<noteq> name))
     | (False, u) \<Rightarrow> u = u0 \<and> name \<notin> username ` set us)"
proof -
  let ?db = "\<lparr>m_DBInfo = \<lparr>strHost = srv, strUser = usr, strPwd = pw, strDBName = dbn\<rparr>, m_Mysql = True, m_bInit = True\<rparr>"
  let ?um = "um\<lparr>um_strDbServer := srv, um_strDbUserName := usr, um_strDbPassword := pw, um_strDbName := dbn\<rparr>"
  have init: "initialize api srv usr pw dbn CDatabaseMysql w =
      Inr (True, ?db, snd (mysql_real_query api (lit ''set names utf8'') w1))"
    by (simp add: initialize_def assms(1) CDatabaseMysql_def)
  have q: "query api (lit ''SELECT f_user_id, f_username, f_password FROM t_user'') ?db
      (snd (mysql_real_query api (lit ''set names utf8'') w1)) =
      Inr (Some (QueryResult \<lparr>res_fields = fs, res_rows = map row_of_user us\<rparr>), ?db, w3)"
    by (rule query_connected [OF _ assms(2,3)]) (simp_all add: assms(5))
  have "push_users junk (m_Rows (QueryResult \<lparr>res_fields = fs, res_rows = map row_of_user us\<rparr>)) [] = Inr us"
    using push_users_rows [of junk us "[]"] by (simp add: QueryResult_def assms(4) comp_def)
  then have load: "UserManager_init api junk srv usr (Some pw) dbn um w = Inr (True, ?um\<lparr>m_allCachedUsers := us\<rparr>, w3)"
    by (simp add: UserManager_init_def loadUsersFromDb_def init q assms(6))
  have none: "find_user name us = None \<longleftrightarrow> name \<notin> username ` set us" for name
    by (induction us) auto
  show ?thesis
    using load none find_user_first [of _ us]
    by (intro exI [of _ "?um\<lparr>m_allCachedUsers := us\<rparr>"])
      (auto simp: getUserListInfo_def getUserInfoByUsername_def split: option.splits)
qed

text \<open>A client library over a table of users.\<close>

definition table_api :: "user list \<Rightarrow> unit mysql_api" where
  "table_api us = \<lparr>mysql_real_connect = (\<lambda>_ _ _ _ w. (True, w)), mysql_real_query = (\<lambda>_ w. (0, w)),
     mysql_errno = (\<lambda>_. 0),
     mysql_store_result = (\<lambda>w. (Some \<lparr>res_fields = replicate 3 ([], FIELD_TYPE_STRING), res_rows = map row_of_user us\<rparr>, w)),
     mysql_field_count = (\<lambda>_. 3)\<rparr>"

theorem users_loaded_witness:
  "\<exists>um'. UserManager_init (table_api [\<lparr>userid = 1, username = [109], password = [49]\<rparr>]) 0 [] [] (Some []) []
     \<lparr>m_allCachedUsers = [], um_strDbServer = [], um_strDbUserName = [], um_strDbPassword = [], um_strDbName = []\<rparr> ()
     = Inr (True, um', ()) \<and> getUserListInfo um' = [\<lparr>userid = 1, username = [109], password = [49]\<rparr>]"
  using users_loaded [of "table_api [\<lparr>userid = 1, username = [109], password = [49]\<rparr>]" "[]" "[]" "[]" "[]" "()" "()" "()"
      "replicate 3 ([], FIELD_TYPE_STRING)" "[\<lparr>userid = 1, username = [109], password = [49]\<rparr>]" "()"
      "\<lparr>m_allCachedUsers = [], um_strDbServer = [], um_strDbUserName = [], um_strDbPassword = [], um_strDbName = []\<rparr>" 0]
  by (auto simp: table_api_def)

end
