(* ===== verification/Chat_Server.thy ===== *)
theory Chat_Server
  imports Byte_Buffer Chat_Data
begin

text \<open>
  The application of \<^verbatim>\<open>chatserversrc/\<close>: \<^verbatim>\<open>TcpSession\<close> (framing and sending), \<^verbatim>\<open>ChatSession\<close> (the
  receive loop and the request handlers) and \<^verbatim>\<open>ChatServer\<close> (the list of sessions).  The singletons
  form one state record; a session object is known by its address, connections by a number.
  Requests to the network layer are appended to \<open>outbox\<close>.  A handler is one function here, as it runs
  when no other loop comes in between; its steps in several loops are in \<open>Chat_Loops\<close>.  What ends the process (an exception nobody catches, undefined behaviour)
  is an error value.
\<close>

section \<open>State\<close>

datatype chat_error = Bad_length | Bad_json | Bad_stream | Bad_session

datatype net_effect = ConnSend nat bytes | ForceClose nat

record 'r chat_env =
  env_json :: json_api
  env_redis :: "'r redis_api"
  env_junk :: "nat \<Rightarrow> byte"
  env_time :: "nat \<Rightarrow> int"
  env_uninit :: "nat \<Rightarrow> int32"

record online_user_info =
  oi_userid :: int32
  oi_username :: bytes
  oi_nickname :: bytes
  oi_password :: bytes
  oi_clienttype :: int32
  oi_status :: int32

record chat_session =
  tmpConn :: nat
  m_id :: int32
  m_userinfo :: online_user_info
  m_seq :: int32
  m_isLogin :: bool
  m_lastPackageTime :: int

text \<open>
  \<open>callbacks\<close> is the message callback of each connection (the raw pointer bound in
  \<^verbatim>\<open>onConnected\<close>), \<open>live_conns\<close> the connection objects that still exist (a weak pointer to any
  other one has expired).
\<close>

record 'r chat_server =
  m_sessions :: "(nat \<times> chat_session) list"
  m_sessionId :: int32
  m_logPackageBinary :: bool
  next_ptr :: nat
  callbacks :: "nat \<Rightarrow> nat option"
  live_conns :: "nat list"
  users :: user_manager
  msg_cache :: msg_cache_manager
  redis_world :: 'r
  ticks :: nat
  outbox :: "net_effect list"

definition msg_type_login :: int32 where "msg_type_login = 1002"
definition msg_type_getuserlist :: int32 where "msg_type_getuserlist = 1003"
definition msg_type_getMsgs :: int32 where "msg_type_getMsgs = 1004"
definition msg_type_chat :: int32 where "msg_type_chat = 1100"
definition msg_type_kickuser :: int32 where "msg_type_kickuser = 1102"

lemmas msg_type_defs = msg_type_login_def msg_type_getuserlist_def msg_type_getMsgs_def
  msg_type_chat_def msg_type_kickuser_def

definition emit :: "net_effect \<Rightarrow> 'r chat_server \<Rightarrow> 'r chat_server" where
  "emit e st = st\<lparr>outbox := outbox st @ [e]\<rparr>"

definition upd_session :: "nat \<Rightarrow> (chat_session \<Rightarrow> chat_session) \<Rightarrow> 'r chat_server \<Rightarrow> 'r chat_server" where
  "upd_session p f st = st\<lparr>m_sessions := map (\<lambda>(q, s). (q, if q = p then f s else s)) (m_sessions st)\<rparr>"

section \<open>TcpSession\<close>

text \<open>
  The lengths are passed as \<^verbatim>\<open>int32_t\<close> and turned back into \<^verbatim>\<open>size_t\<close> by the \<^verbatim>\<open>std::string\<close>
  constructor: a negative one makes it throw.
\<close>

definition frame :: "bytes \<Rightarrow> bytes" where
  "frame p = le_bytes 4 (word_of_nat (length p) :: int32) @ p"

definition sendPackage :: "nat \<Rightarrow> bytes \<Rightarrow> 'r chat_server \<Rightarrow> chat_error + 'r chat_server" where
  "sendPackage conn p st =
     (let len = word_of_nat (length p) :: int32
      in if sint len < 0 then Inl Bad_length
         else (let srcbuf = take (nat (sint len)) p;
                   strPackageData = le_bytes 4 len @ srcbuf
               in if conn \<notin> set (live_conns st) then Inr st
                  else Inr (emit (ConnSend conn strPackageData) st)))"

definition packet :: "(nat \<Rightarrow> byte) \<Rightarrow> int32 \<Rightarrow> int32 \<Rightarrow> bytes \<Rightarrow> bytes" where
  "packet junk cmd seq data =
     Flush (WriteCString data (WriteInt32 seq False (WriteInt32 cmd False (BinaryStreamWriter junk))))"

definition TcpSession_send ::
  "'r chat_env \<Rightarrow> nat \<Rightarrow> int32 \<Rightarrow> int32 \<Rightarrow> bytes \<Rightarrow> 'r chat_server \<Rightarrow> chat_error + 'r chat_server" where
  "TcpSession_send env conn cmd seq data st =
     (let dataLength = word_of_nat (length data) :: int32
      in if sint dataLength < 0 then Inl Bad_length
         else sendPackage conn (packet (env_junk env) cmd seq (take (nat (sint dataLength)) data)) st)"

section \<open>ChatServer: the list of sessions\<close>

fun getSessionByUserId :: "int32 \<Rightarrow> (nat \<times> chat_session) list \<Rightarrow> nat option" where
  "getSessionByUserId uid [] = None"
| "getSessionByUserId uid ((p, s) # ss) =
     (if oi_userid (m_userinfo s) = uid then Some p else getSessionByUserId uid ss)"

text \<open>\<^verbatim>\<open>getSessionsByUserId\<close> returns at the first hit: at most one session is appended.\<close>

definition getSessionsByUserId ::
  "int32 \<Rightarrow> nat list \<Rightarrow> (nat \<times> chat_session) list \<Rightarrow> bool \<times> nat list" where
  "getSessionsByUserId uid sessions ss =
     (case getSessionByUserId uid ss of None \<Rightarrow> (False, sessions) | Some p \<Rightarrow> (True, sessions @ [p]))"

fun getUserStatusByUserId :: "int32 \<Rightarrow> (nat \<times> chat_session) list \<Rightarrow> int32" where
  "getUserStatusByUserId uid [] = 0"
| "getUserStatusByUserId uid ((p, s) # ss) =
     (if oi_userid (m_userinfo s) = uid then oi_status (m_userinfo s) else getUserStatusByUserId uid ss)"

definition CLIENT_TYPE_UNKOWN :: int32 where "CLIENT_TYPE_UNKOWN = 0"
definition CLIENT_TYPE_PC :: int32 where "CLIENT_TYPE_PC = 1"
definition CLIENT_TYPE_ANDROID :: int32 where "CLIENT_TYPE_ANDROID = 2"
definition CLIENT_TYPE_IOS :: int32 where "CLIENT_TYPE_IOS = 3"

fun clientTypeLoop :: "int32 \<Rightarrow> bool \<Rightarrow> int32 \<Rightarrow> (nat \<times> chat_session) list \<Rightarrow> int32" where
  "clientTypeLoop uid bMobileOnline clientType [] = (if bMobileOnline then clientType else CLIENT_TYPE_UNKOWN)"
| "clientTypeLoop uid bMobileOnline clientType ((p, s) # ss) =
     (if oi_userid (m_userinfo s) = uid
      then (let ct = oi_clienttype (m_userinfo s)
            in if ct = CLIENT_TYPE_PC then ct
               else clientTypeLoop uid (bMobileOnline \<or> ct = CLIENT_TYPE_ANDROID \<or> ct = CLIENT_TYPE_IOS) ct ss)
      else clientTypeLoop uid bMobileOnline clientType ss)"

definition getUserClientTypeByUserId :: "int32 \<Rightarrow> (nat \<times> chat_session) list \<Rightarrow> int32" where
  "getUserClientTypeByUserId uid ss = clientTypeLoop uid False CLIENT_TYPE_UNKOWN ss"

definition getSessions :: "'r chat_server \<Rightarrow> (nat \<times> chat_session) list" where
  "getSessions st = m_sessions st"

definition enableLogPackageBinary :: "bool \<Rightarrow> 'r chat_server \<Rightarrow> 'r chat_server" where
  "enableLogPackageBinary enable st = st\<lparr>m_logPackageBinary := enable\<rparr>"

definition isLogPackageBinaryEnabled :: "'r chat_server \<Rightarrow> bool" where
  "isLogPackageBinaryEnabled st = m_logPackageBinary st"

definition ChatSession :: "nat \<Rightarrow> int32 \<Rightarrow> int32 \<Rightarrow> int32 \<Rightarrow> int \<Rightarrow> chat_session" where
  "ChatSession conn sessionid uninit1 uninit2 now =
     \<lparr>tmpConn = conn, m_id = sessionid,
      m_userinfo = \<lparr>oi_userid = 0, oi_username = [], oi_nickname = [], oi_password = [],
                    oi_clienttype = uninit1, oi_status = uninit2\<rparr>,
      m_seq = 0, m_isLogin = False, m_lastPackageTime = now\<rparr>"

definition makeSessionInvalid :: "chat_session \<Rightarrow> chat_session" where
  "makeSessionInvalid s = s\<lparr>m_userinfo := (m_userinfo s)\<lparr>oi_userid := 0\<rparr>\<rparr>"

definition isSessionValid :: "chat_session \<Rightarrow> bool" where
  "isSessionValid s \<longleftrightarrow> sint (oi_userid (m_userinfo s)) > 0"

text \<open>\<^verbatim>\<open>onDisconnected\<close> erases the sessions whose weak pointer still yields this connection.\<close>

definition onDisconnected :: "nat \<Rightarrow> 'r chat_server \<Rightarrow> 'r chat_server" where
  "onDisconnected conn st =
     st\<lparr>m_sessions := filter (\<lambda>(p, s). \<not> (tmpConn s \<in> set (live_conns st) \<and> tmpConn s = conn)) (m_sessions st)\<rparr>"

definition onConnected :: "'r chat_env \<Rightarrow> nat \<Rightarrow> bool \<Rightarrow> 'r chat_server \<Rightarrow> 'r chat_server" where
  "onConnected env conn connected st =
     (if connected
      then (let sid = m_sessionId st + 1;
                p = next_ptr st;
                s = ChatSession conn sid (env_uninit env (2 * p)) (env_uninit env (2 * p + 1)) (env_time env (ticks st))
            in st\<lparr>m_sessionId := sid, next_ptr := p + 1, ticks := ticks st + 1,
                  callbacks := (callbacks st)(conn := Some p), m_sessions := m_sessions st @ [(p, s)]\<rparr>)
      else onDisconnected conn st)"

section \<open>ChatSession: the handlers\<close>

definition no_user :: user where
  "no_user = \<lparr>userid = 0, username = [], password = []\<rparr>"

definition login_ok_text :: "int32 \<Rightarrow> bytes \<Rightarrow> bytes" where
  "login_ok_text uid name =
     lit ''{\"code\": 0, \"msg\": \"ok\", \"userid\": '' @ print_int (sint uid) @
     lit '',\"username\":\"'' @ name @ lit ''\"}''"

definition login_bad_text :: bytes where
  "login_bad_text = lit ''{\"code\": 1, \"msg\": \"incorrect password\"}''"

definition not_login_text :: bytes where
  "not_login_text = lit ''{\"code\": 2, \"msg\": \"not login, please login first!\"}''"

text \<open>The session that already has this user id, if any, is told and marked invalid.\<close>

definition kick_user :: "'r chat_env \<Rightarrow> int32 \<Rightarrow> int32 \<Rightarrow> 'r chat_server \<Rightarrow> chat_error + 'r chat_server" where
  "kick_user env uid seq st =
     (case getSessionByUserId uid (m_sessions st) of
        None \<Rightarrow> Inr st
      | Some q \<Rightarrow>
          (case map_of (m_sessions st) q of
             None \<Rightarrow> Inl Bad_session
           | Some t \<Rightarrow>
               (case TcpSession_send env (tmpConn t) msg_type_kickuser seq [] st of
                  Inl e \<Rightarrow> Inl e
                | Inr st1 \<Rightarrow> Inr (upd_session q makeSessionInvalid st1))))"

definition record_user :: "int32 \<Rightarrow> bytes \<Rightarrow> chat_session \<Rightarrow> chat_session" where
  "record_user uid name s = s\<lparr>m_userinfo := (m_userinfo s)\<lparr>oi_userid := uid, oi_username := name\<rparr>\<rparr>"

definition set_login :: "chat_session \<Rightarrow> chat_session" where
  "set_login s = s\<lparr>m_isLogin := True\<rparr>"

definition login_reply ::
  "'r chat_env \<Rightarrow> nat \<Rightarrow> chat_session \<Rightarrow> bytes \<Rightarrow> 'r chat_server \<Rightarrow> chat_error + 'r chat_server" where
  "login_reply env p s text st =
     (case TcpSession_send env (tmpConn s) msg_type_login (m_seq s) text st of
        Inl e \<Rightarrow> Inl e
      | Inr st1 \<Rightarrow> Inr (upd_session p set_login st1))"

definition login_request :: "json_api \<Rightarrow> bytes \<Rightarrow> (bytes \<times> bytes) option" where
  "login_request js data =
     (case json_parse js data of
        None \<Rightarrow> None
      | Some j \<Rightarrow>
          (case json_string (lit ''username'') j of
             None \<Rightarrow> None
           | Some name \<Rightarrow> (case json_string (lit ''password'') j of None \<Rightarrow> None | Some pw \<Rightarrow> Some (name, pw))))"

definition onLoginResponse ::
  "'r chat_env \<Rightarrow> nat \<Rightarrow> chat_session \<Rightarrow> bytes \<Rightarrow> 'r chat_server \<Rightarrow> chat_error + 'r chat_server" where
  "onLoginResponse env p s data st =
     (case login_request (env_json env) data of
        None \<Rightarrow> Inl Bad_json
      | Some (name, pw) \<Rightarrow>
          (let cachedUser = snd (getUserInfoByUsername name no_user (users st))
           in if password cachedUser \<noteq> pw then login_reply env p s login_bad_text st
              else (case kick_user env (userid cachedUser) (m_seq s) st of
                      Inl e \<Rightarrow> Inl e
                    | Inr st1 \<Rightarrow>
                        login_reply env p s (login_ok_text (userid cachedUser) (username cachedUser))
                          (upd_session p (record_user (userid cachedUser) name) st1))))"

definition json_of_user :: "user \<Rightarrow> json" where
  "json_of_user u = JObject [(lit ''userid'', JInt (scast (userid u))), (lit ''username'', JString (username u))]"

definition makeUpUserListInfo :: "json_api \<Rightarrow> user_manager \<Rightarrow> bytes option" where
  "makeUpUserListInfo js um = json_dump js (json_array (map json_of_user (getUserListInfo um)))"

definition onGetUserListResponse ::
  "'r chat_env \<Rightarrow> chat_session \<Rightarrow> 'r chat_server \<Rightarrow> chat_error + 'r chat_server" where
  "onGetUserListResponse env s st =
     (case makeUpUserListInfo (env_json env) (users st) of
        None \<Rightarrow> Inl Bad_json
      | Some userlist \<Rightarrow>
          TcpSession_send env (tmpConn s) msg_type_getuserlist (m_seq s)
            (lit ''{\"code\": 0, \"msg\": \"ok\", \"userlistinfo\":'' @ userlist @ lit ''}'') st)"

fun parse_all :: "json_api \<Rightarrow> bytes list \<Rightarrow> json list option" where
  "parse_all js [] = Some []"
| "parse_all js (m # ms) =
     (case json_parse js m of
        None \<Rightarrow> None
      | Some j \<Rightarrow> (case parse_all js ms of None \<Rightarrow> None | Some jms \<Rightarrow> Some (j # jms)))"

definition onGetMsgsResponse ::
  "'r chat_env \<Rightarrow> chat_session \<Rightarrow> 'r chat_server \<Rightarrow> chat_error + 'r chat_server" where
  "onGetMsgsResponse env s st =
     (let (msgs, r) = loadMsgsFromRedis (env_redis env) (msg_cache st) (redis_world st);
          st1 = st\<lparr>redis_world := r\<rparr>
      in case parse_all (env_json env) msgs of
           None \<Rightarrow> Inl Bad_json
         | Some jms \<Rightarrow>
             (case json_dump (env_json env) (json_array jms) of
                None \<Rightarrow> Inl Bad_json
              | Some data \<Rightarrow>
                  TcpSession_send env (tmpConn s) msg_type_getMsgs (m_seq s)
                    (lit ''{\"code\": 0, \"msg\": \"ok\", \"msgs\":'' @ data @ lit ''}'') st1))"

fun send_to_all :: "bytes \<Rightarrow> (nat \<times> chat_session) list \<Rightarrow> 'r chat_server \<Rightarrow> chat_error + 'r chat_server" where
  "send_to_all outbuf [] st = Inr st"
| "send_to_all outbuf ((p, s) # ss) st =
     (case sendPackage (tmpConn s) outbuf st of Inl e \<Rightarrow> Inl e | Inr st1 \<Rightarrow> send_to_all outbuf ss st1)"

definition chat_text :: "bytes \<Rightarrow> bytes" where
  "chat_text data = lit ''{\"code\": 0, \"msg\": \"ok\", \"msg\": '' @ data @ lit ''}''"

text \<open>The result of \<^verbatim>\<open>addChatMsgToRedis\<close> is only logged.\<close>

definition onChatResponse ::
  "'r chat_env \<Rightarrow> chat_session \<Rightarrow> bytes \<Rightarrow> 'r chat_server \<Rightarrow> chat_error + 'r chat_server" where
  "onChatResponse env s data st =
     (let outbuf = packet (env_junk env) msg_type_chat (m_seq s) (chat_text data);
          (ok, r) = addChatMsgToRedis (env_redis env) (msg_cache st) data (redis_world st);
          st1 = st\<lparr>redis_world := r\<rparr>
      in send_to_all outbuf (getSessions st1) st1)"

definition dispatch ::
  "'r chat_env \<Rightarrow> nat \<Rightarrow> int32 \<Rightarrow> bytes \<Rightarrow> 'r chat_server \<Rightarrow> chat_error + (bool \<times> 'r chat_server)" where
  "dispatch env p cmd data st =
     (case map_of (m_sessions st) p of
        None \<Rightarrow> Inl Bad_session
      | Some s \<Rightarrow>
          if cmd = msg_type_login then map_sum id (Pair True) (onLoginResponse env p s data st)
          else if m_isLogin s
          then (if cmd = msg_type_getuserlist then map_sum id (Pair True) (onGetUserListResponse env s st)
                else if cmd = msg_type_getMsgs then map_sum id (Pair True) (onGetMsgsResponse env s st)
                else if cmd = msg_type_chat then map_sum id (Pair True) (onChatResponse env s data st)
                else Inr (False, st))
          else map_sum id (Pair True) (TcpSession_send env (tmpConn s) cmd (m_seq s) not_login_text st))"

definition set_seq :: "int32 \<Rightarrow> chat_session \<Rightarrow> chat_session" where
  "set_seq n s = s\<lparr>m_seq := n\<rparr>"

definition bump_seq :: "chat_session \<Rightarrow> chat_session" where
  "bump_seq s = s\<lparr>m_seq := m_seq s + 1\<rparr>"

text \<open>\<^verbatim>\<open>process\<close>: the result is false when the connection is to be closed.\<close>

definition process :: "'r chat_env \<Rightarrow> nat \<Rightarrow> bytes \<Rightarrow> 'r chat_server \<Rightarrow> chat_error + (bool \<times> 'r chat_server)" where
  "process env p inbuf st =
     (case ReadInt32 (BinaryStreamReader inbuf) of
        (None, _) \<Rightarrow> Inr (False, st)
      | (Some cmd, r1) \<Rightarrow>
          (case ReadInt32 r1 of
             (None, _) \<Rightarrow> Inr (False, st)
           | (Some seq, r2) \<Rightarrow>
               (let st1 = upd_session p (set_seq seq) st
                in case ReadString 0 r2 of
                     Inl _ \<Rightarrow> Inl Bad_stream
                   | Inr (None, _, _) \<Rightarrow> Inr (False, st1)
                   | Inr (Some data, _, _) \<Rightarrow>
                       (case dispatch env p cmd data st1 of
                          Inl e \<Rightarrow> Inl e
                        | Inr (False, st2) \<Rightarrow> Inr (False, st2)
                        | Inr (True, st2) \<Rightarrow> Inr (True, upd_session p bump_seq st2)))))"

section \<open>ChatSession: the receive loop\<close>

definition MAX_PACKAGE_SIZE :: int where
  "MAX_PACKAGE_SIZE = 10 * 1024 * 1024"

definition sizeof_header :: nat where
  "sizeof_header = 4"

definition peek_header :: "byte_buffer \<Rightarrow> int32" where
  "peek_header b = of_le_bytes (take sizeof_header (content b))"

definition touch :: "'r chat_env \<Rightarrow> nat \<Rightarrow> 'r chat_server \<Rightarrow> 'r chat_server" where
  "touch env p st =
     (upd_session p (\<lambda>s. s\<lparr>m_lastPackageTime := env_time env (ticks st)\<rparr>) st)\<lparr>ticks := ticks st + 1\<rparr>"

lemma readable_retrieve_le: "readableBytes (snd (retrieve n b)) \<le> readableBytes b"
  by (auto simp: retrieve_def readableBytes_def retrieveAll_def)

lemma readable_retrieve_less: "0 < n \<Longrightarrow> n \<le> readableBytes b \<Longrightarrow> readableBytes (snd (retrieve n b)) < readableBytes b"
  by (auto simp: retrieve_def readableBytes_def retrieveAll_def)

text \<open>
  \<^verbatim>\<open>onRead\<close>.  The sum \<^verbatim>\<open>(size_t)header.originsize + sizeof(chat_msg_header)\<close> is a 64-bit one; a
  negative size that gets past the comparison reaches \<^verbatim>\<open>std::string::append\<close> as a huge count,
  which throws.
\<close>

function onRead ::
  "'r chat_env \<Rightarrow> nat \<Rightarrow> nat \<Rightarrow> byte_buffer \<Rightarrow> 'r chat_server \<Rightarrow> chat_error + (byte_buffer \<times> 'r chat_server)" where
  "onRead env p conn b st =
     (if readableBytes b < sizeof_header then Inr (b, st)
      else if sint (peek_header b) > MAX_PACKAGE_SIZE then Inr (b, emit (ForceClose conn) st)
      else if readableBytes b < unat ((scast (peek_header b) :: 64 word) + word_of_nat sizeof_header) then Inr (b, st)
      else if sint (peek_header b) < 0 then Inl Bad_length
      else (let n = nat (sint (peek_header b));
                b1 = snd (retrieve sizeof_header b);
                inbuf = take n (content b1);
                b2 = snd (retrieve n b1)
            in case process env p inbuf st of
                 Inl e \<Rightarrow> Inl e
               | Inr (ok, st1) \<Rightarrow>
                   if ok then onRead env p conn b2 (touch env p st1) else Inr (b2, emit (ForceClose conn) st1)))"
  by pat_completeness auto
termination
proof (relation "measure (\<lambda>(env, p, conn, b, st). readableBytes b)", goal_cases)
  case (2 env p conn b st n b1 inbuf b2 x ok st1)
  then have "readableBytes b2 \<le> readableBytes b1" and "readableBytes b1 < readableBytes b"
    by (auto intro: readable_retrieve_le readable_retrieve_less simp: sizeof_header_def)
  then show ?case by simp
qed simp

declare onRead.simps [simp del]

section \<open>The running server\<close>

text \<open>
  What the network layer delivers: a connection comes up (the callback of \<^verbatim>\<open>TcpServer\<close>), bytes
  arrive on one (they are appended to its input buffer and the message callback runs), a
  connection goes down (the same callback, after which the object is destroyed).  This is the server
  of one loop, or of several whose handlers do not overlap, without events that report an error and data at once.
\<close>

datatype chat_event = Connect nat | Receive nat bytes | Disconnect nat

record 'r chat_system =
  server :: "'r chat_server"
  inputs :: "nat \<Rightarrow> byte_buffer"

definition chat_step :: "'r chat_env \<Rightarrow> chat_event \<Rightarrow> 'r chat_system \<Rightarrow> chat_error + 'r chat_system" where
  "chat_step env e sys =
     (case e of
        Connect c \<Rightarrow>
          if c \<in> set (live_conns (server sys)) then Inr sys
          else Inr (sys\<lparr>server := onConnected env c True ((server sys)\<lparr>live_conns := live_conns (server sys) @ [c]\<rparr>),
                        inputs := (inputs sys)(c := ByteBuffer kInitialSize)\<rparr>)
      | Receive c d \<Rightarrow>
          if c \<notin> set (live_conns (server sys)) then Inr sys
          else (case callbacks (server sys) c of
                  None \<Rightarrow> Inr (sys\<lparr>inputs := (inputs sys)(c := append_data d (inputs sys c))\<rparr>)
                | Some p \<Rightarrow>
                    (case onRead env p c (append_data d (inputs sys c)) (server sys) of
                       Inl er \<Rightarrow> Inl er
                     | Inr (b, st) \<Rightarrow> Inr (sys\<lparr>server := st, inputs := (inputs sys)(c := b)\<rparr>)))
      | Disconnect c \<Rightarrow>
          if c \<notin> set (live_conns (server sys)) then Inr sys
          else Inr (sys\<lparr>server := (onConnected env c False (server sys))
                          \<lparr>live_conns := removeAll c (live_conns (server sys))\<rparr>\<rparr>))"

fun chat_run :: "'r chat_env \<Rightarrow> chat_event list \<Rightarrow> 'r chat_system \<Rightarrow> chat_error + 'r chat_system" where
  "chat_run env [] sys = Inr sys"
| "chat_run env (e # es) sys = (case chat_step env e sys of Inl er \<Rightarrow> Inl er | Inr sys1 \<Rightarrow> chat_run env es sys1)"

definition ChatServer :: "user_manager \<Rightarrow> msg_cache_manager \<Rightarrow> 'r \<Rightarrow> 'r chat_server" where
  "ChatServer um mc r =
     \<lparr>m_sessions = [], m_sessionId = 0, m_logPackageBinary = False, next_ptr = 0, callbacks = (\<lambda>_. None),
      live_conns = [], users = um, msg_cache = mc, redis_world = r, ticks = 0, outbox = []\<rparr>"

end
