(* ===== verification/Chat_Framing.thy ===== *)
theory Chat_Framing
  imports Chat_Server
begin

text \<open>
  The wire level of the chat protocol: \<^verbatim>\<open>ChatSession::onRead\<close> as a function of the bytes received so
  far (\<open>serve\<close>), independent of how they were split into reads and of the layout of the
  buffer; its relation to the frames \<^verbatim>\<open>TcpSession::sendPackage\<close> writes; and what it does with
  hostile size fields.
\<close>

section \<open>The receive loop on byte strings\<close>

function serve ::
  "'r chat_env \<Rightarrow> nat \<Rightarrow> nat \<Rightarrow> bytes \<Rightarrow> 'r chat_server \<Rightarrow> chat_error + (bytes \<times> bool \<times> 'r chat_server)" where
  "serve env p conn xs st =
     (let w = of_le_bytes (take 4 xs) :: int32
      in if length xs < 4 then Inr (xs, False, st)
         else if sint w > MAX_PACKAGE_SIZE then Inr (xs, True, emit (ForceClose conn) st)
         else if length xs < unat ((scast w :: 64 word) + 4) then Inr (xs, False, st)
         else if sint w < 0 then Inl Bad_length
         else (case process env p (take (nat (sint w)) (drop 4 xs)) st of
                 Inl e \<Rightarrow> Inl e
               | Inr (ok, st1) \<Rightarrow>
                   if ok then serve env p conn (drop (4 + nat (sint w)) xs) (touch env p st1)
                   else Inr (drop (4 + nat (sint w)) xs, True, emit (ForceClose conn) st1)))"
  by pat_completeness auto
termination
  by (relation "measure (\<lambda>(env, p, conn, xs, st). length xs)") auto

declare serve.simps [simp del]

definition forget_closed :: "bytes \<times> bool \<times> 'r chat_server \<Rightarrow> bytes \<times> 'r chat_server" where
  "forget_closed = (\<lambda>(xs, c, st). (xs, st))"

text \<open>The outcome of \<^verbatim>\<open>onRead\<close> up to the layout of the buffer.\<close>

definition outcome :: "chat_error + (byte_buffer \<times> 'r chat_server) \<Rightarrow> chat_error + (bytes \<times> 'r chat_server)" where
  "outcome r = map_sum id (\<lambda>(b, st). (content b, st)) r"

lemma outcome_simps [simp]:
  "outcome (Inl e) = Inl e"
  "outcome (Inr (b, st)) = Inr (content b, st)"
  by (simp_all add: outcome_def)

lemma forget_closed_simps [simp]: "forget_closed (xs, c, st) = (xs, st)"
  by (simp add: forget_closed_def)

lemma frame_total: "uint ((scast (w :: int32) :: 64 word) + 4) = (sint w + 4) mod 2 ^ 64"
proof -
  have "(scast w :: 64 word) + 4 = word_of_int (sint w + 4)" by simp
  then show ?thesis by (simp only: uint_word_of_int) simp
qed

lemma frame_total_pos:
  assumes "0 \<le> sint (w :: int32)"
  shows "unat ((scast w :: 64 word) + 4) = nat (sint w) + 4"
proof -
  have "sint w < 2 ^ 31" using sint_lt [of w] by simp
  then have "(sint w + 4) mod 2 ^ 64 = sint w + 4" using assms by simp
  then show ?thesis using assms frame_total [of w] by (simp add: unat_eq_nat_uint)
qed

lemma onRead_serve:
  assumes "buf_inv b"
  shows "outcome (onRead env p conn b st) = map_sum id forget_closed (serve env p conn (content b) st) \<and>
    (\<forall>b' st'. onRead env p conn b st = Inr (b', st') \<longrightarrow> buf_inv b')"
  using assms
proof (induction env p conn b st rule: onRead.induct)
  case (1 env p conn b st)
  let ?w = "peek_header b"
  have len: "readableBytes b = length (content b)" using "1.prems" by (simp add: length_content)
  have w: "?w = of_le_bytes (take 4 (content b))" by (simp add: peek_header_def sizeof_header_def)
  consider "length (content b) < 4" | "4 \<le> length (content b)" "sint ?w > MAX_PACKAGE_SIZE"
    | "4 \<le> length (content b)" "sint ?w \<le> MAX_PACKAGE_SIZE" "length (content b) < unat ((scast ?w :: 64 word) + 4)"
    | "4 \<le> length (content b)" "sint ?w \<le> MAX_PACKAGE_SIZE" "\<not> length (content b) < unat ((scast ?w :: 64 word) + 4)" "sint ?w < 0"
    | "4 \<le> length (content b)" "sint ?w \<le> MAX_PACKAGE_SIZE" "\<not> length (content b) < unat ((scast ?w :: 64 word) + 4)" "\<not> sint ?w < 0"
    by linarith
  then show ?case
  proof cases
    case 5
    define n where "n = nat (sint ?w)"
    define b1 where "b1 = snd (retrieve 4 b)"
    define b2 where "b2 = snd (retrieve n b1)"
    have le: "4 + n \<le> length (content b)" using 5 frame_total_pos [of ?w] by (simp add: n_def)
    have b1: "content b1 = drop 4 (content b)" and i1: "buf_inv b1"
      using "1.prems" 5 by (simp_all add: b1_def retrieve_content buf_inv_retrieve)
    have b2: "content b2 = drop (4 + n) (content b)" and i2: "buf_inv b2"
      using le i1 b1 by (simp_all add: b2_def retrieve_content buf_inv_retrieve add.commute)
    have step: "onRead env p conn b st = (case process env p (take n (content b1)) st of Inl e \<Rightarrow> Inl e
        | Inr (ok, st1) \<Rightarrow> if ok then onRead env p conn b2 (touch env p st1) else Inr (b2, emit (ForceClose conn) st1))"
      using 5 len by (simp add: onRead.simps [of env p conn b st] sizeof_header_def n_def b1_def b2_def Let_def split: sum.split)
    have step': "serve env p conn (content b) st = (case process env p (take n (content b1)) st of Inl e \<Rightarrow> Inl e
        | Inr (ok, st1) \<Rightarrow> if ok then serve env p conn (content b2) (touch env p st1)
            else Inr (content b2, True, emit (ForceClose conn) st1))"
      using 5 by (simp add: serve.simps [of env p conn "content b" st] w [symmetric] n_def b1 b2 Let_def split: sum.split)
    have IH: "process env p (take n (content b1)) st = Inr (True, st1) \<Longrightarrow>
        outcome (onRead env p conn b2 (touch env p st1)) = map_sum id forget_closed (serve env p conn (content b2) (touch env p st1)) \<and>
        (\<forall>b' st'. onRead env p conn b2 (touch env p st1) = Inr (b', st') \<longrightarrow> buf_inv b')" for st1
      using "1.IH" [of n b1 "take n (content b1)" b2 "(True, st1)" True st1] 5 len i2
      by (simp add: sizeof_header_def n_def b1_def b2_def id_def)
    show ?thesis
      using IH i2 unfolding step step' by (auto simp: id_def split: sum.splits)
  qed (use "1.prems" len in \<open>simp_all add: onRead.simps [of env p conn b st] serve.simps [of env p conn "content b" st]
      sizeof_header_def w [symmetric] Let_def\<close>)
qed

lemmas onRead_outcome = onRead_serve [THEN conjunct1]
lemmas onRead_buf_inv = onRead_serve [THEN conjunct2, rule_format]

section \<open>Splitting the stream\<close>

lemma take4_append: "4 \<le> length xs \<Longrightarrow> take 4 (xs @ d) = take 4 xs"
  by simp

lemma serve_append:
  "serve env p conn xs st = Inr (ys, False, st1) \<Longrightarrow>
     serve env p conn (xs @ d) st = serve env p conn (ys @ d) st1"
proof (induction env p conn xs st rule: serve.induct)
  case (1 env p conn xs st)
  let ?w = "of_le_bytes (take 4 xs) :: int32"
  show ?case
  proof (cases "length xs < 4 \<or> sint ?w > MAX_PACKAGE_SIZE \<or> length xs < unat ((scast ?w :: 64 word) + 4) \<or> sint ?w < 0")
    case True
    then have "ys = xs \<and> st1 = st"
      using "1.prems" by (auto simp: serve.simps [of env p conn xs st] Let_def split: if_splits)
    then show ?thesis by simp
  next
    case False
    define n where "n = nat (sint ?w)"
    have le: "4 + n \<le> length xs" using False frame_total_pos [of ?w] by (simp add: n_def)
    then have t: "take n (drop 4 (xs @ d)) = take n (drop 4 xs)" "drop (4 + n) (xs @ d) = drop (4 + n) xs @ d"
      by simp_all
    have step: "serve env p conn xs st = (case process env p (take n (drop 4 xs)) st of Inl e \<Rightarrow> Inl e
        | Inr (ok, st1) \<Rightarrow> if ok then serve env p conn (drop (4 + n) xs) (touch env p st1)
            else Inr (drop (4 + n) xs, True, emit (ForceClose conn) st1))"
      using False by (simp add: serve.simps [of env p conn xs st] n_def Let_def split: sum.split)
    have step': "serve env p conn (xs @ d) st = (case process env p (take n (drop 4 xs)) st of Inl e \<Rightarrow> Inl e
        | Inr (ok, st1) \<Rightarrow> if ok then serve env p conn (drop (4 + n) xs @ d) (touch env p st1)
            else Inr (drop (4 + n) xs @ d, True, emit (ForceClose conn) st1))"
      using False t unfolding n_def
      by (cases "process env p (take (nat (sint ?w)) (drop 4 xs)) st")
        (auto simp: serve.simps [of env p conn "xs @ d" st] Let_def)
    obtain st2 where pr: "process env p (take n (drop 4 xs)) st = Inr (True, st2)"
      and rest: "serve env p conn (drop (4 + n) xs) (touch env p st2) = Inr (ys, False, st1)"
      using "1.prems" unfolding step by (auto split: sum.splits if_splits)
    show ?thesis
      using "1.IH" [of ?w "(True, st2)" True st2] pr rest False by (simp add: step' n_def)
  qed
qed

section \<open>Frames\<close>

text \<open>The specification of the receive loop: the bodies of the frames are handed to \<^verbatim>\<open>process\<close> one by one.\<close>

fun deliver ::
  "'r chat_env \<Rightarrow> nat \<Rightarrow> nat \<Rightarrow> bytes list \<Rightarrow> 'r chat_server \<Rightarrow> chat_error + (bytes list \<times> bool \<times> 'r chat_server)" where
  "deliver env p conn [] st = Inr ([], False, st)"
| "deliver env p conn (body # bodies) st =
     (case process env p body st of
        Inl e \<Rightarrow> Inl e
      | Inr (ok, st1) \<Rightarrow>
          if ok then deliver env p conn bodies (touch env p st1) else Inr (bodies, True, emit (ForceClose conn) st1))"

definition frames :: "bytes list \<Rightarrow> bytes" where
  "frames bodies = concat (map frame bodies)"

lemma frames_simps [simp]: "frames [] = []" "frames (x # xs) = frame x @ frames xs"
  by (simp_all add: frames_def)

lemma sint_word_of_nat: "n < 2 ^ 31 \<Longrightarrow> sint (word_of_nat n :: int32) = int n"
proof -
  assume "n < 2 ^ 31"
  then have "unat (word_of_nat n :: int32) = n" by (intro unat_word_of_nat_small) simp
  moreover have "sint (word_of_nat n :: int32) = signed_take_bit 31 (int n)"
    by (simp add: signed_of_nat)
  moreover have "signed_take_bit 31 (int n) = int n"
    using \<open>n < 2 ^ 31\<close> by (simp add: signed_take_bit_int_eq_self)
  ultimately show ?thesis by simp
qed

lemma frame_header:
  assumes "int (length x) \<le> MAX_PACKAGE_SIZE"
  shows "length (frame x) = 4 + length x" and "take 4 (frame x @ t) = take 4 (frame x)"
    and "sint (of_le_bytes (take 4 (frame x)) :: int32) = int (length x)"
    and "take (length x) (drop 4 (frame x @ t)) = x" and "drop (4 + length x) (frame x @ t) = t"
  using assms
  by (simp_all add: frame_def of_le_bytes_le_bytes sint_word_of_nat MAX_PACKAGE_SIZE_def)

lemma serve_frame:
  assumes "int (length x) \<le> MAX_PACKAGE_SIZE"
  shows "serve env p conn (frame x @ t) st =
    (case process env p x st of Inl e \<Rightarrow> Inl e
     | Inr (ok, st1) \<Rightarrow> if ok then serve env p conn t (touch env p st1) else Inr (t, True, emit (ForceClose conn) st1))"
  using frame_header [OF assms] frame_total_pos [of "of_le_bytes (take 4 (frame x))"] assms
  by (simp add: serve.simps [of env p conn "frame x @ t" st] Let_def split: sum.split)

lemma serve_frames:
  assumes "\<forall>x\<in>set bodies. int (length x) \<le> MAX_PACKAGE_SIZE"
  shows "serve env p conn (frames bodies) st = map_sum id (\<lambda>(bs, c, st). (frames bs, c, st)) (deliver env p conn bodies st)"
  using assms
proof (induction bodies arbitrary: st)
  case Nil
  then show ?case by (simp add: serve.simps)
next
  case (Cons x bodies)
  then show ?case by (auto simp: serve_frame split: sum.splits)
qed

lemma serve_closed: "serve env p conn xs st = Inr (ys, True, st1) \<Longrightarrow> ForceClose conn \<in> set (outbox st1)"
proof (induction env p conn xs st rule: serve.induct)
  case (1 env p conn xs st)
  then show ?case
    by (auto simp: serve.simps [of env p conn xs st] Let_def emit_def split: if_splits sum.splits)
qed

lemma onRead_not_closed:
  assumes "buf_inv b" and "onRead env p conn b st = Inr (b1, st1)" and "ForceClose conn \<notin> set (outbox st1)"
  shows "serve env p conn (content b) st = Inr (content b1, False, st1)"
  using onRead_outcome [OF assms(1), of env p conn st] assms(2,3) serve_closed [of env p conn "content b" st]
  by (cases "serve env p conn (content b) st") (auto simp: forget_closed_def)

lemma deliver_append:
  "deliver env p conn (xs @ ys) st =
     (case deliver env p conn xs st of
        Inl e \<Rightarrow> Inl e
      | Inr (rest, closed, st1) \<Rightarrow> if closed then Inr (rest @ ys, True, st1) else deliver env p conn ys st1)"
  by (induction xs arbitrary: st) (auto split: sum.splits)

section \<open>Packets\<close>

lemma length_packet:
  assumes "length data < 2 ^ 32"
  shows "length (packet junk cmd seq data) \<le> 19 + length data"
proof -
  have "length (write7BitEncoded (word_of_nat (length data) :: 64 word) []) \<le> 5"
    by (rule length_write7) (use assms in \<open>simp_all add: unat_word_of_nat_small\<close>)
  then show ?thesis using message_header(2) [of data seq cmd junk] by (simp add: packet_def enc_string_def)
qed

lemma process_packet:
  assumes "length data < 2 ^ 32"
  shows "process env p (packet junk cmd seq data) st =
    (case dispatch env p cmd data (upd_session p (set_seq seq) st) of
       Inl e \<Rightarrow> Inl e
     | Inr (ok, st1) \<Rightarrow> Inr (ok, if ok then upd_session p bump_seq st1 else st1))"
proof -
  obtain r1 r2 r3 where "ReadInt32 (BinaryStreamReader (packet junk cmd seq data)) = (Some cmd, r1)"
    and "ReadInt32 r1 = (Some seq, r2)" and "ReadString 0 r2 = Inr (Some data, Some (length data), r3)"
    using message_fields [OF assms, of seq cmd junk] by (auto simp: packet_def)
  then show ?thesis by (auto simp: process_def Let_def split: sum.splits bool.splits)
qed

lemma sendPackage_ok:
  assumes "length p < 2 ^ 31" and "conn \<in> set (live_conns st)"
  shows "sendPackage conn p st = Inr (emit (ConnSend conn (frame p)) st)"
  using assms by (simp add: sendPackage_def frame_def sint_word_of_nat Let_def)

lemma TcpSession_send_ok:
  assumes "length data \<le> 2 ^ 31 - 20" and "conn \<in> set (live_conns st)"
  shows "TcpSession_send env conn cmd seq data st =
    Inr (emit (ConnSend conn (frame (packet (env_junk env) cmd seq data))) st)"
  using assms length_packet [of data "env_junk env" cmd seq]
  by (simp add: TcpSession_send_def sint_word_of_nat Let_def sendPackage_ok)

lemma request_outcome:
  assumes "length data \<le> 10485000" and "buf_inv b" and "content b = []"
  shows "outcome (onRead env p conn (append_data (frame (packet junk cmd seq data)) b) st) =
    (case dispatch env p cmd data (upd_session p (set_seq seq) st) of
       Inl e \<Rightarrow> Inl e
     | Inr (ok, st1) \<Rightarrow>
         Inr ([], if ok then touch env p (upd_session p bump_seq st1) else emit (ForceClose conn) st1))"
proof -
  have "\<forall>x\<in>set [packet junk cmd seq data]. int (length x) \<le> MAX_PACKAGE_SIZE"
    using assms(1) length_packet [of data junk cmd seq] by (simp add: MAX_PACKAGE_SIZE_def)
  from serve_frames [OF this, of env p conn st] show ?thesis
    using assms process_packet [of data env p junk cmd seq st]
    by (auto simp: onRead_outcome append_post split: sum.splits)
qed

section \<open>A small server\<close>

text \<open>One user, one connection that has not logged in, libraries in memory; for the examples.\<close>

definition demo_json :: json_api where
  "demo_json = \<lparr>json_parse = (\<lambda>d. if d = [] then None
       else Some (JObject [(lit ''password'', JString (tl d)), (lit ''username'', JString [hd d])])),
     json_dump = (\<lambda>j. Some (lit ''[]''))\<rparr>"

lemma demo_login: "login_request demo_json d = (if d = [] then None else Some ([hd d], tl d))"
proof -
  have "map_ok [(lit ''password'', a), (lit ''username'', b)]" for a b :: json
    by (simp add: map_ok_def lit_def)
  moreover have "lit ''username'' \<noteq> lit ''password''" by (simp add: lit_def)
  ultimately show ?thesis by (simp add: login_request_def demo_json_def)
qed

definition demo_env :: "(bytes \<Rightarrow> bytes list) chat_env" where
  "demo_env = \<lparr>env_json = demo_json, env_redis = mem_redis, env_junk = (\<lambda>_. 170), env_time = int, env_uninit = (\<lambda>_. 0)\<rparr>"

definition demo_server :: "(bytes \<Rightarrow> bytes list) chat_server" where
  "demo_server =
     \<lparr>m_sessions = [(0, ChatSession 7 1 0 0 0)], m_sessionId = 1, m_logPackageBinary = False, next_ptr = 1,
      callbacks = (\<lambda>_. None)(7 := Some 0), live_conns = [7],
      users = \<lparr>m_allCachedUsers = [\<lparr>userid = 1, username = [109], password = [49]\<rparr>], um_strDbServer = [],
               um_strDbUserName = [], um_strDbPassword = [], um_strDbName = []\<rparr>,
      msg_cache = \<lparr>mc_strDbServer = [], mc_strDbUserName = [], mc_strDbPassword = [], mc_strDbName = [],
                   m_strRedisUrl = []\<rparr>,
      redis_world = (\<lambda>_. []), ticks = 1, outbox = []\<rparr>"

lemma demo_dispatch:
  "dispatch demo_env 0 5 [65] (upd_session 0 (set_seq 9) demo_server) =
     Inr (True, emit (ConnSend 7 (frame (packet (\<lambda>_. 170) 5 9 not_login_text))) (upd_session 0 (set_seq 9) demo_server))"
  by (simp add: dispatch_def demo_server_def upd_session_def set_seq_def ChatSession_def msg_type_defs
      TcpSession_send_ok not_login_text_def lit_def demo_env_def)

definition demo_buffer :: byte_buffer where
  "demo_buffer = append_data (frame (packet (\<lambda>_. 0) 5 9 [65])) (ByteBuffer 16)"

lemma demo_read:
  obtains b1 st1 where "onRead demo_env 0 7 demo_buffer demo_server = Inr (b1, st1)" and "content b1 = []"
    and "ForceClose 7 \<notin> set (outbox st1)"
proof -
  have out: "outcome (onRead demo_env 0 7 demo_buffer demo_server) = Inr ([], touch demo_env 0 (upd_session 0 bump_seq
      (emit (ConnSend 7 (frame (packet (\<lambda>_. 170) 5 9 not_login_text))) (upd_session 0 (set_seq 9) demo_server))))"
    unfolding demo_buffer_def by (subst request_outcome) (simp_all add: demo_dispatch)
  show thesis
  proof (cases "onRead demo_env 0 7 demo_buffer demo_server")
    case (Inr r)
    then show thesis
      using out that [of "fst r" "snd r"] by (cases r) (auto simp: touch_def upd_session_def emit_def demo_server_def)
  qed (use out in simp)
qed

lemma le_bytes_minus_1: "le_bytes 4 (- 1 :: int32) = [255, 255, 255, 255]"
  by code_simp

section \<open>Properties\<close>

text \<open>
  C4: How the stream is cut into reads does not matter: if \<^verbatim>\<open>onRead\<close> has consumed what it could of the
  bytes received so far and has not closed the connection, then delivering more bytes has
  exactly the outcome of delivering everything at once: the same handlers run on the same
  requests in the same order, the same replies are sent and the same bytes stay buffered,
  whatever the layout of the two buffers.
\<close>

theorem onRead_chunking:
  assumes "buf_inv b" and "onRead env p conn b st = Inr (b1, st1)" and "ForceClose conn \<notin> set (outbox st1)"
  shows "outcome (onRead env p conn (append_data d b1) st1) = outcome (onRead env p conn (append_data d b) st)"
proof -
  have "buf_inv b1" using assms(1,2) by (rule onRead_buf_inv)
  then show ?thesis
    using serve_append [OF onRead_not_closed [OF assms], of d] assms(1)
    by (simp add: onRead_outcome append_post)
qed

theorem onRead_chunking_witness:
  "\<exists>b1 st1. onRead demo_env 0 7 demo_buffer demo_server = Inr (b1, st1) \<and> content b1 = [] \<and>
     outcome (onRead demo_env 0 7 (append_data [1, 2] b1) st1) =
     outcome (onRead demo_env 0 7 (append_data [1, 2] demo_buffer) demo_server)"
proof -
  obtain b1 st1 where "onRead demo_env 0 7 demo_buffer demo_server = Inr (b1, st1)" and "content b1 = []"
    and "ForceClose 7 \<notin> set (outbox st1)" by (rule demo_read)
  then show ?thesis
    using onRead_chunking [of demo_buffer demo_env 0 7 demo_server b1 st1 "[1, 2]"]
    by (simp add: demo_buffer_def append_post)
qed

text \<open>
  C2: The receive loop implements its specification: on a buffer holding the frames of any list of
  bodies of at most 10 MiB, \<^verbatim>\<open>onRead\<close> terminates having handed the bodies to \<^verbatim>\<open>process\<close> one by one in
  order, closes the connection at the first one that is refused, and leaves exactly the frames
  behind that one in the buffer.
\<close>

theorem onRead_delivers_frames:
  assumes "buf_inv b" and "content b = frames bodies" and "\<forall>x\<in>set bodies. int (length x) \<le> MAX_PACKAGE_SIZE"
  shows "outcome (onRead env p conn b st) =
    map_sum id (\<lambda>(rest, closed, st'). (frames rest, st')) (deliver env p conn bodies st)"
  by (cases "deliver env p conn bodies st")
    (auto simp: onRead_outcome [OF assms(1)] assms(2) serve_frames [OF assms(3)] sum.map_comp forget_closed_def)

theorem onRead_delivers_frames_witness:
  "outcome (onRead demo_env 0 7 (append_data (frames [[1], []]) (ByteBuffer 16)) demo_server) =
     Inr (frames [[]], emit (ForceClose 7) demo_server)"
proof -
  have "process demo_env 0 [1] demo_server = Inr (False, demo_server)"
    by (simp add: process_def ReadInt32_def BinaryStreamReader_def)
  then show ?thesis
    using onRead_delivers_frames [of "append_data (frames [[1], []]) (ByteBuffer 16)" "[[1], []]" demo_env 0 7 demo_server]
    by (simp add: append_post MAX_PACKAGE_SIZE_def)
qed

text \<open>
  C6: What one side sends, the other side understands: sending a command on a live connection emits
  one frame, and \<^verbatim>\<open>onRead\<close> on an empty buffer to which such a frame is appended runs exactly the
  handler of that command with that sequence number and data, consuming the whole frame.
\<close>

theorem request_roundtrip:
  assumes "length data \<le> 10485000" and "buf_inv b" and "content b = []" and "c' \<in> set (live_conns st')"
  shows "TcpSession_send env c' cmd seq data st' =
      Inr (emit (ConnSend c' (frame (packet (env_junk env) cmd seq data))) st') \<and>
    outcome (onRead env p conn (append_data (frame (packet junk cmd seq data)) b) st) =
      (case dispatch env p cmd data (upd_session p (set_seq seq) st) of
         Inl e \<Rightarrow> Inl e
       | Inr (ok, st1) \<Rightarrow>
           Inr ([], if ok then touch env p (upd_session p bump_seq st1) else emit (ForceClose conn) st1))"
proof
  show "TcpSession_send env c' cmd seq data st' =
      Inr (emit (ConnSend c' (frame (packet (env_junk env) cmd seq data))) st')"
    using assms(1,4) by (intro TcpSession_send_ok) simp_all
  show "outcome (onRead env p conn (append_data (frame (packet junk cmd seq data)) b) st) =
      (case dispatch env p cmd data (upd_session p (set_seq seq) st) of
         Inl e \<Rightarrow> Inl e
       | Inr (ok, st1) \<Rightarrow>
           Inr ([], if ok then touch env p (upd_session p bump_seq st1) else emit (ForceClose conn) st1))"
    using assms(1,2,3) by (rule request_outcome)
qed

theorem request_roundtrip_witness:
  "outcome (onRead demo_env 0 7 (append_data (frame (packet (\<lambda>_. 0) 5 9 [65])) (ByteBuffer 16)) demo_server) =
     Inr ([], touch demo_env 0 (upd_session 0 bump_seq (emit (ConnSend 7 (frame (packet (\<lambda>_. 170) 5 9 not_login_text)))
       (upd_session 0 (set_seq 9) demo_server))))"
  using request_roundtrip [of "[65]" "ByteBuffer 16" 7 demo_server demo_env 5 9 0 7 "\<lambda>_. 0" demo_server]
  by (simp add: demo_dispatch) (simp add: demo_server_def)

text \<open>
  C10: The size check lets negative sizes through.  A header with a size from -4 to -1 makes the server
  throw an exception that nobody catches, for any session and any data behind it; with any
  smaller size the connection is stuck: nothing that arrives later is ever processed.
\<close>

theorem negative_size_kills_or_stalls:
  assumes "buf_inv b" and "content b = le_bytes 4 (w :: int32) @ rest" and "sint w < 0" and "length rest < 2 ^ 62"
  shows "(- 4 \<le> sint w \<longrightarrow> onRead env p conn b st = Inl Bad_length) \<and>
    (sint w < - 4 \<longrightarrow> onRead env p conn b st = Inr (b, st))"
proof -
  have w: "peek_header b = w"
    by (simp add: peek_header_def sizeof_header_def assms(2) of_le_bytes_le_bytes)
  have len: "readableBytes b = 4 + length rest"
    using length_content [OF assms(1)] assms(2) by simp
  have u: "unat ((scast w :: 64 word) + 4) = nat ((sint w + 4) mod 2 ^ 64)"
    using frame_total [of w] by (simp add: unat_eq_nat_uint)
  have ge: "- (2 ^ 31) \<le> sint w" using sint_ge [of w] by simp
  show ?thesis
  proof (intro conjI impI)
    assume "- 4 \<le> sint w"
    then have "(sint w + 4) mod 2 ^ 64 = sint w + 4" using assms(3) by (intro mod_pos_pos_trivial) simp_all
    then show "onRead env p conn b st = Inl Bad_length"
      using assms(3) len u by (simp add: onRead.simps [of env p conn b st] w sizeof_header_def MAX_PACKAGE_SIZE_def)
  next
    assume "sint w < - 4"
    then have "(sint w + 4 + 2 ^ 64) mod 2 ^ 64 = sint w + 4 + 2 ^ 64"
      using ge by (intro mod_pos_pos_trivial) simp_all
    then have "(sint w + 4) mod 2 ^ 64 = sint w + 4 + 2 ^ 64" by (simp only: mod_add_self2)
    then show "onRead env p conn b st = Inr (b, st)"
      using assms(3,4) len u ge by (simp add: onRead.simps [of env p conn b st] w sizeof_header_def MAX_PACKAGE_SIZE_def)
  qed
qed

theorem negative_size_kills_or_stalls_witness:
  "onRead demo_env 0 7 (append_data [255, 255, 255, 255] (ByteBuffer 16)) demo_server = Inl Bad_length"
  using negative_size_kills_or_stalls [of "append_data [255, 255, 255, 255] (ByteBuffer 16)" "- 1" "[]" demo_env 0 7 demo_server]
  by (simp add: append_post le_bytes_minus_1)

end
