(* ===== verification/Chat_Sessions.thy ===== *)
theory Chat_Sessions
  imports Chat_Framing
begin

text \<open>
  What holds of the chat server when the handlers run one after the other: sessions correspond to
  connections, a user id is held by at most one session, no handler runs on a session that is gone; and what
  the login, the login guard and the broadcast of a chat message do.  The interleaving of the handlers of
  several loops is the subject of \<open>Chat_Loops\<close>.
\<close>

section \<open>Views of the state\<close>

text \<open>The identity of the sessions (never changed by a handler) and their user ids.\<close>

definition skeleton :: "'r chat_server \<Rightarrow> (nat \<times> nat) list" where
  "skeleton st = map (\<lambda>(p, s). (p, tmpConn s)) (m_sessions st)"

definition uids :: "'r chat_server \<Rightarrow> (nat \<times> int32) list" where
  "uids st = map (\<lambda>(p, s). (p, oi_userid (m_userinfo s))) (m_sessions st)"

definition same_frame :: "'r chat_server \<Rightarrow> 'r chat_server \<Rightarrow> bool" where
  "same_frame st st' \<longleftrightarrow> skeleton st' = skeleton st \<and> live_conns st' = live_conns st \<and>
     callbacks st' = callbacks st \<and> next_ptr st' = next_ptr st"

definition unique_users :: "(nat \<times> int32) list \<Rightarrow> bool" where
  "unique_users us \<longleftrightarrow> (\<forall>p q u. (p, u) \<in> set us \<longrightarrow> (q, u) \<in> set us \<longrightarrow> u \<noteq> 0 \<longrightarrow> p = q)"

definition chat_inv :: "'r chat_server \<Rightarrow> bool" where
  "chat_inv st \<longleftrightarrow>
     distinct (map fst (skeleton st)) \<and> (\<forall>(p, c)\<in>set (skeleton st). p < next_ptr st \<and> callbacks st c = Some p) \<and>
     map snd (skeleton st) = live_conns st \<and> distinct (live_conns st) \<and> unique_users (uids st)"

named_theorems frame_intros \<open>operations that keep the identity of the sessions\<close>

lemma same_frame_refl [simp, frame_intros]: "same_frame st st"
  by (simp add: same_frame_def)

lemma same_frame_trans: "same_frame a b \<Longrightarrow> same_frame b c \<Longrightarrow> same_frame a c"
  by (simp add: same_frame_def)

lemma fst_skeleton: "map fst (skeleton st) = map fst (m_sessions st)"
  by (simp add: skeleton_def comp_def case_prod_beta)

lemma fst_uids: "map fst (uids st) = map fst (m_sessions st)"
  by (simp add: uids_def comp_def case_prod_beta)

lemma chat_inv_frame:
  "same_frame st st' \<Longrightarrow> chat_inv st \<Longrightarrow> unique_users (uids st') \<Longrightarrow> chat_inv st'"
  by (simp add: same_frame_def chat_inv_def)

section \<open>Updating one session\<close>

lemma map_of_upd: "map_of (map (\<lambda>(q, s). (q, if q = p then f s else s)) ss) q =
    map_option (\<lambda>s. if q = p then f s else s) (map_of ss q)"
  by (induction ss) auto

lemma map_of_upd_session [simp]:
  "map_of (m_sessions (upd_session p f st)) q = map_option (\<lambda>s. if q = p then f s else s) (map_of (m_sessions st) q)"
  by (simp add: upd_session_def map_of_upd)

lemma upd_session_frame [frame_intros]:
  "(\<And>s. tmpConn (f s) = tmpConn s) \<Longrightarrow> same_frame st (upd_session p f st)"
  by (auto simp: same_frame_def skeleton_def upd_session_def)

lemma uids_upd_same:
  "(\<And>s. oi_userid (m_userinfo (f s)) = oi_userid (m_userinfo s)) \<Longrightarrow> uids (upd_session p f st) = uids st"
  by (auto simp: uids_def upd_session_def)

lemma seq_updates [simp]:
  "tmpConn (set_seq n s) = tmpConn s" "tmpConn (bump_seq s) = tmpConn s" "tmpConn (set_login s) = tmpConn s"
  "tmpConn (record_user u nm s) = tmpConn s" "tmpConn (makeSessionInvalid s) = tmpConn s"
  "m_userinfo (set_seq n s) = m_userinfo s" "m_userinfo (bump_seq s) = m_userinfo s"
  "m_userinfo (set_login s) = m_userinfo s"
  "oi_userid (m_userinfo (record_user u nm s)) = u" "oi_userid (m_userinfo (makeSessionInvalid s)) = 0"
  by (simp_all add: set_seq_def bump_seq_def set_login_def record_user_def makeSessionInvalid_def)

lemma other_fields_upd_session [simp]:
  "live_conns (upd_session p f st) = live_conns st" "users (upd_session p f st) = users st"
  "outbox (upd_session p f st) = outbox st" "redis_world (upd_session p f st) = redis_world st"
  "msg_cache (upd_session p f st) = msg_cache st" "ticks (upd_session p f st) = ticks st"
  by (simp_all add: upd_session_def)

section \<open>Sending\<close>

text \<open>Sending does nothing but append to the outbox.\<close>

definition sends_only :: "'r chat_server \<Rightarrow> 'r chat_server \<Rightarrow> bool" where
  "sends_only st st' \<longleftrightarrow> (\<exists>es. st' = st\<lparr>outbox := outbox st @ es\<rparr>)"

lemma sends_only_refl [simp]: "sends_only st st"
  by (auto simp: sends_only_def intro: exI [of _ "[]"])

lemma sends_only_trans: "sends_only a b \<Longrightarrow> sends_only b c \<Longrightarrow> sends_only a c"
  by (auto simp: sends_only_def)

lemma emit_sends_only [simp]: "sends_only st (emit e st)"
  by (auto simp: sends_only_def emit_def)

lemma sends_only_keeps:
  "sends_only st st' \<Longrightarrow> m_sessions st' = m_sessions st \<and> uids st' = uids st \<and> same_frame st st' \<and>
     users st' = users st \<and> redis_world st' = redis_world st"
  by (auto simp: sends_only_def uids_def same_frame_def skeleton_def)

lemma sendPackage_sends_only: "sendPackage c d st = Inr st' \<Longrightarrow> sends_only st st'"
  by (auto simp: sendPackage_def Let_def split: if_splits)

lemma TcpSession_send_sends_only: "TcpSession_send env c cmd seq d st = Inr st' \<Longrightarrow> sends_only st st'"
  by (auto simp: TcpSession_send_def Let_def intro: sendPackage_sends_only split: if_splits)

lemma send_to_all_sends_only: "send_to_all d ss st = Inr st' \<Longrightarrow> sends_only st st'"
proof (induction d ss st rule: send_to_all.induct)
  case (2 outbuf p s ss st)
  then show ?case
    by (auto split: sum.splits dest!: sendPackage_sends_only intro: sends_only_trans)
qed simp

lemma send_never_dangling:
  "sendPackage c d st \<noteq> Inl Bad_session" "TcpSession_send env c cmd seq d st \<noteq> Inl Bad_session"
  "send_to_all d ss st \<noteq> Inl Bad_session"
proof -
  show 1: "sendPackage c d st \<noteq> Inl Bad_session" for c d and st :: "'b chat_server"
    by (simp add: sendPackage_def Let_def)
  show "TcpSession_send env c cmd seq d st \<noteq> Inl Bad_session"
    by (simp add: TcpSession_send_def Let_def 1)
  show "send_to_all d ss st \<noteq> Inl Bad_session"
    by (induction d ss st rule: send_to_all.induct) (auto simp: 1 split: sum.splits)
qed

section \<open>Login keeps users unique\<close>

lemma getSessionByUserId_Some:
  "getSessionByUserId u ss = Some p \<Longrightarrow> \<exists>s. (p, s) \<in> set ss \<and> oi_userid (m_userinfo s) = u"
  by (induction ss) (auto split: if_splits)

lemma getSessionByUserId_None:
  "getSessionByUserId u ss = None \<longleftrightarrow> (\<forall>(p, s)\<in>set ss. oi_userid (m_userinfo s) \<noteq> u)"
  by (induction ss) (auto split: if_splits)

text \<open>After the previous holder was kicked nobody has the user id, and the others keep theirs.\<close>

lemma kick_user_post:
  assumes "kick_user env u seq st = Inr st1" and "unique_users (uids st)"
  shows "same_frame st st1" and "unique_users (uids st1)"
    and "u \<noteq> 0 \<Longrightarrow> \<forall>(q, v)\<in>set (uids st1). v \<noteq> u" and "map fst (m_sessions st1) = map fst (m_sessions st)"
proof -
  have "same_frame st st1 \<and> unique_users (uids st1) \<and> (u \<noteq> 0 \<longrightarrow> (\<forall>(q, v)\<in>set (uids st1). v \<noteq> u)) \<and>
      map fst (m_sessions st1) = map fst (m_sessions st)"
  proof (cases "getSessionByUserId u (m_sessions st)")
    case None
    then have "st1 = st" using assms(1) by (simp add: kick_user_def)
    then show ?thesis
      using assms(2) None by (auto simp: uids_def getSessionByUserId_None)
  next
    case (Some q)
    obtain t :: chat_session and st2 where st2: "TcpSession_send env (tmpConn t) msg_type_kickuser seq [] st = Inr st2"
      and st1: "st1 = upd_session q makeSessionInvalid st2"
      using assms(1) Some by (auto simp: kick_user_def split: option.splits sum.splits)
    have keep: "m_sessions st2 = m_sessions st" "same_frame st st2"
      using sends_only_keeps [OF TcpSession_send_sends_only [OF st2]] by simp_all
    have frame: "same_frame st st1"
      unfolding st1 by (rule same_frame_trans [OF keep(2) upd_session_frame]) simp
    have u1: "uids st1 = map (\<lambda>(r, v). (r, if r = q then 0 else v)) (uids st)"
      unfolding st1 by (auto simp: uids_def upd_session_def keep)
    have "(q, u) \<in> set (uids st)"
      using getSessionByUserId_Some [OF Some] by (force simp: uids_def)
    then have "unique_users (uids st1) \<and> (u \<noteq> 0 \<longrightarrow> (\<forall>(q, v)\<in>set (uids st1). v \<noteq> u))"
      using assms(2) unfolding u1 unique_users_def by (auto split: if_splits)
    then show ?thesis
      using frame fst_skeleton [of st] fst_skeleton [of st1] by (simp add: same_frame_def)
  qed
  then show "same_frame st st1" and "unique_users (uids st1)"
    and "u \<noteq> 0 \<Longrightarrow> \<forall>(q, v)\<in>set (uids st1). v \<noteq> u" and "map fst (m_sessions st1) = map fst (m_sessions st)"
    by simp_all
qed

lemma record_user_unique:
  assumes "unique_users (uids st)" and "u \<noteq> 0 \<Longrightarrow> \<forall>(q, v)\<in>set (uids st). v \<noteq> u"
  shows "unique_users (uids (upd_session p (record_user u nm) st))"
proof -
  have "uids (upd_session p (record_user u nm) st) = map (\<lambda>(r, v). (r, if r = p then u else v)) (uids st)"
    by (auto simp: uids_def upd_session_def)
  then show ?thesis
    using assms unfolding unique_users_def by (auto split: if_splits)
qed

lemma login_reply_post:
  assumes "login_reply env p s text st = Inr st1"
  shows "same_frame st st1" and "uids st1 = uids st"
    and "map_of (m_sessions st1) p = map_option set_login (map_of (m_sessions st) p)"
proof -
  obtain st2 where "TcpSession_send env (tmpConn s) msg_type_login (m_seq s) text st = Inr st2"
    and st1: "st1 = upd_session p set_login st2"
    using assms by (auto simp: login_reply_def split: sum.splits)
  then have keep: "m_sessions st2 = m_sessions st" "same_frame st st2" "uids st2 = uids st"
    using sends_only_keeps [OF TcpSession_send_sends_only] by blast+
  show "same_frame st st1"
    unfolding st1 by (rule same_frame_trans [OF keep(2) upd_session_frame]) simp
  show "uids st1 = uids st" unfolding st1 by (simp add: uids_upd_same keep)
  show "map_of (m_sessions st1) p = map_option set_login (map_of (m_sessions st) p)"
    unfolding st1 by (simp add: keep)
qed

section \<open>Handlers keep the invariant\<close>

lemma onLogin_post:
  assumes "onLoginResponse env p s data st = Inr st1" and "unique_users (uids st)"
  shows "same_frame st st1" and "unique_users (uids st1)"
proof -
  obtain name pw where req: "login_request (env_json env) data = Some (name, pw)"
    using assms(1) by (auto simp: onLoginResponse_def split: option.splits)
  let ?u = "snd (getUserInfoByUsername name no_user (users st))"
  have "same_frame st st1 \<and> unique_users (uids st1)"
  proof (cases "password ?u \<noteq> pw")
    case True
    then show ?thesis
      using assms req login_reply_post by (fastforce simp: onLoginResponse_def Let_def)
  next
    case False
    then obtain st2 where k: "kick_user env (userid ?u) (m_seq s) st = Inr st2"
      and r: "login_reply env p s (login_ok_text (userid ?u) (username ?u)) (upd_session p (record_user (userid ?u) name) st2) = Inr st1"
      using assms(1) req by (auto simp: onLoginResponse_def Let_def split: sum.splits)
    note kick = kick_user_post [OF k assms(2)]
    have "same_frame st2 (upd_session p (record_user (userid ?u) name) st2)" by (rule upd_session_frame) simp
    moreover have "unique_users (uids (upd_session p (record_user (userid ?u) name) st2))"
      by (rule record_user_unique [OF kick(2,3)])
    ultimately show ?thesis
      using kick(1) login_reply_post(1,2) [OF r] by (auto intro: same_frame_trans)
  qed
  then show "same_frame st st1" and "unique_users (uids st1)" by simp_all
qed

lemma redis_update_keeps: "same_frame st (st\<lparr>redis_world := r\<rparr>) \<and> uids (st\<lparr>redis_world := r\<rparr>) = uids st"
  by (simp add: same_frame_def skeleton_def uids_def)

lemma same_view_trans:
  "same_frame st a \<and> uids a = uids st \<Longrightarrow> sends_only a b \<Longrightarrow> same_frame st b \<and> uids b = uids st"
  using sends_only_keeps [of a b] same_frame_trans by auto

lemma other_handlers_keep:
  "onGetUserListResponse env s st = Inr st1 \<Longrightarrow> same_frame st st1 \<and> uids st1 = uids st"
  "onGetMsgsResponse env s st = Inr st1 \<Longrightarrow> same_frame st st1 \<and> uids st1 = uids st"
  "onChatResponse env s data st = Inr st1 \<Longrightarrow> same_frame st st1 \<and> uids st1 = uids st"
proof -
  assume "onGetUserListResponse env s st = Inr st1"
  then have "sends_only st st1"
    by (auto simp: onGetUserListResponse_def intro: TcpSession_send_sends_only split: option.splits)
  then show "same_frame st st1 \<and> uids st1 = uids st" by (simp add: sends_only_keeps)
next
  assume "onGetMsgsResponse env s st = Inr st1"
  then obtain r where "sends_only (st\<lparr>redis_world := r\<rparr>) st1"
    by (auto simp: onGetMsgsResponse_def Let_def dest: TcpSession_send_sends_only split: option.splits prod.splits)
  then show "same_frame st st1 \<and> uids st1 = uids st" by (rule same_view_trans [OF redis_update_keeps])
next
  assume "onChatResponse env s data st = Inr st1"
  then obtain r where "sends_only (st\<lparr>redis_world := r\<rparr>) st1"
    by (auto simp: onChatResponse_def Let_def dest: send_to_all_sends_only split: prod.splits)
  then show "same_frame st st1 \<and> uids st1 = uids st" by (rule same_view_trans [OF redis_update_keeps])
qed

lemma map_sum_Inr: "map_sum id (Pair c) x = Inr (ok, st1) \<longleftrightarrow> ok = c \<and> x = Inr st1"
  by (cases x) auto

lemma map_sum_Inl: "map_sum id f x = Inl e \<longleftrightarrow> x = Inl e"
  by (cases x) auto

lemma dispatch_post:
  assumes "dispatch env p cmd data st = Inr (ok, st1)" and "unique_users (uids st)"
  shows "same_frame st st1" and "unique_users (uids st1)"
proof -
  obtain s where s: "map_of (m_sessions st) p = Some s"
    using assms(1) by (auto simp: dispatch_def split: option.splits)
  have "same_frame st st1 \<and> unique_users (uids st1)"
    using assms s onLogin_post [of env p s data st] other_handlers_keep [of env s]
      sends_only_keeps [OF TcpSession_send_sends_only, of env _ _ _ _ st]
    by (auto simp: dispatch_def map_sum_Inr split: if_splits)
  then show "same_frame st st1" and "unique_users (uids st1)" by simp_all
qed

lemma seq_keeps:
  "same_frame st (upd_session p (set_seq n) st)" "uids (upd_session p (set_seq n) st) = uids st"
  "same_frame st (upd_session p bump_seq st)" "uids (upd_session p bump_seq st) = uids st"
  by (auto intro: upd_session_frame simp: uids_upd_same)

lemma process_cases:
  assumes "process env p inbuf st = Inr (ok, st1)"
  shows "\<not> ok \<and> st1 = st \<or> (\<exists>seq. \<not> ok \<and> st1 = upd_session p (set_seq seq) st) \<or>
    (\<exists>cmd seq data st2. dispatch env p cmd data (upd_session p (set_seq seq) st) = Inr (ok, st2) \<and>
       st1 = (if ok then upd_session p bump_seq st2 else st2))"
proof -
  obtain o1 r1 o2 r2 where reads: "ReadInt32 (BinaryStreamReader inbuf) = (o1, r1)" "ReadInt32 r1 = (o2, r2)"
    by (metis prod.exhaust)
  show ?thesis
  proof (cases o1; cases o2)
    fix cmd seq
    assume o: "o1 = Some cmd" "o2 = Some seq"
    show ?thesis
    proof (cases "ReadString 0 r2")
      case (Inr t)
      obtain str l r3 where t: "t = (str, l, r3)" by (cases t)
      show ?thesis
      proof (cases str)
        case (Some data)
        obtain st2 where "dispatch env p cmd data (upd_session p (set_seq seq) st) = Inr (ok, st2)"
          and "st1 = (if ok then upd_session p bump_seq st2 else st2)"
          using assms reads o Inr t Some by (auto simp: process_def Let_def split: sum.splits bool.splits)
        then show ?thesis by blast
      qed (use assms reads o Inr t in \<open>simp add: process_def Let_def\<close>, blast)
    qed (use assms reads o in \<open>simp add: process_def Let_def\<close>)
  qed (use assms reads in \<open>simp_all add: process_def\<close>)
qed

lemma process_keeps_inv:
  assumes "process env p inbuf st = Inr (ok, st1)" and "chat_inv st"
  shows "chat_inv st1 \<and> same_frame st st1"
proof -
  have u: "unique_users (uids st)" using assms(2) by (simp add: chat_inv_def)
  from process_cases [OF assms(1)] have "same_frame st st1 \<and> unique_users (uids st1)"
  proof (elim disjE exE conjE)
    fix cmd seq data st2
    assume d: "dispatch env p cmd data (upd_session p (set_seq seq) st) = Inr (ok, st2)"
      and st1: "st1 = (if ok then upd_session p bump_seq st2 else st2)"
    have u': "unique_users (uids (upd_session p (set_seq seq) st))" using u by (simp add: seq_keeps)
    have "same_frame st st2" by (rule same_frame_trans [OF seq_keeps(1) dispatch_post(1) [OF d u']])
    then show ?thesis
      using dispatch_post(2) [OF d u'] seq_keeps(3,4) [where p = p and st = st2] by (auto simp: st1 intro: same_frame_trans)
  qed (use u in \<open>auto simp: seq_keeps\<close>)
  then show ?thesis using chat_inv_frame [OF _ assms(2)] by simp
qed

lemma kick_user_never_dangling: "kick_user env u seq st \<noteq> Inl Bad_session"
proof (cases "getSessionByUserId u (m_sessions st)")
  case (Some q)
  then obtain s where "(q, s) \<in> set (m_sessions st)" using getSessionByUserId_Some by blast
  then have "map_of (m_sessions st) q \<noteq> None" by (metis map_of_eq_None_iff image_eqI fst_conv)
  then show ?thesis
    using Some by (auto simp: kick_user_def send_never_dangling split: option.splits sum.splits)
qed (simp add: kick_user_def)

lemma handlers_never_dangling:
  "onLoginResponse env p s data st \<noteq> Inl Bad_session" "onGetUserListResponse env s st \<noteq> Inl Bad_session"
  "onGetMsgsResponse env s st \<noteq> Inl Bad_session" "onChatResponse env s data st \<noteq> Inl Bad_session"
proof -
  have reply: "login_reply env p s t st \<noteq> Inl Bad_session" for t and st
    by (auto simp: login_reply_def send_never_dangling split: sum.splits)
  show "onLoginResponse env p s data st \<noteq> Inl Bad_session"
    by (auto simp: onLoginResponse_def Let_def kick_user_never_dangling reply split: option.splits sum.splits)
  show "onGetUserListResponse env s st \<noteq> Inl Bad_session"
    by (simp add: onGetUserListResponse_def send_never_dangling split: option.splits)
  show "onGetMsgsResponse env s st \<noteq> Inl Bad_session"
    by (simp add: onGetMsgsResponse_def Let_def send_never_dangling split: option.splits prod.splits)
  show "onChatResponse env s data st \<noteq> Inl Bad_session"
    by (simp add: onChatResponse_def Let_def send_never_dangling split: prod.splits)
qed

lemma dispatch_never_dangling:
  "p \<in> fst ` set (m_sessions st) \<Longrightarrow> dispatch env p cmd data st \<noteq> Inl Bad_session"
  by (cases "map_of (m_sessions st) p")
    (auto simp: dispatch_def map_of_eq_None_iff map_sum_Inl handlers_never_dangling send_never_dangling)

lemma fst_upd_session [simp]: "fst ` set (m_sessions (upd_session p f st)) = fst ` set (m_sessions st)"
  by (force simp: upd_session_def)

lemma process_never_dangling:
  assumes "p \<in> fst ` set (m_sessions st)"
  shows "process env p inbuf st \<noteq> Inl Bad_session"
proof -
  have "dispatch env p cmd data (upd_session p (set_seq seq) st) \<noteq> Inl Bad_session" for cmd data seq
    using assms by (intro dispatch_never_dangling) simp
  then show ?thesis
    by (auto simp: process_def Let_def split: prod.split option.split sum.split bool.split)
qed

section \<open>The receive loop keeps what the handlers keep\<close>

locale session_invariant =
  fixes env :: "'r chat_env" and p :: nat and P :: "'r chat_server \<Rightarrow> bool"
  assumes process_keeps: "P st \<Longrightarrow> process env p inbuf st = Inr (ok, st1) \<Longrightarrow> P st1"
    and process_safe: "P st \<Longrightarrow> process env p inbuf st \<noteq> Inl Bad_session"
    and touch_keeps: "P st \<Longrightarrow> P (touch env p st)"
    and emit_keeps: "P st \<Longrightarrow> P (emit e st)"
begin

lemma onRead_keeps:
  "P st \<Longrightarrow> onRead env p conn b st \<noteq> Inl Bad_session \<and> (\<forall>b' st'. onRead env p conn b st = Inr (b', st') \<longrightarrow> P st')"
proof (induction "readableBytes b" arbitrary: b st rule: less_induct)
  case less
  let ?n = "nat (sint (peek_header b))" and ?b1 = "snd (retrieve sizeof_header b)"
  let ?x = "take ?n (content ?b1)" and ?b2 = "snd (retrieve ?n ?b1)"
  show ?case
  proof (cases "readableBytes b < sizeof_header \<or> sint (peek_header b) > MAX_PACKAGE_SIZE \<or>
      readableBytes b < unat ((scast (peek_header b) :: 64 word) + word_of_nat sizeof_header) \<or> sint (peek_header b) < 0")
    case True
    then show ?thesis
      using less.prems by (auto simp: onRead.simps [of env p conn b st] intro: emit_keeps)
  next
    case False
    then have "readableBytes ?b2 < readableBytes b"
      using readable_retrieve_le [of ?n ?b1] readable_retrieve_less [of sizeof_header b]
      by (simp add: sizeof_header_def)
    note IH = less.hyps [OF this]
    have step: "onRead env p conn b st = (case process env p ?x st of Inl e \<Rightarrow> Inl e
        | Inr (ok, st1) \<Rightarrow> if ok then onRead env p conn ?b2 (touch env p st1) else Inr (?b2, emit (ForceClose conn) st1))"
      using False by (simp add: onRead.simps [of env p conn b st] Let_def)
    show ?thesis
    proof (cases "process env p ?x st")
      case (Inl e)
      then show ?thesis using step process_safe [OF less.prems, of ?x] by auto
    next
      case (Inr r)
      then obtain ok st1 where r: "process env p ?x st = Inr (ok, st1)" by (cases r) auto
      then have "P st1" using process_keeps less.prems by blast
      then show ?thesis
        using step r IH [OF touch_keeps] emit_keeps by (cases ok) auto
    qed
  qed
qed

end

lemma touch_keeps_view: "same_frame st (touch env p st)" "uids (touch env p st) = uids st"
  by (auto simp: touch_def same_frame_def skeleton_def uids_def upd_session_def)

interpretation live_session: session_invariant env p "\<lambda>st. chat_inv st \<and> p \<in> fst ` set (m_sessions st)" for env p
proof unfold_locales
  fix st st1 :: "'a chat_server" and inbuf ok
  assume "chat_inv st \<and> p \<in> fst ` set (m_sessions st)" and "process env p inbuf st = Inr (ok, st1)"
  then show "chat_inv st1 \<and> p \<in> fst ` set (m_sessions st1)"
    using process_keeps_inv [of env p inbuf st ok st1] fst_skeleton [of st] fst_skeleton [of st1]
    by (metis list.set_map same_frame_def)
next
  fix st :: "'a chat_server"
  assume inv: "chat_inv st \<and> p \<in> fst ` set (m_sessions st)"
  then show "chat_inv (touch env p st) \<and> p \<in> fst ` set (m_sessions (touch env p st))"
    using touch_keeps_view [where st = st and env = env and p = p] chat_inv_frame [of st "touch env p st"]
    by (auto simp: chat_inv_def touch_def)
  show "process env p inbuf st \<noteq> Inl Bad_session" for inbuf
    using inv process_never_dangling by blast
  show "chat_inv (emit e st) \<and> p \<in> fst ` set (m_sessions (emit e st))" for e
    using inv by (simp add: chat_inv_def emit_def skeleton_def uids_def)
qed

section \<open>The system keeps the invariant\<close>

lemma skeleton_live: "chat_inv st \<Longrightarrow> (q, c) \<in> set (skeleton st) \<Longrightarrow> c \<in> set (live_conns st)"
proof -
  assume "chat_inv st" and q: "(q, c) \<in> set (skeleton st)"
  then have "set (live_conns st) = snd ` set (skeleton st)" by (metis chat_inv_def list.set_map)
  then show ?thesis using q by force
qed

lemma connect_inv:
  assumes "chat_inv st" and "c \<notin> set (live_conns st)"
  shows "chat_inv (onConnected env c True (st\<lparr>live_conns := live_conns st @ [c]\<rparr>))"
proof -
  let ?st' = "onConnected env c True (st\<lparr>live_conns := live_conns st @ [c]\<rparr>)"
  have new: "skeleton ?st' = skeleton st @ [(next_ptr st, c)]" "uids ?st' = uids st @ [(next_ptr st, 0)]"
    "live_conns ?st' = live_conns st @ [c]" "next_ptr ?st' = next_ptr st + 1"
    "callbacks ?st' = (callbacks st)(c := Some (next_ptr st))"
    by (simp_all add: onConnected_def Let_def skeleton_def uids_def ChatSession_def)
  have old: "q < next_ptr st" "callbacks st d = Some q" "d \<noteq> c" if "(q, d) \<in> set (skeleton st)" for q d
    using that assms skeleton_live [OF assms(1) that] by (auto simp: chat_inv_def)
  have "next_ptr st \<notin> set (map fst (skeleton st))" using old(1) by force
  moreover have "unique_users (uids st @ [(next_ptr st, 0)])"
    using assms(1) by (auto simp: chat_inv_def unique_users_def)
  moreover have "\<forall>(q, d)\<in>set (skeleton st @ [(next_ptr st, c)]).
      q < next_ptr st + 1 \<and> ((callbacks st)(c := Some (next_ptr st))) d = Some q"
    by (auto simp: less_Suc_eq dest: old)
  ultimately show ?thesis
    using assms unfolding chat_inv_def new by simp
qed

lemma disconnect_inv:
  assumes "chat_inv st"
  shows "chat_inv ((onConnected env c False st)\<lparr>live_conns := removeAll c (live_conns st)\<rparr>)"
proof -
  let ?st' = "(onConnected env c False st)\<lparr>live_conns := removeAll c (live_conns st)\<rparr>"
  have "tmpConn s \<in> set (live_conns st)" if "(q, s) \<in> set (m_sessions st)" for q s
    using that by (intro skeleton_live [OF assms, of q]) (force simp: skeleton_def)
  then have ms: "m_sessions ?st' = filter (\<lambda>(q, s). tmpConn s \<noteq> c) (m_sessions st)"
    by (auto simp: onConnected_def onDisconnected_def intro!: filter_cong)
  have sk: "skeleton ?st' = filter (\<lambda>(q, d). d \<noteq> c) (skeleton st)"
    by (simp add: skeleton_def ms filter_map comp_def case_prod_beta')
  have sub: "set (uids ?st') \<subseteq> set (uids st)"
    by (auto simp: uids_def ms)
  have "map snd (filter (\<lambda>(q, d). d \<noteq> c) xs) = removeAll c (map snd xs)" for xs :: "(nat \<times> nat) list"
    by (induction xs) auto
  then have "map snd (skeleton ?st') = removeAll c (map snd (skeleton st))" unfolding sk .
  moreover have "distinct (map fst (skeleton ?st'))"
    unfolding sk using assms by (simp add: chat_inv_def distinct_map_filter)
  moreover have "unique_users (uids ?st')"
    using assms sub unfolding chat_inv_def unique_users_def by blast
  moreover have "\<forall>(q, d)\<in>set (skeleton ?st'). q < next_ptr ?st' \<and> callbacks ?st' d = Some q"
    using assms unfolding sk chat_inv_def by (auto simp: onConnected_def onDisconnected_def)
  ultimately show ?thesis
    using assms by (simp add: chat_inv_def distinct_removeAll)
qed

lemma callback_session:
  assumes "chat_inv st" and "c \<in> set (live_conns st)" and "callbacks st c = Some p"
  shows "p \<in> fst ` set (m_sessions st)"
proof -
  have "c \<in> snd ` set (skeleton st)" using assms(1,2) by (metis chat_inv_def list.set_map)
  then obtain q where "(q, c) \<in> set (skeleton st)" by force
  moreover from this have "callbacks st c = Some q" using assms(1) by (auto simp: chat_inv_def)
  ultimately have "p \<in> fst ` set (skeleton st)" using assms(3) by force
  then show ?thesis using fst_skeleton [of st] by (metis list.set_map)
qed

lemma chat_step_inv:
  assumes "chat_inv (server sys)"
  shows "chat_step env e sys \<noteq> Inl Bad_session \<and> (\<forall>sys'. chat_step env e sys = Inr sys' \<longrightarrow> chat_inv (server sys'))"
proof (cases e)
  case (Connect c)
  then show ?thesis using assms connect_inv by (auto simp: chat_step_def)
next
  case (Disconnect c)
  then show ?thesis using assms disconnect_inv by (auto simp: chat_step_def)
next
  case (Receive c d)
  show ?thesis
  proof (cases "c \<in> set (live_conns (server sys)) \<and> callbacks (server sys) c \<noteq> None")
    case True
    then obtain p where c: "c \<in> set (live_conns (server sys))" "callbacks (server sys) c = Some p" by auto
    then show ?thesis
      using live_session.onRead_keeps [of "server sys" p env c "append_data d (inputs sys c)"]
        callback_session [OF assms c] assms Receive
      by (auto simp: chat_step_def split: sum.splits)
  qed (use assms Receive in \<open>auto simp: chat_step_def\<close>)
qed

lemma chat_run_inv:
  "chat_inv (server sys) \<Longrightarrow> chat_run env es sys \<noteq> Inl Bad_session \<and>
     (\<forall>sys'. chat_run env es sys = Inr sys' \<longrightarrow> chat_inv (server sys'))"
proof (induction env es sys rule: chat_run.induct)
  case (2 env e es sys)
  show ?case
  proof (cases "chat_step env e sys")
    case (Inl er)
    then show ?thesis using chat_step_inv [OF "2.prems", of env e] by auto
  next
    case (Inr sys1)
    then show ?thesis using "2.IH" [OF Inr] chat_step_inv [OF "2.prems", of env e] by simp
  qed
qed simp

lemma ChatServer_inv [simp]: "chat_inv (ChatServer um mc r)"
  by (simp add: chat_inv_def ChatServer_def skeleton_def uids_def unique_users_def)

section \<open>The broadcast\<close>

lemma send_to_all_ok:
  assumes "length d < 2 ^ 31" and "\<forall>(p, s)\<in>set ss. tmpConn s \<in> set (live_conns st)"
  shows "send_to_all d ss st = Inr (st\<lparr>outbox := outbox st @ map (\<lambda>(p, s). ConnSend (tmpConn s) (frame d)) ss\<rparr>)"
  using assms(2)
proof (induction ss arbitrary: st)
  case (Cons x ss)
  obtain p s where x: "x = (p, s)" by (cases x)
  have "sendPackage (tmpConn s) d st = Inr (emit (ConnSend (tmpConn s) (frame d)) st)"
    using assms(1) Cons.prems x by (intro sendPackage_ok) auto
  then show ?case
    using Cons.IH [of "emit (ConnSend (tmpConn s) (frame d)) st"] Cons.prems x by (auto simp: emit_def)
qed simp

lemma sessions_live: "chat_inv st \<Longrightarrow> \<forall>(p, s)\<in>set (m_sessions st). tmpConn s \<in> set (live_conns st)"
proof clarify
  fix p s
  assume "chat_inv st" and "(p, s) \<in> set (m_sessions st)"
  then show "tmpConn s \<in> set (live_conns st)"
    by (intro skeleton_live [of st p]) (force simp: skeleton_def)+
qed

section \<open>A login that is accepted\<close>

definition kick_notice :: "'r chat_env \<Rightarrow> int32 \<Rightarrow> int32 \<Rightarrow> 'r chat_server \<Rightarrow> net_effect list" where
  "kick_notice env u seq st =
     (case getSessionByUserId u (m_sessions st) of
        None \<Rightarrow> []
      | Some q \<Rightarrow> [ConnSend (tmpConn (the (map_of (m_sessions st) q))) (frame (packet (env_junk env) msg_type_kickuser seq []))])"

lemma kick_user_ok:
  assumes "chat_inv st"
  obtains st1 where "kick_user env u seq st = Inr st1" and "outbox st1 = outbox st @ kick_notice env u seq st"
    and "live_conns st1 = live_conns st"
    and "\<And>q. map_of (m_sessions st1) q = map_option (\<lambda>t. if getSessionByUserId u (m_sessions st) = Some q
           then makeSessionInvalid t else t) (map_of (m_sessions st) q)"
proof (cases "getSessionByUserId u (m_sessions st)")
  case None
  then show thesis by (intro that [of st]) (simp_all add: kick_user_def kick_notice_def option.map_ident)
next
  case (Some q)
  obtain t where "(q, t) \<in> set (m_sessions st)" using getSessionByUserId_Some [OF Some] by blast
  moreover have "distinct (map fst (m_sessions st))" using assms by (simp add: chat_inv_def fst_skeleton)
  ultimately have t: "map_of (m_sessions st) q = Some t" and "tmpConn t \<in> set (live_conns st)"
    using sessions_live [OF assms] by auto
  then show thesis
    using Some by (intro that [of "upd_session q makeSessionInvalid
          (emit (ConnSend (tmpConn t) (frame (packet (env_junk env) msg_type_kickuser seq []))) st)"])
      (simp_all add: kick_user_def kick_notice_def TcpSession_send_ok emit_def eq_commute [of q])
qed

lemma length_print_int32: "length (print_int (sint (v :: int32))) \<le> 20"
proof -
  have "- (2 ^ 31) \<le> sint v" "sint v < 2 ^ 31"
    using sint_ge [of v] sint_lt [of v] by simp_all
  then have "nat (- sint v) < 10 ^ 19" "nat (sint v) < 10 ^ 19" by simp_all
  then show ?thesis
    using length_nat_digits [of 19 "nat (- sint v)"] length_nat_digits [of 19 "nat (sint v)"]
    by (auto simp: print_int_def)
qed

lemma length_login_ok_text: "length (login_ok_text u nm) \<le> 80 + length nm"
  using length_print_int32 [of u] by (simp add: login_ok_text_def lit_def)

lemma login_accepted:
  assumes "chat_inv st" and "map_of (m_sessions st) p = Some s"
    and "login_request (env_json env) data = Some (name, pw)"
    and u: "u = snd (getUserInfoByUsername name no_user (users st))" and "password u = pw"
    and "length (username u) \<le> 2 ^ 30"
  shows "\<exists>st1. dispatch env p msg_type_login data st = Inr (True, st1) \<and>
    map_of (m_sessions st1) p = Some (s\<lparr>m_userinfo := (m_userinfo s)\<lparr>oi_userid := userid u, oi_username := name\<rparr>, m_isLogin := True\<rparr>) \<and>
    (\<forall>q t. q \<noteq> p \<and> map_of (m_sessions st) q = Some t \<longrightarrow> map_of (m_sessions st1) q =
       Some (if getSessionByUserId (userid u) (m_sessions st) = Some q then makeSessionInvalid t else t)) \<and>
    outbox st1 = outbox st @ kick_notice env (userid u) (m_seq s) st @
      [ConnSend (tmpConn s) (frame (packet (env_junk env) msg_type_login (m_seq s) (login_ok_text (userid u) (username u))))]"
proof -
  obtain st2 where k: "kick_user env (userid u) (m_seq s) st = Inr st2"
    and k': "outbox st2 = outbox st @ kick_notice env (userid u) (m_seq s) st" "live_conns st2 = live_conns st"
      "\<And>q. map_of (m_sessions st2) q = map_option (\<lambda>t. if getSessionByUserId (userid u) (m_sessions st) = Some q
           then makeSessionInvalid t else t) (map_of (m_sessions st) q)"
    by (rule kick_user_ok [OF assms(1)]) blast
  have live: "tmpConn s \<in> set (live_conns st)"
    using sessions_live [OF assms(1)] map_of_SomeD [OF assms(2)] by auto
  have len: "length (login_ok_text (userid u) (username u)) \<le> 2 ^ 31 - 20"
    using length_login_ok_text [of "userid u" "username u"] assms(6) by simp
  have rec: "set_login (record_user (userid u) name (makeSessionInvalid s)) =
      s\<lparr>m_userinfo := (m_userinfo s)\<lparr>oi_userid := userid u, oi_username := name\<rparr>, m_isLogin := True\<rparr>"
    "set_login (record_user (userid u) name s) =
      s\<lparr>m_userinfo := (m_userinfo s)\<lparr>oi_userid := userid u, oi_username := name\<rparr>, m_isLogin := True\<rparr>"
    by (simp_all add: set_login_def record_user_def makeSessionInvalid_def)
  let ?st1 = "upd_session p set_login (emit (ConnSend (tmpConn s) (frame (packet (env_junk env) msg_type_login (m_seq s)
      (login_ok_text (userid u) (username u))))) (upd_session p (record_user (userid u) name) st2))"
  have "dispatch env p msg_type_login data st = Inr (True, ?st1)"
    using assms(2,3,5) u k live k'(2) len
    by (simp add: dispatch_def onLoginResponse_def login_reply_def TcpSession_send_ok Let_def)
  then show ?thesis
    using assms(2) k' rec by (intro exI [of _ ?st1]) (simp add: emit_def)
qed

section \<open>Properties\<close>

text \<open>
  C8: The login guard: before it has logged in, a session gets nothing but the refusal.  Any command
  other than the login one, with any data, leaves every session, the users and the message
  log as they are, and the only thing sent is the refusal to this very connection.
\<close>

theorem not_logged_in_refused:
  assumes "map_of (m_sessions st) p = Some s" and "\<not> m_isLogin s" and "cmd \<noteq> msg_type_login"
    and "tmpConn s \<in> set (live_conns st)"
  shows "dispatch env p cmd data st =
    Inr (True, st\<lparr>outbox := outbox st @
      [ConnSend (tmpConn s) (frame (packet (env_junk env) cmd (m_seq s) not_login_text))]\<rparr>)"
  using assms by (simp add: dispatch_def TcpSession_send_ok not_login_text_def lit_def emit_def)

theorem not_logged_in_refused_witness:
  "dispatch demo_env 0 1100 [65] demo_server =
    Inr (True, demo_server\<lparr>outbox := [ConnSend 7 (frame (packet (\<lambda>_. 170) 1100 0 not_login_text))]\<rparr>)"
  using not_logged_in_refused [of demo_server 0 "ChatSession 7 1 0 0 0" 1100 demo_env "[65]"]
  by (simp add: demo_server_def demo_env_def ChatSession_def msg_type_defs)

text \<open>
  C11: A wrong password logs in.  Any well-formed login request, whatever its user name and password,
  leaves the session marked as logged in; if the password is wrong the reply is the error text
  and still every command is open to the client afterwards.
\<close>

theorem wrong_password_logs_in:
  assumes "map_of (m_sessions st) p = Some s" and "login_request (env_json env) data = Some (name, pw)"
    and "password (snd (getUserInfoByUsername name no_user (users st))) \<noteq> pw"
    and "tmpConn s \<in> set (live_conns st)"
  shows "\<exists>st1. dispatch env p msg_type_login data st = Inr (True, st1) \<and>
    outbox st1 = outbox st @ [ConnSend (tmpConn s) (frame (packet (env_junk env) msg_type_login (m_seq s) login_bad_text))] \<and>
    map_of (m_sessions st1) p = Some (s\<lparr>m_isLogin := True\<rparr>) \<and>
    dispatch env p msg_type_chat d st1 = map_sum id (Pair True) (onChatResponse env (s\<lparr>m_isLogin := True\<rparr>) d st1)"
  using assms
  by (simp add: dispatch_def onLoginResponse_def login_reply_def TcpSession_send_ok login_bad_text_def lit_def
      emit_def msg_type_defs map_of_upd upd_session_def set_login_def)

theorem wrong_password_logs_in_witness:
  "\<exists>st1. dispatch demo_env 0 msg_type_login [109, 50] demo_server = Inr (True, st1) \<and>
     map_of (m_sessions st1) 0 = Some ((ChatSession 7 1 0 0 0)\<lparr>m_isLogin := True\<rparr>)"
  using wrong_password_logs_in [of demo_server 0 "ChatSession 7 1 0 0 0" demo_env "[109, 50]" "[109]" "[50]" "[]"]
  by (auto simp: demo_server_def demo_env_def ChatSession_def demo_login
      getUserInfoByUsername_def lit_def)

text \<open>
  C5: A chat message reaches everybody: handling it appends the message to the redis log and sends
  one and the same packet to every session, in order and including the sender, each exactly
  once; nothing else changes.
\<close>

theorem chat_broadcast:
  assumes "chat_inv st" and "map_of (m_sessions st) p = Some s" and "m_isLogin s"
    and "length data \<le> 2 ^ 30" and "redis_lists (env_redis env) view (m_strRedisUrl (msg_cache st))"
  shows "\<exists>r. dispatch env p msg_type_chat data st = Inr (True, st\<lparr>redis_world := r, outbox := outbox st @
        map (\<lambda>(q, t). ConnSend (tmpConn t) (frame (packet (env_junk env) msg_type_chat (m_seq s) (chat_text data))))
          (m_sessions st)\<rparr>) \<and>
      fst (loadMsgsFromRedis (env_redis env) (msg_cache st) r) =
        fst (loadMsgsFromRedis (env_redis env) (msg_cache st) (redis_world st)) @ [data]"
proof -
  let ?m = "packet (env_junk env) msg_type_chat (m_seq s) (chat_text data)"
  obtain ok r where r: "addChatMsgToRedis (env_redis env) (msg_cache st) data (redis_world st) = (ok, r)"
    by (cases "addChatMsgToRedis (env_redis env) (msg_cache st) data (redis_world st)")
  have "length (chat_text data) = 33 + length data" by (simp add: chat_text_def lit_def)
  then have "length ?m < 2 ^ 31"
    using assms(4) length_packet [of "chat_text data" "env_junk env" msg_type_chat "m_seq s"] by simp
  then have "send_to_all ?m (m_sessions st) (st\<lparr>redis_world := r\<rparr>) = Inr (st\<lparr>redis_world := r, outbox := outbox st @
      map (\<lambda>(q, t). ConnSend (tmpConn t) (frame ?m)) (m_sessions st)\<rparr>)"
    using sessions_live [OF assms(1)] by (subst send_to_all_ok) auto
  then show ?thesis
    using assms(2,3) addChatMsg_view(2) [OF assms(5), of data "redis_world st"]
    by (intro exI [of _ r])
      (auto simp: dispatch_def onChatResponse_def r getSessions_def msg_type_defs loadMsgs_view [OF assms(5)])
qed

theorem chat_broadcast_witness:
  "\<exists>r. dispatch demo_env 0 msg_type_chat [65] (upd_session 0 set_login demo_server) =
     Inr (True, (upd_session 0 set_login demo_server)\<lparr>redis_world := r,
       outbox := [ConnSend 7 (frame (packet (\<lambda>_. 170) msg_type_chat 0 (chat_text [65])))]\<rparr>)"
  using chat_broadcast [of "upd_session 0 set_login demo_server" 0 "(ChatSession 7 1 0 0 0)\<lparr>m_isLogin := True\<rparr>" "[65]"
      demo_env "\<lambda>r. r"]
  by (auto simp: demo_server_def demo_env_def upd_session_def set_login_def ChatSession_def mem_redis_lists
      chat_inv_def skeleton_def uids_def unique_users_def)

text \<open>
  C7: A login with the password on file takes the account over: the session that held it (there
  is at most one as long as logins of one user do not overlap) is sent the kick command and loses the user id, this
  session gets the user id and the name and is logged in, the reply carries them, and no other
  session changes.
\<close>

theorem login_takes_over:
  assumes "chat_inv st" and "map_of (m_sessions st) p = Some s"
    and "login_request (env_json env) data = Some (name, pw)"
    and "find_user name (m_allCachedUsers (users st)) = Some u" and "password u = pw" and "length (username u) \<le> 2 ^ 30"
  shows "\<exists>st1. dispatch env p msg_type_login data st = Inr (True, st1) \<and>
    map_of (m_sessions st1) p = Some (s\<lparr>m_userinfo := (m_userinfo s)\<lparr>oi_userid := userid u, oi_username := name\<rparr>, m_isLogin := True\<rparr>) \<and>
    (\<forall>q t. q \<noteq> p \<and> map_of (m_sessions st) q = Some t \<longrightarrow> map_of (m_sessions st1) q =
       Some (if getSessionByUserId (userid u) (m_sessions st) = Some q then makeSessionInvalid t else t)) \<and>
    outbox st1 = outbox st @ kick_notice env (userid u) (m_seq s) st @
      [ConnSend (tmpConn s) (frame (packet (env_junk env) msg_type_login (m_seq s) (login_ok_text (userid u) (username u))))]"
  using login_accepted [OF assms(1,2,3) _ assms(5,6)] assms(4) by (simp add: getUserInfoByUsername_def)

lemma demo_inv: "chat_inv demo_server"
  by (simp add: demo_server_def chat_inv_def skeleton_def uids_def unique_users_def ChatSession_def)

theorem login_takes_over_witness:
  "\<exists>st1. dispatch demo_env 0 msg_type_login [109, 49] demo_server = Inr (True, st1) \<and>
     outbox st1 = [ConnSend 7 (frame (packet (\<lambda>_. 170) msg_type_login 0 (login_ok_text 1 [109])))]"
  using login_takes_over [OF demo_inv, of 0 "ChatSession 7 1 0 0 0" demo_env "[109, 49]" "[109]" "[49]"
      "\<lparr>userid = 1, username = [109], password = [49]\<rparr>"]
  by (auto simp: demo_server_def demo_env_def ChatSession_def demo_login
      kick_notice_def lit_def)

text \<open>
  C12: A name nobody has is accepted with an empty password: the default record of the lookup has user
  id 0 and an empty password, so the session is logged in as user 0; and since 0 is also the id
  of every session that has not logged in, the first such session is kicked.
\<close>

theorem unknown_user_accepted:
  assumes "chat_inv st" and "map_of (m_sessions st) p = Some s"
    and "login_request (env_json env) data = Some (name, [])"
    and "find_user name (m_allCachedUsers (users st)) = None"
  shows "\<exists>st1. dispatch env p msg_type_login data st = Inr (True, st1) \<and>
    (\<exists>s1. map_of (m_sessions st1) p = Some s1 \<and> m_isLogin s1 \<and> oi_userid (m_userinfo s1) = 0) \<and>
    outbox st1 = outbox st @ kick_notice env 0 (m_seq s) st @
      [ConnSend (tmpConn s) (frame (packet (env_junk env) msg_type_login (m_seq s) (login_ok_text 0 [])))]"
  using login_accepted [OF assms(1,2,3) refl] assms(4) by (auto simp: getUserInfoByUsername_def no_user_def)

theorem unknown_user_accepted_witness:
  "\<exists>st1. dispatch demo_env 0 msg_type_login [110] demo_server = Inr (True, st1) \<and>
     outbox st1 = [ConnSend 7 (frame (packet (\<lambda>_. 170) msg_type_kickuser 0 [])),
       ConnSend 7 (frame (packet (\<lambda>_. 170) msg_type_login 0 (login_ok_text 0 [])))]"
  using unknown_user_accepted [OF demo_inv, of 0 "ChatSession 7 1 0 0 0" demo_env "[110]" "[110]"]
  by (auto simp: demo_server_def demo_env_def ChatSession_def demo_login
      kick_notice_def lit_def)

end
