(* ===== verification/Poller.thy ===== *)
theory Poller
  imports Prelude
begin

text \<open>
  \<^verbatim>\<open>net/Channel\<close>, \<^verbatim>\<open>net/EpollPoller\<close>, \<^verbatim>\<open>net/PollPoller\<close> and \<^verbatim>\<open>net/SelectPoller\<close>.  Channels live in a
  store indexed by their address.  The epoll instance of the kernel is a finite map from file
  descriptors to the registered events and channel; \<^verbatim>\<open>epoll_ctl\<close> behaves as documented
  (\<^verbatim>\<open>EEXIST\<close>, \<^verbatim>\<open>ENOENT\<close>) and may in addition refuse a request, which is the argument \<open>refuse\<close>.
\<close>

section \<open>Channel\<close>

definition XPOLLIN :: int32 where "XPOLLIN = 0x1"
definition XPOLLPRI :: int32 where "XPOLLPRI = 0x2"
definition XPOLLOUT :: int32 where "XPOLLOUT = 0x4"
definition XPOLLERR :: int32 where "XPOLLERR = 0x8"
definition XPOLLHUP :: int32 where "XPOLLHUP = 0x10"
definition XPOLLNVAL :: int32 where "XPOLLNVAL = 0x20"
definition XPOLLRDHUP :: int32 where "XPOLLRDHUP = 0x2000"

definition kNoneEvent :: int32 where "kNoneEvent = 0"
definition kReadEvent :: int32 where "kReadEvent = (XPOLLIN OR XPOLLPRI)"
definition kWriteEvent :: int32 where "kWriteEvent = XPOLLOUT"

lemmas xpoll_defs = XPOLLIN_def XPOLLPRI_def XPOLLOUT_def XPOLLERR_def XPOLLHUP_def XPOLLNVAL_def
  XPOLLRDHUP_def kNoneEvent_def kReadEvent_def kWriteEvent_def

record channel =
  m_fd :: int
  m_events :: int32
  m_revents :: int32
  m_index :: int

definition Channel :: "int \<Rightarrow> channel" where
  "Channel fd = \<lparr>m_fd = fd, m_events = 0, m_revents = 0, m_index = - 1\<rparr>"

definition isNoneEvent :: "channel \<Rightarrow> bool" where
  "isNoneEvent ch \<longleftrightarrow> m_events ch = kNoneEvent"

definition isWriting :: "channel \<Rightarrow> bool" where
  "isWriting ch \<longleftrightarrow> m_events ch AND kWriteEvent \<noteq> 0"

definition set_revents :: "int32 \<Rightarrow> channel \<Rightarrow> channel" where
  "set_revents revt ch = ch\<lparr>m_revents := revt\<rparr>"

definition add_revents :: "int32 \<Rightarrow> channel \<Rightarrow> channel" where
  "add_revents revt ch = ch\<lparr>m_revents := m_revents ch OR revt\<rparr>"

definition set_index :: "int \<Rightarrow> channel \<Rightarrow> channel" where
  "set_index idx ch = ch\<lparr>m_index := idx\<rparr>"

text \<open>The change each of the five methods makes to the event mask before \<^verbatim>\<open>update()\<close>.\<close>

datatype mask_op = EnableReading | DisableReading | EnableWriting | DisableWriting | DisableAll

fun mask_events :: "mask_op \<Rightarrow> int32 \<Rightarrow> int32" where
  "mask_events EnableReading ev = ev OR kReadEvent"
| "mask_events DisableReading ev = ev AND NOT kReadEvent"
| "mask_events EnableWriting ev = ev OR kWriteEvent"
| "mask_events DisableWriting ev = ev AND NOT kWriteEvent"
| "mask_events DisableAll ev = kNoneEvent"

text \<open>Which callbacks \<^verbatim>\<open>handleEvent\<close> calls, in order, when all four are set.\<close>

datatype upcall = CloseCb | ErrorCb | ReadCb | WriteCb

definition handleEvent :: "int32 \<Rightarrow> upcall list" where
  "handleEvent revents =
     (if revents AND XPOLLHUP \<noteq> 0 \<and> revents AND XPOLLIN = 0 then [CloseCb] else []) @
     (if revents AND (XPOLLERR OR XPOLLNVAL) \<noteq> 0 then [ErrorCb] else []) @
     (if revents AND (XPOLLIN OR XPOLLPRI OR XPOLLRDHUP) \<noteq> 0 then [ReadCb] else []) @
     (if revents AND XPOLLOUT \<noteq> 0 then [WriteCb] else [])"

section \<open>EPollPoller\<close>

definition kNew :: int where "kNew = - 1"
definition kAdded :: int where "kAdded = 1"
definition kDeleted :: int where "kDeleted = 2"

datatype epoll_op = CTL_ADD | CTL_MOD | CTL_DEL

type_synonym interest = "int \<Rightarrow> (int32 \<times> nat) option"

fun epoll_ctl :: "bool \<Rightarrow> epoll_op \<Rightarrow> int \<Rightarrow> int32 \<times> nat \<Rightarrow> interest \<Rightarrow> bool \<times> interest" where
  "epoll_ctl refuse CTL_ADD fd ev ints = (if refuse \<or> ints fd \<noteq> None then (False, ints) else (True, ints(fd := Some ev)))"
| "epoll_ctl refuse CTL_MOD fd ev ints = (if refuse \<or> ints fd = None then (False, ints) else (True, ints(fd := Some ev)))"
| "epoll_ctl refuse CTL_DEL fd ev ints = (if refuse \<or> ints fd = None then (False, ints) else (True, ints(fd := None)))"

record epoll_poller =
  chans :: "nat \<Rightarrow> channel"
  ep_channels :: "int \<Rightarrow> nat option"
  ep_events :: nat
  interest :: interest

definition kInitEventListSize :: nat where "kInitEventListSize = 16"

definition EPollPoller :: "(nat \<Rightarrow> channel) \<Rightarrow> epoll_poller" where
  "EPollPoller cs = \<lparr>chans = cs, ep_channels = (\<lambda>_. None), ep_events = kInitEventListSize, interest = (\<lambda>_. None)\<rparr>"

definition upd_chan :: "nat \<Rightarrow> (channel \<Rightarrow> channel) \<Rightarrow> epoll_poller \<Rightarrow> epoll_poller" where
  "upd_chan c f ep = ep\<lparr>chans := (chans ep)(c := f (chans ep c))\<rparr>"

definition hasChannel :: "nat \<Rightarrow> epoll_poller \<Rightarrow> bool" where
  "hasChannel c ep \<longleftrightarrow> ep_channels ep (m_fd (chans ep c)) = Some c"

definition ep_update :: "bool \<Rightarrow> epoll_op \<Rightarrow> nat \<Rightarrow> epoll_poller \<Rightarrow> bool \<times> epoll_poller" where
  "ep_update refuse op c ep =
     (let (ok, ints) = epoll_ctl refuse op (m_fd (chans ep c)) (m_events (chans ep c), c) (interest ep)
      in (ok, ep\<lparr>interest := ints\<rparr>))"

definition updateChannel :: "bool \<Rightarrow> nat \<Rightarrow> epoll_poller \<Rightarrow> bool \<times> epoll_poller" where
  "updateChannel refuse c ep =
     (let ch = chans ep c; fd = m_fd ch
      in if m_index ch = kNew
         then (if ep_channels ep fd \<noteq> None then (False, ep)
               else ep_update refuse CTL_ADD c
                      (upd_chan c (set_index kAdded) (ep\<lparr>ep_channels := (ep_channels ep)(fd := Some c)\<rparr>)))
         else if m_index ch = kDeleted
         then (if ep_channels ep fd \<noteq> Some c then (False, ep)
               else ep_update refuse CTL_ADD c (upd_chan c (set_index kAdded) ep))
         else if ep_channels ep fd \<noteq> Some c \<or> m_index ch \<noteq> kAdded then (False, ep)
         else if isNoneEvent ch
         then (let (ok, ep1) = ep_update refuse CTL_DEL c ep
               in if ok then (True, upd_chan c (set_index kDeleted) ep1) else (False, ep1))
         else ep_update refuse CTL_MOD c ep)"

definition removeChannel :: "bool \<Rightarrow> nat \<Rightarrow> epoll_poller \<Rightarrow> epoll_poller" where
  "removeChannel refuse c ep =
     (let ch = chans ep c; fd = m_fd ch
      in if ep_channels ep fd \<noteq> Some c \<or> \<not> isNoneEvent ch then ep
         else if m_index ch \<noteq> kAdded \<and> m_index ch \<noteq> kDeleted then ep
         else (let ep1 = ep\<lparr>ep_channels := (ep_channels ep)(fd := None)\<rparr>;
                   ep2 = (if m_index ch = kAdded then snd (ep_update refuse CTL_DEL c ep1) else ep1)
               in upd_chan c (set_index kNew) ep2))"

text \<open>\<^verbatim>\<open>Channel::enableReading()\<close> and the other four, through \<^verbatim>\<open>EventLoop::updateChannel\<close>.\<close>

definition channel_mask :: "mask_op \<Rightarrow> bool \<Rightarrow> nat \<Rightarrow> epoll_poller \<Rightarrow> bool \<times> epoll_poller" where
  "channel_mask op refuse c ep =
     updateChannel refuse c (upd_chan c (\<lambda>ch. ch\<lparr>m_events := mask_events op (m_events ch)\<rparr>) ep)"

definition channel_remove :: "bool \<Rightarrow> nat \<Rightarrow> epoll_poller \<Rightarrow> epoll_poller" where
  "channel_remove refuse c ep = (if \<not> isNoneEvent (chans ep c) then ep else removeChannel refuse c ep)"

text \<open>
  \<^verbatim>\<open>fillActiveChannels\<close> on the events the kernel returned (channel, events): it stops at the first one
  that does not match the map.
\<close>

fun fillActiveChannels :: "(nat \<times> int32) list \<Rightarrow> epoll_poller \<Rightarrow> nat list \<times> epoll_poller" where
  "fillActiveChannels [] ep = ([], ep)"
| "fillActiveChannels ((c, revt) # evs) ep =
     (if ep_channels ep (m_fd (chans ep c)) \<noteq> Some c then ([], ep)
      else (let (cs, ep1) = fillActiveChannels evs (upd_chan c (set_revents revt) ep) in (c # cs, ep1)))"

text \<open>\<^verbatim>\<open>poll\<close>: at most as many events as the array holds; a full array is doubled.  \<open>None\<close>: an error.\<close>

definition ep_poll :: "(nat \<times> int32) list option \<Rightarrow> epoll_poller \<Rightarrow> nat list \<times> epoll_poller" where
  "ep_poll ready ep =
     (case ready of
        None \<Rightarrow> ([], ep)
      | Some evs0 \<Rightarrow>
          (let evs = take (ep_events ep) evs0
           in if evs = [] then ([], ep)
              else (let (cs, ep1) = fillActiveChannels evs ep
                    in (cs, if length evs = ep_events ep1 then ep1\<lparr>ep_events := ep_events ep1 * 2\<rparr> else ep1))))"

section \<open>PollPoller\<close>

record pollfd =
  pfd_fd :: int
  pfd_events :: int16
  pfd_revents :: int16

record poll_poller =
  p_chans :: "nat \<Rightarrow> channel"
  p_channels :: "int \<Rightarrow> nat option"
  m_pollfds :: "pollfd list"

datatype poller_error = Out_of_range | Null_channel

definition Poll_updateChannel :: "nat \<Rightarrow> poll_poller \<Rightarrow> bool \<times> poll_poller" where
  "Poll_updateChannel c pp =
     (let ch = p_chans pp c; fd = m_fd ch; ev = ucast (m_events ch) :: int16
      in if m_index ch < 0
         then (if p_channels pp fd \<noteq> None then (False, pp)
               else (True, pp\<lparr>m_pollfds := m_pollfds pp @ [\<lparr>pfd_fd = fd, pfd_events = ev, pfd_revents = 0\<rparr>],
                              p_chans := (p_chans pp)(c := set_index (int (length (m_pollfds pp))) ch),
                              p_channels := (p_channels pp)(fd := Some c)\<rparr>))
         else if p_channels pp fd \<noteq> Some c then (False, pp)
         else if m_index ch \<ge> int (length (m_pollfds pp)) then (False, pp)
         else (let i = nat (m_index ch);
                   pfd = (m_pollfds pp ! i)\<lparr>pfd_events := ev, pfd_revents := 0\<rparr>;
                   pfd1 = (if isNoneEvent ch then pfd\<lparr>pfd_fd := - fd - 1\<rparr> else pfd)
               in (True, pp\<lparr>m_pollfds := (m_pollfds pp)[i := pfd1]\<rparr>)))"

text \<open>
  \<^verbatim>\<open>removeChannel\<close>: the range check of the source (both conditions joined by \<^verbatim>\<open>&&\<close>) never fires; an
  index outside the vector, or a null channel pointer, is undefined behaviour.
\<close>

definition Poll_removeChannel :: "nat \<Rightarrow> poll_poller \<Rightarrow> poller_error + poll_poller" where
  "Poll_removeChannel c pp =
     (let ch = p_chans pp c; fd = m_fd ch; idx = m_index ch; n = length (m_pollfds pp)
      in if p_channels pp fd \<noteq> Some c \<or> \<not> isNoneEvent ch then Inr pp
         else if idx < 0 \<and> idx \<ge> int n then Inr pp
         else if idx < 0 \<or> idx \<ge> int n then Inl Out_of_range
         else (let pp1 = pp\<lparr>p_channels := (p_channels pp)(fd := None)\<rparr>
               in if idx = int n - 1 then Inr (pp1\<lparr>m_pollfds := butlast (m_pollfds pp)\<rparr>)
                  else (let e = pfd_fd (last (m_pollfds pp));
                            fd' = (if e < 0 then - e - 1 else e)
                        in case p_channels pp1 fd' of
                             None \<Rightarrow> Inl Null_channel
                           | Some d \<Rightarrow>
                               Inr (pp1\<lparr>m_pollfds := (butlast (m_pollfds pp))[nat idx := last (m_pollfds pp)],
                                        p_chans := (p_chans pp1)(d := set_index idx (p_chans pp1 d))\<rparr>))))"

text \<open>\<^verbatim>\<open>fillActiveChannels\<close> after \<^verbatim>\<open>::poll\<close> has set the \<^verbatim>\<open>revents\<close> and returned their number.\<close>

fun Poll_fill :: "nat \<Rightarrow> pollfd list \<Rightarrow> poll_poller \<Rightarrow> nat list \<times> poll_poller" where
  "Poll_fill 0 pfds pp = ([], pp)"
| "Poll_fill (Suc n) [] pp = ([], pp)"
| "Poll_fill (Suc n) (pfd # pfds) pp =
     (if sint (pfd_revents pfd) > 0
      then (case p_channels pp (pfd_fd pfd) of
              None \<Rightarrow> Poll_fill n pfds pp
            | Some c \<Rightarrow>
                if m_fd (p_chans pp c) \<noteq> pfd_fd pfd then Poll_fill n pfds pp
                else (let (cs, pp1) = Poll_fill n pfds
                            (pp\<lparr>p_chans := (p_chans pp)(c := set_revents (scast (pfd_revents pfd)) (p_chans pp c))\<rparr>)
                      in (c # cs, pp1)))
      else Poll_fill (Suc n) pfds pp)"

section \<open>SelectPoller\<close>

text \<open>In an entry of the event vector the pointer may be null.\<close>

record select_poller =
  s_chans :: "nat \<Rightarrow> channel"
  s_channels :: "int \<Rightarrow> nat option"
  s_events :: "(int32 \<times> nat option) list"

fun erase_first :: "nat \<Rightarrow> (int32 \<times> nat option) list \<Rightarrow> (int32 \<times> nat option) list option" where
  "erase_first c [] = None"
| "erase_first c ((ev, d) # es) = (if d = Some c then Some es else map_option (Cons (ev, d)) (erase_first c es))"

fun modify_first :: "nat \<Rightarrow> int32 \<Rightarrow> (int32 \<times> nat option) list \<Rightarrow> (int32 \<times> nat option) list option" where
  "modify_first c ev' [] = None"
| "modify_first c ev' ((ev, d) # es) =
     (if d = Some c then Some ((ev', d) # es) else map_option (Cons (ev, d)) (modify_first c ev' es))"

definition Select_update :: "epoll_op \<Rightarrow> nat \<Rightarrow> select_poller \<Rightarrow> bool \<times> select_poller" where
  "Select_update op c sp =
     (let ev = m_events (s_chans sp c)
      in case op of
           CTL_ADD \<Rightarrow> (True, sp\<lparr>s_events := s_events sp @ [(ev, Some c)]\<rparr>)
         | CTL_DEL \<Rightarrow> (case erase_first c (s_events sp) of None \<Rightarrow> (False, sp) | Some es \<Rightarrow> (True, sp\<lparr>s_events := es\<rparr>))
         | CTL_MOD \<Rightarrow> (case modify_first c ev (s_events sp) of None \<Rightarrow> (False, sp) | Some es \<Rightarrow> (True, sp\<lparr>s_events := es\<rparr>)))"

definition upd_schan :: "nat \<Rightarrow> (channel \<Rightarrow> channel) \<Rightarrow> select_poller \<Rightarrow> select_poller" where
  "upd_schan c f sp = sp\<lparr>s_chans := (s_chans sp)(c := f (s_chans sp c))\<rparr>"

definition Select_updateChannel :: "nat \<Rightarrow> select_poller \<Rightarrow> bool \<times> select_poller" where
  "Select_updateChannel c sp =
     (let ch = s_chans sp c; fd = m_fd ch
      in if m_index ch = kNew
         then (if s_channels sp fd \<noteq> None then (False, sp)
               else Select_update CTL_ADD c
                      (upd_schan c (set_index kAdded) (sp\<lparr>s_channels := (s_channels sp)(fd := Some c)\<rparr>)))
         else if m_index ch = kDeleted
         then (if s_channels sp fd \<noteq> Some c then (False, sp)
               else Select_update CTL_ADD c (upd_schan c (set_index kAdded) sp))
         else if s_channels sp fd \<noteq> Some c \<or> m_index ch \<noteq> kAdded then (False, sp)
         else if isNoneEvent ch
         then (let (ok, sp1) = Select_update CTL_DEL c sp
               in if ok then (True, upd_schan c (set_index kDeleted) sp1) else (False, sp1))
         else Select_update CTL_MOD c sp)"

definition Select_removeChannel :: "nat \<Rightarrow> select_poller \<Rightarrow> select_poller" where
  "Select_removeChannel c sp =
     (let ch = s_chans sp c; fd = m_fd ch
      in if s_channels sp fd \<noteq> Some c \<or> \<not> isNoneEvent ch then sp
         else upd_schan c (set_index kNew) (sp\<lparr>s_channels := (s_channels sp)(fd := None)\<rparr>))"

text \<open>
  \<^verbatim>\<open>fillActiveChannels\<close>: the ready descriptors after \<^verbatim>\<open>select\<close> (in the order of the map), each with its
  channel; \<open>k\<close> is the number of further channels to report before the loop breaks.
\<close>

fun Select_fill ::
  "nat \<Rightarrow> (int \<times> nat) list \<Rightarrow> (int \<Rightarrow> bool) \<Rightarrow> (int \<Rightarrow> bool) \<Rightarrow> select_poller \<Rightarrow> nat list \<times> select_poller" where
  "Select_fill k [] readfds writefds sp = ([], sp)"
| "Select_fill k ((fd, c) # rest) readfds writefds sp =
     (let sp1 = (if readfds fd then upd_schan c (add_revents XPOLLIN) sp else sp);
          sp2 = (if writefds fd then upd_schan c (add_revents XPOLLOUT) sp1 else sp1)
      in if readfds fd \<or> writefds fd
         then (if k \<le> 1 then ([c], sp2)
               else (let (cs, sp3) = Select_fill (k - 1) rest readfds writefds sp2 in (c # cs, sp3)))
         else Select_fill k rest readfds writefds sp2)"

section \<open>The map of the poller and the kernel agree\<close>

definition registered :: "epoll_poller \<Rightarrow> nat \<Rightarrow> bool" where
  "registered ep c \<longleftrightarrow> m_index (chans ep c) = kAdded \<or> m_index (chans ep c) = kDeleted"

definition ep_wf :: "epoll_poller \<Rightarrow> bool" where
  "ep_wf ep \<longleftrightarrow> (\<forall>fd c. ep_channels ep fd = Some c \<longleftrightarrow> m_fd (chans ep c) = fd \<and> registered ep c) \<and>
     (\<forall>c. registered ep c \<or> m_index (chans ep c) = kNew)"

text \<open>What the kernel should be watching: the channels in state \<^verbatim>\<open>kAdded\<close> with their current events.\<close>

definition wanted :: "epoll_poller \<Rightarrow> interest" where
  "wanted ep fd =
     (case ep_channels ep fd of
        None \<Rightarrow> None
      | Some c \<Rightarrow> if m_index (chans ep c) = kAdded then Some (m_events (chans ep c), c) else None)"

definition ep_sync :: "epoll_poller \<Rightarrow> bool" where
  "ep_sync ep \<longleftrightarrow> ep_wf ep \<and> interest ep = wanted ep"

lemmas index_defs = kNew_def kAdded_def kDeleted_def

lemma wf_registered:
  "ep_wf ep \<Longrightarrow> ep_channels ep fd = Some c \<longleftrightarrow> m_fd (chans ep c) = fd \<and> registered ep c"
  by (simp add: ep_wf_def)

lemma wf_index: "ep_wf ep \<Longrightarrow> registered ep c \<or> m_index (chans ep c) = kNew"
  by (simp add: ep_wf_def)

lemma wf_None: "ep_wf ep \<Longrightarrow> ep_channels ep fd = None \<longleftrightarrow> (\<forall>c. m_fd (chans ep c) = fd \<longrightarrow> \<not> registered ep c)"
  using wf_registered [of ep fd] by (cases "ep_channels ep fd") auto

lemma ep_interest_simps [simp]:
  "ep_wf (ep\<lparr>interest := i\<rparr>) = ep_wf ep" "wanted (ep\<lparr>interest := i\<rparr>) = wanted ep"
  "ep_wf (ep\<lparr>interest := i, chans := cs\<rparr>) = ep_wf (ep\<lparr>chans := cs\<rparr>)"
  "wanted (ep\<lparr>interest := i, chans := cs\<rparr>) = wanted (ep\<lparr>chans := cs\<rparr>)"
  by (simp_all add: ep_wf_def registered_def wanted_def fun_eq_iff split: option.split)

text \<open>The three changes of the map and the index: a new channel, a state change, a removal.\<close>

lemma wf_register:
  assumes "ep_wf ep" and "m_index (chans ep c) = kNew" and "ep_channels ep (m_fd (chans ep c)) = None"
  shows "ep_wf (ep\<lparr>ep_channels := (ep_channels ep)(m_fd (chans ep c) := Some c),
    chans := (chans ep)(c := (chans ep c)\<lparr>m_index := kAdded\<rparr>)\<rparr>)" (is "ep_wf ?e")
proof -
  have r: "registered ?e d \<longleftrightarrow> registered ep d \<or> d = c" and f: "m_fd (chans ?e d) = m_fd (chans ep d)" for d
    by (auto simp: registered_def)
  have "\<not> registered ep c" using assms(2) by (simp add: registered_def index_defs)
  moreover have "\<not> registered ep d" if "m_fd (chans ep d) = m_fd (chans ep c)" for d
    using assms(3) that by (simp add: wf_None [OF assms(1)])
  ultimately have "ep_channels ?e fd = Some d \<longleftrightarrow> m_fd (chans ep d) = fd \<and> (registered ep d \<or> d = c)" for fd d
    by (auto simp: wf_registered [OF assms(1)])
  moreover have "registered ep d \<or> d = c \<or> m_index (chans ?e d) = kNew" for d
    using wf_index [OF assms(1), of d] by auto
  ultimately show ?thesis unfolding ep_wf_def r f by blast
qed

lemma wf_reindex:
  assumes "ep_wf ep" and "registered ep c" and "i = kAdded \<or> i = kDeleted"
  shows "ep_wf (ep\<lparr>chans := (chans ep)(c := (chans ep c)\<lparr>m_index := i\<rparr>)\<rparr>)" (is "ep_wf ?e")
proof -
  have r: "registered ?e d \<longleftrightarrow> registered ep d" and f: "m_fd (chans ?e d) = m_fd (chans ep d)" for d
    using assms(2,3) by (auto simp: registered_def)
  have "ep_channels ?e fd = Some d \<longleftrightarrow> m_fd (chans ep d) = fd \<and> registered ep d" for fd d
    by (simp add: wf_registered [OF assms(1)])
  moreover have "registered ep d \<or> m_index (chans ?e d) = kNew" for d
    using wf_index [OF assms(1), of d] assms(2) by auto
  ultimately show ?thesis unfolding ep_wf_def r f by blast
qed

lemma wf_unregister:
  assumes "ep_wf ep" and "registered ep c"
  shows "ep_wf (ep\<lparr>ep_channels := (ep_channels ep)(m_fd (chans ep c) := None),
    chans := (chans ep)(c := (chans ep c)\<lparr>m_index := kNew\<rparr>)\<rparr>)" (is "ep_wf ?e")
proof -
  have r: "registered ?e d \<longleftrightarrow> registered ep d \<and> d \<noteq> c" and f: "m_fd (chans ?e d) = m_fd (chans ep d)" for d
    by (auto simp: registered_def index_defs)
  have "d = c" if "m_fd (chans ep d) = m_fd (chans ep c)" "registered ep d" for d
    using that assms(2) wf_registered [OF assms(1), of "m_fd (chans ep c)" c]
      wf_registered [OF assms(1), of "m_fd (chans ep c)" d] by simp
  then have "ep_channels ?e fd = Some d \<longleftrightarrow> m_fd (chans ep d) = fd \<and> registered ep d \<and> d \<noteq> c" for fd d
    by (auto simp: wf_registered [OF assms(1)])
  moreover have "(registered ep d \<and> d \<noteq> c) \<or> m_index (chans ?e d) = kNew" for d
    using wf_index [OF assms(1), of d] by auto
  ultimately show ?thesis unfolding ep_wf_def r f by blast
qed

lemma wanted_reindex:
  assumes "ep_wf ep" and "registered ep c"
  shows "wanted (ep\<lparr>chans := (chans ep)(c := (chans ep c)\<lparr>m_index := i\<rparr>)\<rparr>) =
    (wanted ep)(m_fd (chans ep c) := if i = kAdded then Some (m_events (chans ep c), c) else None)"
proof
  fix fd
  show "wanted (ep\<lparr>chans := (chans ep)(c := (chans ep c)\<lparr>m_index := i\<rparr>)\<rparr>) fd =
      ((wanted ep)(m_fd (chans ep c) := if i = kAdded then Some (m_events (chans ep c), c) else None)) fd"
  proof (cases "ep_channels ep fd")
    case (Some d)
    then have "m_fd (chans ep d) = fd" by (simp add: wf_registered [OF assms(1)])
    moreover have "ep_channels ep (m_fd (chans ep c)) = Some c" using assms(2) by (simp add: wf_registered [OF assms(1)])
    ultimately show ?thesis using Some by (cases "d = c") (auto simp: wanted_def)
  next
    case None
    then have "fd \<noteq> m_fd (chans ep c)" using assms(2) wf_registered [OF assms(1), of fd c] by auto
    then show ?thesis using None by (simp add: wanted_def)
  qed
qed

lemma updateChannel_sync:
  assumes wf: "ep_wf ep"
    and other: "\<And>fd. ep_channels ep fd \<noteq> Some c \<Longrightarrow> interest ep fd = wanted ep fd"
    and this_one: "registered ep c \<Longrightarrow> interest ep (m_fd (chans ep c)) = None \<longleftrightarrow> m_index (chans ep c) \<noteq> kAdded"
  shows "ep_sync (snd (updateChannel False c ep)) \<and>
    (fst (updateChannel False c ep) \<longleftrightarrow> hasChannel c ep \<or> ep_channels ep (m_fd (chans ep c)) = None)"
proof -
  let ?fd = "m_fd (chans ep c)"
  consider (unregistered) "m_index (chans ep c) = kNew" "\<not> registered ep c" | (reg) "registered ep c"
    using wf_index [OF wf, of c] by (auto simp: registered_def index_defs)
  then show ?thesis
  proof cases
    case unregistered
    then have all: "interest ep = wanted ep" and ne: "ep_channels ep ?fd \<noteq> Some c"
      using other wf_registered [OF wf] by blast+
    show ?thesis
    proof (cases "ep_channels ep ?fd")
      case None
      then have i: "interest ep ?fd = None" by (simp add: all wanted_def)
      have w: "wanted (ep\<lparr>ep_channels := (ep_channels ep)(?fd := Some c),
          chans := (chans ep)(c := (chans ep c)\<lparr>m_index := kAdded\<rparr>)\<rparr>) = (wanted ep)(?fd := Some (m_events (chans ep c), c))"
        using wf_registered [OF wf, of _ c] unregistered(2) by (auto simp: wanted_def fun_eq_iff split: option.splits)
      show ?thesis
        using None unregistered wf_register [OF wf unregistered(1) None] i w all
        by (simp add: updateChannel_def ep_update_def upd_chan_def ep_sync_def hasChannel_def set_index_def Let_def)
    next
      case (Some d)
      then show ?thesis
        using unregistered ne wf all by (simp add: updateChannel_def ep_sync_def hasChannel_def Let_def)
    qed
  next
    case reg
    then have ch: "ep_channels ep ?fd = Some c" by (simp add: wf_registered [OF wf])
    have upd: "(interest ep)(?fd := x) = (wanted ep)(?fd := x)" for x
      using other reg by (auto simp: fun_eq_iff wf_registered [OF wf])
    note wf' = wf_reindex [OF wf reg] and w' = wanted_reindex [OF wf reg]
    show ?thesis
    proof (cases "m_index (chans ep c) = kAdded")
      case True
      have same: "(chans ep)(c := (chans ep c)\<lparr>m_index := kAdded\<rparr>) = chans ep" using True by (simp add: fun_upd_idem)
      have "interest ep ?fd \<noteq> None" using this_one reg True by simp
      moreover have "wanted ep = (interest ep)(?fd := Some (m_events (chans ep c), c))"
        using w' [of kAdded] same upd by simp
      moreover have "kAdded \<noteq> kNew" "kAdded \<noteq> kDeleted" "kDeleted \<noteq> kAdded" by (simp_all add: index_defs)
      ultimately show ?thesis
        using True ch wf wf' [of kDeleted] w' [of kDeleted] upd
        by (cases "isNoneEvent (chans ep c)")
          (simp_all add: updateChannel_def ep_update_def upd_chan_def set_index_def ep_sync_def hasChannel_def Let_def)
    next
      case False
      then have "m_index (chans ep c) = kDeleted" "interest ep ?fd = None"
        using reg this_one by (auto simp: registered_def)
      then show ?thesis
        using False ch wf' [of kAdded] w' [of kAdded] upd
        by (simp add: updateChannel_def ep_update_def upd_chan_def set_index_def ep_sync_def hasChannel_def Let_def index_defs)
    qed
  qed
qed

lemma mask_sync:
  assumes "ep_sync ep"
  shows "ep_sync (snd (channel_mask op False c ep)) \<and>
    (fst (channel_mask op False c ep) \<longleftrightarrow> hasChannel c ep \<or> ep_channels ep (m_fd (chans ep c)) = None)"
proof -
  let ?ep = "upd_chan c (\<lambda>ch. ch\<lparr>m_events := mask_events op (m_events ch)\<rparr>) ep"
  have wf: "ep_wf ep" and int: "interest ep = wanted ep" using assms by (simp_all add: ep_sync_def)
  have r: "registered ?ep d \<longleftrightarrow> registered ep d" and "m_fd (chans ?ep d) = m_fd (chans ep d)"
    and "m_index (chans ?ep d) = m_index (chans ep d)" and "ep_channels ?ep = ep_channels ep" for d
    by (auto simp: registered_def upd_chan_def)
  then have wf': "ep_wf ?ep" using wf by (simp add: ep_wf_def)
  have "interest ?ep fd = wanted ?ep fd" if "ep_channels ?ep fd \<noteq> Some c" for fd
    using that int by (auto simp: upd_chan_def wanted_def split: option.splits)
  moreover have "interest ?ep (m_fd (chans ?ep c)) = None \<longleftrightarrow> m_index (chans ?ep c) \<noteq> kAdded"
    if "registered ?ep c"
  proof -
    have "ep_channels ep (m_fd (chans ep c)) = Some c" using that r by (simp add: wf_registered [OF wf])
    then show ?thesis using int by (simp add: upd_chan_def wanted_def)
  qed
  ultimately show ?thesis
    using updateChannel_sync [OF wf'] by (simp add: channel_mask_def hasChannel_def upd_chan_def)
qed

lemma remove_sync:
  assumes "ep_sync ep"
  shows "ep_sync (channel_remove False c ep)"
proof (cases "registered ep c \<and> isNoneEvent (chans ep c)")
  case True
  have wf: "ep_wf ep" and int: "interest ep = wanted ep" using assms by (simp_all add: ep_sync_def)
  let ?fd = "m_fd (chans ep c)"
  let ?ep' = "ep\<lparr>ep_channels := (ep_channels ep)(?fd := None), chans := (chans ep)(c := (chans ep c)\<lparr>m_index := kNew\<rparr>)\<rparr>"
  have ch: "ep_channels ep ?fd = Some c" using True by (simp add: wf_registered [OF wf])
  have w: "wanted ?ep' = (wanted ep)(?fd := None)"
  proof
    fix fd
    show "wanted ?ep' fd = ((wanted ep)(?fd := None)) fd"
    proof (cases "ep_channels ep fd")
      case (Some d)
      then have "m_fd (chans ep d) = fd" by (simp add: wf_registered [OF wf])
      then show ?thesis using Some by (auto simp: wanted_def)
    qed (simp add: wanted_def)
  qed
  have i: "interest ep ?fd = None \<longleftrightarrow> m_index (chans ep c) \<noteq> kAdded" using int ch by (simp add: wanted_def)
  have wf2: "ep_wf ?ep'" using wf_unregister [OF wf] True by blast
  show ?thesis
  proof (cases "m_index (chans ep c) = kAdded")
    case added: True
    have "channel_remove False c ep = ?ep'\<lparr>interest := (interest ep)(?fd := None)\<rparr>"
      using True ch i added
      by (auto simp: channel_remove_def removeChannel_def ep_update_def upd_chan_def set_index_def Let_def)
    then show ?thesis using wf2 w int by (simp add: ep_sync_def)
  next
    case False
    then have "channel_remove False c ep = ?ep'"
      using True ch by (auto simp: channel_remove_def removeChannel_def upd_chan_def set_index_def registered_def Let_def)
    moreover have "(wanted ep)(?fd := None) = wanted ep" using i int False by (simp add: fun_upd_idem)
    ultimately show ?thesis using wf2 w int by (simp add: ep_sync_def)
  qed
next
  case False
  then have "channel_remove False c ep = ep"
    using assms wf_registered [of ep "m_fd (chans ep c)" c]
    by (auto simp: channel_remove_def removeChannel_def ep_sync_def registered_def Let_def)
  then show ?thesis using assms by simp
qed

lemma fillActiveChannels_all:
  assumes "\<forall>(c, r)\<in>set evs. hasChannel c ep"
  shows "fst (fillActiveChannels evs ep) = map fst evs"
  using assms
proof (induction evs ep rule: fillActiveChannels.induct)
  case (2 c r evs ep)
  have "\<forall>(d, r')\<in>set evs. hasChannel d (upd_chan c (set_revents r) ep)"
    using "2.prems" by (auto simp: hasChannel_def upd_chan_def set_revents_def)
  then show ?case using 2 by (auto simp: hasChannel_def Let_def split: prod.splits)
qed simp

section \<open>The poller interface\<close>

text \<open>
  What an event loop needs of a poller, whatever the system call behind it: a successful update leaves
  the channel registered under its descriptor, other descriptors are not touched, a removed
  channel is no longer registered, and the internal invariant is kept.
\<close>

locale poller =
  fixes upd :: "nat \<Rightarrow> 's \<Rightarrow> bool \<times> 's"
    and rem :: "nat \<Rightarrow> 's \<Rightarrow> 's"
    and chan :: "'s \<Rightarrow> nat \<Rightarrow> channel"
    and reg :: "'s \<Rightarrow> int \<Rightarrow> nat option"
    and inv :: "'s \<Rightarrow> bool"
  assumes upd_inv: "inv s \<Longrightarrow> inv (snd (upd c s))"
    and rem_inv: "inv s \<Longrightarrow> inv (rem c s)"
    and upd_reg: "inv s \<Longrightarrow> fst (upd c s) \<Longrightarrow> reg (snd (upd c s)) (m_fd (chan s c)) = Some c"
    and upd_other: "inv s \<Longrightarrow> fd \<noteq> m_fd (chan s c) \<Longrightarrow> reg (snd (upd c s)) fd = reg s fd"
    and rem_reg: "inv s \<Longrightarrow> isNoneEvent (chan s c) \<Longrightarrow> reg (rem c s) fd \<noteq> Some c"
    and rem_other: "inv s \<Longrightarrow> fd \<noteq> m_fd (chan s c) \<Longrightarrow> reg (rem c s) fd = reg s fd"
    and upd_fd: "m_fd (chan (snd (upd d s)) c) = m_fd (chan s c)"
begin

lemma updates_inv: "inv s \<Longrightarrow> inv (fold (\<lambda>c s. snd (upd c s)) cs s)"
  by (induction cs arbitrary: s) (simp_all add: upd_inv)

lemma registration_survives:
  assumes "inv s" and "\<forall>c\<in>set cs. m_fd (chan s c) \<noteq> fd"
  shows "reg (fold (\<lambda>c s. snd (upd c s)) cs s) fd = reg s fd"
  using assms
proof (induction cs arbitrary: s)
  case (Cons c cs)
  then have "inv (snd (upd c s))" and "\<forall>d\<in>set cs. m_fd (chan (snd (upd c s)) d) \<noteq> fd"
    by (simp_all add: upd_inv upd_fd)
  from Cons.IH [OF this] show ?case using Cons.prems upd_other [of s fd c] by simp
qed simp

end

lemma ep_update_simps [simp]:
  "ep_wf (snd (ep_update r op c ep)) = ep_wf ep" "ep_channels (snd (ep_update r op c ep)) = ep_channels ep"
  "chans (snd (ep_update r op c ep)) = chans ep"
  by (simp_all add: ep_update_def split: prod.splits)

lemma registered_ep_update [simp]: "registered (snd (ep_update r op c ep)) d = registered ep d"
  by (simp add: registered_def)

lemma updateChannel_wf:
  assumes "ep_wf ep"
  shows "ep_wf (snd (updateChannel r c ep))"
proof (cases "m_index (chans ep c) = kNew")
  case True
  then show ?thesis
    using assms wf_register [OF assms True]
    by (auto simp: updateChannel_def upd_chan_def set_index_def Let_def)
next
  case False
  then have reg: "registered ep c" using wf_index [OF assms] by blast
  obtain ok ep1 where u: "ep_update r CTL_DEL c ep = (ok, ep1)" by (cases "ep_update r CTL_DEL c ep")
  then have "ep_wf ep1" and "registered ep1 c"
    using assms reg ep_update_simps(1) [of r CTL_DEL c ep] registered_ep_update [of r CTL_DEL c ep c] by simp_all
  then show ?thesis
    using False assms u wf_reindex [OF assms reg, of kAdded] wf_reindex [of ep1 c kDeleted]
    by (auto simp: updateChannel_def upd_chan_def set_index_def Let_def)
qed

lemma removeChannel_cases:
  assumes "ep_wf ep"
  shows "\<exists>i. removeChannel r c ep = ep \<and> \<not> (registered ep c \<and> isNoneEvent (chans ep c)) \<or>
    registered ep c \<and> removeChannel r c ep = ep\<lparr>ep_channels := (ep_channels ep)(m_fd (chans ep c) := None),
      chans := (chans ep)(c := (chans ep c)\<lparr>m_index := kNew\<rparr>), interest := i\<rparr>"
proof (cases "registered ep c \<and> isNoneEvent (chans ep c)")
  case True
  then have "ep_channels ep (m_fd (chans ep c)) = Some c" by (simp add: wf_registered [OF assms])
  then show ?thesis
    using True
    by (intro exI [of _ "interest (removeChannel r c ep)"])
      (auto simp: removeChannel_def ep_update_def upd_chan_def set_index_def registered_def Let_def split: prod.splits)
next
  case False
  then show ?thesis
    using wf_registered [OF assms, of "m_fd (chans ep c)" c] by (auto simp: removeChannel_def Let_def)
qed

interpretation epoll: poller "updateChannel r" "removeChannel r" chans ep_channels ep_wf for r
proof unfold_locales
  fix s c fd d
  show "ep_wf (snd (updateChannel r c s))" if "ep_wf s" using that by (rule updateChannel_wf)
  show "ep_wf (removeChannel r c s)" if "ep_wf s"
    using removeChannel_cases [OF that, of r c] that wf_unregister [OF that, of c] by auto
  show "ep_channels (snd (updateChannel r c s)) (m_fd (chans s c)) = Some c" if "fst (updateChannel r c s)"
    using that by (auto simp: updateChannel_def upd_chan_def Let_def split: prod.splits if_splits dest: arg_cong [of _ _ "\<lambda>x. ep_channels (snd x)"])
  show "ep_channels (snd (updateChannel r c s)) fd = ep_channels s fd" if "fd \<noteq> m_fd (chans s c)"
    using that by (auto simp: updateChannel_def upd_chan_def ep_update_def Let_def split: prod.splits)
  show "ep_channels (removeChannel r c s) fd \<noteq> Some c" if "ep_wf s" "isNoneEvent (chans s c)"
    using removeChannel_cases [OF that(1), of r c] that wf_registered [OF that(1), of fd c] by (auto split: if_splits)
  show "ep_channels (removeChannel r c s) fd = ep_channels s fd" if "ep_wf s" "fd \<noteq> m_fd (chans s c)"
    using removeChannel_cases [OF that(1), of r c] that by auto
  show "m_fd (chans (snd (updateChannel r d s)) c) = m_fd (chans s c)"
    by (auto simp: updateChannel_def ep_update_def upd_chan_def set_index_def Let_def split: prod.splits)
qed

definition sel_wf :: "select_poller \<Rightarrow> bool" where
  "sel_wf sp \<longleftrightarrow> (\<forall>fd c. s_channels sp fd = Some c \<longrightarrow> m_fd (s_chans sp c) = fd)"

lemma Select_update_simps [simp]:
  "s_channels (snd (Select_update op c sp)) = s_channels sp" "s_chans (snd (Select_update op c sp)) = s_chans sp"
  by (simp_all add: Select_update_def Let_def split: epoll_op.splits option.splits)

lemma Select_updateChannel_post:
  "s_channels (snd (Select_updateChannel c sp)) = s_channels sp \<or>
     s_channels (snd (Select_updateChannel c sp)) = (s_channels sp)(m_fd (s_chans sp c) := Some c)"
  "m_fd (s_chans (snd (Select_updateChannel c sp)) d) = m_fd (s_chans sp d)"
  "fst (Select_updateChannel c sp) \<Longrightarrow> s_channels (snd (Select_updateChannel c sp)) (m_fd (s_chans sp c)) = Some c"
proof -
  obtain ok sp1 where u: "Select_update CTL_DEL c sp = (ok, sp1)" by (cases "Select_update CTL_DEL c sp")
  then have sp1: "s_channels sp1 = s_channels sp" "s_chans sp1 = s_chans sp"
    using Select_update_simps [of CTL_DEL c sp] by simp_all
  note d = Select_updateChannel_def upd_schan_def set_index_def Let_def
  show "s_channels (snd (Select_updateChannel c sp)) = s_channels sp \<or>
     s_channels (snd (Select_updateChannel c sp)) = (s_channels sp)(m_fd (s_chans sp c) := Some c)"
    using u sp1 by (simp add: d)
  show "m_fd (s_chans (snd (Select_updateChannel c sp)) d) = m_fd (s_chans sp d)"
    using u sp1 by (simp add: d)
  show "fst (Select_updateChannel c sp) \<Longrightarrow> s_channels (snd (Select_updateChannel c sp)) (m_fd (s_chans sp c)) = Some c"
    using u sp1 by (simp add: d split: if_splits)
qed

lemma Select_removeChannel_post:
  "s_channels (Select_removeChannel c sp) = s_channels sp \<and> (s_channels sp (m_fd (s_chans sp c)) \<noteq> Some c \<or> \<not> isNoneEvent (s_chans sp c)) \<or>
     s_channels (Select_removeChannel c sp) = (s_channels sp)(m_fd (s_chans sp c) := None)"
  "m_fd (s_chans (Select_removeChannel c sp) d) = m_fd (s_chans sp d)"
  by (simp_all add: Select_removeChannel_def upd_schan_def set_index_def Let_def)

interpretation selectp: poller Select_updateChannel Select_removeChannel s_chans s_channels sel_wf
proof unfold_locales
  fix s c fd d
  note upd = Select_updateChannel_post and remv = Select_removeChannel_post
  show "sel_wf (snd (Select_updateChannel c s))" if "sel_wf s"
    using that upd(1) [of c s] by (auto simp: sel_wf_def upd(2) split: if_splits)
  show "sel_wf (Select_removeChannel c s)" if "sel_wf s"
    using that remv(1) [of c s] by (auto simp: sel_wf_def remv(2) split: if_splits)
  show "s_channels (snd (Select_updateChannel c s)) (m_fd (s_chans s c)) = Some c" if "fst (Select_updateChannel c s)"
    using that by (rule upd(3))
  show "s_channels (snd (Select_updateChannel c s)) fd = s_channels s fd" if "fd \<noteq> m_fd (s_chans s c)"
    using that upd(1) [of c s] by auto
  show "s_channels (Select_removeChannel c s) fd \<noteq> Some c" if "sel_wf s" "isNoneEvent (s_chans s c)"
    using that remv(1) [of c s] by (auto simp: sel_wf_def split: if_splits)
  show "s_channels (Select_removeChannel c s) fd = s_channels s fd" if "fd \<noteq> m_fd (s_chans s c)"
    using that remv(1) [of c s] by auto
  show "m_fd (s_chans (snd (Select_updateChannel d s)) c) = m_fd (s_chans s c)" by (rule upd(2))
qed

section \<open>Properties\<close>

text \<open>The operations the event loop performs on its poller, when \<^verbatim>\<open>epoll_ctl\<close> refuses nothing of its own.\<close>

datatype poll_event = Mask mask_op nat | Unregister nat

fun poll_step :: "poll_event \<Rightarrow> epoll_poller \<Rightarrow> epoll_poller" where
  "poll_step (Mask op c) ep = snd (channel_mask op False c ep)"
| "poll_step (Unregister c) ep = channel_remove False c ep"

interpretation ep_steps: stepping poll_step ep_sync "\<lambda>_. True"
proof unfold_locales
  fix s e
  show "ep_sync s \<Longrightarrow> ep_sync (poll_step e s)"
    using mask_sync remove_sync by (cases e) auto
qed

lemma EPollPoller_sync: "\<forall>c. m_index (cs c) = kNew \<Longrightarrow> ep_sync (EPollPoller cs)"
  by (simp add: ep_sync_def ep_wf_def EPollPoller_def registered_def wanted_def index_defs fun_eq_iff)

text \<open>
  C20: The kernel watches exactly what the program wants: after any sequence of \<^verbatim>\<open>enableReading\<close>,
  \<^verbatim>\<open>disableWriting\<close>, ..., \<^verbatim>\<open>disableAll\<close> and \<^verbatim>\<open>remove\<close> on any channels, as long as \<^verbatim>\<open>epoll_ctl\<close> refuses
  nothing of its own, the epoll set holds precisely the channels in state \<^verbatim>\<open>kAdded\<close>, each with its
  current event mask and its own pointer, and the map of the poller holds precisely the
  channels that are not \<^verbatim>\<open>kNew\<close>, each under its descriptor.
\<close>

theorem epoll_in_sync:
  assumes "\<forall>c. m_index (cs c) = kNew"
  shows "let ep = fold poll_step es (EPollPoller cs) in
    interest ep = (\<lambda>fd. case ep_channels ep fd of None \<Rightarrow> None
      | Some c \<Rightarrow> if m_index (chans ep c) = kAdded then Some (m_events (chans ep c), c) else None) \<and>
    (\<forall>fd c. ep_channels ep fd = Some c \<longleftrightarrow> m_fd (chans ep c) = fd \<and> m_index (chans ep c) \<noteq> kNew)"
proof -
  let ?ep = "fold poll_step es (EPollPoller cs)"
  have sync: "ep_sync ?ep" using ep_steps.run_inv [of "EPollPoller cs" es] EPollPoller_sync [OF assms] by simp
  then have "interest ?ep = wanted ?ep" and wf: "ep_wf ?ep" by (simp_all add: ep_sync_def)
  moreover have "registered ?ep c \<longleftrightarrow> m_index (chans ?ep c) \<noteq> kNew" for c
    using wf_index [OF wf, of c] by (auto simp: registered_def index_defs)
  ultimately show ?thesis
    by (simp add: wanted_def fun_eq_iff Let_def wf_registered [OF wf])
qed

theorem epoll_in_sync_witness:
  "let ep = fold poll_step [Mask EnableReading 0, Mask EnableWriting 0, Mask DisableAll 1] (EPollPoller (\<lambda>c. Channel (int c + 5)))
   in interest ep 5 = Some (7, 0) \<and> ep_channels ep 5 = Some 0"
  using epoll_in_sync [of "\<lambda>c. Channel (int c + 5)" "[Mask EnableReading 0, Mask EnableWriting 0, Mask DisableAll 1]"]
  by (simp add: Channel_def index_defs Let_def EPollPoller_def channel_mask_def updateChannel_def upd_chan_def
      ep_update_def set_index_def isNoneEvent_def xpoll_defs)

text \<open>
  Every event the kernel reports is handed to its channel: if each reported event belongs to a
  channel the kernel is watching, \<^verbatim>\<open>poll\<close> returns all these channels in order (so the early
  \<^verbatim>\<open>return\<close> in \<^verbatim>\<open>fillActiveChannels\<close> never drops one), and a full event array is doubled.
\<close>

theorem epoll_reports_all:
  assumes "ep_sync ep" and "evs \<noteq> []" and "length evs \<le> ep_events ep"
    and "\<forall>(c, revt)\<in>set evs. \<exists>ev. interest ep (m_fd (chans ep c)) = Some (ev, c)"
  shows "fst (ep_poll (Some evs) ep) = map fst evs"
proof -
  have "hasChannel c ep" if "interest ep (m_fd (chans ep c)) = Some (ev, c)" for c ev
    using that assms(1) by (auto simp: ep_sync_def wanted_def hasChannel_def split: option.splits if_splits)
  then have "\<forall>(c, r)\<in>set evs. hasChannel c ep" using assms(4) by blast
  then show ?thesis
    using fillActiveChannels_all [of evs ep] assms(2,3)
    by (cases "fillActiveChannels evs ep") (simp add: ep_poll_def Let_def)
qed

theorem epoll_reports_all_witness:
  "fst (ep_poll (Some [(0, 1)]) (fold poll_step [Mask EnableReading 0] (EPollPoller (\<lambda>c. Channel (int c + 5))))) = [0]"
proof -
  let ?ep = "fold poll_step [Mask EnableReading 0] (EPollPoller (\<lambda>c. Channel (int c + 5)))"
  have "ep_sync ?ep"
    by (rule ep_steps.run_inv [OF EPollPoller_sync]) (simp_all add: Channel_def index_defs)
  moreover have "interest ?ep (m_fd (chans ?ep 0)) = Some (3, 0)" and "ep_events ?ep = 16"
    by (simp_all add: Channel_def index_defs Let_def EPollPoller_def channel_mask_def updateChannel_def upd_chan_def
        ep_update_def set_index_def isNoneEvent_def xpoll_defs kInitEventListSize_def)
  ultimately show ?thesis
    using epoll_reports_all [of ?ep "[(0, 1)]"] by simp
qed

text \<open>
  \<^verbatim>\<open>PollPoller\<close> forgets channels: once a registered channel has been switched off (all events
  disabled), switching any event on again leaves its entry with a negative descriptor, which
  \<^verbatim>\<open>::poll\<close> ignores, although \<^verbatim>\<open>updateChannel\<close> reports success.
\<close>

theorem poll_reenable_lost:
  assumes "p_channels pp (m_fd (p_chans pp c)) = Some c" and "0 \<le> m_fd (p_chans pp c)"
    and "0 \<le> m_index (p_chans pp c)" and "nat (m_index (p_chans pp c)) < length (m_pollfds pp)"
    and pp1: "pp1 = snd (Poll_updateChannel c (pp\<lparr>p_chans := (p_chans pp)(c := (p_chans pp c)\<lparr>m_events := kNoneEvent\<rparr>)\<rparr>))"
    and pp2: "pp2 = pp1\<lparr>p_chans := (p_chans pp1)(c := (p_chans pp1 c)\<lparr>m_events := ev\<rparr>)\<rparr>"
  shows "fst (Poll_updateChannel c pp2) \<and>
    pfd_fd (m_pollfds (snd (Poll_updateChannel c pp2)) ! nat (m_index (p_chans pp c))) < 0"
  using assms(1-4) unfolding pp2 pp1
  by (auto simp: Poll_updateChannel_def isNoneEvent_def Let_def nat_less_iff)

theorem poll_reenable_lost_witness:
  "let pp = \<lparr>p_chans = (\<lambda>_. (Channel 5)\<lparr>m_index := 0, m_events := 3\<rparr>), p_channels = (\<lambda>_. None)(5 := Some 9),
             m_pollfds = [\<lparr>pfd_fd = 5, pfd_events = 3, pfd_revents = 0\<rparr>]\<rparr>;
       pp1 = snd (Poll_updateChannel 9 (pp\<lparr>p_chans := (p_chans pp)(9 := (p_chans pp 9)\<lparr>m_events := kNoneEvent\<rparr>)\<rparr>));
       pp2 = pp1\<lparr>p_chans := (p_chans pp1)(9 := (p_chans pp1 9)\<lparr>m_events := kReadEvent\<rparr>)\<rparr>
   in pfd_fd (m_pollfds (snd (Poll_updateChannel 9 pp2)) ! 0) < 0"
  using poll_reenable_lost [OF _ _ _ _ refl refl, of "\<lparr>p_chans = (\<lambda>_. (Channel 5)\<lparr>m_index := 0, m_events := 3\<rparr>),
      p_channels = (\<lambda>_. None)(5 := Some 9), m_pollfds = [\<lparr>pfd_fd = 5, pfd_events = 3, pfd_revents = 0\<rparr>]\<rparr>" 9 kReadEvent]
  by (simp add: Channel_def Let_def)

end
