(* ===== verification/Tcp_Connection.thy ===== *)
theory Tcp_Connection
  imports Byte_Buffer Poller
begin

text \<open>
  \<^verbatim>\<open>net/TcpConnection\<close>: the connection state machine with its buffers.  The kernel's answer to a read
  or a write is an argument of the operation.  Functors handed to the event loop are kept in
  \<open>pending\<close> (the loop runs them in order), calls of the user's callbacks in \<open>calls\<close>, the
  bytes the kernel has taken in \<open>wire\<close>.
\<close>

section \<open>State\<close>

datatype StateE = kDisconnected | kConnecting | kConnected | kDisconnecting

datatype conn_task = SendTask bytes | ShutdownTask | ForceCloseTask | WriteCompleteTask | HighWaterMarkTask nat

text \<open>\<open>UpDown\<close> is the connection callback with what \<^verbatim>\<open>connected()\<close> answers in it.\<close>

datatype conn_call = UpDown bool | Message | CloseCallback

datatype errno = EWOULDBLOCK | EPIPE | ECONNRESET | Other_errno int

datatype write_result = Wrote nat | Write_error errno

record tcp_connection =
  m_state :: StateE
  m_channel :: channel
  m_inputBuffer :: byte_buffer
  m_outputBuffer :: byte_buffer
  m_highWaterMark :: nat
  m_writeCompleteCallback :: bool
  m_highWaterMarkCallback :: bool
  pending :: "conn_task list"
  calls :: "conn_call list"
  wire :: bytes
  write_shut :: bool
  channel_removed :: bool

definition TcpConnection :: "int \<Rightarrow> tcp_connection" where
  "TcpConnection sockfd =
     \<lparr>m_state = kConnecting, m_channel = Channel sockfd, m_inputBuffer = ByteBuffer kInitialSize,
      m_outputBuffer = ByteBuffer kInitialSize, m_highWaterMark = 64 * 1024 * 1024,
      m_writeCompleteCallback = False, m_highWaterMarkCallback = False, pending = [], calls = [], wire = [],
      write_shut = False, channel_removed = False\<rparr>"

definition connected :: "tcp_connection \<Rightarrow> bool" where
  "connected tc \<longleftrightarrow> m_state tc = kConnected"

definition setState :: "StateE \<Rightarrow> tcp_connection \<Rightarrow> tcp_connection" where
  "setState s tc = tc\<lparr>m_state := s\<rparr>"

definition set_interest :: "mask_op \<Rightarrow> tcp_connection \<Rightarrow> tcp_connection" where
  "set_interest op tc = tc\<lparr>m_channel := (m_channel tc)\<lparr>m_events := mask_events op (m_events (m_channel tc))\<rparr>\<rparr>"

definition queueInLoop :: "conn_task \<Rightarrow> tcp_connection \<Rightarrow> tcp_connection" where
  "queueInLoop t tc = tc\<lparr>pending := pending tc @ [t]\<rparr>"

definition call :: "conn_call \<Rightarrow> tcp_connection \<Rightarrow> tcp_connection" where
  "call c tc = tc\<lparr>calls := calls tc @ [c]\<rparr>"

definition setWriteCompleteCallback :: "tcp_connection \<Rightarrow> tcp_connection" where
  "setWriteCompleteCallback tc = tc\<lparr>m_writeCompleteCallback := True\<rparr>"

definition setHighWaterMarkCallback :: "nat \<Rightarrow> tcp_connection \<Rightarrow> tcp_connection" where
  "setHighWaterMarkCallback n tc = tc\<lparr>m_highWaterMarkCallback := True, m_highWaterMark := n\<rparr>"

fun stateToString :: "StateE \<Rightarrow> bytes" where
  "stateToString kDisconnected = lit ''kDisconnected''"
| "stateToString kConnecting = lit ''kConnecting''"
| "stateToString kConnected = lit ''kConnected''"
| "stateToString kDisconnecting = lit ''kDisconnecting''"

section \<open>Sending\<close>

text \<open>
  The direct write of \<^verbatim>\<open>sendInLoop\<close>: what is left to send and whether the connection is broken.  The
  kernel never takes more bytes than it is given.
\<close>

definition write_directly :: "write_result \<Rightarrow> bytes \<Rightarrow> tcp_connection \<Rightarrow> bytes \<times> bool \<times> tcp_connection" where
  "write_directly w data tc =
     (case w of
        Wrote n \<Rightarrow>
          (let rest = drop n data;
               tc1 = tc\<lparr>wire := wire tc @ take n data\<rparr>
           in (rest, False, if rest = [] \<and> m_writeCompleteCallback tc then queueInLoop WriteCompleteTask tc1 else tc1))
      | Write_error e \<Rightarrow> (data, e = EPIPE \<or> e = ECONNRESET, tc))"

definition sendInLoop :: "write_result \<Rightarrow> bytes \<Rightarrow> tcp_connection \<Rightarrow> tcp_connection" where
  "sendInLoop w data tc =
     (if m_state tc = kDisconnected then tc
      else (let (rest, faultError, tc1) =
                  (if \<not> isWriting (m_channel tc) \<and> readableBytes (m_outputBuffer tc) = 0
                   then write_directly w data tc else (data, False, tc))
            in if \<not> faultError \<and> rest \<noteq> []
               then (let oldLen = readableBytes (m_outputBuffer tc1);
                         tc2 = (if oldLen + length rest \<ge> m_highWaterMark tc1 \<and> oldLen < m_highWaterMark tc1
                                   \<and> m_highWaterMarkCallback tc1
                                then queueInLoop (HighWaterMarkTask (oldLen + length rest)) tc1 else tc1);
                         tc3 = tc2\<lparr>m_outputBuffer := append_data rest (m_outputBuffer tc2)\<rparr>
                     in if \<not> isWriting (m_channel tc3) then set_interest EnableWriting tc3 else tc3)
               else tc1))"

text \<open>\<^verbatim>\<open>send\<close>: from another thread the message is handed over through the queue of the loop.\<close>

definition send :: "bool \<Rightarrow> write_result \<Rightarrow> bytes \<Rightarrow> tcp_connection \<Rightarrow> tcp_connection" where
  "send inLoopThread w data tc =
     (if m_state tc = kConnected
      then (if inLoopThread then sendInLoop w data tc else queueInLoop (SendTask data) tc)
      else tc)"

definition send_buffer ::
  "bool \<Rightarrow> write_result \<Rightarrow> byte_buffer \<Rightarrow> tcp_connection \<Rightarrow> byte_buffer \<times> tcp_connection" where
  "send_buffer inLoopThread w b tc =
     (if m_state tc = kConnected
      then (if inLoopThread then (retrieveAll b, sendInLoop w (content b) tc)
            else (let (s, b1) = retrieveAllAsString b in (b1, queueInLoop (SendTask s) tc)))
      else (b, tc))"

section \<open>Closing\<close>

definition shutdownInLoop :: "tcp_connection \<Rightarrow> tcp_connection" where
  "shutdownInLoop tc = (if \<not> isWriting (m_channel tc) then tc\<lparr>write_shut := True\<rparr> else tc)"

definition shutdown :: "bool \<Rightarrow> tcp_connection \<Rightarrow> tcp_connection" where
  "shutdown inLoopThread tc =
     (if m_state tc = kConnected
      then (let tc1 = setState kDisconnecting tc
            in if inLoopThread then shutdownInLoop tc1 else queueInLoop ShutdownTask tc1)
      else tc)"

definition handleClose :: "tcp_connection \<Rightarrow> tcp_connection" where
  "handleClose tc =
     (if m_state tc = kDisconnected then tc
      else call CloseCallback (call (UpDown False) (set_interest DisableAll (setState kDisconnected tc))))"

definition handleError :: "tcp_connection \<Rightarrow> tcp_connection" where
  "handleError tc = handleClose tc"

definition forceClose :: "tcp_connection \<Rightarrow> tcp_connection" where
  "forceClose tc =
     (if m_state tc = kConnected \<or> m_state tc = kDisconnecting
      then queueInLoop ForceCloseTask (setState kDisconnecting tc) else tc)"

definition forceCloseInLoop :: "tcp_connection \<Rightarrow> tcp_connection" where
  "forceCloseInLoop tc = (if m_state tc = kConnected \<or> m_state tc = kDisconnecting then handleClose tc else tc)"

text \<open>\<^verbatim>\<open>connectEstablished\<close>; \<open>ok\<close> is the result of registering the channel with the poller.\<close>

definition connectEstablished :: "bool \<Rightarrow> tcp_connection \<Rightarrow> tcp_connection" where
  "connectEstablished ok tc =
     (if m_state tc \<noteq> kConnecting then tc
      else (let tc1 = set_interest EnableReading (setState kConnected tc)
            in if \<not> ok then handleClose tc1 else call (UpDown True) tc1))"

definition connectDestroyed :: "tcp_connection \<Rightarrow> tcp_connection" where
  "connectDestroyed tc =
     (let tc1 = (if m_state tc = kConnected
                 then call (UpDown False) (set_interest DisableAll (setState kDisconnected tc)) else tc)
      in if isNoneEvent (m_channel tc1) then tc1\<lparr>channel_removed := True\<rparr> else tc1)"

section \<open>Events\<close>

definition handleRead :: "io_result \<Rightarrow> int \<Rightarrow> tcp_connection \<Rightarrow> tcp_connection" where
  "handleRead r err tc =
     (let (n, e, b) = readFd r err (m_inputBuffer tc);
          tc1 = tc\<lparr>m_inputBuffer := b\<rparr>
      in if n > 0 then call Message tc1 else if n = 0 then handleClose tc1 else handleError tc1)"

definition handleWrite :: "write_result \<Rightarrow> tcp_connection \<Rightarrow> tcp_connection" where
  "handleWrite w tc =
     (if isWriting (m_channel tc)
      then (case w of
              Wrote n \<Rightarrow>
                (let k = min n (readableBytes (m_outputBuffer tc))
                 in if k > 0
                    then (let tc1 = tc\<lparr>wire := wire tc @ take k (content (m_outputBuffer tc)),
                                       m_outputBuffer := snd (retrieve k (m_outputBuffer tc))\<rparr>
                          in if readableBytes (m_outputBuffer tc1) = 0
                             then (let tc2 = set_interest DisableWriting tc1;
                                       tc3 = (if m_writeCompleteCallback tc2 then queueInLoop WriteCompleteTask tc2 else tc2)
                                   in if m_state tc3 = kDisconnecting then shutdownInLoop tc3 else tc3)
                             else tc1)
                    else handleClose tc)
            | Write_error e \<Rightarrow> handleClose tc)
      else tc)"

definition runTask :: "write_result \<Rightarrow> tcp_connection \<Rightarrow> tcp_connection" where
  "runTask w tc =
     (case pending tc of
        [] \<Rightarrow> tc
      | t # ts \<Rightarrow>
          (let tc1 = tc\<lparr>pending := ts\<rparr>
           in case t of
                SendTask data \<Rightarrow> sendInLoop w data tc1
              | ShutdownTask \<Rightarrow> shutdownInLoop tc1
              | ForceCloseTask \<Rightarrow> forceCloseInLoop tc1
              | WriteCompleteTask \<Rightarrow> tc1
              | HighWaterMarkTask n \<Rightarrow> tc1))"

fun run_upcall :: "io_result \<Rightarrow> int \<Rightarrow> write_result \<Rightarrow> upcall \<Rightarrow> tcp_connection \<Rightarrow> tcp_connection" where
  "run_upcall r err w CloseCb tc = handleClose tc"
| "run_upcall r err w ErrorCb tc = handleError tc"
| "run_upcall r err w ReadCb tc = handleRead r err tc"
| "run_upcall r err w WriteCb tc = handleWrite w tc"

text \<open>\<^verbatim>\<open>Channel::handleEvent\<close> of the channel of this connection.\<close>

definition channel_event :: "int32 \<Rightarrow> io_result \<Rightarrow> int \<Rightarrow> write_result \<Rightarrow> tcp_connection \<Rightarrow> tcp_connection" where
  "channel_event revents r err w tc = fold (run_upcall r err w) (handleEvent revents) tc"

datatype conn_event =
    Established bool
  | Send bool bytes write_result
  | Channel_event int32 io_result int write_result
  | Shutdown bool
  | ForceClose
  | RunTask write_result
  | Destroyed
  | SetWriteComplete
  | SetHighWaterMark nat

fun conn_step :: "conn_event \<Rightarrow> tcp_connection \<Rightarrow> tcp_connection" where
  "conn_step (Established ok) tc = connectEstablished ok tc"
| "conn_step (Send inLoop data w) tc = send inLoop w data tc"
| "conn_step (Channel_event revents r err w) tc = channel_event revents r err w tc"
| "conn_step (Shutdown inLoop) tc = shutdown inLoop tc"
| "conn_step ForceClose tc = forceClose tc"
| "conn_step (RunTask w) tc = runTask w tc"
| "conn_step Destroyed tc = connectDestroyed tc"
| "conn_step SetWriteComplete tc = setWriteCompleteCallback tc"
| "conn_step (SetHighWaterMark n) tc = setHighWaterMarkCallback n tc"

section \<open>Lemmas\<close>

named_theorems conn_defs \<open>definitions of the connection operations\<close>
lemmas [conn_defs] = setState_def set_interest_def queueInLoop_def call_def shutdownInLoop_def handleClose_def handleError_def

lemma isWriting_bit: "isWriting ch \<longleftrightarrow> bit (m_events ch) 2"
  using and_exp_eq_0_iff_not_bit [of "m_events ch" 2] by (simp add: isWriting_def xpoll_defs)

lemma mask_bits:
  "bit (mask_events EnableReading ev) 2 = bit ev 2" "bit (mask_events EnableWriting ev) 2"
  "\<not> bit (mask_events DisableWriting ev) 2" "\<not> bit (mask_events DisableAll ev) 2"
  by (simp_all add: xpoll_defs bit_simps)

definition outstream :: "tcp_connection \<Rightarrow> bytes" where
  "outstream tc = wire tc @ content (m_outputBuffer tc)"

definition ups :: "tcp_connection \<Rightarrow> bool list" where
  "ups tc = concat (map (\<lambda>c. case c of UpDown b \<Rightarrow> [b] | _ \<Rightarrow> []) (calls tc))"

text \<open>
  The invariant: write interest exactly while there is output, no interest at all once disconnected, and
  the connection callback has been called for every change of state and for nothing else.
\<close>

fun ups_ok :: "StateE \<Rightarrow> bool list \<Rightarrow> bool" where
  "ups_ok kConnecting u \<longleftrightarrow> u = []"
| "ups_ok kConnected u \<longleftrightarrow> u = [True]"
| "ups_ok kDisconnecting u \<longleftrightarrow> u = [True]"
| "ups_ok kDisconnected u \<longleftrightarrow> u = [True, False] \<or> u = [False]"

definition conn_inv :: "tcp_connection \<Rightarrow> bool" where
  "conn_inv tc \<longleftrightarrow> buf_inv (m_inputBuffer tc) \<and> buf_inv (m_outputBuffer tc) \<and>
     (m_state tc \<noteq> kDisconnected \<longrightarrow> (isWriting (m_channel tc) \<longleftrightarrow> content (m_outputBuffer tc) \<noteq> [])) \<and>
     (m_state tc = kDisconnected \<longrightarrow> isNoneEvent (m_channel tc)) \<and>
     ups_ok (m_state tc) (ups tc)"

lemma ups_call [simp]:
  "ups (call (UpDown b) tc) = ups tc @ [b]" "ups (call Message tc) = ups tc" "ups (call CloseCallback tc) = ups tc"
  by (simp_all add: ups_def call_def)

definition accepted :: "write_result \<Rightarrow> bytes \<Rightarrow> tcp_connection \<Rightarrow> bytes" where
  "accepted w data tc =
     (if m_state tc = kDisconnected then []
      else if \<not> isWriting (m_channel tc) \<and> readableBytes (m_outputBuffer tc) = 0 \<and>
        (w = Write_error EPIPE \<or> w = Write_error ECONNRESET) then [] else data)"

lemma readable_zero: "buf_inv b \<Longrightarrow> readableBytes b = 0 \<longleftrightarrow> content b = []"
  using length_content [of b] by auto

lemma not_writing_NoneEvent: "isNoneEvent ch \<Longrightarrow> \<not> isWriting ch"
  by (simp add: isNoneEvent_def isWriting_def xpoll_defs)

lemma sendInLoop_fields:
  "m_state (sendInLoop w data tc) = m_state tc" "ups (sendInLoop w data tc) = ups tc"
  "m_inputBuffer (sendInLoop w data tc) = m_inputBuffer tc" "write_shut (sendInLoop w data tc) = write_shut tc"
  by (auto simp: sendInLoop_def write_directly_def queueInLoop_def set_interest_def ups_def Let_def
      split: write_result.splits prod.splits if_splits)

lemma sendInLoop_stream:
  assumes "buf_inv (m_outputBuffer tc)"
  shows "outstream (sendInLoop w data tc) = outstream tc @ accepted w data tc"
    and "buf_inv (m_outputBuffer (sendInLoop w data tc))"
  using assms
  by (auto simp: sendInLoop_def write_directly_def queueInLoop_def set_interest_def outstream_def accepted_def append_post
      readable_zero Let_def split: write_result.splits if_splits)

lemma sendInLoop_writing:
  assumes "buf_inv (m_outputBuffer tc)" and "m_state tc \<noteq> kDisconnected"
    and "isWriting (m_channel tc) \<longleftrightarrow> content (m_outputBuffer tc) \<noteq> []"
  shows "isWriting (m_channel (sendInLoop w data tc)) \<longleftrightarrow> content (m_outputBuffer (sendInLoop w data tc)) \<noteq> []"
  using assms mask_bits(2)
  by (auto simp: sendInLoop_def write_directly_def queueInLoop_def set_interest_def append_post readable_zero Let_def isWriting_bit
      split: write_result.splits if_splits)

lemma sendInLoop_inv: "conn_inv tc \<Longrightarrow> conn_inv (sendInLoop w data tc)"
proof (cases "m_state tc = kDisconnected")
  case True
  then show "conn_inv tc \<Longrightarrow> ?thesis" by (simp add: sendInLoop_def)
next
  case False
  assume "conn_inv tc"
  then show ?thesis
    using False sendInLoop_stream(2) [of tc w data] sendInLoop_writing [of tc w data]
    by (simp add: conn_inv_def sendInLoop_fields)
qed

lemma queue_inv [simp]: "conn_inv (tc\<lparr>pending := ts\<rparr>) = conn_inv tc"
  by (simp add: conn_inv_def ups_def)

lemma channel_removed_inv [simp]: "conn_inv (tc\<lparr>channel_removed := x\<rparr>) = conn_inv tc"
  by (simp add: conn_inv_def ups_def)

lemma queueInLoop_inv [simp]: "conn_inv (queueInLoop t tc) = conn_inv tc"
  by (simp add: queueInLoop_def)

lemma shutdownInLoop_inv [simp]: "conn_inv (shutdownInLoop tc) = conn_inv tc"
  by (simp add: shutdownInLoop_def conn_inv_def ups_def)

lemma handleClose_inv: "conn_inv tc \<Longrightarrow> conn_inv (handleClose tc)"
  by (cases "m_state tc")
    (auto simp: conn_inv_def handleClose_def setState_def set_interest_def isNoneEvent_def, simp_all add: call_def ups_def)

lemma handleClose_stream [simp]: "outstream (handleClose tc) = outstream tc" "write_shut (handleClose tc) = write_shut tc"
  by (simp_all add: outstream_def conn_defs)

lemma handleRead_inv:
  assumes "conn_inv tc"
  shows "conn_inv (handleRead r err tc)" and "outstream (handleRead r err tc) = outstream tc"
    and "write_shut (handleRead r err tc) = write_shut tc"
proof -
  obtain n e b where r: "readFd r err (m_inputBuffer tc) = (n, e, b)" by (cases "readFd r err (m_inputBuffer tc)")
  have "buf_inv b" using readFd_post(1) [of "m_inputBuffer tc" r err] assms r by (simp add: conn_inv_def)
  then have inv: "conn_inv (tc\<lparr>m_inputBuffer := b\<rparr>)" using assms by (simp add: conn_inv_def ups_def)
  moreover have "conn_inv (call Message (tc\<lparr>m_inputBuffer := b\<rparr>))"
    using inv by (simp add: conn_inv_def call_def ups_def)
  ultimately show "conn_inv (handleRead r err tc)"
    using handleClose_inv by (simp add: handleRead_def r handleError_def Let_def)
  show "outstream (handleRead r err tc) = outstream tc" and "write_shut (handleRead r err tc) = write_shut tc"
    by (simp_all add: handleRead_def r handleError_def outstream_def call_def handleClose_def setState_def set_interest_def Let_def)
qed

text \<open>A successful write of the pending output.\<close>

lemma handleWrite_stream:
  assumes "buf_inv (m_outputBuffer tc)"
  shows "outstream (handleWrite w tc) = outstream tc"
  using assms length_content [OF assms]
  by (auto simp: handleWrite_def Let_def outstream_def set_interest_def queueInLoop_def shutdownInLoop_def handleClose_def
      setState_def call_def retrieve_content split: write_result.split)

lemma handleWrite_inv:
  assumes "conn_inv tc"
  shows "conn_inv (handleWrite w tc)"
proof (cases "isWriting (m_channel tc)")
  case True
  then have st: "m_state tc \<noteq> kDisconnected"
    using assms not_writing_NoneEvent by (auto simp: conn_inv_def)
  have b: "buf_inv (m_outputBuffer tc)" using assms by (simp add: conn_inv_def)
  show ?thesis
  proof (cases w)
    case (Wrote n)
    let ?k = "min n (readableBytes (m_outputBuffer tc))"
    let ?b = "snd (retrieve ?k (m_outputBuffer tc))"
    have bi: "buf_inv ?b" by (rule buf_inv_retrieve [OF b])
    let ?tc1 = "tc\<lparr>wire := wire tc @ take ?k (content (m_outputBuffer tc)), m_outputBuffer := ?b\<rparr>"
    show ?thesis
    proof (cases "content ?b = []")
      case empty: True
      then have "conn_inv (set_interest DisableWriting ?tc1)"
        using assms st bi mask_bits(3) by (simp add: conn_inv_def set_interest_def isWriting_bit ups_def)
      then show ?thesis
        using True Wrote empty handleClose_inv [OF assms] readable_zero [OF bi]
        by (simp add: handleWrite_def Let_def)
    next
      case False
      then have "conn_inv ?tc1"
        using assms st bi True by (simp add: conn_inv_def ups_def)
      then show ?thesis
        using True Wrote False handleClose_inv [OF assms] readable_zero [OF bi]
        by (simp add: handleWrite_def Let_def)
    qed
  next
    case (Write_error e)
    then show ?thesis using True handleClose_inv [OF assms] by (simp add: handleWrite_def)
  qed
qed (use assms in \<open>simp add: handleWrite_def\<close>)

lemma run_upcall_inv: "conn_inv tc \<Longrightarrow> conn_inv (run_upcall r err w u tc) \<and> outstream (run_upcall r err w u tc) = outstream tc"
  using handleRead_inv handleWrite_inv handleWrite_stream handleClose_inv
  by (cases u) (auto simp: handleError_def conn_inv_def)

lemma channel_event_inv:
  assumes "conn_inv tc"
  shows "conn_inv (channel_event ev r err w tc) \<and> outstream (channel_event ev r err w tc) = outstream tc"
proof -
  have "conn_inv (fold (run_upcall r err w) us tc) \<and> outstream (fold (run_upcall r err w) us tc) = outstream tc" for us
    using assms by (induction us arbitrary: tc) (simp_all add: run_upcall_inv)
  then show ?thesis by (simp add: channel_event_def)
qed

text \<open>What an event adds to the outgoing stream.\<close>

fun added :: "conn_event \<Rightarrow> tcp_connection \<Rightarrow> bytes" where
  "added (Send inLoop data w) tc = (if m_state tc = kConnected \<and> inLoop then accepted w data tc else [])"
| "added (RunTask w) tc = (case pending tc of SendTask data # ts \<Rightarrow> accepted w data (tc\<lparr>pending := ts\<rparr>) | _ \<Rightarrow> [])"
| "added _ tc = []"

lemma established_inv: "conn_inv tc \<Longrightarrow> conn_inv (connectEstablished ok tc)"
proof (cases "m_state tc = kConnecting")
  case True
  assume inv: "conn_inv tc"
  let ?tc = "set_interest EnableReading (setState kConnected tc)"
  have f: "m_state ?tc = kConnected" "ups ?tc = []" "m_outputBuffer ?tc = m_outputBuffer tc"
    "m_inputBuffer ?tc = m_inputBuffer tc" "isWriting (m_channel ?tc) = isWriting (m_channel tc)"
    using inv True mask_bits(1) by (simp_all add: conn_inv_def set_interest_def setState_def ups_def isWriting_bit)
  have "conn_inv (call (UpDown True) ?tc)"
    using inv True f by (simp add: conn_inv_def) (simp add: call_def)
  moreover have "conn_inv (handleClose ?tc)"
    using inv f by (simp add: handleClose_def conn_inv_def) (simp add: call_def set_interest_def setState_def isNoneEvent_def ups_def)
  ultimately show ?thesis using True by (cases ok) (simp_all add: connectEstablished_def Let_def)
qed (simp add: connectEstablished_def)

lemma destroyed_inv: "conn_inv tc \<Longrightarrow> conn_inv (connectDestroyed tc)"
proof (cases "m_state tc = kConnected")
  case True
  assume inv: "conn_inv tc"
  then have "conn_inv (call (UpDown False) (set_interest DisableAll (setState kDisconnected tc)))"
    using True by (simp add: conn_inv_def) (simp add: call_def set_interest_def setState_def isNoneEvent_def ups_def)
  then show ?thesis using True by (simp add: connectDestroyed_def Let_def)
next
  case False
  then show "conn_inv tc \<Longrightarrow> ?thesis" by (simp add: connectDestroyed_def Let_def)
qed

lemma setState_disconnecting_inv:
  "conn_inv tc \<Longrightarrow> m_state tc = kConnected \<or> m_state tc = kDisconnecting \<Longrightarrow> conn_inv (setState kDisconnecting tc)"
  by (auto simp: conn_inv_def setState_def ups_def)

lemma conn_step_inv: "conn_inv tc \<Longrightarrow> conn_inv (conn_step e tc)"
proof (cases e)
  case (Shutdown b)
  then show "conn_inv tc \<Longrightarrow> ?thesis" by (simp add: shutdown_def Let_def setState_disconnecting_inv)
next
  case (RunTask w)
  then show "conn_inv tc \<Longrightarrow> ?thesis"
    by (auto simp: runTask_def Let_def sendInLoop_inv forceCloseInLoop_def handleClose_inv
        split: list.splits conn_task.splits)
qed (simp_all add: established_inv destroyed_inv send_def sendInLoop_inv channel_event_inv forceClose_def
    setState_disconnecting_inv setWriteCompleteCallback_def setHighWaterMarkCallback_def,
    simp_all add: conn_inv_def ups_def)

lemma conn_step_stream:
  assumes "conn_inv tc"
  shows "outstream (conn_step e tc) = outstream tc @ added e tc"
proof -
  have b: "buf_inv (m_outputBuffer tc)" using assms by (simp add: conn_inv_def)
  have q: "outstream (tc\<lparr>pending := ts\<rparr>) = outstream tc" for ts by (simp add: outstream_def)
  show ?thesis
  proof (cases e)
    case (RunTask w)
    then show ?thesis
      using b sendInLoop_stream(1) [of "tc\<lparr>pending := ts\<rparr>" w for ts]
      by (auto simp: runTask_def Let_def q forceCloseInLoop_def split: list.splits conn_task.splits)
        (simp_all add: outstream_def shutdownInLoop_def)
  next
    case (Send inl data w)
    then show ?thesis using sendInLoop_stream(1) [OF b, of w data] by (simp add: send_def queueInLoop_def q)
  next
    case (Channel_event ev r err w)
    then show ?thesis using channel_event_inv [OF assms] by simp
  qed (simp_all add: outstream_def connectEstablished_def connectDestroyed_def shutdown_def forceClose_def
      setWriteCompleteCallback_def setHighWaterMarkCallback_def Let_def conn_defs)
qed

fun conn_run :: "conn_event list \<Rightarrow> tcp_connection \<Rightarrow> bytes \<times> tcp_connection" where
  "conn_run [] tc = ([], tc)"
| "conn_run (e # es) tc = (let (d, tc') = conn_run es (conn_step e tc) in (added e tc @ d, tc'))"

lemma conn_run_post:
  "conn_inv tc \<Longrightarrow> conn_inv (snd (conn_run es tc)) \<and> outstream (snd (conn_run es tc)) = outstream tc @ fst (conn_run es tc)"
proof (induction es tc rule: conn_run.induct)
  case (2 e es tc)
  then show ?case
    using conn_step_inv [of tc e] conn_step_stream [of tc e] by (auto simp: Let_def split: prod.splits)
qed simp

lemma TcpConnection_inv [simp]: "conn_inv (TcpConnection fd)"
  by (simp add: conn_inv_def TcpConnection_def ups_def Channel_def isWriting_def)

interpretation conn_steps: stepping conn_step conn_inv "\<lambda>_. True"
  by unfold_locales (simp add: conn_step_inv)

lemma TcpConnection_fresh:
  "m_state (TcpConnection fd) = kConnecting" "buf_inv (m_outputBuffer (TcpConnection fd))"
  "buf_inv (m_inputBuffer (TcpConnection fd))" "content (m_outputBuffer (TcpConnection fd)) = []"
  "readableBytes (m_outputBuffer (TcpConnection fd)) = 0" "m_events (m_channel (TcpConnection fd)) = 0"
  "pending (TcpConnection fd) = []" "calls (TcpConnection fd) = []" "wire (TcpConnection fd) = []"
  "\<not> write_shut (TcpConnection fd)" "\<not> m_writeCompleteCallback (TcpConnection fd)"
  "\<not> m_highWaterMarkCallback (TcpConnection fd)" "m_highWaterMark (TcpConnection fd) = 67108864"
  by (simp_all add: TcpConnection_def Channel_def, simp add: ByteBuffer_def readableBytes_def)

lemma reachable_inv: "conn_inv (fold conn_step es (TcpConnection fd))"
  by (rule conn_steps.run_inv) simp_all

text \<open>One writable event: the kernel takes some bytes, and the write half is closed after the last one.\<close>

lemma handleWrite_progress:
  assumes "conn_inv tc" and "m_state tc \<noteq> kDisconnected" and "0 < n"
  defines "tc' \<equiv> handleWrite (Wrote n) tc"
  shows "conn_inv tc'" and "m_state tc' = m_state tc"
    and "content (m_outputBuffer tc') = drop n (content (m_outputBuffer tc))"
    and "wire tc' = wire tc @ take n (content (m_outputBuffer tc))"
    and "write_shut tc' \<longleftrightarrow> write_shut tc \<or>
      (m_state tc = kDisconnecting \<and> content (m_outputBuffer tc) \<noteq> [] \<and> drop n (content (m_outputBuffer tc)) = [])"
proof -
  let ?b = "m_outputBuffer tc"
  have b: "buf_inv ?b" using assms(1) by (simp add: conn_inv_def)
  have w: "isWriting (m_channel tc) \<longleftrightarrow> content ?b \<noteq> []" using assms(1,2) by (simp add: conn_inv_def)
  have len: "readableBytes ?b = length (content ?b)" using length_content [OF b] by simp
  let ?k = "min n (length (content ?b))"
  have k: "content (snd (retrieve ?k ?b)) = drop n (content ?b)" "take ?k (content ?b) = take n (content ?b)"
    using retrieve_content(2) [OF b, of ?k] by (auto simp: min_def)
  have z: "readableBytes (snd (retrieve ?k ?b)) = 0 \<longleftrightarrow> drop n (content ?b) = []"
    using readable_zero [OF buf_inv_retrieve [OF b]] k(1) by simp
  show "conn_inv tc'" unfolding tc'_def by (rule handleWrite_inv [OF assms(1)])
  have "tc' = tc" if "content ?b = []" using that w by (simp add: tc'_def handleWrite_def)
  moreover have "m_state tc' = m_state tc \<and> content (m_outputBuffer tc') = drop n (content ?b) \<and>
    wire tc' = wire tc @ take n (content ?b) \<and>
    (write_shut tc' \<longleftrightarrow> write_shut tc \<or> (m_state tc = kDisconnecting \<and> drop n (content ?b) = []))" if "content ?b \<noteq> []"
    using that assms(3) w z k mask_bits(3)
    by (simp add: tc'_def handleWrite_def Let_def len set_interest_def queueInLoop_def shutdownInLoop_def isWriting_bit del: drop_eq_Nil)
  ultimately show "m_state tc' = m_state tc" and "content (m_outputBuffer tc') = drop n (content ?b)"
    and "wire tc' = wire tc @ take n (content ?b)"
    and "write_shut tc' \<longleftrightarrow> write_shut tc \<or>
      (m_state tc = kDisconnecting \<and> content ?b \<noteq> [] \<and> drop n (content ?b) = [])"
    by (cases "content ?b = []"; simp)+
qed

lemma writes_progress:
  assumes "conn_inv tc" and "m_state tc \<noteq> kDisconnected" and "\<forall>n\<in>set ns. 0 < n"
  defines "tc' \<equiv> fold (\<lambda>n. handleWrite (Wrote n)) ns tc"
  shows "content (m_outputBuffer tc') = drop (sum_list ns) (content (m_outputBuffer tc)) \<and>
    wire tc' = wire tc @ take (sum_list ns) (content (m_outputBuffer tc)) \<and>
    (write_shut tc' \<longleftrightarrow> write_shut tc \<or> (m_state tc = kDisconnecting \<and> content (m_outputBuffer tc) \<noteq> [] \<and>
      drop (sum_list ns) (content (m_outputBuffer tc)) = []))"
  unfolding tc'_def using assms(1-3)
proof (induction ns arbitrary: tc)
  case (Cons n ns)
  note p = handleWrite_progress [OF Cons.prems(1,2), of n]
  then show ?case
    using Cons.prems Cons.IH [of "handleWrite (Wrote n) tc"]
    by (auto simp: p take_add add.commute)
qed auto

section \<open>Properties\<close>

text \<open>
  C15: The output stream is never lost, duplicated or reordered.  Whatever sends, reads, writable events,
  shutdowns, closes and queued functors happen in whatever order, and however many bytes the kernel takes
  from each write, the bytes on the wire followed by the bytes still buffered are exactly the data of the
  sends that were executed, one after the other (a send counts as executed unless the connection is down
  or its direct write breaks with \<^verbatim>\<open>EPIPE\<close> or \<^verbatim>\<open>ECONNRESET\<close>).
\<close>

theorem output_stream:
  "(case conn_run es (TcpConnection fd) of (sent, tc) \<Rightarrow> wire tc @ content (m_outputBuffer tc) = sent)"
proof -
  have "outstream (TcpConnection fd) = []"
    by (simp add: outstream_def TcpConnection_def content_def ByteBuffer_def)
  then show ?thesis using conn_run_post [OF TcpConnection_inv, of es fd] by (simp add: outstream_def case_prod_beta)
qed

text \<open>
  In every reachable state of a live connection the channel waits for writability exactly while there
  is buffered output (so no busy loop and no forgotten output), and a disconnected one waits for nothing.
\<close>

theorem write_interest_exact:
  fixes es fd
  defines "tc \<equiv> fold conn_step es (TcpConnection fd)"
  shows "if m_state tc = kDisconnected then isNoneEvent (m_channel tc)
         else isWriting (m_channel tc) = (content (m_outputBuffer tc) \<noteq> [])"
  using reachable_inv [of es fd] by (simp add: tc_def conn_inv_def)

text \<open>
  The connection callback reports each change once: in every reachable state its calls so far are none
  while connecting, one with \<^verbatim>\<open>connected()\<close> true while the connection is up or going down, and exactly one
  more with \<^verbatim>\<open>connected()\<close> false once it is down (only the latter if registering with the poller failed).
\<close>

theorem connection_callback_calls:
  fixes es fd
  defines "tc \<equiv> fold conn_step es (TcpConnection fd)"
  shows "ups tc \<in> (case m_state tc of kConnecting \<Rightarrow> {[]} | kConnected \<Rightarrow> {[True]} | kDisconnecting \<Rightarrow> {[True]}
                    | kDisconnected \<Rightarrow> {[True, False], [False]})"
  using reachable_inv [of es fd] by (cases "m_state tc") (simp_all add: tc_def conn_inv_def)

text \<open>
  C18: Buffered output is flushed and the write half is closed after it.  Once a shutdown has been asked
  for while output is pending, any sequence of writable events in which the kernel takes at least one byte
  each, and at least the pending bytes in all, puts all pending bytes on the wire in order and then closes
  the write half; it is still open after any sequence that takes less.
\<close>

theorem shutdown_after_flush:
  fixes es fd ns
  defines "tc \<equiv> fold conn_step es (TcpConnection fd)"
  defines "tc' \<equiv> fold (\<lambda>n. handleWrite (Wrote n)) ns tc"
  assumes "m_state tc = kDisconnecting" and "\<not> write_shut tc" and "content (m_outputBuffer tc) \<noteq> []"
    and "\<forall>n\<in>set ns. 0 < n"
  shows "(write_shut tc' \<longleftrightarrow> length (content (m_outputBuffer tc)) \<le> sum_list ns) \<and>
    wire tc' = wire tc @ take (sum_list ns) (content (m_outputBuffer tc)) \<and>
    content (m_outputBuffer tc') = drop (sum_list ns) (content (m_outputBuffer tc))"
  using writes_progress [of tc ns] reachable_inv [of es fd] assms by (simp add: tc_def tc'_def)

theorem shutdown_after_flush_witness:
  "let tc = fold conn_step [Established True, Send True [1, 2, 3] (Wrote 1), Shutdown True] (TcpConnection 5) in
   write_shut (fold (\<lambda>n. handleWrite (Wrote n)) [1, 1] tc) \<and> \<not> write_shut (fold (\<lambda>n. handleWrite (Wrote n)) [1] tc)"
proof -
  let ?es = "[Established True, Send True [1, 2, 3] (Wrote 1), Shutdown True]"
  have h: "m_state (fold conn_step ?es (TcpConnection 5)) = kDisconnecting"
    "\<not> write_shut (fold conn_step ?es (TcpConnection 5))"
    "content (m_outputBuffer (fold conn_step ?es (TcpConnection 5))) = [2, 3]"
    using TcpConnection_fresh [of 5]
    by (simp_all add: connectEstablished_def send_def sendInLoop_def write_directly_def shutdown_def conn_defs append_post
        isWriting_bit mask_bits Let_def, simp_all add: xpoll_defs)
  show ?thesis
    using shutdown_after_flush [of ?es 5 "[1, 1]"] shutdown_after_flush [of ?es 5 "[1]"] h
    by (simp add: Let_def del: fold_simps)
qed

text \<open>
  A connection that errs while data is readable is used after it was closed: with both \<^verbatim>\<open>XPOLLERR\<close>
  and \<^verbatim>\<open>XPOLLIN\<close> in the reported events, \<^verbatim>\<open>handleEvent\<close> first closes the connection (the callbacks
  report it down and the server drops it) and then still reads and calls the message callback.
\<close>

theorem message_after_close:
  assumes "m_state tc \<noteq> kDisconnected" and "0 < fst (readFd r err (m_inputBuffer tc))"
    and "revents AND XPOLLERR \<noteq> 0" and "revents AND XPOLLIN \<noteq> 0" and "revents AND XPOLLOUT = 0"
  shows "calls (channel_event revents r err w tc) = calls tc @ [UpDown False, CloseCallback, Message]"
proof -
  have "handleEvent revents = [ErrorCb, ReadCb]"
    using assms(3-5) by (simp add: handleEvent_def bit.conj_disj_distrib or_eq_0_iff)
  moreover have "m_inputBuffer (handleClose tc) = m_inputBuffer tc"
    "calls (handleClose tc) = calls tc @ [UpDown False, CloseCallback]"
    using assms(1) by (simp_all add: conn_defs)
  ultimately show ?thesis
    using assms(2) by (auto simp: channel_event_def handleError_def handleRead_def Let_def call_def split: prod.split)
qed

theorem message_after_close_witness:
  "calls (channel_event (XPOLLERR OR XPOLLIN) (IO_data [7]) 0 (Wrote 0) (connectEstablished True (TcpConnection 5)))
     = [UpDown True, UpDown False, CloseCallback, Message]"
proof -
  let ?tc = "connectEstablished True (TcpConnection 5)"
  have h: "m_state ?tc \<noteq> kDisconnected" "0 < fst (readFd (IO_data [7]) 0 (m_inputBuffer ?tc))" "calls ?tc = [UpDown True]"
    "(XPOLLERR OR XPOLLIN) AND XPOLLERR \<noteq> 0" "(XPOLLERR OR XPOLLIN) AND XPOLLIN \<noteq> 0" "(XPOLLERR OR XPOLLIN) AND XPOLLOUT = 0"
    using TcpConnection_fresh [of 5]
    by (simp_all add: connectEstablished_def conn_defs readFd_post xpoll_defs Let_def)
  show ?thesis using message_after_close [of ?tc "IO_data [7]" 0 "XPOLLERR OR XPOLLIN" "Wrote 0"] h by simp
qed

end
