(* ===== verification/Timers.thy ===== *)
theory Timers
  imports Prelude "HOL-Library.Product_Lexorder"
begin

text \<open>
  \<^verbatim>\<open>base/Timestamp\<close>, \<^verbatim>\<open>net/Timer\<close> and \<^verbatim>\<open>net/TimerQueue\<close>.  A \<^verbatim>\<open>Timer*\<close> is a natural number, the timers
  themselves live in a heap.  \<^verbatim>\<open>std::set<std::pair<Timestamp, Timer*>>\<close> is the list of its entries in
  increasing order.  Time stamps are microseconds since 1970; 64 bits last for 292000 years, so they are
  integers here.  Callbacks are not followed: the queue records which timers' callbacks were called.
\<close>

section \<open>Timestamp\<close>

type_synonym timestamp = int

definition kMicroSecondsPerSecond :: int where "kMicroSecondsPerSecond = 1000 * 1000"

definition ts_valid :: "timestamp \<Rightarrow> bool" where
  "ts_valid t \<longleftrightarrow> t > 0"

definition addTime :: "timestamp \<Rightarrow> int \<Rightarrow> timestamp" where
  "addTime t microseconds = t + microseconds"

section \<open>Timer\<close>

record timer =
  m_expiration :: timestamp
  m_interval :: int
  m_repeatCount :: int
  m_sequence :: nat
  m_canceled :: bool

text \<open>\<^verbatim>\<open>Timer::Timer\<close>; \<open>created\<close> is the counter \<^verbatim>\<open>s_numCreated\<close>.\<close>

definition Timer :: "timestamp \<Rightarrow> int \<Rightarrow> int \<Rightarrow> nat \<Rightarrow> timer \<times> nat" where
  "Timer when interval repeatCount created =
     (\<lparr>m_expiration = when, m_interval = interval, m_repeatCount = repeatCount, m_sequence = Suc created,
       m_canceled = False\<rparr>, Suc created)"

definition Timer_cancel :: "bool \<Rightarrow> timer \<Rightarrow> timer" where
  "Timer_cancel off t = t\<lparr>m_canceled := off\<rparr>"

text \<open>\<^verbatim>\<open>Timer::run\<close>: whether the callback is called, and the timer afterwards.\<close>

definition Timer_run :: "timer \<Rightarrow> bool \<times> timer" where
  "Timer_run t =
     (if m_canceled t then (False, t)
      else (let t1 = (if m_repeatCount t \<noteq> - 1 then t\<lparr>m_repeatCount := m_repeatCount t - 1\<rparr> else t)
            in if m_repeatCount t \<noteq> - 1 \<and> m_repeatCount t1 = 0 then (True, t1)
               else (True, t1\<lparr>m_expiration := m_expiration t1 + m_interval t1\<rparr>)))"

section \<open>TimerQueue\<close>

type_synonym entry = "timestamp \<times> nat"

record timer_queue =
  tm_heap :: "nat \<Rightarrow> timer"
  s_numCreated :: nat
  m_timers :: "entry list"
  called :: "nat list"

fun entry_less :: "entry \<Rightarrow> entry \<Rightarrow> bool" where
  "entry_less (s, p) (t, q) \<longleftrightarrow> s < t \<or> (\<not> t < s \<and> p < q)"

fun set_insert :: "entry \<Rightarrow> entry list \<Rightarrow> entry list" where
  "set_insert e [] = [e]"
| "set_insert e (f # es) =
     (if entry_less e f then e # f # es else if entry_less f e then f # set_insert e es else f # es)"

definition tq_insert :: "nat \<Rightarrow> timer_queue \<Rightarrow> timer_queue" where
  "tq_insert p tq = tq\<lparr>m_timers := set_insert (m_expiration (tm_heap tq p), p) (m_timers tq)\<rparr>"

text \<open>
  The two overloads of \<^verbatim>\<open>addTimer\<close> called in the loop thread; \<open>p\<close> is the address \<^verbatim>\<open>new\<close> returns.  The one
  for \<^verbatim>\<open>const TimerCallback&\<close> does not pass \<^verbatim>\<open>repeatCount\<close> on, so the default \<^verbatim>\<open>-1\<close> holds.
\<close>

definition addTimer_lvalue :: "nat \<Rightarrow> timestamp \<Rightarrow> int \<Rightarrow> int \<Rightarrow> timer_queue \<Rightarrow> timer_queue" where
  "addTimer_lvalue p when interval repeatCount tq =
     (let (t, n) = Timer when interval (- 1) (s_numCreated tq)
      in tq_insert p (tq\<lparr>tm_heap := (tm_heap tq)(p := t), s_numCreated := n\<rparr>))"

definition addTimer_rvalue :: "nat \<Rightarrow> timestamp \<Rightarrow> int \<Rightarrow> int \<Rightarrow> timer_queue \<Rightarrow> timer_queue" where
  "addTimer_rvalue p when interval repeatCount tq =
     (let (t, n) = Timer when interval repeatCount (s_numCreated tq)
      in tq_insert p (tq\<lparr>tm_heap := (tm_heap tq)(p := t), s_numCreated := n\<rparr>))"

fun erase_timer :: "nat \<Rightarrow> entry list \<Rightarrow> entry list" where
  "erase_timer p [] = []"
| "erase_timer p ((t, q) # es) = (if q = p then es else (t, q) # erase_timer p es)"

definition removeTimerInLoop :: "nat \<Rightarrow> timer_queue \<Rightarrow> timer_queue" where
  "removeTimerInLoop p tq = tq\<lparr>m_timers := erase_timer p (m_timers tq)\<rparr>"

definition cancelTimerInLoop :: "nat \<Rightarrow> bool \<Rightarrow> timer_queue \<Rightarrow> timer_queue" where
  "cancelTimerInLoop p off tq =
     (if p \<in> snd ` set (m_timers tq) then tq\<lparr>tm_heap := (tm_heap tq)(p := Timer_cancel off (tm_heap tq p))\<rparr> else tq)"

text \<open>
  The loop of \<^verbatim>\<open>doTimer\<close>: the entries that stay, the heap, and the callbacks called.  It stops at the first
  entry whose timer has not expired.
\<close>

fun do_timers :: "timestamp \<Rightarrow> entry list \<Rightarrow> (nat \<Rightarrow> timer) \<Rightarrow> entry list \<times> (nat \<Rightarrow> timer) \<times> nat list" where
  "do_timers now [] h = ([], h, [])"
| "do_timers now ((key, p) # es) h =
     (if m_expiration (h p) \<le> now
      then (let (ran, t) = Timer_run (h p);
                (es', h', cs) = do_timers now es (h(p := t))
            in (if m_repeatCount t = 0 then es' else (key, p) # es', h', (if ran then [p] else []) @ cs))
      else ((key, p) # es, h, []))"

definition doTimer :: "timestamp \<Rightarrow> timer_queue \<Rightarrow> timer_queue" where
  "doTimer now tq =
     (let (es, h, cs) = do_timers now (m_timers tq) (tm_heap tq)
      in tq\<lparr>m_timers := es, tm_heap := h, called := called tq @ cs\<rparr>)"

definition TimerQueue :: "(nat \<Rightarrow> timer) \<Rightarrow> timer_queue" where
  "TimerQueue h = \<lparr>tm_heap = h, s_numCreated = 0, m_timers = [], called = []\<rparr>"

text \<open>\<^verbatim>\<open>EventLoop::runAt\<close>, \<^verbatim>\<open>runAfter\<close> and \<^verbatim>\<open>runEvery\<close> for a callback that is a temporary, and for one that is not.\<close>

definition runAt :: "nat \<Rightarrow> timestamp \<Rightarrow> timer_queue \<Rightarrow> timer_queue" where
  "runAt p time tq = addTimer_rvalue p time 0 1 tq"

definition runAfter :: "timestamp \<Rightarrow> nat \<Rightarrow> int \<Rightarrow> timer_queue \<Rightarrow> timer_queue" where
  "runAfter now p delay tq = runAt p (addTime now delay) tq"

definition runEvery :: "timestamp \<Rightarrow> nat \<Rightarrow> int \<Rightarrow> timer_queue \<Rightarrow> timer_queue" where
  "runEvery now p interval tq = addTimer_rvalue p (addTime now interval) interval (- 1) tq"

definition runAt_lvalue :: "nat \<Rightarrow> timestamp \<Rightarrow> timer_queue \<Rightarrow> timer_queue" where
  "runAt_lvalue p time tq = addTimer_lvalue p time 0 1 tq"

definition runAfter_lvalue :: "timestamp \<Rightarrow> nat \<Rightarrow> int \<Rightarrow> timer_queue \<Rightarrow> timer_queue" where
  "runAfter_lvalue now p delay tq = runAt_lvalue p (addTime now delay) tq"

definition runEvery_lvalue :: "timestamp \<Rightarrow> nat \<Rightarrow> int \<Rightarrow> timer_queue \<Rightarrow> timer_queue" where
  "runEvery_lvalue now p interval tq = addTimer_lvalue p (addTime now interval) interval (- 1) tq"

section \<open>One-shot timers\<close>

lemma entry_less_iff: "entry_less e f \<longleftrightarrow> e < f"
  by (cases e; cases f) auto

lemma set_insert_sorted:
  "sorted_wrt (<) es \<Longrightarrow> set (set_insert e es) = insert e (set es) \<and> sorted_wrt (<) (set_insert e es)"
  by (induction es) (auto simp: entry_less_iff intro: less_trans)

lemma entry_strict_sorted: "sorted_wrt (<) es \<Longrightarrow> sorted_list_of_set (set es) = (es :: entry list)"
  by (simp add: sorted_list_of_set.idem_if_sorted_distinct strict_sorted_iff)

text \<open>A queue of one-shot timers: the entries are in order, each timer is to run once, at the time of its key.\<close>

definition one_shot :: "entry \<Rightarrow> timer \<Rightarrow> bool" where
  "one_shot e t \<longleftrightarrow> m_expiration t = fst e \<and> m_repeatCount t = 1 \<and> \<not> m_canceled t"

definition one_shots :: "entry list \<Rightarrow> (nat \<Rightarrow> timer) \<Rightarrow> bool" where
  "one_shots es h \<longleftrightarrow> sorted_wrt (<) es \<and> distinct (map snd es) \<and> (\<forall>e\<in>set es. one_shot e (h (snd e)))"

lemma one_shots_Cons:
  "one_shots ((k, p) # es) h \<longleftrightarrow>
     one_shot (k, p) (h p) \<and> (\<forall>e\<in>set es. (k, p) < e) \<and> p \<notin> snd ` set es \<and> one_shots es h"
  by (auto simp: one_shots_def)

lemma one_shots_upd: "p \<notin> snd ` set es \<Longrightarrow> one_shots es (h(p := t)) = one_shots es h"
  by (auto simp: one_shots_def)

lemma do_timers_one_shots:
  assumes "one_shots es h"
  shows "\<exists>h'. do_timers now es h = (filter (\<lambda>e. now < fst e) es, h', map snd (filter (\<lambda>e. fst e \<le> now) es))
    \<and> (\<forall>q. (\<exists>k. (k, q) \<in> set es \<and> k \<le> now) \<or> h' q = h q)"
  using assms
proof (induction es arbitrary: h)
  case (Cons e es)
  obtain k p where e: "e = (k, p)" by (cases e)
  have h: "m_expiration (h p) = k" "m_repeatCount (h p) = 1" "\<not> m_canceled (h p)"
    and rest: "one_shots es h" "p \<notin> snd ` set es" and less: "\<forall>e\<in>set es. (k, p) < e"
    using Cons.prems by (simp_all add: e one_shots_Cons one_shot_def)
  show ?case
  proof (cases "k \<le> now")
    case True
    have "Timer_run (h p) = (True, (h p)\<lparr>m_repeatCount := 0\<rparr>)" using h by (simp add: Timer_run_def)
    moreover from Cons.IH [of "h(p := (h p)\<lparr>m_repeatCount := 0\<rparr>)"] rest
    obtain h' where "do_timers now es (h(p := (h p)\<lparr>m_repeatCount := 0\<rparr>))
        = (filter (\<lambda>e. now < fst e) es, h', map snd (filter (\<lambda>e. fst e \<le> now) es))"
      "\<forall>q. (\<exists>k. (k, q) \<in> set es \<and> k \<le> now) \<or> h' q = (h(p := (h p)\<lparr>m_repeatCount := 0\<rparr>)) q"
      using one_shots_upd [OF rest(2)] by blast
    ultimately show ?thesis using True h by (auto simp: e) (metis)
  next
    case False
    then have later: "now < fst f" if "f \<in> set es" for f
      using less that by (cases f) (fastforce simp: less_prod_def)
    then have "filter (\<lambda>e. now < fst e) es = es" and "filter (\<lambda>e. fst e \<le> now) es = []"
      by (simp_all add: filter_id_conv filter_empty_conv not_le)
    then show ?thesis using False h by (auto simp: e)
  qed
qed simp

section \<open>Specification\<close>

datatype timer_event = RunAt nat timestamp | RemoveTimer nat | Poll timestamp

fun timer_step :: "timer_event \<Rightarrow> timer_queue \<Rightarrow> timer_queue" where
  "timer_step (RunAt p t) tq = runAt p t tq"
| "timer_step (RemoveTimer p) tq = removeTimerInLoop p tq"
| "timer_step (Poll now) tq = doTimer now tq"

text \<open>The specification: a set of pending (time, timer) pairs and the callbacks called so far.\<close>

fun spec_step :: "timer_event \<Rightarrow> entry set \<times> nat list \<Rightarrow> entry set \<times> nat list" where
  "spec_step (RunAt p t) (S, cs) = (insert (t, p) S, cs)"
| "spec_step (RemoveTimer p) (S, cs) = ({e \<in> S. snd e \<noteq> p}, cs)"
| "spec_step (Poll now) (S, cs) =
     ({e \<in> S. now < fst e}, cs @ map snd (sorted_list_of_set {e \<in> S. fst e \<le> now}))"

definition abs_queue :: "timer_queue \<Rightarrow> entry set \<times> nat list" where
  "abs_queue tq = (set (m_timers tq), called tq)"

definition queue_ok :: "timer_queue \<Rightarrow> bool" where
  "queue_ok tq \<longleftrightarrow> one_shots (m_timers tq) (tm_heap tq)"

fun allocates :: "timer_event \<Rightarrow> nat list" where
  "allocates (RunAt p t) = [p]"
| "allocates _ = []"

lemma runAt_sim:
  assumes "queue_ok tq" and "p \<notin> snd ` set (m_timers tq)"
  shows "queue_ok (runAt p t tq) \<and> abs_queue (runAt p t tq) = spec_step (RunAt p t) (abs_queue tq)"
proof -
  let ?es = "set_insert (t, p) (m_timers tq)"
  have s: "sorted_wrt (<) (m_timers tq)" using assms(1) by (simp add: queue_ok_def one_shots_def)
  have "set ?es = insert (t, p) (set (m_timers tq))" "sorted_wrt (<) ?es" using set_insert_sorted [OF s] by simp_all
  moreover have "inj_on snd (set ?es)"
    using assms calculation(1) by (auto simp: queue_ok_def one_shots_def distinct_map)
  ultimately show ?thesis
    using assms
    by (auto simp: queue_ok_def one_shots_def runAt_def addTimer_rvalue_def Timer_def tq_insert_def abs_queue_def
        distinct_map strict_sorted_iff one_shot_def)
qed

lemma erase_timer_filter: "distinct (map snd es) \<Longrightarrow> erase_timer p es = filter (\<lambda>e. snd e \<noteq> p) es"
proof (induction es rule: erase_timer.induct)
  case (2 p t q es)
  then show ?case by (auto intro!: filter_True [symmetric])
qed simp

lemma one_shots_filter: "one_shots es h \<Longrightarrow> one_shots (filter P es) h"
  by (auto simp: one_shots_def sorted_wrt_filter distinct_map_filter)

lemma remove_sim:
  assumes "queue_ok tq"
  shows "queue_ok (removeTimerInLoop p tq) \<and> abs_queue (removeTimerInLoop p tq) = spec_step (RemoveTimer p) (abs_queue tq)"
proof -
  have "erase_timer p (m_timers tq) = filter (\<lambda>e. snd e \<noteq> p) (m_timers tq)"
    using assms by (simp add: queue_ok_def one_shots_def erase_timer_filter)
  then show ?thesis using assms by (auto simp: removeTimerInLoop_def abs_queue_def queue_ok_def one_shots_filter)
qed

lemma doTimer_sim:
  assumes "queue_ok tq"
  shows "queue_ok (doTimer now tq) \<and> abs_queue (doTimer now tq) = spec_step (Poll now) (abs_queue tq)"
proof -
  let ?es = "m_timers tq"
  have os: "one_shots ?es (tm_heap tq)" using assms by (simp add: queue_ok_def)
  obtain h' where d: "do_timers now ?es (tm_heap tq)
      = (filter (\<lambda>e. now < fst e) ?es, h', map snd (filter (\<lambda>e. fst e \<le> now) ?es))"
    and h': "\<forall>q. (\<exists>k. (k, q) \<in> set ?es \<and> k \<le> now) \<or> h' q = tm_heap tq q"
    using do_timers_one_shots [OF os] by blast
  have "h' (snd e) = tm_heap tq (snd e)" if "e \<in> set ?es" "now < fst e" for e
  proof -
    have "e = f" if "f \<in> set ?es" "snd f = snd e" for f
      using that \<open>e \<in> set ?es\<close> os by (auto simp: one_shots_def distinct_map inj_on_def)
    then show ?thesis using h' that(2) by (metis fst_conv not_le snd_conv)
  qed
  then have "one_shots (filter (\<lambda>e. now < fst e) ?es) h'"
    using one_shots_filter [OF os, of "\<lambda>e. now < fst e"] by (auto simp: one_shots_def)
  moreover have "sorted_list_of_set {e \<in> set ?es. fst e \<le> now} = filter (\<lambda>e. fst e \<le> now) ?es"
    using entry_strict_sorted [of "filter (\<lambda>e. fst e \<le> now) ?es"] os by (simp add: one_shots_def sorted_wrt_filter)
  ultimately show ?thesis by (simp add: doTimer_def d abs_queue_def queue_ok_def)
qed

lemma timers_from_allocs:
  assumes "queue_ok tq" and "distinct (concat (map allocates es))"
    and "\<forall>p\<in>set (concat (map allocates es)). p \<notin> snd ` set (m_timers tq)"
  shows "abs_queue (fold timer_step es tq) = fold spec_step es (abs_queue tq)"
  using assms
proof (induction es arbitrary: tq)
  case (Cons e es)
  have ab: "set (m_timers tq) = fst (abs_queue tq)" for tq by (simp add: abs_queue_def)
  have sim: "queue_ok (timer_step e tq)" "abs_queue (timer_step e tq) = spec_step e (abs_queue tq)"
    using Cons.prems runAt_sim remove_sim doTimer_sim by (cases e; simp)+
  have "\<forall>p\<in>set (concat (map allocates es)). p \<notin> snd ` set (m_timers (timer_step e tq))"
    unfolding ab sim(2) using Cons.prems(2,3) by (cases e) (auto simp: abs_queue_def)
  then show ?case using Cons.IH [OF sim(1)] Cons.prems(2) sim(2) by simp
qed simp

section \<open>Properties\<close>

lemma TimerQueue_ok: "queue_ok (TimerQueue h)" "abs_queue (TimerQueue h) = ({}, [])"
  by (simp_all add: queue_ok_def one_shots_def TimerQueue_def abs_queue_def)

text \<open>
  C25: One-shot timers run exactly once, when they are due, in the order of their times.  For every sequence
  of \<^verbatim>\<open>runAt\<close> calls with temporaries (each \<^verbatim>\<open>new Timer\<close> at its own address), removals and calls of
  \<^verbatim>\<open>doTimer\<close>, the queue behaves like the set of pending timers: \<^verbatim>\<open>doTimer\<close> calls the callbacks of exactly
  the pending timers whose time has come, earliest first, and forgets them.
\<close>

theorem one_shots_run_when_due:
  assumes "distinct (concat (map allocates es))"
  shows "abs_queue (fold timer_step es (TimerQueue h)) = fold spec_step es ({}, [])"
  using timers_from_allocs [OF TimerQueue_ok(1) assms] TimerQueue_ok(2) by (simp add: TimerQueue_def)

theorem one_shots_run_when_due_witness:
  "called (fold timer_step [RunAt 1 30, RunAt 2 10, RunAt 3 20, RemoveTimer 3, Poll 15, Poll 40] (TimerQueue (\<lambda>_. fst (Timer 0 0 0 0)))) = [2, 1]"
proof -
  let ?S = "\<lambda>e. e = (20::int, 3::nat) \<or> e = (10, 2) \<or> e = (30, Suc 0)"
  have "{e. ?S e \<and> snd e \<noteq> 3 \<and> fst e \<le> 15} = {(10, 2)}" and "{e. ?S e \<and> snd e \<noteq> 3 \<and> 15 < fst e \<and> fst e \<le> 40} = {(30, Suc 0)}"
    by auto
  note sets = this
  let ?es = "[RunAt 1 30, RunAt 2 10, RunAt 3 20, RemoveTimer 3, Poll 15, Poll 40]"
  have "abs_queue (fold timer_step ?es (TimerQueue (\<lambda>_. fst (Timer 0 0 0 0)))) = fold spec_step ?es ({}, [])"
    by (rule one_shots_run_when_due) simp
  then show ?thesis by (simp add: abs_queue_def sets)
qed

text \<open>
  A repeating timer can hold back timers that are due.  \<^verbatim>\<open>doTimer\<close> stops at the first entry that has
  not expired, but an entry keeps its first key when its timer is rescheduled: after \<^verbatim>\<open>runEvery\<close> has fired
  once, a one-shot timer that is due later than its first period is not run before the next period is over.
\<close>

theorem repeating_timer_starves:
  assumes "t0 + i < t" and "t \<le> now" and "now < t0 + 2 * i" and "p \<noteq> q"
  shows "called (doTimer now (doTimer (t0 + i) (runAt q t (runEvery t0 p i (TimerQueue h))))) = [p]"
  using assms
  by (simp add: runAt_def runEvery_def addTimer_rvalue_def Timer_def tq_insert_def TimerQueue_def addTime_def doTimer_def
      Timer_run_def)

theorem repeating_timer_starves_witness:
  "called (doTimer 7000 (doTimer 3600 (runAt 2 3660 (runEvery 0 1 3600 (TimerQueue (\<lambda>_. fst (Timer 0 0 0 0))))))) = [1]"
  using repeating_timer_starves [of 0 3600 3660 7000 1 2 "\<lambda>_. fst (Timer 0 0 0 0)"] by simp

text \<open>
  A one-shot timer given by a callback object that is not a temporary never stops: that overload of
  \<^verbatim>\<open>addTimer\<close> drops the repeat count, so the callback is called by every \<^verbatim>\<open>doTimer\<close> from then on, where
  the other overload calls it once.
\<close>

theorem lvalue_one_shot_never_stops:
  assumes "\<forall>now\<in>set nows. t \<le> now"
  shows "called (fold doTimer nows (runAt_lvalue p t (TimerQueue h))) = replicate (length nows) p \<and>
    called (fold doTimer nows (runAt p t (TimerQueue h))) = (if nows = [] then [] else [p])"
proof -
  let ?forever = "\<lambda>tq cs. m_timers tq = [(t, p)] \<and> called tq = cs \<and> m_expiration (tm_heap tq p) = t \<and> m_interval (tm_heap tq p) = 0 \<and>
    m_repeatCount (tm_heap tq p) = - 1 \<and> \<not> m_canceled (tm_heap tq p)"
  have again: "?forever (fold doTimer nows tq) (cs @ replicate (length nows) p)" if "?forever tq cs" for tq cs
    using assms that
  proof (induction nows arbitrary: tq cs)
    case (Cons now nows)
    then have "?forever (doTimer now tq) (cs @ [p])" by (simp add: doTimer_def Timer_run_def)
    from Cons.IH [OF _ this] Cons.prems(1) show ?case by simp
  qed simp
  have idle: "called (fold doTimer nows tq) = called tq" if "m_timers tq = []" for tq nows
    using that by (induction nows arbitrary: tq) (simp_all add: doTimer_def)
  have "?forever (runAt_lvalue p t (TimerQueue h)) []"
    by (simp add: runAt_lvalue_def addTimer_lvalue_def Timer_def tq_insert_def TimerQueue_def)
  note again [OF this]
  moreover have "called (fold doTimer nows (runAt p t (TimerQueue h))) = (if nows = [] then [] else [p])"
  proof (cases nows)
    case (Cons now ns)
    have "m_timers (doTimer now (runAt p t (TimerQueue h))) = [] \<and> called (doTimer now (runAt p t (TimerQueue h))) = [p]"
      using assms Cons by (simp add: runAt_def addTimer_rvalue_def Timer_def tq_insert_def TimerQueue_def doTimer_def Timer_run_def)
    then show ?thesis using Cons idle by simp
  qed (simp add: runAt_def addTimer_rvalue_def Timer_def tq_insert_def TimerQueue_def)
  ultimately show ?thesis by simp
qed

theorem lvalue_one_shot_never_stops_witness:
  "called (fold doTimer [10, 11, 12] (runAt_lvalue 1 10 (TimerQueue (\<lambda>_. fst (Timer 0 0 0 0))))) = [1, 1, 1]"
  using lvalue_one_shot_never_stops [of "[10, 11, 12]" 10 1 "\<lambda>_. fst (Timer 0 0 0 0)"] by (simp add: numeral_eq_Suc)

end
