(* ===== verification/Event_Loop.thy ===== *)
theory Event_Loop
  imports Prelude
begin

text \<open>
  \<^verbatim>\<open>net/EventLoop\<close>: the iteration of the loop and the queue of functors that other threads hand to it.  What
  a functor (or a callback of a timer, a channel or the frame) does to the loop itself is a parameter
  \<open>eff\<close>: the list of its calls of \<^verbatim>\<open>queueInLoop\<close> and \<^verbatim>\<open>quit\<close>.  The \<^verbatim>\<open>eventfd\<close> is its counter.
  \<open>queued\<close> and \<open>executed\<close> record the functors handed to the queue and run from it, in order.
\<close>

section \<open>State\<close>

datatype 'f loop_call = QueueInLoop 'f | Quit

record 'f event_loop =
  m_looping :: bool
  m_quit :: bool
  m_eventHandling :: bool
  m_doingOtherTasks :: bool
  m_pendingFunctors :: "'f list"
  m_frameFunctor :: "'f option"
  m_iteration :: nat
  wakeup_count :: nat
  queued :: "'f list"
  executed :: "'f list"

definition kPollTimeMs :: int where "kPollTimeMs = 1"

definition EventLoop :: "'f event_loop" where
  "EventLoop = \<lparr>m_looping = False, m_quit = False, m_eventHandling = False, m_doingOtherTasks = False,
     m_pendingFunctors = [], m_frameFunctor = None, m_iteration = 0, wakeup_count = 0, queued = [], executed = []\<rparr>"

section \<open>Operations\<close>

definition wakeup :: "'f event_loop \<Rightarrow> 'f event_loop" where
  "wakeup el = el\<lparr>wakeup_count := wakeup_count el + 1\<rparr>"

text \<open>\<^verbatim>\<open>EventLoop::handleRead\<close>, the read callback of the wake-up channel: reading an \<^verbatim>\<open>eventfd\<close> clears it.\<close>

definition wakeup_read :: "'f event_loop \<Rightarrow> 'f event_loop" where
  "wakeup_read el = el\<lparr>wakeup_count := 0\<rparr>"

definition loop_quit :: "bool \<Rightarrow> 'f event_loop \<Rightarrow> 'f event_loop" where
  "loop_quit isInLoopThread el = (let el1 = el\<lparr>m_quit := True\<rparr> in if isInLoopThread then el1 else wakeup el1)"

definition loop_queueInLoop :: "bool \<Rightarrow> 'f \<Rightarrow> 'f event_loop \<Rightarrow> 'f event_loop" where
  "loop_queueInLoop isInLoopThread cb el =
     (let el1 = el\<lparr>m_pendingFunctors := m_pendingFunctors el @ [cb], queued := queued el @ [cb]\<rparr>
      in if \<not> isInLoopThread \<or> m_doingOtherTasks el then wakeup el1 else el1)"

fun do_call :: "bool \<Rightarrow> 'f loop_call \<Rightarrow> 'f event_loop \<Rightarrow> 'f event_loop" where
  "do_call inThread (QueueInLoop f) el = loop_queueInLoop inThread f el"
| "do_call inThread Quit el = loop_quit inThread el"

text \<open>A callback that runs in the loop thread.\<close>

definition run_callback :: "('f \<Rightarrow> 'f loop_call list) \<Rightarrow> 'f \<Rightarrow> 'f event_loop \<Rightarrow> 'f event_loop" where
  "run_callback eff f el = fold (do_call True) (eff f) el"

definition loop_runInLoop :: "('f \<Rightarrow> 'f loop_call list) \<Rightarrow> bool \<Rightarrow> 'f \<Rightarrow> 'f event_loop \<Rightarrow> 'f event_loop" where
  "loop_runInLoop eff isInLoopThread cb el =
     (if isInLoopThread then run_callback eff cb el else loop_queueInLoop False cb el)"

definition setFrameFunctor :: "'f \<Rightarrow> 'f event_loop \<Rightarrow> 'f event_loop" where
  "setFrameFunctor cb el = el\<lparr>m_frameFunctor := Some cb\<rparr>"

definition run_functor :: "('f \<Rightarrow> 'f loop_call list) \<Rightarrow> 'f \<Rightarrow> 'f event_loop \<Rightarrow> 'f event_loop" where
  "run_functor eff f el = run_callback eff f (el\<lparr>executed := executed el @ [f]\<rparr>)"

text \<open>
  \<^verbatim>\<open>doOtherTasks\<close>: the queue is swapped out under the lock and run without it.  \<open>others\<close> are the calls of
  other threads that come before each functor (the lists beyond the functors come after the last one).
\<close>

fun run_functors ::
  "('f \<Rightarrow> 'f loop_call list) \<Rightarrow> (nat \<Rightarrow> 'f loop_call list) \<Rightarrow> nat \<Rightarrow> 'f list \<Rightarrow> 'f event_loop \<Rightarrow> 'f event_loop" where
  "run_functors eff others i [] el = fold (do_call False) (others i) el"
| "run_functors eff others i (f # fs) el =
     run_functors eff others (Suc i) fs (run_functor eff f (fold (do_call False) (others i) el))"

definition doOtherTasks ::
  "('f \<Rightarrow> 'f loop_call list) \<Rightarrow> (nat \<Rightarrow> 'f loop_call list) \<Rightarrow> 'f event_loop \<Rightarrow> 'f event_loop" where
  "doOtherTasks eff others el =
     (let functors = m_pendingFunctors el;
          el1 = el\<lparr>m_doingOtherTasks := True, m_pendingFunctors := []\<rparr>
      in (run_functors eff others 0 functors el1)\<lparr>m_doingOtherTasks := False\<rparr>)"

text \<open>
  One iteration: what the timers, the poller and the other threads do in it is its input.  \<open>during_poll\<close>
  are calls of other threads up to the end of the poll, \<open>during_events\<close> and \<open>during_tasks\<close> those
  during the event handling and between the functors.  The wake-up channel is active, and handled first,
  when its counter is not zero.
\<close>

record 'f round =
  timer_callbacks :: "'f list"
  during_poll :: "'f loop_call list"
  active_callbacks :: "'f list"
  during_events :: "'f loop_call list"
  during_tasks :: "nat \<Rightarrow> 'f loop_call list"

definition loop_iteration :: "('f \<Rightarrow> 'f loop_call list) \<Rightarrow> 'f round \<Rightarrow> 'f event_loop \<Rightarrow> 'f event_loop" where
  "loop_iteration eff r el =
     (let el1 = fold (run_callback eff) (timer_callbacks r) el;
          el2 = fold (do_call False) (during_poll r) el1;
          el3 = el2\<lparr>m_iteration := m_iteration el2 + 1, m_eventHandling := True\<rparr>;
          el4 = (if wakeup_count el3 > 0 then wakeup_read el3 else el3);
          el5 = fold (run_callback eff) (active_callbacks r) el4;
          el6 = (fold (do_call False) (during_events r) el5)\<lparr>m_eventHandling := False\<rparr>;
          el7 = doOtherTasks eff (during_tasks r) el6
      in case m_frameFunctor el7 of None \<Rightarrow> el7 | Some f \<Rightarrow> run_callback eff f el7)"

fun loop_while :: "('f \<Rightarrow> 'f loop_call list) \<Rightarrow> 'f round list \<Rightarrow> 'f event_loop \<Rightarrow> 'f event_loop" where
  "loop_while eff [] el = el"
| "loop_while eff (r # rs) el = (if m_quit el then el else loop_while eff rs (loop_iteration eff r el))"

definition loop_start :: "'f event_loop \<Rightarrow> 'f event_loop" where
  "loop_start el = el\<lparr>m_looping := True, m_quit := False\<rparr>"

definition loop :: "('f \<Rightarrow> 'f loop_call list) \<Rightarrow> 'f round list \<Rightarrow> 'f event_loop \<Rightarrow> 'f event_loop" where
  "loop eff rs el =
     (let el1 = loop_while eff rs (loop_start el) in if m_quit el1 then el1\<lparr>m_looping := False\<rparr> else el1)"

section \<open>Lemmas\<close>

text \<open>Nothing is lost or reordered between the queue and its execution.\<close>

definition fifo :: "'f event_loop \<Rightarrow> bool" where
  "fifo el \<longleftrightarrow> executed el @ m_pendingFunctors el = queued el"

lemma do_call_fifo [simp]: "fifo el \<Longrightarrow> fifo (do_call b c el)"
  by (cases c) (auto simp: loop_queueInLoop_def loop_quit_def wakeup_def Let_def fifo_def)

lemma do_call_fields:
  "executed (do_call b c el) = executed el" "m_doingOtherTasks (do_call b c el) = m_doingOtherTasks el"
  "m_frameFunctor (do_call b c el) = m_frameFunctor el"
  "\<exists>xs. m_pendingFunctors (do_call b c el) = m_pendingFunctors el @ xs \<and> queued (do_call b c el) = queued el @ xs"
  by (cases c; simp add: loop_queueInLoop_def loop_quit_def wakeup_def Let_def)+

lemma do_calls_fields:
  "executed (fold (do_call b) cs el) = executed el \<and> m_doingOtherTasks (fold (do_call b) cs el) = m_doingOtherTasks el \<and>
   m_frameFunctor (fold (do_call b) cs el) = m_frameFunctor el \<and>
   (\<exists>xs. m_pendingFunctors (fold (do_call b) cs el) = m_pendingFunctors el @ xs \<and> queued (fold (do_call b) cs el) = queued el @ xs)"
proof (induction cs arbitrary: el)
  case (Cons c cs)
  then show ?case
    using do_call_fields(4) [of b c el] by (simp add: do_call_fields(1,2,3)) (metis append_assoc)
qed simp

lemma do_calls_fifo: "fifo el \<Longrightarrow> fifo (fold (do_call b) cs el)"
  by (induction cs arbitrary: el) simp_all

lemma run_callback_fifo: "fifo el \<Longrightarrow> fifo (run_callback eff f el)"
  by (simp add: run_callback_def do_calls_fifo)

lemma callbacks_fifo: "fifo el \<Longrightarrow> fifo (fold (run_callback eff) fs el)"
  by (induction fs arbitrary: el) (simp_all add: run_callback_fifo)

lemma callbacks_fields:
  "executed (fold (run_callback eff) fs el) = executed el \<and>
   (\<exists>xs. m_pendingFunctors (fold (run_callback eff) fs el) = m_pendingFunctors el @ xs)"
proof (induction fs arbitrary: el)
  case (Cons f fs)
  then show ?case using do_calls_fields [of True "eff f" el] by (simp add: run_callback_def) (metis append_assoc)
qed simp

text \<open>While the functors run, the queue only grows; the functors still to run come before it.\<close>

lemma run_functors_fifo:
  assumes "executed el @ fs @ m_pendingFunctors el = queued el"
  shows "fifo (run_functors eff others i fs el) \<and> (\<exists>xs. executed (run_functors eff others i fs el) = executed el @ fs @ xs)"
  using assms
proof (induction eff others i fs el rule: run_functors.induct)
  case (1 eff others i el)
  then show ?case using do_calls_fifo [of el False "others i"] do_calls_fields [of False "others i" el] by (simp add: fifo_def)
next
  case (2 eff others i f fs el)
  let ?el1 = "fold (do_call False) (others i) el"
  obtain xs where 1: "m_pendingFunctors ?el1 = m_pendingFunctors el @ xs" "queued ?el1 = queued el @ xs" "executed ?el1 = executed el"
    using do_calls_fields [of False "others i" el] by blast
  let ?el2 = "?el1\<lparr>executed := executed ?el1 @ [f]\<rparr>"
  obtain ys where 2: "m_pendingFunctors (run_functor eff f ?el1) = m_pendingFunctors ?el1 @ ys"
    "queued (run_functor eff f ?el1) = queued ?el1 @ ys" "executed (run_functor eff f ?el1) = executed ?el1 @ [f]"
    using do_calls_fields [of True "eff f" ?el2] by (auto simp: run_functor_def run_callback_def)
  have "executed (run_functor eff f ?el1) @ fs @ m_pendingFunctors (run_functor eff f ?el1) = queued (run_functor eff f ?el1)"
    using "2.prems" 1 2 by simp
  from "2.IH" [OF this] show ?case using 1 2 by auto
qed

lemma doOtherTasks_fifo:
  assumes "fifo el"
  shows "fifo (doOtherTasks eff others el) \<and> (\<exists>xs. executed (doOtherTasks eff others el) = queued el @ xs)"
proof -
  have "fifo (el'\<lparr>m_doingOtherTasks := b\<rparr>) = fifo el'" for el' :: "'a event_loop" and b by (simp add: fifo_def)
  moreover have "queued el = executed el @ m_pendingFunctors el" using assms by (simp add: fifo_def)
  ultimately show ?thesis
    using run_functors_fifo [of "el\<lparr>m_doingOtherTasks := True, m_pendingFunctors := []\<rparr>" "m_pendingFunctors el" eff others 0]
    by (simp add: doOtherTasks_def Let_def)
qed

text \<open>The state in which an iteration reaches \<^verbatim>\<open>doOtherTasks\<close>.\<close>

definition before_tasks :: "('f \<Rightarrow> 'f loop_call list) \<Rightarrow> 'f round \<Rightarrow> 'f event_loop \<Rightarrow> 'f event_loop" where
  "before_tasks eff r el =
     (let el2 = fold (do_call False) (during_poll r) (fold (run_callback eff) (timer_callbacks r) el);
          el3 = el2\<lparr>m_iteration := m_iteration el2 + 1, m_eventHandling := True\<rparr>;
          el4 = (if wakeup_count el3 > 0 then wakeup_read el3 else el3);
          el5 = fold (run_callback eff) (active_callbacks r) el4
      in (fold (do_call False) (during_events r) el5)\<lparr>m_eventHandling := False\<rparr>)"

lemma loop_iteration_alt:
  "loop_iteration eff r el =
     (let el7 = doOtherTasks eff (during_tasks r) (before_tasks eff r el)
      in case m_frameFunctor el7 of None \<Rightarrow> el7 | Some f \<Rightarrow> run_callback eff f el7)"
  by (simp add: loop_iteration_def before_tasks_def Let_def)

lemma fifo_handling:
  "fifo (el\<lparr>m_iteration := n\<rparr>) = fifo el" "fifo (el\<lparr>m_eventHandling := b\<rparr>) = fifo el"
  "fifo (wakeup_read el) = fifo el"
  by (simp_all add: fifo_def wakeup_read_def)

lemma before_tasks_fifo: "fifo el \<Longrightarrow> fifo (before_tasks eff r el)"
  by (auto simp: before_tasks_def Let_def fifo_handling do_calls_fifo callbacks_fifo)

lemma before_tasks_queued:
  "\<exists>xs. queued (before_tasks eff r el) = queued el @ xs"
proof -
  have q: "\<exists>xs. queued (fold (run_callback eff) fs el) = queued el @ xs" for fs el
  proof (induction fs arbitrary: el)
    case (Cons f fs)
    then show ?case using do_calls_fields [of True "eff f" el] by (simp add: run_callback_def) (metis append_assoc)
  qed simp
  define el1 where "el1 = fold (run_callback eff) (timer_callbacks r) el"
  define el2 where "el2 = fold (do_call False) (during_poll r) el1"
  define el3 where "el3 = el2\<lparr>m_iteration := m_iteration el2 + 1, m_eventHandling := True\<rparr>"
  define el4 where "el4 = (if wakeup_count el3 > 0 then wakeup_read el3 else el3)"
  define el5 where "el5 = fold (run_callback eff) (active_callbacks r) el4"
  have "queued (before_tasks eff r el) = queued (fold (do_call False) (during_events r) el5)"
    by (simp add: before_tasks_def Let_def el1_def el2_def el3_def el4_def el5_def)
  moreover have "queued el4 = queued el2" by (simp add: el4_def el3_def wakeup_read_def)
  ultimately show ?thesis
    using q [of "timer_callbacks r" el] do_calls_fields [of False "during_poll r" el1] q [of "active_callbacks r" el4]
      do_calls_fields [of False "during_events r" el5]
    unfolding el1_def [symmetric] el2_def [symmetric] el5_def [symmetric] by (metis append_assoc)
qed

lemma loop_iteration_fifo:
  assumes "fifo el"
  shows "fifo (loop_iteration eff r el) \<and> (\<exists>xs. executed (loop_iteration eff r el) = queued el @ xs)"
proof -
  let ?el = "doOtherTasks eff (during_tasks r) (before_tasks eff r el)"
  have f: "fifo ?el" and "\<exists>xs. executed ?el = queued (before_tasks eff r el) @ xs"
    using doOtherTasks_fifo [OF before_tasks_fifo [OF assms]] by blast+
  then have e: "\<exists>xs. executed ?el = queued el @ xs" using before_tasks_queued [of eff r el] by (metis append_assoc)
  show ?thesis
  proof (cases "m_frameFunctor ?el")
    case None
    then show ?thesis using f e by (simp add: loop_iteration_alt)
  next
    case (Some g)
    then show ?thesis
      using run_callback_fifo [OF f, of eff g] e do_calls_fields [of True "eff g" ?el]
      by (simp add: loop_iteration_alt run_callback_def)
  qed
qed

lemma loop_while_fifo: "fifo el \<Longrightarrow> fifo (loop_while eff rs el)"
  by (induction rs arbitrary: el) (simp_all add: loop_iteration_fifo)

lemma loop_fifo: "fifo el \<Longrightarrow> fifo (loop eff rs el)"
  using loop_while_fifo [of "loop_start el" eff rs] by (simp add: loop_def loop_start_def Let_def fifo_def)

text \<open>No wake-up is lost: a functor in the queue at the end of an iteration has raised the counter.\<close>

definition awake :: "'f event_loop \<Rightarrow> bool" where
  "awake el \<longleftrightarrow> (m_pendingFunctors el \<noteq> [] \<longrightarrow> wakeup_count el > 0)"

lemma do_call_awake: "awake el \<Longrightarrow> \<not> b \<or> m_doingOtherTasks el \<Longrightarrow> awake (do_call b c el)"
  by (cases c) (auto simp: loop_queueInLoop_def loop_quit_def wakeup_def Let_def awake_def)

lemma do_calls_awake: "awake el \<Longrightarrow> \<not> b \<or> m_doingOtherTasks el \<Longrightarrow> awake (fold (do_call b) cs el)"
  by (induction cs arbitrary: el) (simp_all add: do_call_awake do_call_fields(2))

lemma run_functors_awake:
  "awake el \<Longrightarrow> m_doingOtherTasks el \<Longrightarrow> awake (run_functors eff others i fs el)"
proof (induction eff others i fs el rule: run_functors.induct)
  case (2 eff others i f fs el)
  let ?el1 = "fold (do_call False) (others i) el"
  have d: "m_doingOtherTasks ?el1" using "2.prems"(2) do_calls_fields [of False "others i" el] by simp
  have a: "awake ?el1" using "2.prems"(1) by (simp add: do_calls_awake)
  let ?el2 = "?el1\<lparr>executed := executed ?el1 @ [f]\<rparr>"
  have "awake ?el2" using a by (simp add: awake_def)
  then have "awake (run_functor eff f ?el1)" using d by (simp add: run_functor_def run_callback_def do_calls_awake)
  moreover have "m_doingOtherTasks (run_functor eff f ?el1)"
    using d do_calls_fields [of True "eff f" ?el2] by (simp add: run_functor_def run_callback_def)
  ultimately show ?case using "2.IH" by simp
qed (simp add: do_calls_awake)

lemma doOtherTasks_awake: "awake (doOtherTasks eff others el)"
  using run_functors_awake [of "el\<lparr>m_doingOtherTasks := True, m_pendingFunctors := []\<rparr>" eff others 0 "m_pendingFunctors el"]
  by (simp add: doOtherTasks_def awake_def Let_def)

lemma frame_callbacks: "m_frameFunctor (fold (run_callback eff) fs el) = m_frameFunctor el"
  by (induction fs arbitrary: el) (simp_all add: run_callback_def do_calls_fields)

lemma frame_run_functors: "m_frameFunctor (run_functors eff others i fs el) = m_frameFunctor el"
  by (induction eff others i fs el rule: run_functors.induct) (simp_all add: run_functor_def run_callback_def do_calls_fields)

lemma frame_tasks: "m_frameFunctor (doOtherTasks eff others (before_tasks eff r el)) = m_frameFunctor el"
  by (simp add: doOtherTasks_def before_tasks_def Let_def frame_run_functors frame_callbacks do_calls_fields wakeup_read_def)

text \<open>
  What the loop thread queues outside \<^verbatim>\<open>doOtherTasks\<close> (in a timer, a channel or the frame callback) raises no
  wake-up; every call of another thread raises one.
\<close>

fun asked :: "'f loop_call \<Rightarrow> 'f list" where
  "asked (QueueInLoop g) = [g]"
| "asked Quit = []"

definition queued_by :: "('f \<Rightarrow> 'f loop_call list) \<Rightarrow> 'f \<Rightarrow> 'f list" where
  "queued_by eff f = concat (map asked (eff f))"

lemma own_calls:
  "\<not> m_doingOtherTasks el \<Longrightarrow> m_pendingFunctors (fold (do_call True) cs el) = m_pendingFunctors el @ concat (map asked cs) \<and>
     wakeup_count (fold (do_call True) cs el) = wakeup_count el"
proof (induction cs arbitrary: el)
  case (Cons c cs)
  then show ?case by (cases c) (simp_all add: loop_queueInLoop_def loop_quit_def Let_def)
qed simp

lemma own_callback:
  assumes "\<not> m_doingOtherTasks el"
  shows "m_pendingFunctors (run_callback eff f el) = m_pendingFunctors el @ queued_by eff f"
    and "wakeup_count (run_callback eff f el) = wakeup_count el" and "\<not> m_doingOtherTasks (run_callback eff f el)"
  using own_calls [OF assms, of "eff f"] do_calls_fields [of True "eff f" el] assms
  by (simp_all add: run_callback_def queued_by_def)

lemma own_callbacks:
  "\<not> m_doingOtherTasks el \<Longrightarrow>
     m_pendingFunctors (fold (run_callback eff) fs el) = m_pendingFunctors el @ concat (map (queued_by eff) fs) \<and>
     wakeup_count (fold (run_callback eff) fs el) = wakeup_count el"
  by (induction fs arbitrary: el) (simp_all add: own_callback)

lemma other_calls_wake: "wakeup_count (fold (do_call False) cs el) = wakeup_count el + length cs"
proof (induction cs arbitrary: el)
  case (Cons c cs)
  then show ?case by (cases c) (simp_all add: loop_queueInLoop_def loop_quit_def wakeup_def Let_def)
qed simp

lemma iteration_end:
  "\<not> m_doingOtherTasks (loop_iteration eff r el)"
  "wakeup_count (loop_iteration eff r el) = 0 \<Longrightarrow>
     m_pendingFunctors (loop_iteration eff r el) = (case m_frameFunctor el of None \<Rightarrow> [] | Some f \<Rightarrow> queued_by eff f)"
proof -
  define el7 where "el7 = doOtherTasks eff (during_tasks r) (before_tasks eff r el)"
  have a: "awake el7" and d: "\<not> m_doingOtherTasks el7" and f: "m_frameFunctor el7 = m_frameFunctor el"
    by (simp_all add: el7_def doOtherTasks_awake frame_tasks) (simp add: doOtherTasks_def Let_def)
  have i: "loop_iteration eff r el = (case m_frameFunctor el of None \<Rightarrow> el7 | Some f \<Rightarrow> run_callback eff f el7)"
    by (simp add: loop_iteration_alt el7_def [symmetric] f Let_def)
  show "\<not> m_doingOtherTasks (loop_iteration eff r el)" using d own_callback(3) [OF d] by (simp add: i split: option.split)
  show "wakeup_count (loop_iteration eff r el) = 0 \<Longrightarrow>
     m_pendingFunctors (loop_iteration eff r el) = (case m_frameFunctor el of None \<Rightarrow> [] | Some f \<Rightarrow> queued_by eff f)"
    using a own_callback(1,2) [OF d] by (cases "m_frameFunctor el") (auto simp: i awake_def)
qed

lemma run_functors_executed: "executed (run_functors eff others i fs el) = executed el @ fs"
  by (induction eff others i fs el rule: run_functors.induct)
    (simp_all add: run_functor_def run_callback_def do_calls_fields)

text \<open>An iteration runs what is pending at any moment up to the end of its poll.\<close>

lemma iteration_runs_pending:
  fixes eff r el n
  defines "p \<equiv> fold (do_call False) (take n (during_poll r)) (fold (run_callback eff) (timer_callbacks r) el)"
  shows "\<exists>xs. executed (loop_iteration eff r el) = executed p @ m_pendingFunctors p @ xs"
proof -
  define el2 where "el2 = fold (do_call False) (drop n (during_poll r)) p"
  have el2: "fold (do_call False) (during_poll r) (fold (run_callback eff) (timer_callbacks r) el) = el2"
    unfolding el2_def p_def fold_append [symmetric, THEN fun_cong, unfolded comp_def] by simp
  define el4 where "el4 = (let el3 = el2\<lparr>m_iteration := m_iteration el2 + 1, m_eventHandling := True\<rparr>
    in if wakeup_count el3 > 0 then wakeup_read el3 else el3)"
  define el5 where "el5 = fold (run_callback eff) (active_callbacks r) el4"
  define b where "b = before_tasks eff r el"
  have b: "b = (fold (do_call False) (during_events r) el5)\<lparr>m_eventHandling := False\<rparr>"
    by (simp add: b_def before_tasks_def el2 el4_def el5_def Let_def)
  have 4: "executed el4 = executed el2" "m_pendingFunctors el4 = m_pendingFunctors el2"
    by (simp_all add: el4_def wakeup_read_def Let_def)
  have "\<exists>xs. executed b = executed p \<and> m_pendingFunctors b = m_pendingFunctors p @ xs"
    using do_calls_fields [of False "drop n (during_poll r)" p] callbacks_fields [of eff "active_callbacks r" el4] 4
      do_calls_fields [of False "during_events r" el5]
    unfolding el2_def [symmetric] el5_def [symmetric] b by auto
  moreover have "executed (loop_iteration eff r el) = executed b @ m_pendingFunctors b"
    by (simp add: loop_iteration_alt b_def [symmetric] doOtherTasks_def run_functors_executed run_callback_def do_calls_fields
        Let_def split: option.split)
  ultimately show ?thesis by auto
qed

section \<open>Properties\<close>

text \<open>
  C14: Functors handed to the loop run exactly once and in the order they were queued.  For all behaviours of
  the callbacks and all interleavings with other threads, the functors run so far followed by the ones in
  the queue are the functors ever queued; and one more iteration runs every functor that was in the queue,
  also when functors queue new ones (these wait for the next iteration, so an iteration ends).
\<close>

theorem functors_run_in_order:
  "let el = loop eff rs EventLoop
   in executed el @ m_pendingFunctors el = queued el \<and> (\<exists>xs. executed (loop_iteration eff r el) = queued el @ xs)"
proof -
  have "fifo EventLoop" by (simp add: fifo_def EventLoop_def)
  then show ?thesis using loop_fifo [of EventLoop eff rs] loop_iteration_fifo by (auto simp: fifo_def Let_def)
qed

text \<open>
  C27: Which functors wait for a poll without a wake-up.  After any iteration, take the state at any moment up to
  the end of the next poll, when the timer callbacks have run and other threads have completed some calls.
  If the wake-up descriptor is not readable then, the functors waiting in the queue are exactly those that
  the frame functor of the last iteration and the timer callbacks of this one have queued, in this order:
  whatever other threads queue, and whatever a functor run from the queue queues, has raised a wake-up.  And
  in both cases this iteration runs all of them, first and in order, as soon as the poll returns, which
  without a wake-up is when its time-out of \<^verbatim>\<open>kPollTimeMs\<close> is over or another event comes.
\<close>

theorem functors_waiting_at_poll:
  fixes eff r r' el n
  defines "el1 \<equiv> loop_iteration eff r el"
  defines "p \<equiv> fold (do_call False) (take n (during_poll r')) (fold (run_callback eff) (timer_callbacks r') el1)"
  shows "(0 < wakeup_count p \<or>
      m_pendingFunctors p = concat (map (queued_by eff) (case m_frameFunctor el of None \<Rightarrow> [] | Some f \<Rightarrow> [f]) @
        map (queued_by eff) (timer_callbacks r'))) \<and>
    (\<exists>xs. executed (loop_iteration eff r' el1) = executed p @ m_pendingFunctors p @ xs)"
proof -
  note t = own_callbacks [OF iteration_end(1), of eff "timer_callbacks r'" eff r el, folded el1_def]
  have "m_pendingFunctors p = concat (map (queued_by eff) (case m_frameFunctor el of None \<Rightarrow> [] | Some f \<Rightarrow> [f]) @
        map (queued_by eff) (timer_callbacks r'))" if "wakeup_count p = 0"
  proof -
    have "take n (during_poll r') = []" and "wakeup_count el1 = 0" using that t by (auto simp: p_def other_calls_wake min_def split: if_splits)
    then show ?thesis using t iteration_end(2) [of eff r el] by (auto simp: p_def el1_def split: option.splits)
  qed
  then show ?thesis using iteration_runs_pending [of eff r' el1 n] unfolding p_def by blast
qed

end
