(* ===== verification/Config_File.thy ===== *)
theory Config_File
  imports Std_Map "HOL-Library.List_Lexorder"
begin

text \<open>
  \<^verbatim>\<open>base/ConfigFileReader\<close>: the \<^verbatim>\<open>key=value\<close> file of the server.  A file is its bytes (\<open>None\<close> when it cannot
  be opened).
\<close>

section \<open>Reading\<close>

datatype config_error = Buf_underflow | Uninitialised

text \<open>\<^verbatim>\<open>m_load_ok\<close> has no initial value; \<open>None\<close> stands for that.\<close>

record config_reader =
  m_load_ok :: "bool option"
  m_config_map :: "(bytes \<times> bytes) list"
  m_config_file :: bytes

abbreviation ch_nl :: byte where "ch_nl \<equiv> 10"
abbreviation ch_hash :: byte where "ch_hash \<equiv> 35"
abbreviation ch_eq :: byte where "ch_eq \<equiv> 61"

definition is_blank :: "byte \<Rightarrow> bool" where
  "is_blank c \<longleftrightarrow> c = 32 \<or> c = 9 \<or> c = 13"

text \<open>\<^verbatim>\<open>fgets\<close> with room for \<open>n\<close> bytes before the terminator: the bytes read and the rest of the file.\<close>

fun fgets :: "nat \<Rightarrow> bytes \<Rightarrow> bytes \<times> bytes" where
  "fgets 0 s = ([], s)"
| "fgets (Suc n) [] = ([], [])"
| "fgets (Suc n) (c # s) = (if c = ch_nl then ([c], s) else (let (l, r) = fgets n s in (c # l, r)))"

definition trimSpace :: "bytes \<Rightarrow> bytes option" where
  "trimSpace name =
     (let start = dropWhile is_blank name
      in if start = [] then None else Some (rev (dropWhile is_blank (rev start))))"

definition parseLine :: "bytes \<Rightarrow> (bytes \<times> bytes) list \<Rightarrow> (bytes \<times> bytes) list" where
  "parseLine line m =
     (case find_byte ch_eq line of
        None \<Rightarrow> m
      | Some i \<Rightarrow>
          (case (trimSpace (take i line), trimSpace (drop (Suc i) line)) of
             (Some key, Some value) \<Rightarrow> map_insert key value m
           | _ \<Rightarrow> m))"

text \<open>
  The body of the loop of \<^verbatim>\<open>loadFile\<close> on what \<^verbatim>\<open>fgets\<close> returned, seen as a C string.  With \<^verbatim>\<open>len\<close> zero
  the source reads \<^verbatim>\<open>buf[-1]\<close>.
\<close>

definition load_line :: "bytes \<Rightarrow> (bytes \<times> bytes) list \<Rightarrow> config_error + (bytes \<times> bytes) list" where
  "load_line raw m =
     (let buf = takeWhile (\<lambda>c. c \<noteq> 0) raw
      in if buf = [] then Inl Buf_underflow
         else (let buf1 = (if last buf = ch_nl then butlast buf else buf);
                   buf2 = takeWhile (\<lambda>c. c \<noteq> ch_hash) buf1
               in Inr (if buf2 = [] then m else parseLine buf2 m)))"

lemma fgets_consumes: "snd (fgets n s) = drop (length (fst (fgets n s))) s"
  by (induction n s rule: fgets.induct) (simp_all add: case_prod_beta)

lemma fgets_nonempty: "s \<noteq> [] \<Longrightarrow> fst (fgets (Suc n) s) \<noteq> []"
  by (cases s) (simp_all add: case_prod_beta)

function load_lines :: "bytes \<Rightarrow> (bytes \<times> bytes) list \<Rightarrow> config_error + (bytes \<times> bytes) list" where
  "load_lines s m =
     (if s = [] then Inr m
      else (case load_line (fst (fgets 255 s)) m of
              Inl e \<Rightarrow> Inl e
            | Inr m' \<Rightarrow> load_lines (snd (fgets 255 s)) m'))"
  by pat_completeness auto
termination
proof (relation "measure (length \<circ> fst)")
  fix s :: bytes and m b
  assume "s \<noteq> []"
  then have "0 < length (fst (fgets 255 s))" "s \<noteq> []" using fgets_nonempty [of s 254] by (simp_all add: numeral_eq_Suc)
  then show "((snd (fgets 255 s), b), (s, m)) \<in> measure (length \<circ> fst)"
    by (simp add: fgets_consumes [of 255 s])
qed simp

declare load_lines.simps [simp del]

definition loadFile :: "bytes \<Rightarrow> bytes option \<Rightarrow> config_reader \<Rightarrow> config_error + config_reader" where
  "loadFile filename file r =
     (let r1 = r\<lparr>m_config_file := filename\<rparr>
      in case file of
           None \<Rightarrow> Inr r1
         | Some s \<Rightarrow> (case load_lines s (m_config_map r1) of
                        Inl e \<Rightarrow> Inl e
                      | Inr m \<Rightarrow> Inr (r1\<lparr>m_config_map := m, m_load_ok := Some True\<rparr>)))"

definition CConfigFileReader :: "bytes \<Rightarrow> bytes option \<Rightarrow> config_error + config_reader" where
  "CConfigFileReader filename file =
     loadFile filename file \<lparr>m_load_ok = None, m_config_map = [], m_config_file = []\<rparr>"

definition getConfigName :: "bytes \<Rightarrow> config_reader \<Rightarrow> config_error + bytes option" where
  "getConfigName name r =
     (case m_load_ok r of
        None \<Rightarrow> Inl Uninitialised
      | Some ok \<Rightarrow> Inr (if ok then map_find name (m_config_map r) else None))"

section \<open>Writing\<close>

text \<open>
  \<^verbatim>\<open>writeFile\<close>: the result and the file written.  \<open>opens\<close> is whether \<^verbatim>\<open>fopen\<close> succeeds, \<open>room\<close> the number
  of pairs that can be written before \<^verbatim>\<open>fwrite\<close> fails.  \<^verbatim>\<open>snprintf\<close> keeps 127 bytes of each line.
\<close>

definition config_line :: "bytes \<times> bytes \<Rightarrow> bytes" where
  "config_line p = take 127 (fst p @ [ch_eq] @ snd p @ [ch_nl])"

fun write_pairs :: "nat \<Rightarrow> (bytes \<times> bytes) list \<Rightarrow> int \<times> bytes" where
  "write_pairs room [] = (0, [])"
| "write_pairs 0 (p # m) = (- 1, [])"
| "write_pairs (Suc room) (p # m) = (let (ret, out) = write_pairs room m in (ret, config_line p @ out))"

definition writeFile :: "bool \<Rightarrow> nat \<Rightarrow> config_reader \<Rightarrow> int \<times> bytes option" where
  "writeFile opens room r =
     (if \<not> opens then (- 1, None)
      else (let (ret, out) = write_pairs room (m_config_map r) in (ret, Some out)))"

definition setConfigValue ::
  "bool \<Rightarrow> nat \<Rightarrow> bytes \<Rightarrow> bytes \<Rightarrow> config_reader \<Rightarrow> config_error + int \<times> config_reader \<times> bytes option" where
  "setConfigValue opens room name value r =
     (case m_load_ok r of
        None \<Rightarrow> Inl Uninitialised
      | Some False \<Rightarrow> Inr (- 1, r, None)
      | Some True \<Rightarrow>
          (let m = m_config_map r;
               r1 = r\<lparr>m_config_map := (if map_find name m \<noteq> None then map_assign name value m else map_insert name value m)\<rparr>;
               (ret, out) = writeFile opens room r1
           in Inr (ret, r1, out)))"

section \<open>Lemmas\<close>

text \<open>Keys and values that the format can represent.\<close>

definition clean :: "bytes \<Rightarrow> bool" where
  "clean s \<longleftrightarrow> s \<noteq> [] \<and> 0 \<notin> set s \<and> ch_nl \<notin> set s \<and> ch_hash \<notin> set s \<and> \<not> is_blank (hd s) \<and> \<not> is_blank (last s)"

definition clean_pair :: "bytes \<times> bytes \<Rightarrow> bool" where
  "clean_pair p \<longleftrightarrow> clean (fst p) \<and> ch_eq \<notin> set (fst p) \<and> clean (snd p) \<and> length (fst p) + length (snd p) + 2 \<le> 127"

lemma fgets_line: "ch_nl \<notin> set l \<Longrightarrow> length l < n \<Longrightarrow> fgets n (l @ ch_nl # s) = (l @ [ch_nl], s)"
proof (induction l arbitrary: n)
  case Nil
  then show ?case by (cases n) simp_all
next
  case (Cons c l)
  then show ?case by (cases n) auto
qed

lemma trimSpace_clean: "clean s \<Longrightarrow> trimSpace s = Some s"
proof -
  assume c: "clean s"
  then have "dropWhile is_blank s = s" by (cases s) (simp_all add: clean_def)
  moreover have "dropWhile is_blank (rev s) = rev s"
    using c by (cases s rule: rev_cases) (simp_all add: clean_def)
  ultimately show ?thesis using c by (simp add: trimSpace_def clean_def)
qed

lemma find_byte_append: "c \<notin> set k \<Longrightarrow> find_byte c (k @ c # v) = Some (length k)"
  by (simp add: find_byte_Some nth_append)

lemma parseLine_pair: "clean_pair p \<Longrightarrow> parseLine (fst p @ ch_eq # snd p) m = map_insert (fst p) (snd p) m"
  by (simp add: parseLine_def clean_pair_def find_byte_append trimSpace_clean)

lemma takeWhile_all: "c \<notin> set s \<Longrightarrow> takeWhile (\<lambda>x. x \<noteq> c) s = s"
  by (rule takeWhile_eq_all_conv [THEN iffD2]) auto

lemma load_line_pair:
  assumes "clean_pair p"
  shows "load_line (fst p @ ch_eq # snd p @ [ch_nl]) m = Inr (map_insert (fst p) (snd p) m)"
proof -
  define l where "l = fst p @ ch_eq # snd p"
  have "0 \<notin> set (l @ [ch_nl])" "ch_hash \<notin> set l"
    using assms by (auto simp: clean_pair_def clean_def l_def)
  moreover have "parseLine l m = map_insert (fst p) (snd p) m" "l \<noteq> []" using parseLine_pair [OF assms, of m] by (simp_all add: l_def)
  ultimately have "load_line (l @ [ch_nl]) m = Inr (map_insert (fst p) (snd p) m)" by (simp add: load_line_def Let_def takeWhile_all)
  then show ?thesis by (simp add: l_def)
qed

lemma config_line_pair: "clean_pair p \<Longrightarrow> config_line p = fst p @ ch_eq # snd p @ [ch_nl]"
  by (auto simp: config_line_def clean_pair_def intro!: take_all)

lemma load_written:
  "\<forall>p\<in>set ps. clean_pair p \<Longrightarrow>
   load_lines (concat (map config_line ps)) m = Inr (fold (\<lambda>p. map_insert (fst p) (snd p)) ps m)"
proof (induction ps arbitrary: m)
  case Nil
  then show ?case by (simp add: load_lines.simps)
next
  case (Cons p ps)
  let ?l = "fst p @ ch_eq # snd p" and ?s = "concat (map config_line ps)"
  have c: "clean_pair p" using Cons.prems by simp
  then have "fgets 255 (?l @ ch_nl # ?s) = (?l @ [ch_nl], ?s)"
    by (intro fgets_line) (auto simp: clean_pair_def clean_def)
  then show ?case
    using Cons load_line_pair [OF c] config_line_pair [OF c] by (simp add: load_lines.simps [of "fst p @ ch_eq # snd p @ ch_nl # ?s"])
qed

lemma write_pairs_all: "length m \<le> room \<Longrightarrow> write_pairs room m = (0, concat (map config_line m))"
  by (induction room m rule: write_pairs.induct) (simp_all add: Let_def)

section \<open>Properties\<close>

text \<open>
  C26: What \<^verbatim>\<open>setConfigValue\<close> stores can be read back.  For a loaded configuration whose keys and values are
  representable (not empty, no NUL, newline, hash or surrounding blanks, no equals sign in a key, at most
  127 bytes to a line), if the file can be written then \<^verbatim>\<open>setConfigValue\<close> returns 0, and a reader
  constructed on the file it wrote answers the new value for that name and the old ones for all others.
\<close>

theorem config_roundtrip:
  assumes "m_load_ok r = Some True" and "map_ok (m_config_map r)" and "\<forall>p\<in>set (m_config_map r). clean_pair p"
    and "clean_pair (name, value)" and "length (m_config_map r) < room"
  shows "\<exists>r1 file r2. setConfigValue True room name value r = Inr (0, r1, Some file) \<and>
    CConfigFileReader filename (Some file) = Inr r2 \<and>
    (\<forall>k. getConfigName k r2 = Inr (if k = name then Some value else map_find k (m_config_map r)))"
proof -
  let ?m = "map_set name value (m_config_map r)"
  have m: "map_ok ?m" "\<forall>p\<in>set ?m. clean_pair p"
    using map_set_post(1,3) [OF assms(2), of name "value"] assms(3,4) by auto
  have len: "length ?m \<le> Suc (length (m_config_map r))"
    using map_set_length [of name "value" "m_config_map r"] by (simp add: map_set_def)
  have w: "write_pairs room ?m = (0, concat (map config_line ?m))"
    using write_pairs_all [of ?m room] len assms(5) by simp
  have l: "load_lines (concat (map config_line ?m)) [] = Inr ?m"
    using load_written [OF m(2), of "[]"] insert_sorted_pairs [of "[]" ?m] m(1) by simp
  have "setConfigValue True room name value r =
      Inr (0, r\<lparr>m_config_map := ?m\<rparr>, Some (concat (map config_line ?m)))"
    using w assms(1) unfolding map_set_def by (simp add: setConfigValue_def writeFile_def Let_def)
  moreover have "CConfigFileReader filename (Some (concat (map config_line ?m))) =
      Inr \<lparr>m_load_ok = Some True, m_config_map = ?m, m_config_file = filename\<rparr>"
    using l by (simp add: CConfigFileReader_def loadFile_def)
  ultimately show ?thesis by (auto simp: getConfigName_def map_set_post(2) [OF assms(2)])
qed

text \<open>The sample: the port is changed in a configuration of one pair.\<close>

theorem config_roundtrip_witness:
  "\<exists>r1 file r2. setConfigValue True 5 (lit ''b'') (lit ''20'')
      \<lparr>m_load_ok = Some True, m_config_map = [(lit ''a'', lit ''x=1'')], m_config_file = lit ''f''\<rparr> = Inr (0, r1, Some file) \<and>
    CConfigFileReader (lit ''f'') (Some file) = Inr r2 \<and> getConfigName (lit ''b'') r2 = Inr (Some (lit ''20'')) \<and>
    getConfigName (lit ''a'') r2 = Inr (Some (lit ''x=1''))"
proof -
  let ?r = "\<lparr>m_load_ok = Some True, m_config_map = [(lit ''a'', lit ''x=1'')], m_config_file = lit ''f''\<rparr>"
  have "\<exists>r1 file r2. setConfigValue True 5 (lit ''b'') (lit ''20'') ?r = Inr (0, r1, Some file) \<and>
    CConfigFileReader (lit ''f'') (Some file) = Inr r2 \<and>
    (\<forall>k. getConfigName k r2 = Inr (if k = lit ''b'' then Some (lit ''20'') else map_find k (m_config_map ?r)))"
    by (rule config_roundtrip) (simp_all add: map_ok_def clean_pair_def clean_def is_blank_def lit_def)
  then obtain r1 out r2 where f: "setConfigValue True 5 (lit ''b'') (lit ''20'') ?r = Inr (0, r1, Some out)"
    "CConfigFileReader (lit ''f'') (Some out) = Inr r2"
    "\<And>k. getConfigName k r2 = Inr (if k = lit ''b'' then Some (lit ''20'') else map_find k (m_config_map ?r))" by blast
  have "lit ''a'' \<noteq> lit ''b''" by (simp add: lit_def)
  then show ?thesis using f by auto
qed

end
