(* ===== verification/Inet_Address.thy ===== *)
theory Inet_Address
  imports Byte_Buffer Protocol_Stream
begin

text \<open>
  \<^verbatim>\<open>net/InetAddress\<close> and the address functions of \<^verbatim>\<open>net/Sockets\<close>.  The fields of \<^verbatim>\<open>sockaddr_in\<close> hold their
  values in network byte order, as in the source.  The C library's \<^verbatim>\<open>inet_ntop\<close> and \<^verbatim>\<open>inet_pton\<close> convert
  between the four bytes of an address in memory and its dotted decimal text.
\<close>

section \<open>Dotted decimal notation\<close>

abbreviation ch_dot :: byte where "ch_dot \<equiv> 46"

definition octet_text :: "byte \<Rightarrow> bytes" where
  "octet_text b = nat_digits (unat b)"

fun join_dots :: "bytes list \<Rightarrow> bytes" where
  "join_dots [] = []"
| "join_dots [s] = s"
| "join_dots (s # ss) = s @ ch_dot # join_dots ss"

definition inet_ntop :: "int32 \<Rightarrow> bytes" where
  "inet_ntop s_addr = join_dots (map octet_text (le_bytes 4 s_addr))"

fun split_dots :: "bytes \<Rightarrow> bytes list" where
  "split_dots [] = [[]]"
| "split_dots (c # s) = (if c = ch_dot then [] # split_dots s else (c # hd (split_dots s)) # tl (split_dots s))"

definition octet_ok :: "bytes \<Rightarrow> bool" where
  "octet_ok s \<longleftrightarrow> s \<noteq> [] \<and> length s \<le> 3 \<and> (\<forall>c\<in>set s. is_digit c) \<and> digits_value s \<le> 255"

definition inet_pton :: "bytes \<Rightarrow> int32 option" where
  "inet_pton ip =
     (let parts = split_dots ip
      in if length parts = 4 \<and> (\<forall>s\<in>set parts. octet_ok s)
         then Some (of_le_bytes (map (\<lambda>s. word_of_int (digits_value s)) parts)) else None)"

section \<open>InetAddress\<close>

record sockaddr_in =
  sin_family :: int16
  sin_port :: int16
  s_addr :: int32

definition AF_INET :: int16 where "AF_INET = 2"
definition kInaddrAny :: int32 where "kInaddrAny = 0"
definition kInaddrLoopback :: int32 where "kInaddrLoopback = 0x7F000001"

definition zero_addr :: sockaddr_in where
  "zero_addr = \<lparr>sin_family = 0, sin_port = 0, s_addr = 0\<rparr>"

definition fromIpPort :: "bytes \<Rightarrow> int16 \<Rightarrow> sockaddr_in \<Rightarrow> sockaddr_in" where
  "fromIpPort ip port addr =
     (let addr1 = addr\<lparr>sin_family := AF_INET, sin_port := hostToNetwork16 port\<rparr>
      in case inet_pton ip of None \<Rightarrow> addr1 | Some a \<Rightarrow> addr1\<lparr>s_addr := a\<rparr>)"

definition InetAddress :: "int16 \<Rightarrow> bool \<Rightarrow> sockaddr_in" where
  "InetAddress port loopbackOnly =
     zero_addr\<lparr>sin_family := AF_INET, s_addr := hostToNetwork32 (if loopbackOnly then kInaddrLoopback else kInaddrAny),
               sin_port := hostToNetwork16 port\<rparr>"

definition InetAddress_ip :: "bytes \<Rightarrow> int16 \<Rightarrow> sockaddr_in" where
  "InetAddress_ip ip port = fromIpPort ip port zero_addr"

definition sin_toPort :: "sockaddr_in \<Rightarrow> int16" where
  "sin_toPort addr = networkToHost16 (sin_port addr)"

text \<open>The C string in a buffer; \<open>None\<close> when there is no terminator in it.\<close>

definition c_string :: "bytes \<Rightarrow> bytes option" where
  "c_string buf = (if 0 \<in> set buf then Some (takeWhile (\<lambda>c. c \<noteq> 0) buf) else None)"

text \<open>
  \<^verbatim>\<open>sockets::toIpPort\<close> and \<^verbatim>\<open>sockets::toIp\<close> on a buffer.  Each writes its text and a terminator over the
  front of the buffer; \<^verbatim>\<open>sizeof(struct sockaddr_in)\<close> is 16.
\<close>

definition sockets_toIpPort :: "bytes \<Rightarrow> sockaddr_in \<Rightarrow> bytes" where
  "sockets_toIpPort buf addr =
     (let buf1 = overwrite 0 (inet_ntop (s_addr addr) @ [0]) buf;
          e = length (takeWhile (\<lambda>c. c \<noteq> 0) buf1);
          port = networkToHost16 (sin_port addr)
      in overwrite e (take (length buf - e - 1) (lit '':'' @ print_int (uint port)) @ [0]) buf1)"

definition sockets_toIp :: "bytes \<Rightarrow> sockaddr_in \<Rightarrow> bytes" where
  "sockets_toIp buf addr =
     (if length buf \<ge> 16 then buf else overwrite 0 (inet_ntop (s_addr addr) @ [0]) buf)"

text \<open>\<open>junk\<close> is what the 32 bytes of the stack held before.\<close>

definition toIpPort :: "(nat \<Rightarrow> byte) \<Rightarrow> sockaddr_in \<Rightarrow> bytes option" where
  "toIpPort junk addr = c_string (sockets_toIpPort (map junk [0..<32]) addr)"

definition toIp :: "(nat \<Rightarrow> byte) \<Rightarrow> sockaddr_in \<Rightarrow> bytes option" where
  "toIp junk addr = c_string (sockets_toIp (map junk [0..<32]) addr)"

text \<open>\<^verbatim>\<open>resolve\<close>; \<open>answer\<close> is the address \<^verbatim>\<open>gethostbyname_r\<close> found.\<close>

definition resolve :: "int32 option \<Rightarrow> sockaddr_in \<Rightarrow> bool \<times> sockaddr_in" where
  "resolve answer addr = (case answer of None \<Rightarrow> (False, addr) | Some a \<Rightarrow> (True, addr\<lparr>s_addr := a\<rparr>))"

definition isSelfConnect :: "sockaddr_in \<Rightarrow> sockaddr_in \<Rightarrow> bool" where
  "isSelfConnect localaddr peeraddr \<longleftrightarrow> sin_port localaddr = sin_port peeraddr \<and> s_addr localaddr = s_addr peeraddr"

section \<open>Lemmas\<close>

lemma octet_text_ok: "octet_ok (octet_text b)"
proof -
  have u: "unat b < 256" using unat_bound [of b] by simp
  then have "length (nat_digits (unat b)) \<le> 3" using length_nat_digits [of 3 "unat b"] by simp
  then show ?thesis using u nat_digits_digits [of "unat b"] by (simp add: octet_ok_def octet_text_def digits_value_nat_digits del: of_nat_unat)
qed

lemma digit_not_dot: "is_digit c \<Longrightarrow> c \<noteq> ch_dot"
  by (auto simp: is_digit_def)

lemma split_dots_nonempty: "split_dots s \<noteq> []"
  by (cases s) simp_all

lemma split_dots_digits: "ch_dot \<notin> set s \<Longrightarrow> split_dots s = [s]"
  by (induction s) auto

lemma split_dots_append: "ch_dot \<notin> set s \<Longrightarrow> split_dots (s @ ch_dot # t) = s # split_dots t"
  by (induction s) auto

lemma split_join: "ss \<noteq> [] \<Longrightarrow> \<forall>s\<in>set ss. ch_dot \<notin> set s \<Longrightarrow> split_dots (join_dots ss) = ss"
  by (induction ss rule: join_dots.induct) (simp_all add: split_dots_digits split_dots_append)

lemma octet_no_dot: "ch_dot \<notin> set (octet_text b)"
  using octet_text_ok [of b] digit_not_dot by (auto simp: octet_ok_def)

text \<open>The address functions of the C library are inverse to each other.\<close>

lemma inet_pton_ntop: "inet_pton (inet_ntop a) = Some a"
proof -
  let ?os = "map octet_text (le_bytes 4 a)"
  have "?os \<noteq> []" by (simp add: length_0_conv [symmetric] del: length_0_conv)
  then have s: "split_dots (inet_ntop a) = ?os" unfolding inet_ntop_def by (rule split_join) (auto simp: octet_no_dot)
  have "map (\<lambda>s. word_of_int (digits_value s)) ?os = le_bytes 4 a"
    by (simp add: octet_text_def digits_value_nat_digits o_def)
  then show ?thesis
    using octet_text_ok by (simp add: inet_pton_def s of_le_bytes_le_bytes)
qed

lemma length_octet_text: "length (octet_text b) \<le> 3"
  using octet_text_ok [of b] by (simp add: octet_ok_def)

lemma inet_ntop_four:
  obtains p q r s where "inet_ntop a = octet_text p @ ch_dot # octet_text q @ ch_dot # octet_text r @ ch_dot # octet_text s"
proof -
  have "\<exists>p q r s. xs = [p, q, r, s]" if "length xs = 4" for xs :: bytes
    using that by (auto simp: numeral_eq_Suc length_Suc_conv)
  then obtain p q r s where "le_bytes 4 a = [p, q, r, s]" by (meson length_le_bytes)
  then show thesis using that by (simp add: inet_ntop_def)
qed

lemma length_inet_ntop: "length (inet_ntop a) \<le> 15"
proof -
  obtain p q r s where "inet_ntop a = octet_text p @ ch_dot # octet_text q @ ch_dot # octet_text r @ ch_dot # octet_text s"
    by (rule inet_ntop_four)
  then show ?thesis
    using length_octet_text [of p] length_octet_text [of q] length_octet_text [of r] length_octet_text [of s] by simp
qed

lemma digits_nonzero: "0 \<notin> set (nat_digits n)"
  using nat_digits_digits [of n] by (auto simp: is_digit_def)

lemma inet_ntop_nonzero: "0 \<notin> set (inet_ntop a)"
  by (rule inet_ntop_four [of a]) (auto simp: octet_text_def digits_nonzero)

lemma takeWhile_nonzero: "0 \<notin> set s \<Longrightarrow> takeWhile (\<lambda>c. c \<noteq> 0) (s @ 0 # t) = s"
  by (auto simp: takeWhile_append)

lemma port_text:
  fixes port :: int16
  shows "length (print_int (uint port)) \<le> 5" and "0 \<notin> set (print_int (uint port))"
proof -
  have "nat (uint port) < 10 ^ 5" using unat_bound [of port] by simp
  then show "length (print_int (uint port)) \<le> 5" using length_nat_digits [of 5] by (simp add: print_int_def)
  show "0 \<notin> set (print_int (uint port))" by (simp add: print_int_def digits_nonzero)
qed

text \<open>Writing a string and its terminator into a buffer that is large enough.\<close>

lemma c_string_overwrite:
  assumes "0 \<notin> set s" and "i + length s < length buf" and "0 \<notin> set (take i buf)"
  shows "c_string (overwrite i (s @ [0]) buf) = Some (take i buf @ s)"
proof -
  have "overwrite i (s @ [0]) buf = (take i buf @ s) @ 0 # drop (i + length s + 1) buf"
    using assms(2) by (simp add: overwrite_def)
  then show ?thesis
    using takeWhile_nonzero [of "take i buf @ s" "drop (i + length s + 1) buf"] assms(1,3) by (simp add: c_string_def)
qed

lemma toIpPort_text:
  "toIpPort junk addr = Some (inet_ntop (s_addr addr) @ lit '':'' @ print_int (uint (networkToHost16 (sin_port addr))))"
proof -
  let ?ip = "inet_ntop (s_addr addr)" and ?port = "lit '':'' @ print_int (uint (networkToHost16 (sin_port addr)))"
  let ?rest = "drop (length ?ip + 1) (map junk [0..<32])"
  let ?buf = "?ip @ 0 # ?rest"
  have len: "length ?ip \<le> 15" "length ?port \<le> 6" using length_inet_ntop port_text(1) by (simp_all add: lit_def)
  have o: "overwrite 0 (?ip @ [0]) (map junk [0..<32]) = ?buf" by (simp add: overwrite_def)
  have e: "length (takeWhile (\<lambda>c. c \<noteq> 0) ?buf) = length ?ip" using takeWhile_nonzero [OF inet_ntop_nonzero] by simp
  have lb: "length ?buf = 32" using len(1) by simp
  have t: "take (32 - length ?ip - 1) ?port = ?port" using len by (simp add: take_all)
  have "toIpPort junk addr = c_string (overwrite (length ?ip) (?port @ [0]) ?buf)"
    unfolding toIpPort_def sockets_toIpPort_def Let_def o e using t by simp
  also have "\<dots> = Some (take (length ?ip) ?buf @ ?port)"
  proof (rule c_string_overwrite)
    show "0 \<notin> set ?port" using port_text(2) by (simp add: lit_def)
    show "length ?ip + length ?port < length ?buf" using len lb by linarith
    show "0 \<notin> set (take (length ?ip) ?buf)" using inet_ntop_nonzero by simp
  qed
  finally show ?thesis by simp
qed

lemma byte_swap16: "byte_swap 2 (byte_swap 2 w) = (w :: int16)"
  by (simp add: byte_swap_byte_swap)

lemma length_toIpPort: "toIpPort junk addr = Some t \<Longrightarrow> length t \<le> 21"
  using length_inet_ntop [of "s_addr addr"] port_text(1) [of "networkToHost16 (sin_port addr)"]
  by (auto simp: toIpPort_text lit_def)

lemma InetAddress_ip_text:
  "s_addr (InetAddress_ip (inet_ntop a) port) = a" "networkToHost16 (sin_port (InetAddress_ip (inet_ntop a) port)) = port"
  by (simp_all add: InetAddress_ip_def fromIpPort_def inet_pton_ntop networkToHost16_def hostToNetwork16_def byte_swap16)

section \<open>Properties\<close>

text \<open>
  Addresses survive the way through text.  For every IPv4 address and port, the constructor applied to the
  dotted decimal text yields an address with exactly these bytes and this port, and \<^verbatim>\<open>toIpPort\<close> prints it
  as that text, a colon and the port, at most 21 characters, whatever the stack held before.
\<close>

theorem inet_address_roundtrip:
  "let addr = InetAddress_ip (inet_ntop a) port
   in s_addr addr = a \<and> sin_toPort addr = port \<and>
      (\<exists>t. toIpPort junk addr = Some t \<and> t = inet_ntop a @ lit '':'' @ print_int (uint port) \<and> length t \<le> 21)"
  using length_toIpPort [OF toIpPort_text [of junk "InetAddress_ip (inet_ntop a) port"]]
  by (simp add: sin_toPort_def toIpPort_text InetAddress_ip_text)

text \<open>
  \<^verbatim>\<open>toIp\<close> never prints the address: its size check is inverted, so for the 32-byte buffer it returns at once
  and the result is whatever the stack held.
\<close>

lemma toIp_ignores_address: "toIp junk addr = c_string (map junk [0..<32])"
  by (simp add: toIp_def sockets_toIp_def)

end
