(* ===== verification/Tcp_Server.thy ===== *)
theory Tcp_Server
  imports Std_Map Inet_Address "HOL-Library.List_Lexorder"
begin

text \<open>
  \<^verbatim>\<open>net/EventLoopThreadPool\<close> and \<^verbatim>\<open>net/TcpServer\<close>: accepted connections are given to the worker loops in
  turn, kept in a map under a generated name, and destroyed in the loop they belong to.  Functors handed to
  the loops are kept in \<open>loop_tasks\<close>, in the order of the calls; connection objects are numbered in the
  order of their creation.
\<close>

section \<open>EventLoopThreadPool\<close>

datatype loop_id = Base_loop | Worker nat

record loop_pool =
  m_baseLoop :: "loop_id option"
  pool_started :: bool
  m_numThreads :: int
  m_next :: nat
  m_loops :: "loop_id list"

definition EventLoopThreadPool :: loop_pool where
  "EventLoopThreadPool = \<lparr>m_baseLoop = None, pool_started = False, m_numThreads = 0, m_next = 0, m_loops = []\<rparr>"

definition pool_init :: "loop_id \<Rightarrow> int \<Rightarrow> loop_pool \<Rightarrow> loop_pool" where
  "pool_init baseLoop numThreads p = p\<lparr>m_numThreads := numThreads, m_baseLoop := Some baseLoop\<rparr>"

definition pool_start :: "loop_pool \<Rightarrow> loop_pool" where
  "pool_start p =
     (if m_baseLoop p = None \<or> pool_started p then p
      else p\<lparr>pool_started := True, m_loops := m_loops p @ map Worker [0..<nat (m_numThreads p)]\<rparr>)"

text \<open>\<^verbatim>\<open>getNextLoop\<close>: \<open>None\<close> is the null pointer.\<close>

definition getNextLoop :: "loop_pool \<Rightarrow> loop_id option \<times> loop_pool" where
  "getNextLoop p =
     (if \<not> pool_started p then (None, p)
      else if m_loops p \<noteq> []
      then (let loop = m_loops p ! m_next p; next = m_next p + 1
            in (Some loop, p\<lparr>m_next := (if next \<ge> length (m_loops p) then 0 else next)\<rparr>))
      else (m_baseLoop p, p))"

definition getLoopForHash :: "nat \<Rightarrow> loop_pool \<Rightarrow> loop_id option" where
  "getLoopForHash hashCode p =
     (if m_loops p \<noteq> [] then Some (m_loops p ! (hashCode mod length (m_loops p))) else m_baseLoop p)"

definition getAllLoops :: "loop_pool \<Rightarrow> loop_id option list" where
  "getAllLoops p = (if m_loops p = [] then [m_baseLoop p] else map Some (m_loops p))"

section \<open>TcpServer\<close>

datatype server_error = Null_pool | Null_loop | Null_connection

datatype server_task = Connect_established nat | Connect_destroyed nat

record server_conn =
  conn_name :: bytes
  conn_loop :: loop_id

record tcp_server =
  srv_name :: bytes
  m_hostport :: bytes
  m_pool :: "loop_pool option"
  srv_started :: bool
  srv_listening :: bool
  m_nextConnId :: int
  m_connections :: "(bytes \<times> nat option) list"
  srv_conns :: "server_conn list"
  loop_tasks :: "(loop_id \<times> server_task) list"

definition TcpServer :: "bytes \<Rightarrow> bytes \<Rightarrow> tcp_server" where
  "TcpServer hostport nameArg =
     \<lparr>srv_name = nameArg, m_hostport = hostport, m_pool = None, srv_started = False, srv_listening = False, m_nextConnId = 1,
      m_connections = [], srv_conns = [], loop_tasks = []\<rparr>"

definition start :: "int \<Rightarrow> tcp_server \<Rightarrow> tcp_server" where
  "start workerThreadCount srv =
     (if srv_started srv then srv
      else srv\<lparr>m_pool := Some (pool_start (pool_init Base_loop workerThreadCount EventLoopThreadPool)),
               srv_listening := True, srv_started := True\<rparr>)"

text \<open>
  The loop of \<^verbatim>\<open>stop\<close> over the map: the pointers are reset but the entries stay, so an entry left by an
  earlier \<^verbatim>\<open>stop\<close> is a null pointer that is dereferenced.
\<close>

fun stop_connections :: "(bytes \<times> nat option) list \<Rightarrow> tcp_server \<Rightarrow> server_error + tcp_server" where
  "stop_connections [] srv = Inr srv"
| "stop_connections ((name, None) # es) srv = Inl Null_connection"
| "stop_connections ((name, Some c) # es) srv =
     stop_connections es
       (srv\<lparr>m_connections := map_assign name None (m_connections srv),
            loop_tasks := loop_tasks srv @ [(conn_loop (srv_conns srv ! c), Connect_destroyed c)]\<rparr>)"

definition stop :: "tcp_server \<Rightarrow> server_error + tcp_server" where
  "stop srv =
     (if \<not> srv_started srv then Inr srv
      else (case stop_connections (m_connections srv) srv of
              Inl e \<Rightarrow> Inl e
            | Inr srv1 \<Rightarrow> Inr (srv1\<lparr>srv_started := False\<rparr>)))"

text \<open>The 32-byte buffer keeps 31 characters of the suffix.\<close>

definition connName :: "tcp_server \<Rightarrow> bytes" where
  "connName srv = srv_name srv @ take 31 (lit '':'' @ m_hostport srv @ lit ''#'' @ print_int (m_nextConnId srv))"

definition newConnection :: "tcp_server \<Rightarrow> server_error + tcp_server" where
  "newConnection srv =
     (case m_pool srv of
        None \<Rightarrow> Inl Null_pool
      | Some p \<Rightarrow>
          (case getNextLoop p of
             (None, p1) \<Rightarrow> Inl Null_loop
           | (Some ioLoop, p1) \<Rightarrow>
               (let name = connName srv; c = length (srv_conns srv)
                in Inr (srv\<lparr>m_pool := Some p1, m_nextConnId := m_nextConnId srv + 1,
                            srv_conns := srv_conns srv @ [\<lparr>conn_name = name, conn_loop = ioLoop\<rparr>],
                            m_connections := map_set name (Some c) (m_connections srv),
                            loop_tasks := loop_tasks srv @ [(ioLoop, Connect_established c)]\<rparr>))))"

definition removeConnectionInLoop :: "nat \<Rightarrow> tcp_server \<Rightarrow> tcp_server" where
  "removeConnectionInLoop c srv =
     (let name = conn_name (srv_conns srv ! c)
      in if map_find name (m_connections srv) = None then srv
         else srv\<lparr>m_connections := map_erase name (m_connections srv),
                  loop_tasks := loop_tasks srv @ [(conn_loop (srv_conns srv ! c), Connect_destroyed c)]\<rparr>)"

text \<open>A run of the server: connections come, and close callbacks arrive (for objects that exist).\<close>

datatype server_event = New_connection | Remove_connection nat

fun server_run :: "server_event list \<Rightarrow> tcp_server \<Rightarrow> server_error + tcp_server" where
  "server_run [] srv = Inr srv"
| "server_run (New_connection # es) srv =
     (case newConnection srv of Inl e \<Rightarrow> Inl e | Inr srv1 \<Rightarrow> server_run es srv1)"
| "server_run (Remove_connection c # es) srv =
     server_run es (if c < length (srv_conns srv) then removeConnectionInLoop c srv else srv)"

section \<open>Lemmas\<close>

lemma print_int_inj: "0 \<le> i \<Longrightarrow> 0 \<le> j \<Longrightarrow> print_int i = print_int j \<Longrightarrow> i = j"
  unfolding print_int_def by (simp del: int_nat_eq) (metis digits_value_nat_digits nat_eq_iff2 of_nat_eq_iff int_nat_eq)

text \<open>The name of the connection with number \<open>c\<close>, as long as it is not cut off.\<close>

definition name_of :: "tcp_server \<Rightarrow> nat \<Rightarrow> bytes" where
  "name_of srv c = srv_name srv @ lit '':'' @ m_hostport srv @ lit ''#'' @ print_int (int c + 1)"

lemma name_of_inj: "name_of srv c = name_of srv d \<Longrightarrow> c = d"
  using print_int_inj [of "int c + 1" "int d + 1"] by (simp add: name_of_def)

definition short_names :: "tcp_server \<Rightarrow> nat \<Rightarrow> bool" where
  "short_names srv k \<longleftrightarrow> length (m_hostport srv) \<le> 21 \<and> k < 10 ^ 8"

lemma connName_short:
  assumes "short_names srv k" and "m_nextConnId srv = int c + 1" and "c < k"
  shows "connName srv = name_of srv c"
proof -
  have "length (print_int (int c + 1)) \<le> 8"
    using length_nat_digits [of 8 "nat (int c + 1)"] assms(1,3) by (auto simp: print_int_def short_names_def)
  then show ?thesis using assms by (auto simp: connName_def name_of_def short_names_def lit_def)
qed

definition about :: "nat \<Rightarrow> loop_id \<times> server_task \<Rightarrow> bool" where
  "about c t \<longleftrightarrow> snd t = Connect_established c \<or> snd t = Connect_destroyed c"

text \<open>
  The invariant of a started server with \<open>n\<close> workers: connection \<open>c\<close> belongs to worker \<open>c mod n\<close>, it was
  established there first, and it is in the map until it has been destroyed there.
\<close>

definition conn_ok :: "nat \<Rightarrow> tcp_server \<Rightarrow> nat \<Rightarrow> bool" where
  "conn_ok n srv c \<longleftrightarrow> srv_conns srv ! c = \<lparr>conn_name = name_of srv c, conn_loop = Worker (c mod n)\<rparr> \<and>
     filter (about c) (loop_tasks srv) = (Worker (c mod n), Connect_established c) #
       (if map_find (name_of srv c) (m_connections srv) = None then [(Worker (c mod n), Connect_destroyed c)] else [])"

definition srv_inv :: "nat \<Rightarrow> tcp_server \<Rightarrow> bool" where
  "srv_inv n srv \<longleftrightarrow> 0 < n \<and> map_ok (m_connections srv) \<and> m_nextConnId srv = int (length (srv_conns srv)) + 1 \<and>
     m_pool srv = Some \<lparr>m_baseLoop = Some Base_loop, pool_started = True, m_numThreads = int n,
                        m_next = length (srv_conns srv) mod n, m_loops = map Worker [0..<n]\<rparr> \<and>
     (\<forall>c < length (srv_conns srv). conn_ok n srv c) \<and>
     (\<forall>c nm. map_find nm (m_connections srv) = Some c \<longrightarrow> (\<exists>d < length (srv_conns srv). nm = name_of srv d)) \<and>
     (\<forall>t\<in>set (loop_tasks srv). \<exists>c < length (srv_conns srv). about c t)"

lemma name_of_cong: "srv_name srv' = srv_name srv \<Longrightarrow> m_hostport srv' = m_hostport srv \<Longrightarrow> name_of srv' c = name_of srv c"
  by (simp add: name_of_def)

lemma new_name_fresh:
  assumes "srv_inv n srv"
  shows "map_find (name_of srv (length (srv_conns srv))) (m_connections srv) = None"
proof (rule ccontr)
  assume "map_find (name_of srv (length (srv_conns srv))) (m_connections srv) \<noteq> None"
  then obtain c d where "d < length (srv_conns srv)" "name_of srv (length (srv_conns srv)) = name_of srv d"
    using assms unfolding srv_inv_def by blast
  then show False using name_of_inj by blast
qed

lemma getNextLoop_turn:
  assumes "0 < n"
  defines "p \<equiv> \<lambda>k. \<lparr>m_baseLoop = Some Base_loop, pool_started = True, m_numThreads = int n, m_next = k mod n, m_loops = map Worker [0..<n]\<rparr>"
  shows "getNextLoop (p k) = (Some (Worker (k mod n)), p (Suc k))"
proof -
  have "k mod n < n" using assms(1) by simp
  then have "n \<le> Suc (k mod n) \<longleftrightarrow> Suc (k mod n) = n" by arith
  with \<open>k mod n < n\<close> show ?thesis using assms(1) by (simp add: getNextLoop_def p_def Let_def mod_Suc)
qed

lemma newConnection_inv:
  assumes inv: "srv_inv n srv" and "short_names srv k" and "length (srv_conns srv) < k"
  shows "\<exists>srv'. newConnection srv = Inr srv' \<and> srv_inv n srv' \<and> length (srv_conns srv') = Suc (length (srv_conns srv)) \<and>
    short_names srv' k \<and> name_of srv' = name_of srv \<and> (\<forall>nm. map_find nm (m_connections srv') =
      (if nm = name_of srv (length (srv_conns srv)) then Some (Some (length (srv_conns srv))) else map_find nm (m_connections srv)))"
proof -
  let ?c = "length (srv_conns srv)"
  let ?nm = "name_of srv ?c"
  let ?p = "\<lambda>k. \<lparr>m_baseLoop = Some Base_loop, pool_started = True, m_numThreads = int n, m_next = k mod n, m_loops = map Worker [0..<n]\<rparr>"
  define srv' where "srv' = srv\<lparr>m_pool := Some (?p (Suc ?c)), m_nextConnId := int (Suc ?c) + 1,
      srv_conns := srv_conns srv @ [\<lparr>conn_name = ?nm, conn_loop = Worker (?c mod n)\<rparr>],
      m_connections := map_set ?nm (Some ?c) (m_connections srv),
      loop_tasks := loop_tasks srv @ [(Worker (?c mod n), Connect_established ?c)]\<rparr>"
  have f: "srv_conns srv' = srv_conns srv @ [\<lparr>conn_name = ?nm, conn_loop = Worker (?c mod n)\<rparr>]"
    "m_connections srv' = map_set ?nm (Some ?c) (m_connections srv)"
    "loop_tasks srv' = loop_tasks srv @ [(Worker (?c mod n), Connect_established ?c)]"
    "m_pool srv' = Some (?p (Suc ?c))" "m_nextConnId srv' = int (Suc ?c) + 1"
    "m_hostport srv' = m_hostport srv" "srv_name srv' = srv_name srv"
    by (simp_all add: srv'_def)
  have n: "0 < n" and m: "map_ok (m_connections srv)" and id: "m_nextConnId srv = int ?c + 1" and p: "m_pool srv = Some (?p ?c)"
    and ok: "\<And>c. c < ?c \<Longrightarrow> conn_ok n srv c"
    and keys: "\<And>c nm. map_find nm (m_connections srv) = Some c \<Longrightarrow> \<exists>d < ?c. nm = name_of srv d"
    and tasks: "\<And>t. t \<in> set (loop_tasks srv) \<Longrightarrow> \<exists>c < ?c. about c t"
    using inv unfolding srv_inv_def by simp_all
  have "newConnection srv = Inr srv'"
    using p getNextLoop_turn [OF n, of ?c] connName_short [OF assms(2) id assms(3)] id by (simp add: newConnection_def Let_def srv'_def)
  moreover have find: "map_find nm (m_connections srv') = (if nm = ?nm then Some (Some ?c) else map_find nm (m_connections srv))" for nm
    using map_set_post(2) [OF m] by (simp add: f)
  have nn: "name_of srv' = name_of srv" by (simp add: name_of_def fun_eq_iff f)
  have old: "conn_ok n srv' c" if "c < ?c" for c
  proof -
    have "name_of srv c \<noteq> ?nm" using that name_of_inj by blast
    then show ?thesis using ok [OF that] that find by (simp add: conn_ok_def nn nth_append about_def f(1,3))
  qed
  have none: "filter (about ?c) (loop_tasks srv) = []"
    using tasks by (fastforce simp: filter_empty_conv about_def)
  have new: "conn_ok n srv' ?c" using find none by (simp add: conn_ok_def nn about_def f(1,3))
  have "srv_inv n srv'"
    unfolding srv_inv_def
  proof (intro conjI allI ballI impI)
    show "conn_ok n srv' c" if "c < length (srv_conns srv')" for c using that old new by (cases "c = ?c") (simp_all add: f(1))
    show "\<exists>d < length (srv_conns srv'). nm = name_of srv' d" if "map_find nm (m_connections srv') = Some c" for c nm
      using that keys [of nm c] find [of nm] by (auto simp: nn less_Suc_eq f(1) split: if_splits)
    show "\<exists>c < length (srv_conns srv'). about c t" if "t \<in> set (loop_tasks srv')" for t
      using that tasks [of t] by (auto simp: about_def less_Suc_eq f(1,3))
  qed (use n m map_set_post(1) in \<open>simp_all add: f\<close>)
  ultimately show ?thesis using assms(2) f(1,6) nn find by (simp add: short_names_def)
qed

lemma removeConnection_inv:
  assumes inv: "srv_inv n srv" and c: "c < length (srv_conns srv)"
  shows "srv_inv n (removeConnectionInLoop c srv)"
proof (cases "map_find (name_of srv c) (m_connections srv)")
  case None
  then show ?thesis using inv c by (simp add: removeConnectionInLoop_def srv_inv_def conn_ok_def)
next
  case (Some x)
  let ?nm = "name_of srv c"
  let ?srv = "srv\<lparr>m_connections := map_erase ?nm (m_connections srv),
                  loop_tasks := loop_tasks srv @ [(Worker (c mod n), Connect_destroyed c)]\<rparr>"
  have ok: "\<And>d. d < length (srv_conns srv) \<Longrightarrow> conn_ok n srv d" using inv by (simp add: srv_inv_def)
  have eq: "removeConnectionInLoop c srv = ?srv" using ok [OF c] Some by (simp add: removeConnectionInLoop_def conn_ok_def Let_def)
  have nn: "name_of ?srv = name_of srv" by (simp add: name_of_def fun_eq_iff)
  have "conn_ok n ?srv d" if d: "d < length (srv_conns srv)" for d
  proof (cases "d = c")
    case True
    then show ?thesis using ok [OF d] Some by (simp add: conn_ok_def nn map_find_erase about_def)
  next
    case False
    then have "name_of srv d \<noteq> ?nm" using name_of_inj by blast
    then show ?thesis using ok [OF d] False by (simp add: conn_ok_def nn map_find_erase about_def)
  qed
  then show ?thesis
    using inv c unfolding eq srv_inv_def by (auto simp: nn map_erase_ok map_find_erase about_def)
qed

lemma removeConnection_fields:
  assumes "srv_inv n srv" and "c < length (srv_conns srv)"
  shows "srv_conns (removeConnectionInLoop c srv) = srv_conns srv" "name_of (removeConnectionInLoop c srv) = name_of srv"
    "short_names (removeConnectionInLoop c srv) k = short_names srv k"
    "map_find nm (m_connections (removeConnectionInLoop c srv)) = (if nm = name_of srv c then None else map_find nm (m_connections srv))"
  using assms
  by (simp_all add: removeConnectionInLoop_def Let_def srv_inv_def conn_ok_def map_find_erase short_names_def name_of_def fun_eq_iff)

definition in_map :: "tcp_server \<Rightarrow> nat \<Rightarrow> bool" where
  "in_map srv c \<longleftrightarrow> map_find (name_of srv c) (m_connections srv) = Some (Some c)"

lemma server_run_inv:
  assumes "srv_inv n srv" and "short_names srv k" and "length (srv_conns srv) + length es \<le> k"
  shows "\<exists>srv'. server_run es srv = Inr srv' \<and> srv_inv n srv' \<and>
    length (srv_conns srv') = length (srv_conns srv) + length (filter (\<lambda>e. e = New_connection) es) \<and>
    (\<forall>c < length (srv_conns srv'). Remove_connection c \<notin> set es \<and> (c < length (srv_conns srv) \<longrightarrow> in_map srv c) \<longrightarrow> in_map srv' c)"
  using assms
proof (induction es srv rule: server_run.induct)
  case (1 srv)
  then show ?case by simp
next
  case (2 es srv)
  then obtain srv1 where 1: "newConnection srv = Inr srv1" "srv_inv n srv1" "length (srv_conns srv1) = Suc (length (srv_conns srv))"
    "short_names srv1 k" "name_of srv1 = name_of srv"
    and find: "\<And>nm. map_find nm (m_connections srv1) =
      (if nm = name_of srv (length (srv_conns srv)) then Some (Some (length (srv_conns srv))) else map_find nm (m_connections srv))"
    using newConnection_inv [of n srv k] by auto
  have keep: "in_map srv1 c" if "c < length (srv_conns srv) \<longrightarrow> in_map srv c" "c < length (srv_conns srv1)" for c
    using that 1(3,5) find name_of_inj [of srv c "length (srv_conns srv)"] by (auto simp: in_map_def less_Suc_eq)
  show ?case using "2.IH" [OF 1(1,2,4)] "2.prems"(3) 1(1,3) keep by auto
next
  case (3 c es srv)
  let ?srv = "if c < length (srv_conns srv) then removeConnectionInLoop c srv else srv"
  have 1: "srv_inv n ?srv" "short_names ?srv k" "srv_conns ?srv = srv_conns srv"
    using "3.prems" removeConnection_inv removeConnection_fields by auto
  have keep: "in_map ?srv d" if "in_map srv d" "d \<noteq> c" for d
    using that "3.prems"(1) removeConnection_fields(2,4) [of n srv c] name_of_inj [of srv d c] by (auto simp: in_map_def)
  have "length (srv_conns ?srv) + length es \<le> k" using "3.prems"(3) 1(3) by simp
  from "3.IH" [OF 1(1,2) this] show ?case using 1(3) keep by auto
qed

lemma start_inv: "0 < n \<Longrightarrow> srv_inv n (start (int n) (TcpServer hostport nm))"
  by (simp add: srv_inv_def start_def TcpServer_def pool_start_def pool_init_def EventLoopThreadPool_def map_ok_def)

section \<open>Properties\<close>

text \<open>
  C23: The life of a connection in the server.  After \<^verbatim>\<open>start\<close> with \<open>n > 0\<close> workers and any sequence of new
  connections and close callbacks (fewer than \<open>10 ^ 8\<close>), on any listening address, nothing crashes, and
  every connection \<open>c\<close> belongs to worker \<open>c mod n\<close> (round robin), is established there exactly once, and
  after that destroyed there exactly once when it is no longer in the map of the server and not at all
  while it is; a connection for which no close callback came is in the map.
\<close>

theorem server_connection_lifecycle:
  assumes "0 < n" and "toIpPort junk listenAddr = Some hostport" and "length es < 10 ^ 8"
  shows "\<exists>srv. server_run es (start (int n) (TcpServer hostport nm)) = Inr srv \<and>
    length (srv_conns srv) = length (filter (\<lambda>e. e = New_connection) es) \<and>
    (\<forall>c < length (srv_conns srv).
       conn_loop (srv_conns srv ! c) = Worker (c mod n) \<and>
       filter (about c) (loop_tasks srv) = (Worker (c mod n), Connect_established c) #
         (if map_find (conn_name (srv_conns srv ! c)) (m_connections srv) = None
          then [(Worker (c mod n), Connect_destroyed c)] else []) \<and>
       (Remove_connection c \<notin> set es \<longrightarrow> map_find (conn_name (srv_conns srv ! c)) (m_connections srv) = Some (Some c)))"
proof -
  let ?srv = "start (int n) (TcpServer hostport nm)"
  have s: "short_names ?srv (length es)" "srv_conns ?srv = []"
    using assms length_toIpPort [OF assms(2)] by (simp_all add: short_names_def start_def TcpServer_def)
  then obtain srv where run: "server_run es ?srv = Inr srv" and inv: "srv_inv n srv"
    and len: "length (srv_conns srv) = length (filter (\<lambda>e. e = New_connection) es)"
    and keep: "\<And>c. c < length (srv_conns srv) \<Longrightarrow> Remove_connection c \<notin> set es \<Longrightarrow> in_map srv c"
    using server_run_inv [OF start_inv [OF assms(1)] s(1), of es] by auto
  have "conn_ok n srv c" if "c < length (srv_conns srv)" for c using inv that by (simp add: srv_inv_def)
  then show ?thesis using run len keep by (auto simp: conn_ok_def in_map_def)
qed

text \<open>Two connections, then the first is closed (twice over), on a server with two workers.\<close>

theorem server_connection_lifecycle_witness:
  "\<exists>srv. server_run [New_connection, New_connection, Remove_connection 0, Remove_connection 0]
      (start 2 (TcpServer (inet_ntop 0x0100007F @ lit '':20000'') (lit ''S''))) = Inr srv \<and> length (srv_conns srv) = 2 \<and>
    conn_loop (srv_conns srv ! 1) = Worker 1 \<and> map_find (conn_name (srv_conns srv ! 1)) (m_connections srv) = Some (Some 1)"
proof -
  have "nat_digits 20000 = lit ''20000''" by (simp add: nat_digits.simps lit_def)
  then have "toIpPort (\<lambda>_. 0) \<lparr>sin_family = AF_INET, sin_port = hostToNetwork16 20000, s_addr = 0x0100007F\<rparr>
      = Some (inet_ntop 0x0100007F @ lit '':20000'')"
    by (simp add: toIpPort_text networkToHost16_def hostToNetwork16_def byte_swap16 print_int_def lit_def)
  from server_connection_lifecycle [OF _ this, of 2 "[New_connection, New_connection, Remove_connection 0, Remove_connection 0]" "lit ''S''"]
  show ?thesis by fastforce
qed

lemma length_nat_digits_ge: "10 ^ k \<le> n \<Longrightarrow> Suc k \<le> length (nat_digits n)"
proof (induction k arbitrary: n)
  case 0
  then show ?case using nat_digits_digits [of n] by (cases "nat_digits n") simp_all
next
  case (Suc k)
  then have "10 ^ k \<le> n div 10" by (simp add: less_eq_div_iff_mult_less_eq mult.commute)
  moreover have "10 \<le> n" using Suc.prems by (simp add: order_trans [of 10 "10 * 10 ^ k"])
  ultimately show ?case using Suc.IH [of "n div 10"] by (subst nat_digits.simps) simp
qed

text \<open>
  With more than 29 characters in the address and the number the suffix is cut: then numbers that differ in
  the last digit only give the same name, and the map entry of the first connection is overwritten.
\<close>

lemma connection_names_collide:
  assumes "length (m_hostport srv) = 21" and "10 ^ 7 \<le> i" and "d < 10" and "e < 10"
  shows "connName (srv\<lparr>m_nextConnId := int (10 * i + d)\<rparr>) = connName (srv\<lparr>m_nextConnId := int (10 * i + e)\<rparr>)"
proof -
  have p: "nat_digits (10 * i + x) = nat_digits i @ [48 + word_of_nat x]" if "x < 10" for x
    using that assms(2) by (subst nat_digits.simps) simp
  have "8 \<le> length (nat_digits i)" using length_nat_digits_ge [OF assms(2)] by simp
  moreover have "print_int (int j) = nat_digits j" for j by (simp add: print_int_def)
  ultimately show ?thesis
    using assms(1) p [OF assms(3)] p [OF assms(4)] by (simp add: connName_def lit_def del: of_nat_add of_nat_mult)
qed

end
