(* ===== verification/Chat_Loops.thy ===== *)
theory Chat_Loops
  imports Chat_Sessions Poller
begin

text \<open>
  The chat server in its worker loops.  \<^verbatim>\<open>ChatSession::onRead\<close> runs in the loop of its connection, and the loops
  run at the same time: between two accesses of one handler to shared state the handlers of the other loops
  go on.  The steps here are as fine as those accesses.  \<^verbatim>\<open>onLoginResponse\<close> looks up the holder of the account
  (under the mutex of the session list), tells it, resets its user id and writes the new one (both without a
  lock), composes the reply from the member, sends it and sets the flag; \<^verbatim>\<open>onConnected\<close> increments the session
  counter without a lock and appends the session under the mutex.  The other handlers read one thing of the
  shared state and send, and are one step each.  So is the look-up: it holds the mutex of the list, and a user id
  that another loop stores meanwhile is read as before or as after the store.  \<^verbatim>\<open>Channel::handleEvent\<close> runs one callback after the other, also
  when one of them has closed the connection.
\<close>

section \<open>State\<close>

text \<open>The local variables of \<^verbatim>\<open>onLoginResponse\<close>: its connection and session, the callbacks still to run, the request.\<close>

record login =
  l_conn :: nat
  l_ptr :: nat
  l_rest :: "upcall list"
  l_seq :: int32
  l_name :: bytes
  l_user :: user

text \<open>
  Where a loop is: waiting; in \<^verbatim>\<open>onConnected\<close> after it has read, or stored, the session counter; between the
  callbacks of an event; in the receive loop of a session; in \<^verbatim>\<open>onLoginResponse\<close>; or about to end \<^verbatim>\<open>process\<close>.
\<close>

datatype loop_at =
    Idle
  | Counted nat int32
  | Numbered nat
  | Upcalls nat "upcall list"
  | Reading nat nat "upcall list"
  | Login_lookup login
  | Login_kick login nat nat
  | Login_invalidate login nat
  | Login_record login
  | Login_text login
  | Login_send login bytes
  | Login_flag login
  | Request_done nat nat "upcall list"

text \<open>
  \<open>down\<close> are the connections whose \<^verbatim>\<open>handleClose\<close> has run, \<open>granted\<close> the sessions that have given a user's password,
  with the user id.
\<close>

record 'r loops =
  srv :: "'r chat_server"
  bufs :: "nat \<Rightarrow> byte_buffer"
  down :: "nat set"
  pc :: "nat \<Rightarrow> loop_at"
  granted :: "(nat \<times> int32) list"

definition loops_start :: "'r chat_server \<Rightarrow> 'r loops" where
  "loops_start st = \<lparr>srv = st, bufs = (\<lambda>_. ByteBuffer kInitialSize), down = {}, pc = (\<lambda>_. Idle), granted = []\<rparr>"

section \<open>Steps of a handler\<close>

text \<open>The first part of \<^verbatim>\<open>process\<close>: what the stream of a frame contains.\<close>

datatype request = Malformed | No_data int32 | Stream_error | Request int32 int32 bytes

definition read_request :: "bytes \<Rightarrow> request" where
  "read_request inbuf =
     (case ReadInt32 (BinaryStreamReader inbuf) of
        (None, _) \<Rightarrow> Malformed
      | (Some cmd, r1) \<Rightarrow>
          (case ReadInt32 r1 of
             (None, _) \<Rightarrow> Malformed
           | (Some seq, r2) \<Rightarrow>
               (case ReadString 0 r2 of
                  Inl _ \<Rightarrow> Stream_error
                | Inr (None, _, _) \<Rightarrow> No_data seq
                | Inr (Some data, _, _) \<Rightarrow> Request cmd seq data)))"

text \<open>
  One request: \<^verbatim>\<open>process\<close> up to the point where \<^verbatim>\<open>onLoginResponse\<close> has compared the password, or to the end of another
  handler.  The result is the next position, the grant of a user id if there was one, and the shared state.
\<close>

definition request_step ::
  "'r chat_env \<Rightarrow> nat \<Rightarrow> nat \<Rightarrow> upcall list \<Rightarrow> bytes \<Rightarrow> 'r chat_server
     \<Rightarrow> chat_error + (loop_at \<times> (nat \<times> int32) list \<times> 'r chat_server)" where
  "request_step env c p rest inbuf st =
     (case read_request inbuf of
        Malformed \<Rightarrow> Inr (Upcalls c rest, [], emit (ForceClose c) st)
      | Stream_error \<Rightarrow> Inl Bad_stream
      | No_data seq \<Rightarrow>
          if map_of (m_sessions st) p = None then Inl Bad_session
          else Inr (Upcalls c rest, [], emit (ForceClose c) (upd_session p (set_seq seq) st))
      | Request cmd seq data \<Rightarrow>
          (let st1 = upd_session p (set_seq seq) st
           in if map_of (m_sessions st) p = None then Inl Bad_session
              else if cmd = msg_type_login
              then (case login_request (env_json env) data of
                      None \<Rightarrow> Inl Bad_json
                    | Some (name, pw) \<Rightarrow>
                        (let cachedUser = snd (getUserInfoByUsername name no_user (users st1));
                             x = \<lparr>l_conn = c, l_ptr = p, l_rest = rest, l_seq = seq, l_name = name, l_user = cachedUser\<rparr>
                         in if password cachedUser \<noteq> pw then Inr (Login_send x login_bad_text, [], st1)
                            else Inr (Login_lookup x, [(p, userid cachedUser)], st1)))
              else (case dispatch env p cmd data st1 of
                      Inl e \<Rightarrow> Inl e
                    | Inr (False, st2) \<Rightarrow> Inr (Upcalls c rest, [], emit (ForceClose c) st2)
                    | Inr (True, st2) \<Rightarrow> Inr (Request_done c p rest, [], st2))))"

text \<open>One round of the loop of \<^verbatim>\<open>onRead\<close>.\<close>

definition read_step ::
  "'r chat_env \<Rightarrow> nat \<Rightarrow> nat \<Rightarrow> upcall list \<Rightarrow> byte_buffer \<Rightarrow> 'r chat_server
     \<Rightarrow> chat_error + (loop_at \<times> (nat \<times> int32) list \<times> byte_buffer \<times> 'r chat_server)" where
  "read_step env c p rest b st =
     (if readableBytes b < sizeof_header then Inr (Upcalls c rest, [], b, st)
      else if sint (peek_header b) > MAX_PACKAGE_SIZE then Inr (Upcalls c rest, [], b, emit (ForceClose c) st)
      else if readableBytes b < unat ((scast (peek_header b) :: 64 word) + word_of_nat sizeof_header)
      then Inr (Upcalls c rest, [], b, st)
      else if sint (peek_header b) < 0 then Inl Bad_length
      else (let n = nat (sint (peek_header b));
                b1 = snd (retrieve sizeof_header b);
                inbuf = take n (content b1);
                b2 = snd (retrieve n b1)
            in case request_step env c p rest inbuf st of
                 Inl e \<Rightarrow> Inl e
               | Inr (a, g, st1) \<Rightarrow> Inr (a, g, b2, st1)))"

text \<open>
  The rest of \<^verbatim>\<open>onLoginResponse\<close>, and the end of \<^verbatim>\<open>process\<close>.  The session found by the look-up is held by a shared
  pointer, so that the two calls on it are safe when its own loop has dropped it from the list meanwhile.
\<close>

fun login_step :: "'r chat_env \<Rightarrow> loop_at \<Rightarrow> 'r chat_server \<Rightarrow> chat_error + (loop_at \<times> 'r chat_server)" where
  "login_step env (Login_lookup x) st =
     (case getSessionByUserId (userid (l_user x)) (m_sessions st) of
        None \<Rightarrow> Inr (Login_record x, st)
      | Some q \<Rightarrow>
          (case map_of (m_sessions st) q of
             None \<Rightarrow> Inl Bad_session
           | Some t \<Rightarrow> Inr (Login_kick x q (tmpConn t), st)))"
| "login_step env (Login_kick x q conn) st =
     (case TcpSession_send env conn msg_type_kickuser (l_seq x) [] st of
        Inl e \<Rightarrow> Inl e
      | Inr st1 \<Rightarrow> Inr (Login_invalidate x q, st1))"
| "login_step env (Login_invalidate x q) st = Inr (Login_record x, upd_session q makeSessionInvalid st)"
| "login_step env (Login_record x) st =
     Inr (Login_text x, upd_session (l_ptr x) (record_user (userid (l_user x)) (l_name x)) st)"
| "login_step env (Login_text x) st =
     (case map_of (m_sessions st) (l_ptr x) of
        None \<Rightarrow> Inl Bad_session
      | Some s \<Rightarrow> Inr (Login_send x (login_ok_text (oi_userid (m_userinfo s)) (username (l_user x))), st))"
| "login_step env (Login_send x text) st =
     (case TcpSession_send env (l_conn x) msg_type_login (l_seq x) text st of
        Inl e \<Rightarrow> Inl e
      | Inr st1 \<Rightarrow> Inr (Login_flag x, st1))"
| "login_step env (Login_flag x) st =
     Inr (Request_done (l_conn x) (l_ptr x) (l_rest x), upd_session (l_ptr x) set_login st)"
| "login_step env (Request_done c p rest) st = Inr (Reading c p rest, touch env p (upd_session p bump_seq st))"
| "login_step env a st = Inr (a, st)"

text \<open>A step inside \<^verbatim>\<open>onRead\<close>: position, grant, input buffer of the connection and shared state.\<close>

definition handler_step ::
  "'r chat_env \<Rightarrow> loop_at \<Rightarrow> byte_buffer \<Rightarrow> 'r chat_server
     \<Rightarrow> chat_error + (loop_at \<times> (nat \<times> int32) list \<times> byte_buffer \<times> 'r chat_server)" where
  "handler_step env a b st =
     (case a of
        Reading c p rest \<Rightarrow> read_step env c p rest b st
      | _ \<Rightarrow> (case login_step env a st of Inl e \<Rightarrow> Inl e | Inr (a1, st1) \<Rightarrow> Inr (a1, [], b, st1)))"

section \<open>Steps of a loop\<close>

text \<open>\<^verbatim>\<open>TcpConnection::handleClose\<close>: the second time it does nothing.\<close>

definition handle_close :: "'r chat_env \<Rightarrow> nat \<Rightarrow> 'r loops \<Rightarrow> 'r loops" where
  "handle_close env c sys =
     (if c \<in> down sys then sys
      else sys\<lparr>down := insert c (down sys), srv := onConnected env c False (srv sys)\<rparr>)"

text \<open>The end of \<^verbatim>\<open>onConnected\<close> for a new connection, with the session counter as it is now.\<close>

definition add_session :: "'r chat_env \<Rightarrow> nat \<Rightarrow> 'r chat_server \<Rightarrow> 'r chat_server" where
  "add_session env c st =
     (let p = next_ptr st;
          s = ChatSession c (m_sessionId st) (env_uninit env (2 * p)) (env_uninit env (2 * p + 1)) (env_time env (ticks st))
      in st\<lparr>next_ptr := p + 1, ticks := ticks st + 1, callbacks := (callbacks st)(c := Some p),
            m_sessions := m_sessions st @ [(p, s)]\<rparr>)"

definition set_pc :: "nat \<Rightarrow> loop_at \<Rightarrow> 'r loops \<Rightarrow> 'r loops" where
  "set_pc l a sys = sys\<lparr>pc := (pc sys)(l := a)\<rparr>"

text \<open>
  The next callback of an event: \<open>rd\<close> is what reading the socket gives (nothing: the end of the stream; \<open>None\<close>: an
  error), \<open>wfail\<close> whether writing fails.
\<close>

fun upcall_step :: "'r chat_env \<Rightarrow> nat \<Rightarrow> bytes option \<Rightarrow> bool \<Rightarrow> nat \<Rightarrow> upcall list \<Rightarrow> 'r loops \<Rightarrow> 'r loops" where
  "upcall_step env l rd wfail c [] sys = set_pc l Idle sys"
| "upcall_step env l rd wfail c (CloseCb # us) sys = set_pc l (Upcalls c us) (handle_close env c sys)"
| "upcall_step env l rd wfail c (ErrorCb # us) sys = set_pc l (Upcalls c us) (handle_close env c sys)"
| "upcall_step env l rd wfail c (WriteCb # us) sys =
     set_pc l (Upcalls c us) (if wfail then handle_close env c sys else sys)"
| "upcall_step env l rd wfail c (ReadCb # us) sys =
     (case rd of
        None \<Rightarrow> set_pc l (Upcalls c us) (handle_close env c sys)
      | Some d \<Rightarrow>
          if d = [] then set_pc l (Upcalls c us) (handle_close env c sys)
          else (let sys1 = sys\<lparr>bufs := (bufs sys)(c := append_data d (bufs sys c))\<rparr>
                in case callbacks (srv sys) c of
                     None \<Rightarrow> set_pc l (Upcalls c us) sys1
                   | Some p \<Rightarrow> set_pc l (Reading c p us) sys1))"

fun pc_conn :: "loop_at \<Rightarrow> nat option" where
  "pc_conn Idle = None"
| "pc_conn (Counted c v) = Some c"
| "pc_conn (Numbered c) = Some c"
| "pc_conn (Upcalls c us) = Some c"
| "pc_conn (Reading c p us) = Some c"
| "pc_conn (Login_lookup x) = Some (l_conn x)"
| "pc_conn (Login_kick x q d) = Some (l_conn x)"
| "pc_conn (Login_invalidate x q) = Some (l_conn x)"
| "pc_conn (Login_record x) = Some (l_conn x)"
| "pc_conn (Login_text x) = Some (l_conn x)"
| "pc_conn (Login_send x t) = Some (l_conn x)"
| "pc_conn (Login_flag x) = Some (l_conn x)"
| "pc_conn (Request_done c p us) = Some c"

text \<open>
  What happens: a connection is established in its loop (\<open>ok\<close>: its channel could be registered), the poller reports
  events on one, a functor closes one, a connection object is destroyed, a loop takes its next step.
\<close>

datatype loop_event =
    Accept nat bool
  | Event nat int32
  | Closing nat
  | Destroyed nat
  | Run nat "bytes option" bool

definition loop_step :: "'r chat_env \<Rightarrow> (nat \<Rightarrow> nat) \<Rightarrow> loop_event \<Rightarrow> 'r loops \<Rightarrow> chat_error + 'r loops" where
  "loop_step env home e sys =
     (case e of
        Accept c ok \<Rightarrow>
          if c \<in> set (live_conns (srv sys)) \<or> pc sys (home c) \<noteq> Idle then Inr sys
          else (let st = (srv sys)\<lparr>live_conns := live_conns (srv sys) @ [c], callbacks := (callbacks (srv sys))(c := None)\<rparr>;
                    sys1 = sys\<lparr>srv := st, bufs := (bufs sys)(c := ByteBuffer kInitialSize), down := down sys - {c}\<rparr>
                in Inr (if ok then set_pc (home c) (Counted c (m_sessionId st)) sys1 else handle_close env c sys1))
      | Event c revents \<Rightarrow>
          if c \<notin> set (live_conns (srv sys)) \<or> c \<in> down sys \<or> pc sys (home c) \<noteq> Idle then Inr sys
          else Inr (set_pc (home c) (Upcalls c (handleEvent revents)) sys)
      | Closing c \<Rightarrow>
          if c \<notin> set (live_conns (srv sys)) \<or> pc sys (home c) \<noteq> Idle then Inr sys
          else Inr (handle_close env c sys)
      | Destroyed c \<Rightarrow>
          if c \<notin> down sys \<or> pc_conn (pc sys (home c)) = Some c then Inr sys
          else Inr (sys\<lparr>srv := (srv sys)\<lparr>live_conns := removeAll c (live_conns (srv sys))\<rparr>\<rparr>)
      | Run l rd wfail \<Rightarrow>
          (case pc sys l of
             Idle \<Rightarrow> Inr sys
           | Counted c v \<Rightarrow> Inr (set_pc l (Numbered c) (sys\<lparr>srv := (srv sys)\<lparr>m_sessionId := v + 1\<rparr>\<rparr>))
           | Numbered c \<Rightarrow> Inr (set_pc l Idle (sys\<lparr>srv := add_session env c (srv sys)\<rparr>))
           | Upcalls c us \<Rightarrow> Inr (upcall_step env l rd wfail c us sys)
           | a \<Rightarrow>
               (let c = the (pc_conn a)
                in case handler_step env a (bufs sys c) (srv sys) of
                     Inl er \<Rightarrow> Inl er
                   | Inr (a1, g, b, st) \<Rightarrow>
                       Inr (set_pc l a1 (sys\<lparr>srv := st, bufs := (bufs sys)(c := b), granted := granted sys @ g\<rparr>)))))"

fun loop_run :: "'r chat_env \<Rightarrow> (nat \<Rightarrow> nat) \<Rightarrow> loop_event list \<Rightarrow> 'r loops \<Rightarrow> chat_error + 'r loops" where
  "loop_run env home [] sys = Inr sys"
| "loop_run env home (e # es) sys =
     (case loop_step env home e sys of Inl er \<Rightarrow> Inl er | Inr sys1 \<Rightarrow> loop_run env home es sys1)"

section \<open>What a handler step changes\<close>

fun pc_ptr :: "loop_at \<Rightarrow> nat option" where
  "pc_ptr Idle = None"
| "pc_ptr (Counted c v) = None"
| "pc_ptr (Numbered c) = None"
| "pc_ptr (Upcalls c us) = None"
| "pc_ptr (Reading c p us) = Some p"
| "pc_ptr (Login_lookup x) = Some (l_ptr x)"
| "pc_ptr (Login_kick x q d) = Some (l_ptr x)"
| "pc_ptr (Login_invalidate x q) = Some (l_ptr x)"
| "pc_ptr (Login_record x) = Some (l_ptr x)"
| "pc_ptr (Login_text x) = Some (l_ptr x)"
| "pc_ptr (Login_send x t) = Some (l_ptr x)"
| "pc_ptr (Login_flag x) = Some (l_ptr x)"
| "pc_ptr (Request_done c p us) = Some p"

fun pc_rest :: "loop_at \<Rightarrow> upcall list" where
  "pc_rest (Upcalls c us) = us"
| "pc_rest (Reading c p us) = us"
| "pc_rest (Login_lookup x) = l_rest x"
| "pc_rest (Login_kick x q d) = l_rest x"
| "pc_rest (Login_invalidate x q) = l_rest x"
| "pc_rest (Login_record x) = l_rest x"
| "pc_rest (Login_text x) = l_rest x"
| "pc_rest (Login_send x t) = l_rest x"
| "pc_rest (Login_flag x) = l_rest x"
| "pc_rest (Request_done c p us) = us"
| "pc_rest _ = []"

text \<open>The user a login is for, from the look-up of the holder to the writing of the user id.\<close>

fun pc_taking :: "loop_at \<Rightarrow> int32 option" where
  "pc_taking (Login_kick x q d) = Some (userid (l_user x))"
| "pc_taking (Login_invalidate x q) = Some (userid (l_user x))"
| "pc_taking (Login_record x) = Some (userid (l_user x))"
| "pc_taking _ = None"

text \<open>All positions of \<^verbatim>\<open>onLoginResponse\<close> at which the password has been compared.\<close>

fun pc_user :: "loop_at \<Rightarrow> (nat \<times> int32) option" where
  "pc_user (Login_lookup x) = Some (l_ptr x, userid (l_user x))"
| "pc_user (Login_kick x q d) = Some (l_ptr x, userid (l_user x))"
| "pc_user (Login_invalidate x q) = Some (l_ptr x, userid (l_user x))"
| "pc_user (Login_record x) = Some (l_ptr x, userid (l_user x))"
| "pc_user _ = None"

lemma process_request:
  "process env p inbuf st =
     (case read_request inbuf of
        Malformed \<Rightarrow> Inr (False, st)
      | No_data seq \<Rightarrow> Inr (False, upd_session p (set_seq seq) st)
      | Stream_error \<Rightarrow> Inl Bad_stream
      | Request cmd seq data \<Rightarrow>
          (case dispatch env p cmd data (upd_session p (set_seq seq) st) of
             Inl e \<Rightarrow> Inl e
           | Inr (False, st2) \<Rightarrow> Inr (False, st2)
           | Inr (True, st2) \<Rightarrow> Inr (True, upd_session p bump_seq st2)))"
  by (simp add: process_def read_request_def Let_def split: prod.split option.split sum.split)

text \<open>A handler other than the login one keeps the user ids.\<close>

lemma dispatch_other:
  assumes "dispatch env p cmd data st = Inr (ok, st1)" and "cmd \<noteq> msg_type_login"
  shows "same_frame st st1 \<and> uids st1 = uids st"
proof -
  obtain s where "map_of (m_sessions st) p = Some s" using assms(1) by (auto simp: dispatch_def split: option.splits)
  then show ?thesis
    using assms other_handlers_keep [of env s] sends_only_keeps [OF TcpSession_send_sends_only, of env _ _ _ _ st]
    by (auto simp: dispatch_def map_sum_Inr split: if_splits)
qed

lemma emit_view: "same_frame st (emit e st)" "uids (emit e st) = uids st"
  by (simp_all add: same_frame_def skeleton_def uids_def emit_def)

definition same_view :: "'r chat_server \<Rightarrow> 'r chat_server \<Rightarrow> bool" where
  "same_view st st' \<longleftrightarrow> same_frame st st' \<and> uids st' = uids st"

lemma same_viewI [intro]:
  "same_view st st" "same_view st (emit e st)" "same_view st (upd_session p (set_seq n) st)"
  "same_view st (upd_session p bump_seq st)" "same_view st (touch env p st)"
  "same_view st (upd_session p set_login st)"
  by (auto simp: same_view_def emit_view seq_keeps touch_keeps_view intro: upd_session_frame simp: uids_upd_same)

lemma same_view_trans': "same_view a b \<Longrightarrow> same_view b c \<Longrightarrow> same_view a c"
  by (auto simp: same_view_def intro: same_frame_trans)

lemma send_view: "TcpSession_send env c cmd seq d st = Inr st' \<Longrightarrow> same_view st st'"
  unfolding same_view_def using sends_only_keeps [OF TcpSession_send_sends_only, of env c cmd seq d st st'] by blast

text \<open>The position after a step works for the same connection with the same session, unless the handler is left.\<close>

definition goes_on :: "loop_at \<Rightarrow> loop_at \<Rightarrow> bool" where
  "goes_on a a' \<longleftrightarrow> pc_conn a' = pc_conn a \<and> pc_rest a' = pc_rest a \<and> pc_ptr a' \<in> {pc_ptr a, None} \<and>
     (\<forall>c v. a' \<noteq> Counted c v \<and> a' \<noteq> Numbered c)"

lemma request_step_effect:
  assumes "request_step env c p rest inbuf st = Inr (a', g, st')"
  shows "same_view st st' \<and> goes_on (Reading c p rest) a' \<and> pc_taking a' = None \<and>
    (\<forall>x. pc_user a' = Some x \<longrightarrow> g = [x])"
proof (cases "read_request inbuf")
  case (Request cmd seq data)
  let ?st1 = "upd_session p (set_seq seq) st"
  show ?thesis
  proof (cases "cmd = msg_type_login")
    case True
    then show ?thesis
      using assms Request by (auto simp: request_step_def goes_on_def Let_def split: option.splits if_splits prod.splits)
  next
    case False
    then obtain ok st2 where d: "dispatch env p cmd data ?st1 = Inr (ok, st2)"
      and r: "(a', g, st') = (if ok then (Request_done c p rest, [], st2) else (Upcalls c rest, [], emit (ForceClose c) st2))"
      using assms Request by (auto simp: request_step_def Let_def split: sum.splits if_splits bool.splits)
    have "same_view ?st1 st2" using dispatch_other [OF d False] by (simp add: same_view_def)
    then have "same_view st st2" by (rule same_view_trans' [OF same_viewI(3)])
    then show ?thesis using r by (auto simp: goes_on_def intro: same_view_trans' split: if_splits)
  qed
qed (use assms in \<open>auto simp: request_step_def goes_on_def intro: same_view_trans' split: if_splits\<close>)

lemma read_step_effect:
  assumes "read_step env c p rest b st = Inr (a', g, b', st')"
  shows "same_view st st' \<and> goes_on (Reading c p rest) a' \<and> pc_taking a' = None \<and>
    (\<forall>x. pc_user a' = Some x \<longrightarrow> g = [x])"
proof (cases "readableBytes b < sizeof_header \<or> sint (peek_header b) > MAX_PACKAGE_SIZE \<or>
      readableBytes b < unat ((scast (peek_header b) :: 64 word) + word_of_nat sizeof_header) \<or> sint (peek_header b) < 0")
  case True
  then show ?thesis using assms by (auto simp: read_step_def goes_on_def split: if_splits)
next
  case False
  then obtain inbuf where "request_step env c p rest inbuf st = Inr (a', g, st')"
    using assms by (auto simp: read_step_def Let_def split: if_splits sum.splits)
  then show ?thesis by (rule request_step_effect)
qed

text \<open>The two steps that write a user id.\<close>

definition new_uids :: "loop_at \<Rightarrow> (nat \<times> int32) list \<Rightarrow> (nat \<times> int32) list" where
  "new_uids a us =
     (case a of
        Login_invalidate x q \<Rightarrow> map (\<lambda>(r, v). (r, if r = q then 0 else v)) us
      | Login_record x \<Rightarrow> map (\<lambda>(r, v). (r, if r = l_ptr x then userid (l_user x) else v)) us
      | _ \<Rightarrow> us)"

lemma uids_upd:
  "(\<And>s. oi_userid (m_userinfo (f s)) = u) \<Longrightarrow> uids (upd_session p f st) = map (\<lambda>(r, v). (r, if r = p then u else v)) (uids st)"
  by (auto simp: uids_def upd_session_def)

lemma login_step_effect:
  assumes "login_step env a st = Inr (a', st')" and "pc_ptr a \<noteq> None"
  shows "same_frame st st' \<and> uids st' = new_uids a (uids st) \<and> goes_on a a' \<and>
    (\<forall>x. pc_user a' = Some x \<longrightarrow> pc_user a = Some x)"
proof (cases a)
  case (Login_lookup x)
  then show ?thesis using assms by (auto simp: new_uids_def goes_on_def split: option.splits)
next
  case (Login_kick x q d)
  then show ?thesis using assms by (auto simp: new_uids_def goes_on_def same_view_def dest: send_view split: sum.splits)
next
  case (Login_invalidate x q)
  then show ?thesis using assms by (auto simp: new_uids_def goes_on_def uids_upd intro: upd_session_frame)
next
  case (Login_record x)
  then show ?thesis using assms by (auto simp: new_uids_def goes_on_def uids_upd intro: upd_session_frame)
next
  case (Login_text x)
  then show ?thesis using assms by (auto simp: new_uids_def goes_on_def split: option.splits)
next
  case (Login_send x t)
  then show ?thesis using assms by (auto simp: new_uids_def goes_on_def same_view_def dest: send_view split: sum.splits)
next
  case (Login_flag x)
  then show ?thesis using assms same_viewI(6) by (auto simp: new_uids_def goes_on_def same_view_def)
next
  case (Request_done c p us)
  then show ?thesis
    using assms same_view_trans' [OF same_viewI(4,5)] by (auto simp: new_uids_def goes_on_def same_view_def)
qed (use assms in \<open>auto simp: new_uids_def goes_on_def\<close>)

lemma handler_step_effect:
  assumes "handler_step env a b st = Inr (a', g, b', st')" and "pc_ptr a \<noteq> None"
  shows "same_frame st st'" and "uids st' = new_uids a (uids st)" and "goes_on a a'"
    and "pc_user a' = Some x \<Longrightarrow> pc_user a = Some x \<or> x \<in> set g"
    and "pc_taking a' = Some u \<Longrightarrow> \<exists>x. a = Login_lookup x \<and> userid (l_user x) = u \<or> pc_taking a = Some u"
proof -
  have "same_frame st st' \<and> uids st' = new_uids a (uids st) \<and> goes_on a a' \<and> (pc_user a' = Some x \<longrightarrow> pc_user a = Some x \<or> x \<in> set g)"
  proof (cases "\<exists>c p us. a = Reading c p us")
    case True
    then show ?thesis
      using assms(1) read_step_effect [of env _ _ _ b st a' g b' st'] by (cases x) (fastforce simp: handler_step_def same_view_def new_uids_def)
  next
    case False
    then have "login_step env a st = Inr (a', st')" using assms by (cases a) (auto simp: handler_step_def split: sum.splits)
    from login_step_effect [OF this assms(2)] show ?thesis by (cases x) auto
  qed
  then show "same_frame st st'" and "uids st' = new_uids a (uids st)" and "goes_on a a'"
    and "pc_user a' = Some x \<Longrightarrow> pc_user a = Some x \<or> x \<in> set g"
    by simp_all
  show "pc_taking a' = Some u \<Longrightarrow> \<exists>x. a = Login_lookup x \<and> userid (l_user x) = u \<or> pc_taking a = Some u"
  proof (cases a)
    case (Reading c p us)
    then show "pc_taking a' = Some u \<Longrightarrow> ?thesis"
      using assms(1) read_step_effect [of env c p us b st a' g b' st'] by (auto simp: handler_step_def)
  qed (use assms in \<open>auto simp: handler_step_def split: sum.splits option.splits\<close>)
qed

section \<open>Sessions, connections and loops\<close>

definition setting_up :: "loop_at \<Rightarrow> nat \<Rightarrow> bool" where
  "setting_up a c \<longleftrightarrow> a = Numbered c \<or> (\<exists>v. a = Counted c v)"

text \<open>Every session belongs to one connection that is up, and every such connection has one or is being set up.\<close>

definition sessions_ok :: "(nat \<Rightarrow> nat) \<Rightarrow> 'r loops \<Rightarrow> bool" where
  "sessions_ok home sys \<longleftrightarrow> distinct (map fst (skeleton (srv sys))) \<and>
     (\<forall>(p, c)\<in>set (skeleton (srv sys)). p < next_ptr (srv sys) \<and> callbacks (srv sys) c = Some p \<and>
        c \<in> set (live_conns (srv sys)) \<and> c \<notin> down sys) \<and>
     (\<forall>c\<in>set (live_conns (srv sys)). c \<notin> down sys \<longrightarrow>
        (setting_up (pc sys (home c)) c \<and> callbacks (srv sys) c = None) \<or> (\<exists>p. (p, c) \<in> set (skeleton (srv sys))))"

text \<open>A loop works for its own connections, with the session that is bound to the message callback.\<close>

definition pcs_ok :: "(nat \<Rightarrow> nat) \<Rightarrow> 'r loops \<Rightarrow> bool" where
  "pcs_ok home sys \<longleftrightarrow>
     (\<forall>l c. pc_conn (pc sys l) = Some c \<longrightarrow> home c = l \<and> c \<in> set (live_conns (srv sys))) \<and>
     (\<forall>l c p. pc_conn (pc sys l) = Some c \<and> pc_ptr (pc sys l) = Some p \<longrightarrow> callbacks (srv sys) c = Some p) \<and>
     (\<forall>l c. setting_up (pc sys l) c \<longrightarrow> callbacks (srv sys) c = None \<and> c \<notin> down sys)"

definition loops_ok :: "(nat \<Rightarrow> nat) \<Rightarrow> 'r loops \<Rightarrow> bool" where
  "loops_ok home sys \<longleftrightarrow> sessions_ok home sys \<and> pcs_ok home sys"

lemma pc_ptr_conn: "pc_ptr a = Some p \<Longrightarrow> \<exists>c. pc_conn a = Some c"
  by (cases a) auto

lemma setting_up_conn: "setting_up a c \<Longrightarrow> pc_conn a = Some c \<and> pc_ptr a = None \<and> pc_rest a = []"
  by (auto simp: setting_up_def)

lemma setting_up_simps [simp]:
  "\<not> setting_up Idle c" "\<not> setting_up (Upcalls d us) c" "\<not> setting_up (Reading d p us) c"
  "setting_up (Counted d v) c \<longleftrightarrow> c = d" "setting_up (Numbered d) c \<longleftrightarrow> c = d"
  by (auto simp: setting_up_def)

lemma loops_okD:
  assumes "loops_ok home sys"
  shows "pc_conn (pc sys l) = Some c \<Longrightarrow> home c = l" and "pc_conn (pc sys l) = Some c \<Longrightarrow> c \<in> set (live_conns (srv sys))"
    and "pc_conn (pc sys l) = Some c \<Longrightarrow> pc_ptr (pc sys l) = Some p \<Longrightarrow> callbacks (srv sys) c = Some p"
    and "setting_up (pc sys l) c \<Longrightarrow> callbacks (srv sys) c = None" and "setting_up (pc sys l) c \<Longrightarrow> c \<notin> down sys"
    and "(q, d) \<in> set (skeleton (srv sys)) \<Longrightarrow> q < next_ptr (srv sys) \<and> callbacks (srv sys) d = Some q \<and>
      d \<in> set (live_conns (srv sys)) \<and> d \<notin> down sys"
  using assms unfolding loops_ok_def pcs_ok_def sessions_ok_def by blast+

lemma loops_ok_start: "loops_ok home (loops_start (ChatServer um mc r))"
  by (auto simp: loops_ok_def sessions_ok_def pcs_ok_def loops_start_def ChatServer_def skeleton_def)

text \<open>A step that only moves a loop on, inside or out of a handler.\<close>

lemma move_ok:
  assumes ok: "loops_ok home sys" and f: "same_frame (srv sys) st"
    and conn: "\<And>c. pc_conn a = Some c \<Longrightarrow> home c = l \<and> c \<in> set (live_conns (srv sys))"
    and ptr: "\<And>c p. pc_conn a = Some c \<Longrightarrow> pc_ptr a = Some p \<Longrightarrow> callbacks (srv sys) c = Some p"
    and up: "\<And>c. setting_up (pc sys l) c = setting_up a c"
  shows "loops_ok home (set_pc l a (sys\<lparr>srv := st, bufs := b, granted := g\<rparr>))"
proof -
  let ?sys = "set_pc l a (sys\<lparr>srv := st, bufs := b, granted := g\<rparr>)"
  have S: "setting_up (pc ?sys m) c = setting_up (pc sys m) c" for m c using up by (simp add: set_pc_def)
  have fields: "skeleton (srv ?sys) = skeleton (srv sys)" "live_conns (srv ?sys) = live_conns (srv sys)"
    "callbacks (srv ?sys) = callbacks (srv sys)" "next_ptr (srv ?sys) = next_ptr (srv sys)" "down ?sys = down sys"
    using f by (simp_all add: same_frame_def set_pc_def)
  have "sessions_ok home ?sys" using ok unfolding loops_ok_def sessions_ok_def S fields by blast
  moreover have "pc ?sys m = (if m = l then a else pc sys m)" for m by (simp add: set_pc_def)
  then have "pcs_ok home ?sys" using ok conn ptr unfolding loops_ok_def pcs_ok_def S fields by auto
  ultimately show ?thesis by (simp add: loops_ok_def)
qed

lemma set_pc_ok:
  assumes "loops_ok home sys" and "\<And>c. pc_conn a = Some c \<Longrightarrow> home c = l \<and> c \<in> set (live_conns (srv sys))"
    and "\<And>c p. pc_conn a = Some c \<Longrightarrow> pc_ptr a = Some p \<Longrightarrow> callbacks (srv sys) c = Some p"
    and "\<And>c. setting_up (pc sys l) c = setting_up a c"
  shows "loops_ok home (set_pc l a sys)"
  using move_ok [OF assms(1) same_frame_refl assms(2,3,4), where b = "bufs sys" and g = "granted sys"] by simp

lemma bufs_ok: "loops_ok home (sys\<lparr>bufs := b\<rparr>) = loops_ok home sys"
  by (simp add: loops_ok_def sessions_ok_def pcs_ok_def)

lemma disconnected_frame:
  assumes "\<forall>(p, d)\<in>set (skeleton (srv sys)). d \<in> set (live_conns (srv sys))"
  shows "skeleton (onConnected env c False (srv sys)) = filter (\<lambda>(p, d). d \<noteq> c) (skeleton (srv sys))"
    and "live_conns (onConnected env c False (srv sys)) = live_conns (srv sys)"
    and "callbacks (onConnected env c False (srv sys)) = callbacks (srv sys)"
    and "next_ptr (onConnected env c False (srv sys)) = next_ptr (srv sys)"
    and "uids (onConnected env c False (srv sys)) = map (\<lambda>(p, s). (p, oi_userid (m_userinfo s))) (filter (\<lambda>(p, s). tmpConn s \<noteq> c) (m_sessions (srv sys)))"
proof -
  have "tmpConn s \<in> set (live_conns (srv sys))" if "(q, s) \<in> set (m_sessions (srv sys))" for q s
    using that assms unfolding skeleton_def by force
  then have ms: "m_sessions (onConnected env c False (srv sys)) = filter (\<lambda>(q, s). tmpConn s \<noteq> c) (m_sessions (srv sys))"
    by (auto simp: onConnected_def onDisconnected_def intro!: filter_cong)
  show "skeleton (onConnected env c False (srv sys)) = filter (\<lambda>(p, d). d \<noteq> c) (skeleton (srv sys))"
    by (simp add: skeleton_def ms filter_map comp_def case_prod_beta')
  show "uids (onConnected env c False (srv sys)) = map (\<lambda>(p, s). (p, oi_userid (m_userinfo s))) (filter (\<lambda>(p, s). tmpConn s \<noteq> c) (m_sessions (srv sys)))"
    by (simp add: uids_def ms)
qed (simp_all add: onConnected_def onDisconnected_def)

lemma handle_close_fields [simp]:
  "pc (handle_close env c sys) = pc sys" "bufs (handle_close env c sys) = bufs sys" "granted (handle_close env c sys) = granted sys"
  "down (handle_close env c sys) = insert c (down sys)"
  by (auto simp: handle_close_def)

lemma handle_close_ok:
  assumes ok: "loops_ok home sys" and up: "\<not> setting_up (pc sys (home c)) c"
  shows "loops_ok home (handle_close env c sys)"
proof (cases "c \<in> down sys")
  case False
  have s: "sessions_ok home sys" and p: "pcs_ok home sys" using ok by (simp_all add: loops_ok_def)
  let ?sys = "handle_close env c sys"
  have srv: "srv ?sys = onConnected env c False (srv sys)" using False by (simp add: handle_close_def)
  have "\<forall>(p, d)\<in>set (skeleton (srv sys)). d \<in> set (live_conns (srv sys))" using s by (auto simp: sessions_ok_def)
  note f = disconnected_frame [OF this, where env = env and c = c, folded srv]
  have "distinct (map fst (filter (\<lambda>(p, d). d \<noteq> c) (skeleton (srv sys))))"
    using s distinct_map_filter by (auto simp: sessions_ok_def)
  then have "sessions_ok home ?sys" using s unfolding sessions_ok_def f by auto
  moreover have "setting_up (pc sys l) d \<Longrightarrow> d \<noteq> c" for l d
    using p up setting_up_conn [of "pc sys l" d] by (auto simp: pcs_ok_def)
  then have "pcs_ok home ?sys" using p unfolding pcs_ok_def f by auto
  ultimately show ?thesis by (simp add: loops_ok_def)
qed (use ok in \<open>simp add: handle_close_def\<close>)

text \<open>A new connection, whose channel could be registered or not.\<close>

definition with_conn :: "nat \<Rightarrow> 'r loops \<Rightarrow> 'r loops" where
  "with_conn c sys =
     sys\<lparr>srv := (srv sys)\<lparr>live_conns := live_conns (srv sys) @ [c], callbacks := (callbacks (srv sys))(c := None)\<rparr>,
         bufs := (bufs sys)(c := ByteBuffer kInitialSize), down := down sys - {c}\<rparr>"

lemma skeleton_with_conn: "skeleton (srv (with_conn c sys)) = skeleton (srv sys)"
  by (simp add: with_conn_def skeleton_def)

lemma accept_ok:
  assumes ok: "loops_ok home sys" and new: "c \<notin> set (live_conns (srv sys))" and idle: "pc sys (home c) = Idle"
  shows "loops_ok home (set_pc (home c) (Counted c v) (with_conn c sys))" and "loops_ok home (handle_close env c (with_conn c sys))"
proof -
  have s: "sessions_ok home sys" and p: "pcs_ok home sys" using ok by (simp_all add: loops_ok_def)
  note sk = skeleton_with_conn
  have f: "live_conns (srv (with_conn c sys)) = live_conns (srv sys) @ [c]" "callbacks (srv (with_conn c sys)) = (callbacks (srv sys))(c := None)"
    "next_ptr (srv (with_conn c sys)) = next_ptr (srv sys)" "down (with_conn c sys) = down sys - {c}" "pc (with_conn c sys) = pc sys"
    by (simp_all add: with_conn_def)
  have live: "d \<in> set (live_conns (srv sys)) \<and> d \<noteq> c" if "(q, d) \<in> set (skeleton (srv sys))" for q d
    using that s new unfolding sessions_ok_def by auto
  have pcs: "pc_conn (pc sys l) = Some d \<Longrightarrow> d \<noteq> c" for l d using p new by (auto simp: pcs_ok_def)
  have up: "setting_up (pc sys l) d \<Longrightarrow> d \<noteq> c" for l d using pcs setting_up_conn by blast
  let ?up = "set_pc (home c) (Counted c v) (with_conn c sys)"
  have "sessions_ok home ?up"
    using s live idle unfolding sessions_ok_def set_pc_def by (auto simp: sk f)
  moreover have "pcs_ok home ?up"
    using p pcs up idle unfolding pcs_ok_def set_pc_def by (auto simp: f)
  ultimately show "loops_ok home ?up" by (simp add: loops_ok_def)
  let ?dn = "handle_close env c (with_conn c sys)"
  have srv: "srv ?dn = onConnected env c False (srv (with_conn c sys))" by (simp add: handle_close_def f)
  have "\<forall>(q, d)\<in>set (skeleton (srv (with_conn c sys))). d \<in> set (live_conns (srv (with_conn c sys)))" using live by (auto simp: sk f)
  note g = disconnected_frame [OF this, where env = env and c = c, folded srv]
  have "filter (\<lambda>(q, d). d \<noteq> c) (skeleton (srv sys)) = skeleton (srv sys)" using live by (auto simp: filter_id_conv)
  then have "sessions_ok home ?dn" using s live idle unfolding sessions_ok_def g by (auto simp: sk f)
  moreover have "pcs_ok home ?dn" using p pcs up unfolding pcs_ok_def g by (auto simp: f)
  ultimately show "loops_ok home ?dn" by (simp add: loops_ok_def)
qed

lemma add_session_frame:
  "skeleton (add_session env c st) = skeleton st @ [(next_ptr st, c)]" "live_conns (add_session env c st) = live_conns st"
  "callbacks (add_session env c st) = (callbacks st)(c := Some (next_ptr st))" "next_ptr (add_session env c st) = next_ptr st + 1"
  "uids (add_session env c st) = uids st @ [(next_ptr st, 0)]"
  by (simp_all add: add_session_def skeleton_def uids_def ChatSession_def Let_def)

lemma numbered_ok:
  assumes ok: "loops_ok home sys" and pc: "pc sys l = Numbered c"
  shows "loops_ok home (set_pc l Idle (sys\<lparr>srv := add_session env c (srv sys)\<rparr>))"
proof -
  have s: "sessions_ok home sys" and p: "pcs_ok home sys" using ok by (simp_all add: loops_ok_def)
  have c: "home c = l" "c \<in> set (live_conns (srv sys))" "callbacks (srv sys) c = None" "c \<notin> down sys"
    using loops_okD(1,2,4,5) [OF ok, of l c] pc by simp_all
  have old: "d \<noteq> c \<and> q < next_ptr (srv sys)" if "(q, d) \<in> set (skeleton (srv sys))" for q d
    using that s c(3) unfolding sessions_ok_def by auto
  have pcs: "pc_conn (pc sys m) = Some d \<Longrightarrow> m \<noteq> l \<Longrightarrow> d \<noteq> c" for m d using p c(1) by (auto simp: pcs_ok_def)
  have up: "setting_up (pc sys m) d \<Longrightarrow> m \<noteq> l \<Longrightarrow> d \<noteq> c" for m d using pcs setting_up_conn by blast
  let ?sys = "set_pc l Idle (sys\<lparr>srv := add_session env c (srv sys)\<rparr>)"
  have f: "srv ?sys = add_session env c (srv sys)" "down ?sys = down sys" by (simp_all add: set_pc_def)
  have "next_ptr (srv sys) \<notin> set (map fst (skeleton (srv sys)))" using old by force
  then have 1: "distinct (map fst (skeleton (srv ?sys)))" using s by (simp add: f add_session_frame sessions_ok_def)
  have 2: "\<forall>(q, d)\<in>set (skeleton (srv ?sys)). q < next_ptr (srv ?sys) \<and> callbacks (srv ?sys) d = Some q \<and>
      d \<in> set (live_conns (srv ?sys)) \<and> d \<notin> down ?sys"
    using c old loops_okD(6) [OF ok] unfolding f add_session_frame by (auto simp: less_Suc_eq)
  have 3: "(setting_up (pc ?sys (home d)) d \<and> callbacks (srv ?sys) d = None) \<or> (\<exists>q. (q, d) \<in> set (skeleton (srv ?sys)))"
    if "d \<in> set (live_conns (srv ?sys))" "d \<notin> down ?sys" for d
  proof (cases "d = c")
    case False
    have "setting_up (pc sys (home d)) d \<and> callbacks (srv sys) d = None \<or> (\<exists>q. (q, d) \<in> set (skeleton (srv sys)))"
      using s that unfolding sessions_ok_def f add_session_frame by blast
    then show ?thesis using False pc unfolding f add_session_frame by (auto simp: set_pc_def)
  qed (auto simp: f add_session_frame)
  have "sessions_ok home ?sys" using 1 2 3 unfolding sessions_ok_def by blast
  moreover have "pcs_ok home (set_pc l Idle (sys\<lparr>srv := add_session env c (srv sys)\<rparr>))"
    using p pcs up unfolding pcs_ok_def set_pc_def by (auto simp: add_session_frame)
  ultimately show ?thesis by (simp add: loops_ok_def)
qed

lemma destroyed_ok:
  assumes ok: "loops_ok home sys" and "c \<in> down sys" and "pc_conn (pc sys (home c)) \<noteq> Some c"
  shows "loops_ok home (sys\<lparr>srv := (srv sys)\<lparr>live_conns := removeAll c (live_conns (srv sys))\<rparr>\<rparr>)"
proof -
  have s: "sessions_ok home sys" and p: "pcs_ok home sys" using ok by (simp_all add: loops_ok_def)
  have "pc_conn (pc sys l) = Some d \<Longrightarrow> d \<noteq> c" for l d using p assms(3) by (auto simp: pcs_ok_def)
  then show ?thesis
    using s p assms(2) unfolding loops_ok_def sessions_ok_def pcs_ok_def by (auto simp: skeleton_def)
qed

lemma upcall_ok:
  assumes ok: "loops_ok home sys" and pc: "pc sys l = Upcalls c us"
  shows "loops_ok home (upcall_step env l rd wfail c us sys)"
proof -
  have c: "home c = l" "c \<in> set (live_conns (srv sys))" using loops_okD(1,2) [OF ok, of l c] pc by simp_all
  have h: "loops_ok home (handle_close env c sys)" using handle_close_ok [OF ok] pc c(1) by simp
  have h': "loops_ok home (set_pc l (Upcalls c us') (handle_close env c sys))" for us'
    by (rule set_pc_ok [OF h]) (use pc c in \<open>auto simp: handle_close_def onConnected_def onDisconnected_def\<close>)
  have n: "loops_ok home (set_pc l (Upcalls c us') (sys\<lparr>bufs := b\<rparr>))" for us' b
    by (rule set_pc_ok) (use pc c ok in \<open>auto simp: bufs_ok\<close>)
  have n': "loops_ok home (set_pc l (Upcalls c us') sys)" for us' using n [of us' "bufs sys"] by simp
  have r: "loops_ok home (set_pc l (Reading c p us') (sys\<lparr>bufs := b\<rparr>))" if "callbacks (srv sys) c = Some p" for p us' b
    by (rule set_pc_ok) (use pc c ok that in \<open>auto simp: bufs_ok\<close>)
  show ?thesis
  proof (cases us)
    case Nil
    then show ?thesis using ok pc by (auto intro: set_pc_ok)
  next
    case (Cons u us')
    then show ?thesis
      using h' n n' r by (cases u) (auto simp: Let_def split: option.split)
  qed
qed

lemma handler_ok:
  assumes ok: "loops_ok home sys" and h: "handler_step env (pc sys l) b (srv sys) = Inr (a, g, b', st)" and "pc_ptr (pc sys l) \<noteq> None"
  shows "loops_ok home (set_pc l a (sys\<lparr>srv := st, bufs := bs, granted := gs\<rparr>))"
proof -
  note e = handler_step_effect(1,3) [OF h assms(3)]
  have conn: "pc_conn a = pc_conn (pc sys l)" and ptr: "pc_ptr a \<in> {pc_ptr (pc sys l), None}" using e(2) by (simp_all add: goes_on_def)
  show ?thesis
  proof (rule move_ok [OF ok e(1)])
    show "home c = l \<and> c \<in> set (live_conns (srv sys))" if "pc_conn a = Some c" for c
      using that conn loops_okD(1,2) [OF ok, of l c] by simp
    show "callbacks (srv sys) c = Some p" if "pc_conn a = Some c" "pc_ptr a = Some p" for c p
      using that conn ptr loops_okD(3) [OF ok, of l c p] by auto
    show "setting_up (pc sys l) c = setting_up a c" for c
      using e(2) assms(3) setting_up_conn [of "pc sys l" c] by (auto simp: goes_on_def setting_up_def)
  qed
qed

text \<open>The position of a loop decides its step.\<close>

lemma run_cases:
  obtains (idle) "pc sys l = Idle" | (counted) c v where "pc sys l = Counted c v" | (numbered) c where "pc sys l = Numbered c"
    | (upcalls) c us where "pc sys l = Upcalls c us" | (handler) "pc_ptr (pc sys l) \<noteq> None"
  by (cases "pc sys l") auto

lemma run_handler:
  assumes "pc_ptr (pc sys l) \<noteq> None"
  shows "loop_step env home (Run l rd wfail) sys =
    (let c = the (pc_conn (pc sys l))
     in case handler_step env (pc sys l) (bufs sys c) (srv sys) of
          Inl er \<Rightarrow> Inl er
        | Inr (a1, g, b, st) \<Rightarrow> Inr (set_pc l a1 (sys\<lparr>srv := st, bufs := (bufs sys)(c := b), granted := granted sys @ g\<rparr>)))"
  using assms by (cases "pc sys l") (simp_all add: loop_step_def)

lemma counted_ok:
  assumes ok: "loops_ok home sys" and "pc sys l = Counted c v"
  shows "loops_ok home (set_pc l (Numbered c) (sys\<lparr>srv := (srv sys)\<lparr>m_sessionId := n\<rparr>\<rparr>))"
proof -
  have f: "same_frame (srv sys) ((srv sys)\<lparr>m_sessionId := n\<rparr>)" by (simp add: same_frame_def skeleton_def)
  have c: "home c = l" "c \<in> set (live_conns (srv sys))" using loops_okD(1,2) [OF ok, of l c] assms(2) by simp_all
  have "loops_ok home (set_pc l (Numbered c) (sys\<lparr>srv := (srv sys)\<lparr>m_sessionId := n\<rparr>, bufs := bufs sys, granted := granted sys\<rparr>))"
    by (rule move_ok [OF ok f]) (use c assms(2) in auto)
  then show ?thesis by simp
qed

lemma loop_step_ok:
  assumes ok: "loops_ok home sys" and step: "loop_step env home e sys = Inr sys'"
  shows "loops_ok home sys'"
proof (cases e)
  case (Accept c r)
  then show ?thesis
    using step ok accept_ok [OF ok, of c] by (auto simp: loop_step_def with_conn_def Let_def split: if_splits)
next
  case (Event c revents)
  then show ?thesis using step ok by (auto simp: loop_step_def intro!: set_pc_ok split: if_splits)
next
  case (Closing c)
  then show ?thesis using step ok by (auto simp: loop_step_def intro!: handle_close_ok split: if_splits)
next
  case (Destroyed c)
  then show ?thesis using step ok by (auto simp: loop_step_def intro!: destroyed_ok split: if_splits)
next
  case (Run l rd wfail)
  show ?thesis
  proof (cases rule: run_cases [of sys l])
    case handler
    then show ?thesis
      using step Run handler_ok [OF ok] by (auto simp: run_handler Let_def split: sum.splits)
  qed (use step Run ok in \<open>auto simp: loop_step_def intro!: counted_ok numbered_ok upcall_ok\<close>)
qed

lemma loop_run_ok: "loop_run env home es sys = Inr sys' \<Longrightarrow> loops_ok home sys \<Longrightarrow> loops_ok home sys'"
  by (induction es arbitrary: sys) (auto dest: loop_step_ok split: sum.splits)


section \<open>No use of a destroyed session\<close>

text \<open>An event after whose close or error callback the read callback still runs.\<close>

definition reads_after_close :: "int32 \<Rightarrow> bool" where
  "reads_after_close revents \<longleftrightarrow>
     ReadCb \<in> set (handleEvent revents) \<and> (CloseCb \<in> set (handleEvent revents) \<or> ErrorCb \<in> set (handleEvent revents))"

text \<open>A loop whose connection is down is in no handler and will not read.\<close>

definition pc_clean :: "nat set \<Rightarrow> loop_at \<Rightarrow> bool" where
  "pc_clean D a \<longleftrightarrow>
     (case a of
        Upcalls c us \<Rightarrow> ReadCb \<notin> set (tl us) \<and> (c \<in> D \<longrightarrow> ReadCb \<notin> set us)
      | _ \<Rightarrow> ReadCb \<notin> set (pc_rest a) \<and> (\<forall>c. pc_ptr a \<noteq> None \<and> pc_conn a = Some c \<longrightarrow> c \<notin> D))"

definition no_late_read :: "'r loops \<Rightarrow> bool" where
  "no_late_read sys \<longleftrightarrow> (\<forall>l. pc_clean (down sys) (pc sys l))"

lemma pc_clean_simps [simp]:
  "pc_clean D Idle" "pc_clean D (Counted c v)" "pc_clean D (Numbered c)"
  "pc_clean D (Upcalls c us) \<longleftrightarrow> ReadCb \<notin> set (tl us) \<and> (c \<in> D \<longrightarrow> ReadCb \<notin> set us)"
  "pc_clean D (Reading c p us) \<longleftrightarrow> ReadCb \<notin> set us \<and> c \<notin> D"
  by (simp_all add: pc_clean_def)

lemma pc_clean_handler:
  "pc_ptr a \<noteq> None \<Longrightarrow> pc_clean D a \<longleftrightarrow> ReadCb \<notin> set (pc_rest a) \<and> the (pc_conn a) \<notin> D"
  by (cases a) (auto simp: pc_clean_def)

lemma pc_clean_other:
  "pc_conn a \<noteq> Some c \<Longrightarrow> pc_clean D a \<Longrightarrow> pc_clean (insert c D) a"
  by (cases a) (auto simp: pc_clean_def)

lemma pc_clean_less: "D' \<subseteq> D \<Longrightarrow> pc_clean D a \<Longrightarrow> pc_clean D' a"
  by (cases a) (auto simp: pc_clean_def)

lemma tl_notin: "x \<notin> set us \<Longrightarrow> x \<notin> set (tl us)"
  by (cases us) auto

lemma pc_clean_goes_on:
  assumes "goes_on a a'" and "pc_ptr a \<noteq> None" and "pc_clean D a"
  shows "pc_clean D a'"
proof (cases "pc_ptr a'")
  case (Some p)
  then show ?thesis using assms pc_clean_handler [of a D] pc_clean_handler [of a' D] by (auto simp: goes_on_def)
next
  case None
  then show ?thesis
    using assms pc_clean_handler [of a D] by (cases a') (auto simp: goes_on_def tl_notin)
qed

lemma clean_event: "\<not> reads_after_close revents \<Longrightarrow> ReadCb \<notin> set (tl (handleEvent revents))"
  by (auto simp: reads_after_close_def handleEvent_def split: if_splits)

lemma handler_never_dangling:
  assumes "pc_ptr a = Some p" and "p \<in> fst ` set (m_sessions st)"
  shows "handler_step env a b st \<noteq> Inl Bad_session"
proof -
  have m: "map_of (m_sessions st) p \<noteq> None" using assms(2) by (simp add: map_of_eq_None_iff)
  have d: "dispatch env p cmd data (upd_session p (set_seq seq) st) \<noteq> Inl Bad_session" for cmd data seq
    using assms(2) by (intro dispatch_never_dangling) simp
  have q: "getSessionByUserId u (m_sessions st) = Some q \<Longrightarrow> map_of (m_sessions st) q \<noteq> None" for u q
    using getSessionByUserId_Some by (metis map_of_eq_None_iff image_eqI fst_conv)
  show ?thesis
  proof (cases a)
    case (Reading c p' us)
    then have "request_step env c p us inbuf st \<noteq> Inl Bad_session" for inbuf
      using m d by (auto simp: request_step_def Let_def split: request.splits option.splits sum.splits bool.splits prod.splits)
    then show ?thesis using Reading assms(1) by (auto simp: handler_step_def read_step_def Let_def split: sum.splits)
  next
    case (Login_lookup x)
    then show ?thesis
      using q [of "userid (l_user x)"]
      by (cases "getSessionByUserId (userid (l_user x)) (m_sessions st)") (auto simp: handler_step_def split: option.splits)
  qed (use assms m in \<open>auto simp: handler_step_def send_never_dangling split: sum.splits option.splits\<close>)
qed

lemma busy_session:
  assumes ok: "loops_ok home sys" and "pc_ptr (pc sys l) = Some p" and "no_late_read sys"
  shows "p \<in> fst ` set (m_sessions (srv sys))"
proof -
  obtain c where c: "pc_conn (pc sys l) = Some c" using pc_ptr_conn [OF assms(2)] by blast
  have "c \<notin> down sys" using assms(2,3) c pc_clean_handler [of "pc sys l" "down sys"] unfolding no_late_read_def by auto
  then have "setting_up (pc sys (home c)) c \<and> callbacks (srv sys) c = None \<or> (\<exists>q. (q, c) \<in> set (skeleton (srv sys)))"
    using ok loops_okD(2) [OF ok c] unfolding loops_ok_def sessions_ok_def by blast
  then obtain q where q: "(q, c) \<in> set (skeleton (srv sys))" using loops_okD(3) [OF ok c assms(2)] by auto
  then have "q = p" using loops_okD(3) [OF ok c assms(2)] loops_okD(6) [OF ok q] by simp
  then have "p \<in> set (map fst (skeleton (srv sys)))" using q by force
  then show ?thesis by (simp add: fst_skeleton)
qed

lemma close_no_late_read:
  assumes ok: "loops_ok home sys" and n: "no_late_read sys" and "pc_conn (pc sys (home c)) = Some c \<Longrightarrow> pc_clean (insert c (down sys)) a"
    and "pc_conn (pc sys (home c)) \<noteq> Some c \<Longrightarrow> a = pc sys (home c)"
  shows "no_late_read (set_pc (home c) a (handle_close env c sys))"
proof -
  have "pc_clean (insert c (down sys)) (pc sys m)" if "m \<noteq> home c \<or> pc_conn (pc sys (home c)) \<noteq> Some c" for m
    using that n loops_okD(1) [OF ok, of m c] by (intro pc_clean_other) (auto simp: no_late_read_def)
  then show ?thesis using assms(3,4) by (auto simp: no_late_read_def set_pc_def)
qed

lemma upcall_no_late_read:
  assumes ok: "loops_ok home sys" and n: "no_late_read sys" and pc: "pc sys l = Upcalls c us"
  shows "no_late_read (upcall_step env l rd wfail c us sys)"
proof -
  have l: "home c = l" using loops_okD(1) [OF ok, of l c] pc by simp
  have us: "ReadCb \<notin> set (tl us)" "c \<in> down sys \<longrightarrow> ReadCb \<notin> set us" using n pc unfolding no_late_read_def by (metis pc_clean_simps(4))+
  have close: "no_late_read (set_pc l (Upcalls c vs) (handle_close env c sys))" if "ReadCb \<notin> set vs" for vs
    using close_no_late_read [OF ok n, of c "Upcalls c vs"] that pc l by (simp add: tl_notin)
  have on: "no_late_read (set_pc l a (sys\<lparr>bufs := b\<rparr>))" if "pc_clean (down sys) a" for a b
    using n that by (simp add: no_late_read_def set_pc_def)
  have on': "no_late_read (set_pc l a sys)" if "pc_clean (down sys) a" for a using on [OF that, of "bufs sys"] by simp
  show ?thesis
  proof (cases us)
    case (Cons u vs)
    then have "ReadCb \<notin> set vs" "ReadCb \<notin> set (tl vs)" using us(1) by (simp_all add: tl_notin)
    then show ?thesis using Cons us(2) close on on' by (cases u) (auto simp: Let_def split: option.split)
  qed (use on' in simp)
qed

lemma no_late_read_step:
  assumes ok: "loops_ok home sys" and n: "no_late_read sys" and e: "\<forall>c revents. e = Event c revents \<longrightarrow> \<not> reads_after_close revents"
  shows "loop_step env home e sys \<noteq> Inl Bad_session \<and> (\<forall>sys'. loop_step env home e sys = Inr sys' \<longrightarrow> no_late_read sys')"
proof (cases e)
  case (Accept c r)
  show ?thesis
  proof (cases "c \<in> set (live_conns (srv sys)) \<or> pc sys (home c) \<noteq> Idle")
    case False
    have "pc_clean (down sys - {c}) (pc sys l)" "pc_clean (insert c (down sys)) (pc sys l)" for l
      using n loops_okD(2) [OF ok, of l c] False unfolding no_late_read_def by (auto intro: pc_clean_less pc_clean_other)
    then show ?thesis using Accept False by (auto simp: loop_step_def no_late_read_def set_pc_def Let_def)
  qed (use Accept n in \<open>simp add: loop_step_def\<close>)
next
  case (Event c revents)
  then show ?thesis using n e clean_event [of revents] by (auto simp: loop_step_def no_late_read_def set_pc_def)
next
  case (Closing c)
  have "set_pc (home c) (pc sys (home c)) (handle_close env c sys) = handle_close env c sys" by (simp add: set_pc_def)
  then show ?thesis
    using Closing n close_no_late_read [OF ok n, of c "pc sys (home c)" env] by (auto simp: loop_step_def)
next
  case (Destroyed c)
  then show ?thesis using n by (auto simp: loop_step_def no_late_read_def)
next
  case (Run l rd wfail)
  show ?thesis
  proof (cases rule: run_cases [of sys l])
    case handler
    then obtain p where p: "pc_ptr (pc sys l) = Some p" by blast
    let ?c = "the (pc_conn (pc sys l))"
    have 1: "handler_step env (pc sys l) (bufs sys ?c) (srv sys) \<noteq> Inl Bad_session"
      by (rule handler_never_dangling [OF p busy_session [OF ok p n]])
    have "pc_clean (down sys) a" if "handler_step env (pc sys l) (bufs sys ?c) (srv sys) = Inr (a, g, b, st)" for a g b st
      using pc_clean_goes_on [OF handler_step_effect(3) [OF that handler] handler] n by (simp add: no_late_read_def)
    then show ?thesis using 1 n Run by (auto simp: run_handler [OF handler] no_late_read_def set_pc_def Let_def split: sum.splits)
  next
    case upcalls
    then show ?thesis using Run upcall_no_late_read [OF ok n] by (auto simp: loop_step_def)
  qed (use Run n in \<open>auto simp: loop_step_def no_late_read_def set_pc_def\<close>)
qed

lemma no_late_read_run:
  assumes "loops_ok home sys" and "no_late_read sys" and "\<forall>c revents. Event c revents \<in> set es \<longrightarrow> \<not> reads_after_close revents"
  shows "loop_run env home es sys \<noteq> Inl Bad_session"
  using assms
proof (induction es arbitrary: sys)
  case (Cons e es)
  have e: "\<forall>c revents. e = Event c revents \<longrightarrow> \<not> reads_after_close revents" using Cons.prems(3) by auto
  show ?case
    using no_late_read_step [OF Cons.prems(1,2) e, of env] loop_step_ok [OF Cons.prems(1)] Cons.IH Cons.prems(3)
    by (cases "loop_step env home e sys") auto
qed simp

section \<open>Who holds a user id\<close>




















section \<open>One login on its own\<close>

text \<open>
  Steps of one login with no other loop in between: together they are \<^verbatim>\<open>onLoginResponse\<close> as one function.
\<close>

fun login_steps :: "'r chat_env \<Rightarrow> nat \<Rightarrow> loop_at \<Rightarrow> 'r chat_server \<Rightarrow> chat_error + (loop_at \<times> 'r chat_server)" where
  "login_steps env 0 a st = Inr (a, st)"
| "login_steps env (Suc n) a st = (case login_step env a st of Inl e \<Rightarrow> Inl e | Inr (a1, st1) \<Rightarrow> login_steps env n a1 st1)"

lemma login_steps_record:
  assumes "map_of (m_sessions st) (l_ptr x) \<noteq> None"
    and "tmpConn s = l_conn x" and "m_seq s = l_seq x"
    and "login_reply env (l_ptr x) s (login_ok_text (userid (l_user x)) (username (l_user x)))
      (upd_session (l_ptr x) (record_user (userid (l_user x)) (l_name x)) st) = Inr st'"
  shows "login_steps env 4 (Login_record x) st = Inr (Request_done (l_conn x) (l_ptr x) (l_rest x), st')"
  using assms by (auto simp: numeral_eq_Suc login_reply_def split: sum.splits)

lemma login_alone:
  assumes l: "onLoginResponse env p s data st = Inr st'" and s: "map_of (m_sessions st) p = Some s"
    and req: "login_request (env_json env) data = Some (name, password u)"
    and u: "u = snd (getUserInfoByUsername name no_user (users st))"
    and x: "x = \<lparr>l_conn = tmpConn s, l_ptr = p, l_rest = rest, l_seq = m_seq s, l_name = name, l_user = u\<rparr>"
  shows "\<exists>n. login_steps env n (Login_lookup x) st = Inr (Request_done (tmpConn s) p rest, st')"
proof -
  obtain st1 where k: "kick_user env (userid u) (m_seq s) st = Inr st1"
    and r: "login_reply env p s (login_ok_text (userid u) (username u)) (upd_session p (record_user (userid u) name) st1) = Inr st'"
    using l req by (auto simp: onLoginResponse_def u [symmetric] Let_def split: sum.splits)
  have fx: "l_conn x = tmpConn s" "l_ptr x = p" "l_rest x = rest" "l_seq x = m_seq s" "l_name x = name" "l_user x = u"
    by (simp_all add: x)
  let ?res = "Inr (Request_done (tmpConn s) p rest, st') :: chat_error + (loop_at \<times> 'a chat_server)"
  show ?thesis
  proof (cases "getSessionByUserId (userid u) (m_sessions st)")
    case None
    then have "st1 = st" using k by (simp add: kick_user_def)
    then have "login_steps env 4 (Login_record x) st = ?res" using login_steps_record [of st x s env st'] r s by (simp add: fx)
    then have "login_steps env (Suc 4) (Login_lookup x) st = ?res" using None by (simp only: login_steps.simps login_step.simps fx) simp
    then show ?thesis by blast
  next
    case (Some q)
    then obtain t st2 where t: "map_of (m_sessions st) q = Some t" and st2: "TcpSession_send env (tmpConn t) msg_type_kickuser (m_seq s) [] st = Inr st2"
      and st1: "st1 = upd_session q makeSessionInvalid st2"
      using k by (auto simp: kick_user_def split: option.splits sum.splits)
    have "m_sessions st2 = m_sessions st" using sends_only_keeps [OF TcpSession_send_sends_only [OF st2]] by blast
    then have "map_of (m_sessions st1) p \<noteq> None" using s by (simp add: st1)
    then have "login_steps env 4 (Login_record x) st1 = ?res" using login_steps_record [of st1 x s env st'] r by (simp add: fx)
    then have "login_steps env (Suc 4) (Login_invalidate x q) st2 = ?res" by (simp only: login_steps.simps login_step.simps st1) simp
    then have "login_steps env (Suc (Suc 4)) (Login_kick x q (tmpConn t)) st = ?res"
      using st2 by (simp only: login_steps.simps(2) [of env "Suc 4"] login_step.simps fx) simp
    then have "login_steps env (Suc (Suc (Suc 4))) (Login_lookup x) st = ?res"
      using Some t by (simp only: login_steps.simps(2) [of env "Suc (Suc 4)"] login_step.simps fx) simp
    then show ?thesis by blast
  qed
qed

section \<open>Properties\<close>


text \<open>Two connections in two loops; one of them closes.\<close>

definition demo_run :: "loop_event list" where
  "demo_run = [Accept 3 True, Accept 4 True, Run 0 None False, Run 1 None False, Run 1 None False, Run 0 None False, Closing 3]"


text \<open>
  C9: A handler runs on a session that is gone only after an event that closes the connection and then still reads.
  As long as no event has the close or the error callback run before the read callback (an error reported together
  with readable data has), in every interleaving of the loops each handler runs on a session that still
  exists: the raw session pointer bound in the message callback, and the pointer found for the account's holder,
  are valid whenever they are used.
\<close>

theorem no_dangling_session:
  assumes "\<forall>c revents. Event c revents \<in> set es \<longrightarrow> \<not> reads_after_close revents"
  shows "loop_run env home es (loops_start (ChatServer um mc r)) \<noteq> Inl Bad_session"
  using no_late_read_run [OF loops_ok_start _ assms] by (simp add: no_late_read_def loops_start_def)

theorem no_dangling_session_witness:
  "loop_run demo_env (\<lambda>c. c mod 3) (demo_run @ [Event 4 XPOLLIN, Run 1 (Some [1, 2]) False])
     (loops_start (ChatServer (users demo_server) (msg_cache demo_server) (\<lambda>_. []))) \<noteq> Inl Bad_session"
  using no_dangling_session [of "demo_run @ [Event 4 XPOLLIN, Run 1 (Some [1, 2]) False]"]
  by (simp add: demo_run_def reads_after_close_def handleEvent_def xpoll_defs)

text \<open>
  Such an event does run a handler on a destroyed session: when \<^verbatim>\<open>XPOLLERR\<close> and \<^verbatim>\<open>XPOLLIN\<close> are reported together for
  a connection and a frame with a request can be read, the error callback drops the session and the read
  callback then hands the frame to it.
\<close>

lemma read_step_frame:
  assumes "buf_inv b" and "content b = frame body" and "int (length body) \<le> MAX_PACKAGE_SIZE"
    and "read_request body = Request cmd seq data" and "map_of (m_sessions st) p = None"
  shows "read_step env c p rest b st = Inl Bad_session"
proof -
  note h = frame_header [OF assms(3)]
  have len: "readableBytes b = 4 + length body" using length_content [OF assms(1)] assms(2) h(1) by simp
  have w: "sint (peek_header b) = int (length body)" using h(3) assms(2) by (simp add: peek_header_def sizeof_header_def)
  have "unat ((scast (peek_header b) :: 64 word) + 4) = length body + 4" using frame_total_pos [of "peek_header b"] w by simp
  moreover have "content (snd (retrieve 4 b)) = body"
    using retrieve_content(2) [OF assms(1), of 4] assms(2) h(1) by (simp add: frame_def le_bytes_def)
  ultimately show ?thesis
    using assms(3-5) len w by (simp add: read_step_def request_step_def sizeof_header_def Let_def)
qed

theorem late_read_on_destroyed_session:
  assumes "loop_run env home es (loops_start (ChatServer um mc r)) = Inr sys"
    and "c \<in> set (live_conns (srv sys))" and "c \<notin> down sys" and "pc sys (home c) = Idle"
    and "buf_inv (bufs sys c)" and "content (bufs sys c) = []" and "int (length body) \<le> MAX_PACKAGE_SIZE"
    and "read_request body = Request cmd seq data"
    and "revents AND XPOLLERR \<noteq> 0" and "revents AND XPOLLIN \<noteq> 0"
  shows "loop_run env home [Event c revents, Run (home c) None False, Run (home c) (Some (frame body)) False, Run (home c) None False] sys
    = Inl Bad_session"
proof -
  let ?l = "home c"
  have ok: "loops_ok home sys" by (rule loop_run_ok [OF assms(1) loops_ok_start])
  obtain us where us: "handleEvent revents = ErrorCb # ReadCb # us"
    using assms(9,10) by (simp add: handleEvent_def bit.conj_disj_distrib or_eq_0_iff)
  obtain p where sk: "(p, c) \<in> set (skeleton (srv sys))" and p: "callbacks (srv sys) c = Some p"
    using ok assms(2-4) loops_okD(6) [OF ok] unfolding loops_ok_def sessions_ok_def by force
  let ?st = "onConnected env c False (srv sys)"
  have live: "\<forall>(q, d)\<in>set (skeleton (srv sys)). d \<in> set (live_conns (srv sys))" using loops_okD(6) [OF ok] by auto
  have "p \<notin> set (map fst (skeleton ?st))"
    using loops_okD(6) [OF ok] p ok unfolding disconnected_frame(1) [OF live] loops_ok_def sessions_ok_def
    by (auto dest: eq_key_imp_eq_value [OF _ sk])
  then have gone: "map_of (m_sessions ?st) p = None" by (simp add: fst_skeleton map_of_eq_None_iff)
  have cb: "callbacks ?st c = Some p" using p disconnected_frame(3) [OF live] by simp
  define b where "b = append_data (frame body) (bufs sys c)"
  have b: "buf_inv b" "content b = frame body" using append_post [OF assms(5), of "frame body"] assms(6) by (simp_all add: b_def)
  have "frame body \<noteq> []" using frame_header(1) [OF assms(7)] by auto
  then show ?thesis
    using assms(2-4) us cb read_step_frame [OF b assms(7,8) gone]
    by (simp add: loop_step_def set_pc_def handle_close_def handler_step_def b_def [symmetric] Let_def)
qed

text \<open>
  Two logins that overlap share the account: when two loops have compared the password for the same user and
  nobody holds the id yet, both look-ups find nobody and both sessions end up with the user id.
\<close>

theorem overlapping_logins_share_user:
  assumes "pc sys l = Login_lookup x" and "pc sys m = Login_lookup y" and "l \<noteq> m" and "l_ptr x \<noteq> l_ptr y"
    and "userid (l_user x) = u" and "userid (l_user y) = u" and "getSessionByUserId u (m_sessions (srv sys)) = None"
    and "map_of (m_sessions (srv sys)) (l_ptr x) = Some s" and "map_of (m_sessions (srv sys)) (l_ptr y) = Some t"
  shows "\<exists>sys'. loop_run env home [Run l None False, Run m None False, Run l None False, Run m None False] sys = Inr sys' \<and>
    map_of (m_sessions (srv sys')) (l_ptr x) = Some (record_user u (l_name x) s) \<and>
    map_of (m_sessions (srv sys')) (l_ptr y) = Some (record_user u (l_name y) t)"
  using assms by (simp add: loop_step_def handler_step_def set_pc_def)

end
