(* ===== verification/Acceptor_Model.thy ===== *)
theory Acceptor_Model
  imports Inet_Address "HOL-Library.Sublist"
begin

text \<open>
  \<^verbatim>\<open>net/Acceptor\<close> with \<^verbatim>\<open>sockets::accept\<close>, over a model of the descriptor table of the process: descriptors are
  numbers below a limit, \<^verbatim>\<open>accept4\<close> and \<^verbatim>\<open>open\<close> return the lowest free one or fail with \<^verbatim>\<open>EMFILE\<close>, and
  connections wait in the backlog of the listening socket until they are accepted.  The table belongs to the
  whole process: what the other threads do to it between two system calls of \<^verbatim>\<open>handleRead\<close> is an input.
  \<^verbatim>\<open>LOGF\<close> ends the process, except when the log file has not been opened yet and cannot be created: whether
  it returns is an input too.
\<close>

section \<open>The descriptor table\<close>

datatype accept_errno =
    EAGAIN | ECONNABORTED | EINTR | EPROTO | EPERM | EMFILE
  | EBADF | EFAULT | EINVAL | ENFILE | ENOBUFS | ENOMEM | ENOTSOCK | EOPNOTSUPP | Unknown_errno

record fd_table =
  open_fds :: "nat set"
  fd_limit :: nat
  backlog :: "sockaddr_in list"

definition lowest_free :: "fd_table \<Rightarrow> nat option" where
  "lowest_free w = find (\<lambda>fd. fd \<notin> open_fds w) [0..<fd_limit w]"

definition sys_close :: "nat \<Rightarrow> fd_table \<Rightarrow> fd_table" where
  "sys_close fd w = w\<lparr>open_fds := open_fds w - {fd}\<rparr>"

definition sys_open :: "fd_table \<Rightarrow> nat option \<times> fd_table" where
  "sys_open w = (case lowest_free w of None \<Rightarrow> (None, w) | Some fd \<Rightarrow> (Some fd, w\<lparr>open_fds := insert fd (open_fds w)\<rparr>))"

text \<open>\<^verbatim>\<open>accept4\<close>; \<open>fault\<close> is an error the kernel reports for another reason.\<close>

definition sys_accept :: "accept_errno option \<Rightarrow> fd_table \<Rightarrow> (accept_errno + nat \<times> sockaddr_in) \<times> fd_table" where
  "sys_accept fault w =
     (case fault of
        Some e \<Rightarrow> (Inl e, w)
      | None \<Rightarrow>
          (case lowest_free w of
             None \<Rightarrow> (Inl EMFILE, w)
           | Some fd \<Rightarrow>
               (case backlog w of
                  [] \<Rightarrow> (Inl EAGAIN, w)
                | p # ps \<Rightarrow> (Inr (fd, p), w\<lparr>open_fds := insert fd (open_fds w), backlog := ps\<rparr>))))"

text \<open>
  The other threads: they open descriptors, close those that are not held by the acceptor (\<open>own\<close>), and
  clients connect.
\<close>

datatype other_call = Other_open | Other_close nat | Arrival sockaddr_in

fun other_step :: "nat set \<Rightarrow> other_call \<Rightarrow> fd_table \<Rightarrow> fd_table" where
  "other_step own Other_open w = snd (sys_open w)"
| "other_step own (Other_close fd) w = (if fd \<in> own then w else sys_close fd w)"
| "other_step own (Arrival p) w = w\<lparr>backlog := backlog w @ [p]\<rparr>"

section \<open>Acceptor\<close>

text \<open>\<^verbatim>\<open>LOGF\<close>: \<open>None\<close> when the process has ended.\<close>

definition LOGF :: "bool \<Rightarrow> 'a \<Rightarrow> 'a option" where
  "LOGF returns x = (if returns then Some x else None)"

text \<open>
  \<^verbatim>\<open>sockets::accept\<close>: expected errors are returned, for all others \<^verbatim>\<open>LOGF\<close> is called; \<open>ret\<close> is the error number it
  leaves behind if it returns.
\<close>

definition expected_error :: "accept_errno \<Rightarrow> bool" where
  "expected_error e \<longleftrightarrow> e \<in> {EAGAIN, ECONNABORTED, EINTR, EPROTO, EPERM, EMFILE}"

datatype accept_result = Accepted nat sockaddr_in | Failed accept_errno | Fatal accept_errno

definition sockets_accept ::
  "accept_errno option \<Rightarrow> accept_errno option \<Rightarrow> fd_table \<Rightarrow> accept_result \<times> fd_table" where
  "sockets_accept fault ret w =
     (case sys_accept fault w of
        (Inr (fd, p), w1) \<Rightarrow> (Accepted fd p, w1)
      | (Inl e, w1) \<Rightarrow>
          (if expected_error e then Failed e else (case ret of None \<Rightarrow> Fatal e | Some e' \<Rightarrow> Failed e'), w1))"

text \<open>
  \<open>m_acceptReading\<close> is the read interest of the accept channel, \<open>in_loop\<close> whether the poller of the loop
  knows that channel.  \<open>sock_addr\<close> and \<open>sock_listens\<close> are what the kernel knows of the socket: the address it is
  bound to and whether it listens.  The descriptor \<^verbatim>\<open>-1\<close> is \<open>None\<close>.
\<close>

record acceptor =
  m_acceptSocket :: "nat option"
  m_idleFd :: "nat option"
  m_listenning :: bool
  m_acceptReading :: bool
  in_loop :: bool
  m_newConnectionCallback :: bool
  sock_addr :: "sockaddr_in option"
  sock_listens :: bool

text \<open>
  \<^verbatim>\<open>createNonblockingOrDie\<close>, \<^verbatim>\<open>bindOrDie\<close> and \<^verbatim>\<open>listenOrDie\<close> call \<^verbatim>\<open>LOGF\<close> when the system call fails, and go on
  as if nothing had happened if that returns.  On the descriptor \<^verbatim>\<open>-1\<close> the calls fail; \<^verbatim>\<open>listen\<close> on a socket that
  is not bound binds it to a port of the kernel's choice (\<open>ephemeral\<close>).
\<close>

definition createNonblockingOrDie :: "bool \<Rightarrow> fd_table \<Rightarrow> (nat option \<times> fd_table) option" where
  "createNonblockingOrDie returns w =
     (case sys_open w of (None, w1) \<Rightarrow> LOGF returns (None, w1) | (Some fd, w1) \<Rightarrow> Some (Some fd, w1))"

definition bindOrDie :: "bool \<Rightarrow> bool \<Rightarrow> sockaddr_in \<Rightarrow> acceptor \<Rightarrow> acceptor option" where
  "bindOrDie returns ok addr a =
     (if m_acceptSocket a \<noteq> None \<and> ok then Some (a\<lparr>sock_addr := Some addr\<rparr>) else LOGF returns a)"

definition listenOrDie :: "bool \<Rightarrow> bool \<Rightarrow> sockaddr_in \<Rightarrow> acceptor \<Rightarrow> acceptor option" where
  "listenOrDie returns ok ephemeral a =
     (if m_acceptSocket a \<noteq> None \<and> ok
      then Some (a\<lparr>sock_listens := True, sock_addr := (case sock_addr a of None \<Rightarrow> Some ephemeral | Some x \<Rightarrow> Some x)\<rparr>)
      else LOGF returns a)"

text \<open>Where \<^verbatim>\<open>LOGF\<close> is called, and what the kernel answers.\<close>

datatype fatal_site = At_socket | At_bind | At_listen

definition Acceptor ::
  "(fatal_site \<Rightarrow> bool) \<Rightarrow> bool \<Rightarrow> sockaddr_in \<Rightarrow> fd_table \<Rightarrow> (acceptor \<times> fd_table) option" where
  "Acceptor returns ok listenAddr w =
     (case createNonblockingOrDie (returns At_socket) w of
        None \<Rightarrow> None
      | Some (sock, w1) \<Rightarrow>
          (let (idle, w2) = sys_open w1
           in map_option (\<lambda>a. (a, w2))
                (bindOrDie (returns At_bind) ok listenAddr
                  \<lparr>m_acceptSocket = sock, m_idleFd = idle, m_listenning = False, m_acceptReading = False, in_loop = False,
                   m_newConnectionCallback = False, sock_addr = None, sock_listens = False\<rparr>)))"

definition setNewConnectionCallback :: "acceptor \<Rightarrow> acceptor" where
  "setNewConnectionCallback a = a\<lparr>m_newConnectionCallback := True\<rparr>"

definition listen :: "(fatal_site \<Rightarrow> bool) \<Rightarrow> bool \<Rightarrow> sockaddr_in \<Rightarrow> acceptor \<Rightarrow> acceptor option" where
  "listen returns ok ephemeral a =
     map_option (\<lambda>a. a\<lparr>m_acceptReading := True, in_loop := True\<rparr>)
       (listenOrDie (returns At_listen) ok ephemeral (a\<lparr>m_listenning := True\<rparr>))"

text \<open>Closing the descriptor \<^verbatim>\<open>-1\<close> that a failed call has left does nothing.\<close>

definition close_idle :: "nat option \<Rightarrow> fd_table \<Rightarrow> fd_table" where
  "close_idle fd w = (case fd of None \<Rightarrow> w | Some i \<Rightarrow> sys_close i w)"

text \<open>
  The destructor takes the channel out of the loop and closes the reserve; the destructor of the member
  \<^verbatim>\<open>m_acceptSocket\<close> closes the listening socket.
\<close>

definition Acceptor_destroy :: "acceptor \<Rightarrow> fd_table \<Rightarrow> acceptor \<times> fd_table" where
  "Acceptor_destroy a w =
     (a\<lparr>m_acceptReading := False, in_loop := False\<rparr>, close_idle (m_acceptSocket a) (close_idle (m_idleFd a) w))"

text \<open>
  \<^verbatim>\<open>Acceptor::handleRead\<close>: the connection handed to the callback, if any.  \<open>None\<close>: the process was ended.
  \<open>fault\<close> are the errors the kernel reports for the two \<^verbatim>\<open>accept\<close> calls for a reason other than a full table;
  \<open>others k\<close> is what the other threads do after the first \<^verbatim>\<open>accept\<close> (0), the first \<^verbatim>\<open>close\<close> (1), the second
  \<^verbatim>\<open>accept\<close> (2) and the second \<^verbatim>\<open>close\<close> (3).
\<close>

definition Acceptor_handleRead ::
  "(nat \<Rightarrow> accept_errno option) \<Rightarrow> accept_errno option \<Rightarrow> (nat \<Rightarrow> other_call list) \<Rightarrow> acceptor \<Rightarrow> fd_table
     \<Rightarrow> ((nat \<times> sockaddr_in) option \<times> acceptor \<times> fd_table) option" where
  "Acceptor_handleRead fault ret others a w =
     (case sockets_accept (fault 0) ret w of
        (Accepted fd p, w1) \<Rightarrow>
          Some (if m_newConnectionCallback a then (Some (fd, p), a, w1) else (None, a, sys_close fd w1))
      | (Fatal e, w1) \<Rightarrow> None
      | (Failed e, w1) \<Rightarrow>
          (if e = EMFILE
           then (let sock = set_option (m_acceptSocket a);
                     w2 = fold (other_step (sock \<union> set_option (m_idleFd a))) (others 0) w1;
                     w3 = fold (other_step sock) (others 1) (close_idle (m_idleFd a) w2);
                     (r, w4) = sys_accept (fault 1) w3;
                     idle = (case r of Inl _ \<Rightarrow> None | Inr (fd, p) \<Rightarrow> Some fd);
                     w5 = fold (other_step (sock \<union> set_option idle)) (others 2) w4;
                     w6 = fold (other_step sock) (others 3) (close_idle idle w5);
                     (idle', w7) = sys_open w6
                 in Some (None, a\<lparr>m_idleFd := idle'\<rparr>, w7))
           else Some (None, a, w1)))"

text \<open>Calls of \<^verbatim>\<open>handleRead\<close>, one after the other, in which \<^verbatim>\<open>accept\<close> fails only on a full table; \<open>others 4\<close> is what
  happens after a call.\<close>

fun accept_all ::
  "(nat \<Rightarrow> other_call list) list \<Rightarrow> acceptor \<Rightarrow> fd_table \<Rightarrow> ((nat \<times> sockaddr_in) list \<times> acceptor \<times> fd_table) option" where
  "accept_all [] a w = Some ([], a, w)"
| "accept_all (others # os) a w =
     (case Acceptor_handleRead (\<lambda>_. None) None others a w of
        None \<Rightarrow> None
      | Some (c, a1, w1) \<Rightarrow>
          (let own = set_option (m_acceptSocket a1) \<union> set_option (m_idleFd a1)
           in case accept_all os a1 (fold (other_step own) (others 4) w1) of
                None \<Rightarrow> None
              | Some (cs, a2, w2) \<Rightarrow> Some ((case c of None \<Rightarrow> cs | Some x \<Rightarrow> x # cs), a2, w2)))"

section \<open>Lemmas\<close>

definition table_ok :: "fd_table \<Rightarrow> bool" where
  "table_ok w \<longleftrightarrow> open_fds w \<subseteq> {..<fd_limit w}"

lemma lowest_free_Some: "lowest_free w = Some fd \<Longrightarrow> fd < fd_limit w \<and> fd \<notin> open_fds w"
  unfolding lowest_free_def find_Some_iff by auto

lemma lowest_free_None: "lowest_free w = None \<longleftrightarrow> {..<fd_limit w} \<subseteq> open_fds w"
  unfolding lowest_free_def find_None_iff by auto

lemma sys_open_table:
  "table_ok w \<Longrightarrow> table_ok (snd (sys_open w)) \<and> fd_limit (snd (sys_open w)) = fd_limit w \<and> backlog (snd (sys_open w)) = backlog w \<and>
     open_fds w \<subseteq> open_fds (snd (sys_open w))"
  using lowest_free_Some [of w] by (auto simp: sys_open_def table_ok_def split: option.split)

text \<open>
  What the acceptor can rely on: its own descriptors stay open, connections wait in order, and the table fills up
  only through \<^verbatim>\<open>open\<close>.
\<close>

lemma others_keep:
  assumes "table_ok w" and "own \<subseteq> open_fds w"
  shows "let w' = fold (other_step own) es w in
    table_ok w' \<and> own \<subseteq> open_fds w' \<and> fd_limit w' = fd_limit w \<and> (\<exists>new. backlog w' = backlog w @ new) \<and>
    (Other_open \<notin> set es \<longrightarrow> open_fds w' \<subseteq> open_fds w)"
  using assms
proof (induction es arbitrary: w)
  case (Cons e es)
  let ?w = "other_step own e w"
  have "table_ok ?w \<and> own \<subseteq> open_fds ?w \<and> fd_limit ?w = fd_limit w \<and> (\<exists>new. backlog ?w = backlog w @ new) \<and>
      (e \<noteq> Other_open \<longrightarrow> open_fds ?w \<subseteq> open_fds w)"
    using Cons.prems sys_open_table [of w] by (cases e) (auto simp: sys_close_def table_ok_def)
  then show ?case using Cons.IH [of ?w] by (auto simp: Let_def)
qed simp

definition acc_ok :: "acceptor \<Rightarrow> fd_table \<Rightarrow> bool" where
  "acc_ok a w \<longleftrightarrow> table_ok w \<and> m_newConnectionCallback a \<and> set_option (m_acceptSocket a) \<subseteq> open_fds w \<and>
     (\<exists>i. m_idleFd a = Some i \<and> i \<in> open_fds w \<and> i \<notin> set_option (m_acceptSocket a))"

lemma handleRead_free:
  assumes "lowest_free w = Some fd" and "m_newConnectionCallback a" and "backlog w = p # ps" and "fault 0 = None"
  shows "Acceptor_handleRead fault ret others a w = Some (Some (fd, p), a, w\<lparr>open_fds := insert fd (open_fds w), backlog := ps\<rparr>)"
  using assms by (simp add: Acceptor_handleRead_def sockets_accept_def sys_accept_def)

text \<open>The first half of the work with a full table: the reserve is closed and the waiting connection accepted.\<close>

lemma refuse_accepts:
  assumes "table_ok w" and "i \<in> open_fds w" and "sock \<subseteq> open_fds w" and "i \<notin> sock" and "backlog w = p # ps"
    and "Other_open \<notin> set es"
  shows "\<exists>f w'. sys_accept None (fold (other_step sock) es (sys_close i w)) = (Inr (f, p), w') \<and> table_ok w' \<and>
    sock \<subseteq> open_fds w' \<and> f \<in> open_fds w' \<and> f \<notin> sock \<and> (\<exists>new. backlog w' = ps @ new)"
proof -
  let ?w = "sys_close i w" and ?w' = "fold (other_step sock) es (sys_close i w)"
  have "table_ok ?w" "sock \<subseteq> open_fds ?w" "i < fd_limit ?w" "i \<notin> open_fds ?w" "backlog ?w = p # ps"
    using assms by (auto simp: table_ok_def sys_close_def)
  then have w': "table_ok ?w'" "sock \<subseteq> open_fds ?w'" "i < fd_limit ?w'" "i \<notin> open_fds ?w'" and "\<exists>new. backlog ?w' = p # ps @ new"
    using others_keep [of ?w sock es] assms(6) by (auto simp: Let_def)
  then obtain new where new: "backlog ?w' = p # ps @ new" by blast
  have "lowest_free ?w' \<noteq> None" using w'(3,4) by (auto simp: lowest_free_None)
  then obtain f where f: "lowest_free ?w' = Some f" by blast
  then show ?thesis
    using lowest_free_Some [OF f] w' new by (auto simp: sys_accept_def table_ok_def)
qed

text \<open>The second half: the connection is closed and the reserve opened again.\<close>

lemma refuse_reopens:
  assumes "table_ok w" and "f \<in> open_fds w" and "sock \<subseteq> open_fds w" and "f \<notin> sock" and "Other_open \<notin> set es"
  shows "\<exists>i w'. sys_open (fold (other_step sock) es (sys_close f w)) = (Some i, w') \<and> table_ok w' \<and> sock \<subseteq> open_fds w' \<and>
    i \<in> open_fds w' \<and> i \<notin> sock \<and> (\<exists>new. backlog w' = backlog w @ new)"
proof -
  let ?w = "sys_close f w" and ?w' = "fold (other_step sock) es (sys_close f w)"
  have "table_ok ?w" "sock \<subseteq> open_fds ?w" "f < fd_limit ?w" "f \<notin> open_fds ?w" "backlog ?w = backlog w"
    using assms by (auto simp: table_ok_def sys_close_def)
  then have w': "table_ok ?w'" "sock \<subseteq> open_fds ?w'" "f < fd_limit ?w'" "f \<notin> open_fds ?w'" and b: "\<exists>new. backlog ?w' = backlog w @ new"
    using others_keep [of ?w sock es] assms(5) by (auto simp: Let_def)
  have "lowest_free ?w' \<noteq> None" using w'(3,4) by (auto simp: lowest_free_None)
  then obtain i where i: "lowest_free ?w' = Some i" by blast
  then show ?thesis
    using lowest_free_Some [OF i] w' b by (auto simp: sys_open_def table_ok_def)
qed

lemma handleRead_full:
  assumes ok: "acc_ok a w" and full: "lowest_free w = None" and b: "backlog w = p # ps"
    and q: "Other_open \<notin> set (others 1)" "Other_open \<notin> set (others 3)"
  shows "\<exists>a' w' new. Acceptor_handleRead (\<lambda>_. None) ret others a w = Some (None, a', w') \<and> acc_ok a' w' \<and> backlog w' = ps @ new"
proof -
  let ?sock = "set_option (m_acceptSocket a)"
  obtain i where i: "m_idleFd a = Some i" "i \<in> open_fds w" "i \<notin> ?sock" and w: "table_ok w" "?sock \<subseteq> open_fds w"
    "m_newConnectionCallback a"
    using ok by (auto simp: acc_ok_def)
  define w2 where "w2 = fold (other_step (?sock \<union> set_option (m_idleFd a))) (others 0) w"
  have w2: "table_ok w2" "i \<in> open_fds w2" "?sock \<subseteq> open_fds w2" and "\<exists>new. backlog w2 = p # ps @ new"
    using others_keep [OF w(1), of "?sock \<union> set_option (m_idleFd a)" "others 0"] i w(2) b by (auto simp: w2_def Let_def)
  then obtain n2 where n2: "backlog w2 = p # ps @ n2" by blast
  obtain f w4 n4 where 4: "sys_accept None (fold (other_step ?sock) (others 1) (sys_close i w2)) = (Inr (f, p), w4)" "table_ok w4"
    "?sock \<subseteq> open_fds w4" "f \<in> open_fds w4" "f \<notin> ?sock" "backlog w4 = ps @ n2 @ n4"
    using refuse_accepts [OF w2 i(3) n2 q(1)] by auto
  define w5 where "w5 = fold (other_step (?sock \<union> {f})) (others 2) w4"
  have w5: "table_ok w5" "f \<in> open_fds w5" "?sock \<subseteq> open_fds w5" and "\<exists>new. backlog w5 = backlog w4 @ new"
    using others_keep [OF 4(2), of "?sock \<union> {f}" "others 2"] 4(3,4) by (auto simp: w5_def Let_def)
  then obtain n5 where n5: "backlog w5 = backlog w4 @ n5" by blast
  obtain i' w7 n7 where 7: "sys_open (fold (other_step ?sock) (others 3) (sys_close f w5)) = (Some i', w7)" "table_ok w7"
    "?sock \<subseteq> open_fds w7" "i' \<in> open_fds w7" "i' \<notin> ?sock" "backlog w7 = backlog w5 @ n7"
    using refuse_reopens [OF w5 4(5) q(2)] by blast
  have "Acceptor_handleRead (\<lambda>_. None) ret others a w = Some (None, a\<lparr>m_idleFd := Some i'\<rparr>, w7)"
    using full i(1) 4(1) 7(1) w5_def w2_def
    by (simp add: Acceptor_handleRead_def sockets_accept_def sys_accept_def [of None w] expected_error_def close_idle_def)
  moreover have "acc_ok (a\<lparr>m_idleFd := Some i'\<rparr>) w7" using 7 w(3) by (simp add: acc_ok_def)
  ultimately show ?thesis using 7(6) n5 4(6) by simp
qed

lemma handleRead_step:
  assumes ok: "acc_ok a w" and b: "backlog w = p # ps" and q: "Other_open \<notin> set (others 1)" "Other_open \<notin> set (others 3)"
  shows "\<exists>c a' w' new. Acceptor_handleRead (\<lambda>_. None) ret others a w = Some (c, a', w') \<and> acc_ok a' w' \<and> backlog w' = ps @ new \<and>
    map_option snd c \<in> {None, Some p}"
proof (cases "lowest_free w")
  case None
  then show ?thesis using handleRead_full [OF ok None b q, of ret] by auto
next
  case (Some fd)
  have "acc_ok a (w\<lparr>open_fds := insert fd (open_fds w), backlog := ps\<rparr>)"
    using ok lowest_free_Some [OF Some] by (auto simp: acc_ok_def table_ok_def)
  then show ?thesis using handleRead_free [OF Some _ b, of a "\<lambda>_. None"] ok by (auto simp: acc_ok_def)
qed

lemma accept_all_drains:
  assumes "acc_ok a w" and "length os \<le> length (backlog w)"
    and "\<forall>others\<in>set os. Other_open \<notin> set (others 1) \<and> Other_open \<notin> set (others 3)"
  shows "\<exists>cs a' w' new. accept_all os a w = Some (cs, a', w') \<and> acc_ok a' w' \<and> backlog w' = drop (length os) (backlog w) @ new \<and>
    subseq (map snd cs) (take (length os) (backlog w))"
  using assms
proof (induction os arbitrary: a w)
  case (Cons others os)
  obtain p ps where b: "backlog w = p # ps" using Cons.prems(2) by (cases "backlog w") auto
  obtain c a1 w1 new1 where 1: "Acceptor_handleRead (\<lambda>_. None) None others a w = Some (c, a1, w1)" "acc_ok a1 w1" "backlog w1 = ps @ new1"
    "map_option snd c \<in> {None, Some p}"
    using handleRead_step [OF Cons.prems(1) b] Cons.prems(3) by (metis list.set_intros(1))
  define own where "own = set_option (m_acceptSocket a1) \<union> set_option (m_idleFd a1)"
  define w2 where "w2 = fold (other_step own) (others 4) w1"
  have own: "own \<subseteq> open_fds w1" "table_ok w1" using 1(2) by (auto simp: acc_ok_def own_def)
  then obtain new2 where 2: "table_ok w2" "own \<subseteq> open_fds w2" "backlog w2 = backlog w1 @ new2"
    using others_keep [OF own(2,1), of "others 4"] by (auto simp: w2_def Let_def)
  have "acc_ok a1 w2" using 1(2) 2 by (auto simp: acc_ok_def own_def)
  moreover have "length os \<le> length (backlog w2)" using Cons.prems(2) b 1(3) 2(3) by simp
  ultimately obtain cs a' w' new where IH: "accept_all os a1 w2 = Some (cs, a', w')" "acc_ok a' w'"
    "backlog w' = drop (length os) (backlog w2) @ new" "subseq (map snd cs) (take (length os) (backlog w2))"
    using Cons.IH [of a1 w2] Cons.prems(3) by auto
  have len: "length os \<le> length ps" using Cons.prems(2) b by simp
  let ?cs = "case c of None \<Rightarrow> cs | Some x \<Rightarrow> x # cs"
  have "accept_all (others # os) a w = Some (?cs, a', w')"
    using 1(1) IH(1) by (simp add: own_def [symmetric] w2_def [symmetric])
  moreover have "backlog w' = drop (length (others # os)) (backlog w) @ new1 @ new2 @ new"
    using IH(3) 1(3) 2(3) b len by simp
  moreover have "subseq (map snd cs) (take (length os) ps)" using IH(4) 1(3) 2(3) len by simp
  then have "subseq (map snd ?cs) (take (length (others # os)) (backlog w))"
    using 1(4) b by (cases c) (auto intro: list_emb_Cons)
  ultimately show ?case using IH(2) by blast
qed simp

text \<open>An acceptor that was constructed with two descriptors to spare holds a reserve of its own.\<close>

lemma Acceptor_constructed:
  assumes "table_ok w" and "Acceptor returns ok addr w = Some (a, w1)" and "m_idleFd a \<noteq> None"
  shows "table_ok w1 \<and> set_option (m_acceptSocket a) \<subseteq> open_fds w1 \<and> (\<exists>i. m_idleFd a = Some i \<and> i \<in> open_fds w1 \<and>
    i \<notin> set_option (m_acceptSocket a))"
proof -
  obtain sock w' where sock: "createNonblockingOrDie (returns At_socket) w = Some (sock, w')"
    using assms(2) by (auto simp: Acceptor_def split: option.splits)
  then have w': "table_ok w'" "set_option sock \<subseteq> open_fds w'"
    using assms(1) lowest_free_Some [of w] by (auto simp: createNonblockingOrDie_def sys_open_def LOGF_def table_ok_def
        split: option.splits if_splits)
  obtain idle w2 where idle: "sys_open w' = (idle, w2)" by (cases "sys_open w'")
  have a: "m_acceptSocket a = sock" "m_idleFd a = idle" "w1 = w2"
    using assms(2) sock idle by (auto simp: Acceptor_def bindOrDie_def LOGF_def split: if_splits)
  then obtain i where "lowest_free w' = Some i" "idle = Some i" "w2 = w'\<lparr>open_fds := insert i (open_fds w')\<rparr>"
    using idle assms(3) by (auto simp: sys_open_def split: option.splits)
  then show ?thesis using a w' lowest_free_Some [of w' i] by (auto simp: table_ok_def)
qed

lemma listen_fields:
  assumes "listen returns ok eph (setNewConnectionCallback a0) = Some a"
  shows "m_acceptSocket a = m_acceptSocket a0" and "m_idleFd a = m_idleFd a0" and "m_newConnectionCallback a"
    and "m_acceptReading a"
  using assms by (auto simp: listen_def listenOrDie_def setNewConnectionCallback_def LOGF_def split: if_splits)

section \<open>Properties\<close>

text \<open>
  C24: The acceptor serves or refuses every waiting connection, as long as no other thread takes the descriptor it
  has just freed and \<^verbatim>\<open>accept\<close> fails for no other reason than a full table.  Take an acceptor constructed with room for its socket and its reserve descriptor, let other
  parts of the process then open descriptors at will, and let the other threads open, close and clients
  connect between all the system calls, except that no other thread opens a descriptor between the \<^verbatim>\<open>close\<close> of
  the reserve and the \<^verbatim>\<open>accept\<close>, or between the \<^verbatim>\<open>close\<close> of the refused connection and the \<^verbatim>\<open>open\<close> of the new
  reserve.  Then each call of \<^verbatim>\<open>handleRead\<close> takes exactly the first waiting connection out of the backlog, full
  table or not, the connections handed to the server are among these in their order, and after every call the
  reserve is held again.
\<close>

theorem acceptor_drains_backlog:
  assumes "open_fds w0 \<subseteq> {..<fd_limit w0}" and "Acceptor returns ok addr w0 = Some (a0, w1)" and "m_idleFd a0 \<noteq> None"
    and "listen returns ok' eph (setNewConnectionCallback a0) = Some a"
    and "open_fds w1 \<subseteq> open_fds w" and "open_fds w \<subseteq> {..<fd_limit w}"
    and "length os \<le> length (backlog w)"
    and "\<forall>others\<in>set os. Other_open \<notin> set (others 1) \<and> Other_open \<notin> set (others 3)"
  shows "\<exists>cs a' w' new. accept_all os a w = Some (cs, a', w') \<and> backlog w' = drop (length os) (backlog w) @ new \<and>
    subseq (map snd cs) (take (length os) (backlog w)) \<and> (\<exists>i. m_idleFd a' = Some i \<and> i \<in> open_fds w')"
proof -
  have "acc_ok a w"
    using Acceptor_constructed [of w0 returns ok addr a0 w1] listen_fields [OF assms(4)] assms(1-3,5,6)
    by (auto simp: acc_ok_def table_ok_def)
  from accept_all_drains [OF this assms(7,8)] show ?thesis unfolding acc_ok_def by blast
qed

text \<open>
  Descriptors 0 to 6, the acceptor takes 3 and 4, a file 5: of three clients one is served and two are refused,
  although during the second refusal another thread closes the file and opens it again.
\<close>

definition demo_others :: "(nat \<Rightarrow> other_call list) list" where
  "demo_others = [\<lambda>_. [], \<lambda>_. [], \<lambda>k. if k = 0 then [Other_close 5] else if k = 2 then [Other_open] else []]"

theorem acceptor_drains_backlog_witness:
  "let p = zero_addr; w0 = \<lparr>open_fds = {0, 1, 2}, fd_limit = 7, backlog = []\<rparr>; (a0, w1) = the (Acceptor (\<lambda>_. False) True p w0);
       a = the (listen (\<lambda>_. False) True p (setNewConnectionCallback a0));
       w = w1\<lparr>open_fds := insert 5 (open_fds w1), backlog := [p, p, p]\<rparr>
   in \<exists>cs a' w'. accept_all demo_others a w = Some (cs, a', w') \<and> subseq (map snd cs) [p, p, p] \<and> m_idleFd a' \<noteq> None"
proof -
  let ?start = "\<lparr>open_fds = {0, 1, 2}, fd_limit = 7, backlog = []\<rparr>"
  let ?w = "\<lparr>open_fds = {0, 1, 2, 3, 4, 5}, fd_limit = 7, backlog = [zero_addr, zero_addr, zero_addr]\<rparr>"
  let ?new = "\<lparr>m_acceptSocket = Some 3, m_idleFd = Some 4, m_listenning = False, m_acceptReading = False, in_loop = False,
    m_newConnectionCallback = False, sock_addr = Some zero_addr, sock_listens = False\<rparr>"
  let ?made = "\<lparr>open_fds = {0, 1, 2, 3, 4}, fd_limit = 7, backlog = []\<rparr>"
  have new: "Acceptor (\<lambda>_. False) True zero_addr ?start = Some (?new, ?made)"
    by (simp add: Acceptor_def createNonblockingOrDie_def sys_open_def lowest_free_def bindOrDie_def upt_rec insert_commute numeral_eq_Suc)
  obtain a where a: "listen (\<lambda>_. False) True zero_addr (setNewConnectionCallback ?new) = Some a"
    by (simp add: listen_def listenOrDie_def setNewConnectionCallback_def)
  have h: "open_fds ?start \<subseteq> {..<fd_limit ?start}" "m_idleFd ?new \<noteq> None" "open_fds ?made \<subseteq> open_fds ?w" "open_fds ?w \<subseteq> {..<fd_limit ?w}"
    by simp_all
  have o: "length demo_others \<le> length (backlog ?w)" "\<forall>others\<in>set demo_others. Other_open \<notin> set (others 1) \<and> Other_open \<notin> set (others 3)"
    by (simp_all add: demo_others_def)
  obtain cs a' w' where "accept_all demo_others a ?w = Some (cs, a', w')" "m_idleFd a' \<noteq> None" "subseq (map snd cs) [zero_addr, zero_addr, zero_addr]"
    using acceptor_drains_backlog [OF h(1) new h(2) a h(3,4) o] by (auto simp: demo_others_def numeral_eq_Suc)
  then show ?thesis using new a by (auto simp: Let_def insert_commute)
qed

text \<open>
  The reserve can be lost: when the table is full and another thread opens a descriptor right after the reserve
  was closed, the waiting connection stays in the backlog and the acceptor has no reserve any more.
\<close>

theorem reserve_lost:
  assumes "lowest_free w = None" and "open_fds w \<subseteq> {..<fd_limit w}" and "m_idleFd a = Some i" and "i \<in> open_fds w"
    and "others = (\<lambda>k. if k = 1 then [Other_open] else [])"
  shows "Acceptor_handleRead (\<lambda>_. None) ret others a w = Some (None, a\<lparr>m_idleFd := None\<rparr>, w)"
proof -
  have full: "{..<fd_limit w} \<subseteq> open_fds w" using assms(1) by (simp add: lowest_free_None)
  have "lowest_free (sys_close i w) \<noteq> None" using assms(2,4) by (auto simp: lowest_free_None sys_close_def)
  then obtain f where f: "lowest_free (sys_close i w) = Some f" by blast
  then have "f = i" using lowest_free_Some [OF f] full by (auto simp: sys_close_def)
  then have "sys_open (sys_close i w) = (Some i, w)" using f assms(4) by (simp add: sys_open_def sys_close_def insert_absorb)
  then show ?thesis
    using assms(1,3,5)
    by (simp add: Acceptor_handleRead_def sockets_accept_def sys_accept_def expected_error_def close_idle_def sys_open_def)
qed

theorem reserve_lost_witness:
  "Acceptor_handleRead (\<lambda>_. None) None (\<lambda>k. if k = 1 then [Other_open] else [])
     \<lparr>m_acceptSocket = Some 0, m_idleFd = Some 1, m_listenning = True, m_acceptReading = True, in_loop = True,
      m_newConnectionCallback = True, sock_addr = None, sock_listens = True\<rparr> \<lparr>open_fds = {0, 1}, fd_limit = 2, backlog = [zero_addr]\<rparr> =
   Some (None, \<lparr>m_acceptSocket = Some 0, m_idleFd = None, m_listenning = True, m_acceptReading = True, in_loop = True,
      m_newConnectionCallback = True, sock_addr = None, sock_listens = True\<rparr>, \<lparr>open_fds = {0, 1}, fd_limit = 2, backlog = [zero_addr]\<rparr>)"
proof -
  let ?w = "\<lparr>open_fds = {0, 1}, fd_limit = 2, backlog = [zero_addr]\<rparr>"
  have "lowest_free ?w = None" by (auto simp: lowest_free_None)
  then show ?thesis using reserve_lost [of ?w _ 1 _ None] by simp
qed

end
