(* ===== verification/Log_Format.thy ===== *)
theory Log_Format
  imports Protocol_Stream
begin

text \<open>
  \<^verbatim>\<open>base/AsyncLog\<close>, the text of a log line: levels and prefixes, truncation of long lines, and the hexadecimal
  dump of binary packages.  Time stamps and thread identifiers are given as text.
\<close>

section \<open>Levels and prefixes\<close>

datatype LOG_LEVEL =
    LOG_LEVEL_TRACE | LOG_LEVEL_DEBUG | LOG_LEVEL_INFO | LOG_LEVEL_WARNING
  | LOG_LEVEL_ERROR | LOG_LEVEL_SYSERROR | LOG_LEVEL_FATAL | LOG_LEVEL_CRITICAL

fun level_num :: "LOG_LEVEL \<Rightarrow> int" where
  "level_num LOG_LEVEL_TRACE = 0"
| "level_num LOG_LEVEL_DEBUG = 1"
| "level_num LOG_LEVEL_INFO = 2"
| "level_num LOG_LEVEL_WARNING = 3"
| "level_num LOG_LEVEL_ERROR = 4"
| "level_num LOG_LEVEL_SYSERROR = 5"
| "level_num LOG_LEVEL_FATAL = 6"
| "level_num LOG_LEVEL_CRITICAL = 7"

fun level_prefix :: "LOG_LEVEL \<Rightarrow> bytes" where
  "level_prefix LOG_LEVEL_TRACE = lit ''[TRACE]''"
| "level_prefix LOG_LEVEL_DEBUG = lit ''[DEBUG]''"
| "level_prefix LOG_LEVEL_INFO = lit ''[INFO]''"
| "level_prefix LOG_LEVEL_WARNING = lit ''[WARN]''"
| "level_prefix LOG_LEVEL_ERROR = lit ''[ERROR]''"
| "level_prefix LOG_LEVEL_SYSERROR = lit ''[SYSE]''"
| "level_prefix LOG_LEVEL_FATAL = lit ''[FATAL]''"
| "level_prefix LOG_LEVEL_CRITICAL = lit ''[CRITICAL]''"

text \<open>\<^verbatim>\<open>makeLinePrefix\<close>; the thread identifier goes through a buffer of 32 bytes.\<close>

definition makeLinePrefix :: "LOG_LEVEL \<Rightarrow> bytes \<Rightarrow> bytes \<Rightarrow> bytes" where
  "makeLinePrefix nLevel szTime threadID =
     level_prefix nLevel @ lit ''['' @ szTime @ lit '']'' @ take 31 (lit ''['' @ threadID @ lit '']'')"

definition MAX_LINE_LENGTH :: nat where "MAX_LINE_LENGTH = 256"

text \<open>
  The line \<^verbatim>\<open>output\<close> builds from the formatted message, for the overload with the source position (through
  a buffer of 512 bytes) and the one without.
\<close>

definition log_line :: "bool \<Rightarrow> bool \<Rightarrow> bytes \<Rightarrow> (bytes \<times> int) option \<Rightarrow> bytes \<Rightarrow> bytes" where
  "log_line toFile truncated prefix position msg =
     prefix @
     (case position of None \<Rightarrow> [] | Some (file, line) \<Rightarrow> take 511 (lit ''['' @ file @ lit '':'' @ print_int line @ lit '']'')) @
     (if truncated then take MAX_LINE_LENGTH msg else msg) @ (if toFile then [10] else [])"

definition level_enabled :: "LOG_LEVEL \<Rightarrow> LOG_LEVEL \<Rightarrow> bool" where
  "level_enabled current nLevel \<longleftrightarrow> nLevel = LOG_LEVEL_CRITICAL \<or> level_num current \<le> level_num nLevel"

definition setLevel :: "LOG_LEVEL \<Rightarrow> LOG_LEVEL \<Rightarrow> LOG_LEVEL" where
  "setLevel nLevel current = (if level_num nLevel > level_num LOG_LEVEL_FATAL then current else nLevel)"

section \<open>Hexadecimal dump\<close>

definition szchar :: "nat \<Rightarrow> byte" where
  "szchar n = lit ''0123456789abcdef'' ! n"

definition hex_byte :: "byte \<Rightarrow> bytes" where
  "hex_byte b = [szchar (unat b div 16), szchar (unat b mod 16)]"

definition ullto4Str :: "nat \<Rightarrow> bytes" where
  "ullto4Str n = (let ds = nat_digits n in replicate (6 - length ds) 48 @ ds)"

text \<open>
  The loop of \<^verbatim>\<open>formLog\<close>.  \<open>acc\<close> are the \<^verbatim>\<open>len\<close> characters written so far; the buffer is zero behind them,
  so \<^verbatim>\<open>strcat\<close> appends there.  \<open>headlen\<close> is the length of the last line head, zero before the first.
\<close>

function form_loop :: "nat \<Rightarrow> bytes \<Rightarrow> nat \<Rightarrow> nat \<Rightarrow> nat \<Rightarrow> bytes \<Rightarrow> nat \<times> bytes" where
  "form_loop size_buf buffer lsize headlen index acc =
     (if lsize < length buffer \<and> length acc + 10 < size_buf
      then (let newline = lsize mod 32 = 0;
                acc1 = (if newline \<and> headlen \<noteq> 0 then acc @ [10] else acc);
                head = ullto4Str index @ [32];
                headlen1 = (if newline then length head else headlen);
                acc2 = (if newline then acc1 @ head else acc1);
                index1 = (if newline then index + 1 else index);
                acc3 = (if lsize mod 16 = 0 \<and> headlen1 \<noteq> 0 then acc2 @ [32] else acc2)
            in form_loop size_buf buffer (lsize + 1) headlen1 index1 (acc3 @ hex_byte (buffer ! lsize)))
      else (index, acc @ [10]))"
  by pat_completeness auto
termination by (relation "measure (\<lambda>(size_buf, buffer, lsize, _). length buffer - lsize)") auto

declare form_loop.simps [simp del]

definition formLog :: "nat \<Rightarrow> nat \<Rightarrow> bytes \<Rightarrow> nat \<times> bytes" where
  "formLog index size_buf buffer = form_loop size_buf buffer 0 0 index []"

definition PRINTSIZE :: nat where "PRINTSIZE = 512"

function binary_loop :: "nat \<Rightarrow> bytes \<Rightarrow> bytes" where
  "binary_loop index buffer =
     (if buffer = [] then []
      else (let (index1, s) = formLog index (PRINTSIZE * 3 + 8) (take PRINTSIZE buffer)
            in s @ binary_loop index1 (drop PRINTSIZE buffer)))"
  by pat_completeness auto
termination by (relation "measure (\<lambda>(index, buffer). length buffer)") (auto simp: PRINTSIZE_def)

declare binary_loop.simps [simp del]

text \<open>\<^verbatim>\<open>outputBinary\<close>: the line that is queued; \<open>address\<close> is the pointer as a number.\<close>

definition binary_line :: "int \<Rightarrow> bytes \<Rightarrow> bytes" where
  "binary_line address buffer =
     lit ''address['' @ print_int address @ lit ''] size['' @ nat_digits (length buffer) @ lit ''] '' @ [10] @
     binary_loop 0 buffer"

section \<open>Reference: one line for every 32 bytes\<close>

definition hex_bytes :: "bytes \<Rightarrow> bytes" where
  "hex_bytes bs = concat (map hex_byte bs)"

definition dump_line :: "nat \<Rightarrow> bytes \<Rightarrow> bytes" where
  "dump_line index bs =
     ullto4Str index @ [32, 32] @ hex_bytes (take 16 bs) @ (if drop 16 bs = [] then [] else 32 # hex_bytes (drop 16 bs))"

function dump :: "nat \<Rightarrow> bytes \<Rightarrow> bytes" where
  "dump index buffer =
     (if buffer = [] then [] else dump_line index (take 32 buffer) @ [10] @ dump (index + 1) (drop 32 buffer))"
  by pat_completeness auto
termination by (relation "measure (\<lambda>(index, buffer). length buffer)") auto

declare dump.simps [simp del]

section \<open>Lemmas\<close>

text \<open>What the loop writes for the bytes from position \<open>lsize\<close> on; \<open>first\<close>: no line has been begun yet.\<close>

fun body :: "nat \<Rightarrow> nat \<Rightarrow> bool \<Rightarrow> bytes \<Rightarrow> bytes" where
  "body lsize index first [] = []"
| "body lsize index first (b # bs) =
     (if lsize mod 32 = 0 then (if first then [] else [10]) @ ullto4Str index @ [32] else []) @
     (if lsize mod 16 = 0 then [32] else []) @ hex_byte b @
     body (lsize + 1) (if lsize mod 32 = 0 then index + 1 else index) False bs"

lemma length_ullto4Str: "n < 10 ^ 10 \<Longrightarrow> length (ullto4Str n) \<le> 10"
  using length_nat_digits [of 10 n] by (simp add: ullto4Str_def Let_def)

text \<open>The buffer is large enough for 512 bytes, so the loop never stops early.\<close>

definition dump_bound :: "nat \<Rightarrow> nat" where
  "dump_bound lsize = 2 * lsize + (lsize + 15) div 16 + 12 * ((lsize + 31) div 32)"

lemma ceil_div:
  fixes n :: nat
  assumes "0 < n"
  shows "(l + (n - 1)) div n = l div n + (if l mod n = 0 then 0 else 1)"
proof -
  have "(l + (n - 1)) div n = l div n + (l mod n + (n - 1)) div n"
    using assms by (subst div_add1_eq) simp
  moreover have "(l mod n + (n - 1)) div n = (if l mod n = 0 then 0 else 1)"
    using assms mod_less_divisor [OF assms, of l] by (auto simp: div_eq_0_iff intro!: div_nat_eqI)
  ultimately show ?thesis by simp
qed

lemma ceil_div_Suc:
  fixes n :: nat
  assumes "0 < n"
  shows "(l + 1 + (n - 1)) div n = (l + (n - 1)) div n + (if l mod n = 0 then 1 else 0)"
proof -
  have "(l + 1 + (n - 1)) div n = l div n + 1"
    using assms div_add_self2 [of n l] by simp
  then show ?thesis using ceil_div [OF assms, of l] by simp
qed

lemma lines_Suc: "(l + 1 + 31) div 32 = (l + 31) div 32 + (if l mod 32 = 0 then 1 else 0 :: nat)"
  using ceil_div_Suc [of 32 l] by simp

lemma dump_bound_mono: "lsize \<le> 512 \<Longrightarrow> dump_bound lsize \<le> 1248"
  using div_le_mono [of "lsize + 15" 527 16] div_le_mono [of "lsize + 31" 543 32] by (simp add: dump_bound_def)

lemma dump_bound_step:
  "dump_bound (lsize + 1) = dump_bound lsize + 2 + (if lsize mod 16 = 0 then 1 else 0) + (if lsize mod 32 = 0 then 12 else 0)"
  using ceil_div_Suc [of 16 lsize] lines_Suc [of lsize] by (simp add: dump_bound_def)

lemma form_loop_body:
  assumes "length buffer \<le> 512" and "lsize \<le> length buffer" and "length acc \<le> dump_bound lsize"
    and "index + length buffer - lsize < 10 ^ 10" and "headlen = 0 \<longleftrightarrow> lsize = 0"
  shows "form_loop 1544 buffer lsize headlen index acc =
      (index + ((length buffer + 31) div 32 - (lsize + 31) div 32), acc @ body lsize index (lsize = 0) (drop lsize buffer) @ [10]) \<and>
    length (snd (form_loop 1544 buffer lsize headlen index acc)) \<le> 1249"
  using assms
proof (induction "1544 :: nat" buffer lsize headlen index acc rule: form_loop.induct)
  case (1 buffer lsize headlen index acc)
  show ?case
  proof (cases "lsize < length buffer")
    case False
    then have "form_loop 1544 buffer lsize headlen index acc = (index, acc @ [10])" by (subst form_loop.simps) simp
    then show ?thesis using False "1.prems"(1,2,3) dump_bound_mono [of lsize] by simp
  next
    case True
    have room: "length acc + 10 < 1544" using "1.prems"(1,2,3) dump_bound_mono [of lsize] by linarith
    let ?nl = "lsize mod 32 = 0"
    let ?acc1 = "if ?nl \<and> headlen \<noteq> 0 then acc @ [10] else acc"
    let ?head = "ullto4Str index @ [32]"
    let ?headlen = "if ?nl then length ?head else headlen"
    let ?acc2 = "if ?nl then ?acc1 @ ?head else ?acc1"
    let ?index = "if ?nl then index + 1 else index"
    let ?acc3 = "if lsize mod 16 = 0 \<and> ?headlen \<noteq> 0 then ?acc2 @ [32] else ?acc2"
    let ?acc = "?acc3 @ hex_byte (buffer ! lsize)"
    have h: "?headlen \<noteq> 0" using "1.prems"(5) by auto
    have hd: "length ?head \<le> 11" using length_ullto4Str [of index] "1.prems"(4) True by simp
    have len: "length ?acc \<le> dump_bound (lsize + 1)"
      using "1.prems"(3) hd unfolding dump_bound_step by (simp add: hex_byte_def)
    have fuel: "?index + length buffer - (lsize + 1) < 10 ^ 10" using "1.prems"(4) True by auto
    have IH: "form_loop 1544 buffer (lsize + 1) ?headlen ?index ?acc =
      (?index + ((length buffer + 31) div 32 - (lsize + 1 + 31) div 32),
       ?acc @ body (lsize + 1) ?index (lsize + 1 = 0) (drop (lsize + 1) buffer) @ [10]) \<and>
      length (snd (form_loop 1544 buffer (lsize + 1) ?headlen ?index ?acc)) \<le> 1249"
      by (rule "1.hyps") (use True room h len fuel "1.prems"(1) in \<open>simp_all add: Let_def\<close>)
    have idx: "?index + ((length buffer + 31) div 32 - (lsize + 1 + 31) div 32)
        = index + ((length buffer + 31) div 32 - (lsize + 31) div 32)"
      using True lines_Suc [of lsize] div_le_mono [of "lsize + 1 + 31" "length buffer + 31" 32] by simp
    have dr: "drop lsize buffer = buffer ! lsize # drop (lsize + 1) buffer" using True by (simp add: Cons_nth_drop_Suc)
    have step: "form_loop 1544 buffer lsize headlen index acc = form_loop 1544 buffer (lsize + 1) ?headlen ?index ?acc"
      using True room by (subst form_loop.simps) (simp only: Let_def if_True simp_thms)
    have eq: "?acc @ body (lsize + 1) ?index (lsize + 1 = 0) (drop (lsize + 1) buffer) @ [10]
        = acc @ body lsize index (lsize = 0) (drop lsize buffer) @ [10]"
      using "1.prems"(5) h by (simp add: dr)
    show ?thesis unfolding step using IH unfolding idx eq .
  qed
qed

lemma mod_32_16: "(l :: nat) mod 32 = 0 \<Longrightarrow> l mod 16 = 0"
  using dvd_trans [of 16 32 l] by (simp add: mod_eq_0_iff_dvd)

lemma body_segment:
  "\<forall>i < length xs. (l + i) mod 16 \<noteq> 0 \<Longrightarrow>
   body l index f (xs @ ys) = hex_bytes xs @ body (l + length xs) index (f \<and> xs = []) ys"
proof (induction xs arbitrary: l f)
  case (Cons x xs)
  have "l mod 16 \<noteq> 0" using Cons.prems [rule_format, of 0] by simp
  then have "l mod 32 \<noteq> 0" by (rule contrapos_nn) (rule mod_32_16)
  moreover have "\<forall>i < length xs. (l + 1 + i) mod 16 \<noteq> 0"
  proof (intro allI impI)
    fix i assume "i < length xs"
    then have "Suc i < length (x # xs)" by simp
    from Cons.prems [rule_format, OF this] show "(l + 1 + i) mod 16 \<noteq> 0" by (metis add.assoc Suc_eq_plus1_left)
  qed
  note Cons.IH [OF this, of False]
  ultimately show ?case using \<open>l mod 16 \<noteq> 0\<close> by (simp add: hex_bytes_def)
qed (simp add: hex_bytes_def)

text \<open>Half a line: up to 16 bytes, beginning at a multiple of 16.\<close>

lemma body_half:
  assumes "l mod 16 = 0" and "bs \<noteq> []"
  shows "body l index f bs =
    (if l mod 32 = 0 then (if f then [] else [10]) @ ullto4Str index @ [32] else []) @ 32 # hex_bytes (take 16 bs) @
    body (l + 16) (if l mod 32 = 0 then index + 1 else index) False (drop 16 bs)"
proof -
  obtain b cs where bs: "bs = b # cs" using assms(2) by (cases bs) auto
  let ?xs = "take 15 cs" and ?ys = "drop 15 cs"
  have "\<forall>i < length ?xs. (l + 1 + i) mod 16 \<noteq> 0"
  proof (intro allI impI)
    fix i assume "i < length ?xs"
    then have "1 + i < 16" by simp
    moreover have "(l + (1 + i)) mod 16 = (1 + i) mod 16" using assms(1) by (metis add_0 mod_add_left_eq)
    ultimately show "(l + 1 + i) mod 16 \<noteq> 0" by (simp add: add.assoc)
  qed
  from body_segment [OF this, of "if l mod 32 = 0 then index + 1 else index" False ?ys]
  have "body (l + 1) (if l mod 32 = 0 then index + 1 else index) False cs
      = hex_bytes ?xs @ body (l + 1 + length ?xs) (if l mod 32 = 0 then index + 1 else index) False ?ys" by simp
  also have "\<dots> = hex_bytes ?xs @ body (l + 16) (if l mod 32 = 0 then index + 1 else index) False ?ys"
    by (cases "15 \<le> length cs") (simp_all add: min_def add.commute)
  finally show ?thesis using assms(1) by (simp add: bs hex_bytes_def)
qed

lemma body_line:
  assumes "l mod 32 = 0" and "bs \<noteq> []"
  shows "body l index f bs =
    (if f then [] else [10]) @ dump_line index (take 32 bs) @ body (l + 32) (index + 1) False (drop 32 bs)"
proof -
  have "(l + 16) mod 16 = 0" "(l + 16) mod 32 \<noteq> 0"
    using assms(1) mod_32_16 [OF assms(1)] by (simp_all add: mod_add_eq [symmetric, of l] del: mod_add_eq)
  note half = body_half [OF this(1), of "drop 16 bs" "index + 1" False]
  show ?thesis
    using body_half [OF mod_32_16 [OF assms(1)] assms(2), of index f] half \<open>(l + 16) mod 32 \<noteq> 0\<close> assms(1)
    by (cases "drop 16 bs = []") (auto simp: dump_line_def drop_take min_def add.commute)
qed

lemma body_dump:
  "l mod 32 = 0 \<Longrightarrow> bs \<noteq> [] \<Longrightarrow> body l index f bs @ [10] = (if f then [] else [10]) @ dump index bs"
proof (induction index bs arbitrary: l f rule: dump.induct)
  case (1 index bs)
  show ?case
  proof (cases "drop 32 bs = []")
    case True
    then show ?thesis using body_line [OF "1.prems", of index f] "1.prems"(2) by (simp add: dump.simps [of index bs] dump.simps [of _ "[]"])
  next
    case False
    have "(l + 32) mod 32 = 0" using "1.prems"(1) by simp
    from "1.IH" [OF "1.prems"(2) this False, of False]
    show ?thesis using body_line [OF "1.prems", of index f] "1.prems"(2) by (simp add: dump.simps [of index bs])
  qed
qed

lemma dump_append:
  "length xs = 32 * k \<Longrightarrow> dump index (xs @ ys) = dump index xs @ dump (index + k) ys"
proof (induction k arbitrary: xs index)
  case 0
  then show ?case by (simp add: dump.simps [of _ "[]"])
next
  case (Suc k)
  then have ne: "xs \<noteq> []" and l: "length (drop 32 xs) = 32 * k" "32 \<le> length xs" by auto
  then have "dump index (xs @ ys) = dump_line index (take 32 xs) @ [10] @ dump (index + 1) (drop 32 xs @ ys)"
    by (subst dump.simps) simp
  also have "\<dots> = dump_line index (take 32 xs) @ [10] @ dump (index + 1) (drop 32 xs) @ dump (index + Suc k) ys"
    using Suc.IH [OF l(1), of "index + 1"] by simp
  also have "\<dots> = dump index xs @ dump (index + Suc k) ys" using ne by (simp add: dump.simps [of index xs])
  finally show ?case .
qed

lemma formLog_dump:
  assumes "bs \<noteq> []" and "length bs \<le> 512" and "index + length bs < 10 ^ 10"
  shows "formLog index 1544 bs = (index + (length bs + 31) div 32, dump index bs)" and "length (dump index bs) + 1 \<le> 1544"
proof -
  have fl: "form_loop 1544 bs 0 0 index [] =
      (index + ((length bs + 31) div 32 - (0 + 31) div 32), [] @ body 0 index (0 = (0::nat)) (drop 0 bs) @ [10]) \<and>
    length (snd (form_loop 1544 bs 0 0 index [])) \<le> 1249"
    by (rule form_loop_body) (use assms in \<open>simp_all add: dump_bound_def\<close>)
  have f: "form_loop 1544 bs 0 0 index [] = (index + (length bs + 31) div 32, body 0 index True bs @ [10])"
    using conjunct1 [OF fl] by simp
  note len = conjunct2 [OF fl]
  show "formLog index 1544 bs = (index + (length bs + 31) div 32, dump index bs)"
    using f body_dump [of 0 bs index True] assms(1) by (simp add: formLog_def)
  show "length (dump index bs) + 1 \<le> 1544" using f len body_dump [of 0 bs index True] assms(1) by simp
qed

lemma binary_loop_dump: "index + length bs < 10 ^ 10 \<Longrightarrow> binary_loop index bs = dump index bs"
proof (induction index bs rule: binary_loop.induct)
  case (1 index bs)
  show ?case
  proof (cases "bs = []")
    case True
    then show ?thesis by (simp add: binary_loop.simps [of index "[]"] dump.simps [of index "[]"])
  next
    case False
    let ?xs = "take 512 bs" and ?ys = "drop 512 bs"
    have f: "formLog index 1544 ?xs = (index + (length ?xs + 31) div 32, dump index ?xs)"
      by (rule formLog_dump) (use False "1.prems" in auto)
    have step: "binary_loop index bs = dump index ?xs @ binary_loop (index + (length ?xs + 31) div 32) ?ys"
      using False f by (simp add: binary_loop.simps [of index bs] PRINTSIZE_def)
    show ?thesis
    proof (cases "512 \<le> length bs")
      case True
      then have "length ?xs = 32 * 16" and i: "(length ?xs + 31) div 32 = 16" by simp_all
      from dump_append [OF this(1), of index ?ys] have "dump index bs = dump index ?xs @ dump (index + 16) ?ys" by simp
      moreover have "binary_loop (index + 16) ?ys = dump (index + 16) ?ys"
        using "1.IH" [OF False, of "(index + 16, dump index ?xs)"] f i "1.prems" True by (simp add: PRINTSIZE_def)
      ultimately show ?thesis using step i by simp
    next
      case False
      then show ?thesis using step by (simp add: binary_loop.simps [of _ "[]"])
    qed
  qed
qed

section \<open>Properties\<close>

text \<open>
  The binary dump of a package is complete and stays in its buffer.  For every package (below \<open>10 ^ 10\<close>
  bytes) \<^verbatim>\<open>outputBinary\<close>, which works in pieces of 512 bytes, queues the head followed by one line for every
  32 bytes, numbered through: six or more digits and two groups of 16 bytes in hexadecimal; and no call of
  \<^verbatim>\<open>formLog\<close> writes beyond its 1544 bytes, the terminator included.
\<close>

theorem binary_dump_complete:
  assumes "length buffer < 10 ^ 10"
  shows "binary_line address buffer =
      lit ''address['' @ print_int address @ lit ''] size['' @ nat_digits (length buffer) @ lit ''] '' @ [10] @ dump 0 buffer \<and>
    (\<forall>k. let bs = take PRINTSIZE (drop (PRINTSIZE * k) buffer)
          in bs = [] \<or> length (snd (formLog (16 * k) (PRINTSIZE * 3 + 8) bs)) + 1 \<le> PRINTSIZE * 3 + 8)"
proof -
  have "length (snd (formLog (16 * k) 1544 bs)) + 1 \<le> 1544" if "bs = take 512 (drop (512 * k) buffer)" "bs \<noteq> []" for k bs
  proof -
    have "512 * k < length buffer" using that by auto
    moreover have "length bs \<le> length buffer - 512 * k" using that by simp
    ultimately have k: "16 * k + length bs < 10 ^ 10" using assms by linarith
    have "length bs \<le> 512" using that by simp
    from formLog_dump [OF that(2) this k] show ?thesis by simp
  qed
  then show ?thesis using binary_loop_dump [of 0 buffer] assms by (auto simp: binary_line_def PRINTSIZE_def Let_def)
qed

theorem binary_dump_complete_witness:
  "binary_line 16 [0xAB, 7] = lit ''address[16] size[2] '' @ [10] @ lit ''000000  ab07'' @ [10]"
proof -
  have d: "nat_digits 16 = lit ''16''" "nat_digits 2 = lit ''2''" "nat_digits 0 = lit ''0''" by (simp_all add: nat_digits.simps lit_def)
  have h: "hex_byte 0xAB = lit ''ab''" "hex_byte 7 = lit ''07''" by (simp_all add: hex_byte_def szchar_def lit_def)
  have "dump 0 [0xAB, 7] = lit ''000000  ab07'' @ [10]"
    by (simp add: dump.simps dump_line_def ullto4Str_def hex_bytes_def h d(3)) (simp add: lit_def numeral_eq_Suc)
  moreover have "binary_line 16 [0xAB, 7] =
      lit ''address['' @ print_int 16 @ lit ''] size['' @ nat_digits (length [0xAB, 7 :: byte]) @ lit ''] '' @ [10] @ dump 0 [0xAB, 7]"
    using binary_dump_complete [of "[0xAB, 7]" 16] by simp
  ultimately show ?thesis by (simp add: print_int_def d lit_def numeral_2_eq_2 [symmetric])
qed

end
