(* ===== verification/Async_Log.thy ===== *)
theory Async_Log
  imports Log_Format
begin

text \<open>
  \<^verbatim>\<open>base/AsyncLog\<close>, the queue of lines between the threads that log and the thread that writes.  The steps of
  the threads are as fine as the locking of the source: \<^verbatim>\<open>output\<close> is one step under the mutex; the writer
  holds the mutex from its test of the queue to \<^verbatim>\<open>wait\<close>, which releases it; \<^verbatim>\<open>uninit\<close> sets the flag and
  notifies in two steps without the mutex; a call at level \<^verbatim>\<open>FATAL\<close>, which takes no lock at all, is a step for
  each access to the console and the log file.  The files are their contents by name, the text of the current
  time, the success of \<^verbatim>\<open>fopen\<close> and the number of bytes each \<^verbatim>\<open>fwrite\<close> takes are inputs of a step.
  \<open>console\<close> holds the lines printed, \<open>outputs\<close> the lines ever queued.
\<close>

section \<open>State\<close>

text \<open>
  The writer: at the top of its loop, about to lock the mutex, decided to wait (holding the mutex), waiting,
  holding a line, or finished.
\<close>

datatype writer_pc = W_Top | W_Lock | W_Decided | W_Waiting | W_Have bytes | W_Done

datatype uninit_pc = U_Not_called | U_Exit_set | U_Joining

text \<open>
  A thread in \<^verbatim>\<open>output\<close> at level \<^verbatim>\<open>FATAL\<close>, after it has printed its line: about to test \<^verbatim>\<open>m_hLogFile\<close>, to create
  the file, to write to it, or to crash the process.
\<close>

datatype fatal_pc = F_Test bytes | F_Create bytes | F_Write bytes | F_Crash

text \<open>A line on the console, printed by the writer or by a \<^verbatim>\<open>FATAL\<close> call.\<close>

datatype printed = Printed bytes | Fatal_line bytes

record log_state =
  m_strFileName :: bytes
  m_strFileNamePID :: bytes
  m_bTruncateLongLog :: bool
  m_nCurrentLevel :: LOG_LEVEL
  m_nFileRollSize :: int
  m_nCurrentWrittenSize :: int
  m_hLogFile :: "bytes option"
  log_files :: "bytes \<Rightarrow> bytes option"
  m_listLinesToWrite :: "bytes list"
  m_bExit :: bool
  m_bRunning :: bool
  writer :: writer_pc
  uninit_at :: uninit_pc
  console :: "printed list"
  outputs :: "bytes list"
  fatals :: "fatal_pc list"
  crashed :: bool

text \<open>\<^verbatim>\<open>init\<close>: the process id goes through a buffer of 8 bytes.  The thread starts at once.\<close>

definition pid_text :: "int \<Rightarrow> bytes" where
  "pid_text pid = take 7 (let ds = print_int pid in replicate (5 - length ds) 48 @ ds)"

definition log_init :: "bytes \<Rightarrow> bool \<Rightarrow> int \<Rightarrow> int \<Rightarrow> log_state" where
  "log_init fileName truncateLongLine rollSize pid =
     \<lparr>m_strFileName = fileName, m_strFileNamePID = pid_text pid, m_bTruncateLongLog = truncateLongLine,
      m_nCurrentLevel = LOG_LEVEL_INFO, m_nFileRollSize = rollSize, m_nCurrentWrittenSize = 0, m_hLogFile = None,
      log_files = (\<lambda>_. None), m_listLinesToWrite = [], m_bExit = False, m_bRunning = True, writer = W_Top,
      uninit_at = U_Not_called, console = [], outputs = [], fatals = [], crashed = False\<rparr>"

section \<open>Files\<close>

definition new_file_name :: "bytes \<Rightarrow> log_state \<Rightarrow> bytes" where
  "new_file_name now s = m_strFileName s @ lit ''.'' @ now @ lit ''.'' @ m_strFileNamePID s @ lit ''.log''"

text \<open>\<^verbatim>\<open>createNewFile\<close>: mode \<^verbatim>\<open>w+\<close> empties an existing file.\<close>

definition createNewFile :: "bool \<Rightarrow> bytes \<Rightarrow> log_state \<Rightarrow> bool \<times> log_state" where
  "createNewFile opens name s =
     (if opens then (True, s\<lparr>m_hLogFile := Some name, log_files := (log_files s)(name := Some [])\<rparr>)
      else (False, s\<lparr>m_hLogFile := None\<rparr>))"

text \<open>The loop of \<^verbatim>\<open>writeToFile\<close>: whether all was written, and the bytes that were.\<close>

function write_loop :: "(bytes \<Rightarrow> nat) \<Rightarrow> bytes \<Rightarrow> bool \<times> bytes" where
  "write_loop fw strLocal =
     (let ret = min (fw strLocal) (length strLocal)
      in if ret = 0 then (False, [])
         else if drop ret strLocal = [] then (True, take ret strLocal)
         else (let (ok, out) = write_loop fw (drop ret strLocal) in (ok, take ret strLocal @ out)))"
  by pat_completeness auto
termination by (relation "measure (\<lambda>(fw, s). length s)") auto

declare write_loop.simps [simp del]

definition writeToFile :: "(bytes \<Rightarrow> nat) \<Rightarrow> bytes \<Rightarrow> log_state \<Rightarrow> bool \<times> log_state" where
  "writeToFile fw data s =
     (let (ok, out) = write_loop fw data
      in case m_hLogFile s of
           None \<Rightarrow> (False, s)
         | Some name \<Rightarrow>
             (ok, s\<lparr>log_files := (log_files s)(name := Some ((case log_files s name of None \<Rightarrow> [] | Some c \<Rightarrow> c) @ out))\<rparr>))"

section \<open>The threads\<close>

text \<open>\<^verbatim>\<open>notify_one\<close>: only a writer that is already waiting is woken; it has to lock the mutex again.\<close>

definition notify_one :: "log_state \<Rightarrow> log_state" where
  "notify_one s = (if writer s = W_Waiting then s\<lparr>writer := W_Lock\<rparr> else s)"

definition mutex_free :: "log_state \<Rightarrow> bool" where
  "mutex_free s \<longleftrightarrow> writer s \<noteq> W_Decided"

definition queue_line :: "bytes \<Rightarrow> log_state \<Rightarrow> log_state" where
  "queue_line strLine s =
     notify_one (s\<lparr>m_listLinesToWrite := m_listLinesToWrite s @ [strLine], outputs := outputs s @ [strLine]\<rparr>)"

text \<open>
  \<^verbatim>\<open>output\<close> for a level other than \<^verbatim>\<open>FATAL\<close>: its result and the state; it needs the mutex when it queues.
\<close>

definition log_output ::
  "LOG_LEVEL \<Rightarrow> bytes \<Rightarrow> bytes \<Rightarrow> (bytes \<times> int) option \<Rightarrow> bytes \<Rightarrow> log_state \<Rightarrow> bool \<times> log_state" where
  "log_output nLevel szTime threadID position msg s =
     (if \<not> level_enabled (m_nCurrentLevel s) nLevel then (False, s)
      else (True, queue_line (log_line (m_strFileName s \<noteq> []) (m_bTruncateLongLog s)
                     (makeLinePrefix nLevel szTime threadID) position msg) s))"

definition outputBinary :: "int \<Rightarrow> bytes \<Rightarrow> log_state \<Rightarrow> bool \<times> log_state" where
  "outputBinary address buffer s = (True, queue_line (binary_line address buffer) s)"

text \<open>
  \<^verbatim>\<open>output\<close> at level \<^verbatim>\<open>FATAL\<close>, when no other thread comes in between: the line is written at once, past the
  queue, and the process crashes (\<open>None\<close>); only when the file cannot be created it returns.
\<close>

definition output_fatal :: "bytes \<Rightarrow> bool \<Rightarrow> (bytes \<Rightarrow> nat) \<Rightarrow> bytes \<Rightarrow> log_state \<Rightarrow> bool option \<times> log_state" where
  "output_fatal now opens fw strLine s =
     (let s1 = s\<lparr>console := console s @ [Fatal_line strLine]\<rparr>
      in if m_strFileName s1 = [] then (None, s1)
         else (let (ok, s2) = (if m_hLogFile s1 = None then createNewFile opens (new_file_name now s1) s1 else (True, s1))
               in if \<not> ok then (Some False, s2) else (None, snd (writeToFile fw strLine s2))))"

text \<open>The same call as steps of its thread: its beginning, and the step of the \<open>i\<close>-th such thread.\<close>

definition fatal_begin :: "bytes \<Rightarrow> log_state \<Rightarrow> log_state" where
  "fatal_begin strLine s =
     s\<lparr>console := console s @ [Fatal_line strLine],
       fatals := fatals s @ [if m_strFileName s = [] then F_Crash else F_Test strLine]\<rparr>"

definition fatal_step :: "nat \<Rightarrow> bytes \<Rightarrow> bool \<Rightarrow> (bytes \<Rightarrow> nat) \<Rightarrow> log_state \<Rightarrow> log_state option" where
  "fatal_step i now opens fw s =
     (if length (fatals s) \<le> i then None
      else Some (case fatals s ! i of
          F_Test l \<Rightarrow> s\<lparr>fatals := (fatals s)[i := if m_hLogFile s = None then F_Create l else F_Write l]\<rparr>
        | F_Create l \<Rightarrow>
            (let (ok, s1) = createNewFile opens (new_file_name now s) s
             in s1\<lparr>fatals := (if ok then (fatals s)[i := F_Write l] else take i (fatals s) @ drop (Suc i) (fatals s))\<rparr>)
        | F_Write l \<Rightarrow> (snd (writeToFile fw l s))\<lparr>fatals := (fatals s)[i := F_Crash]\<rparr>
        | F_Crash \<Rightarrow> s\<lparr>crashed := True\<rparr>))"

definition log_setLevel :: "LOG_LEVEL \<Rightarrow> log_state \<Rightarrow> log_state" where
  "log_setLevel nLevel s = s\<lparr>m_nCurrentLevel := setLevel nLevel (m_nCurrentLevel s)\<rparr>"

text \<open>One step of \<^verbatim>\<open>writeThreadProc\<close>; \<open>None\<close> when it has to wait or has finished.\<close>

definition writer_step :: "bytes \<Rightarrow> bool \<Rightarrow> (bytes \<Rightarrow> nat) \<Rightarrow> log_state \<Rightarrow> log_state option" where
  "writer_step now opens fw s =
     (case writer s of
        W_Top \<Rightarrow>
          Some (if m_strFileName s \<noteq> [] \<and> (m_hLogFile s = None \<or> m_nCurrentWrittenSize s \<ge> m_nFileRollSize s)
                then (let (ok, s1) = createNewFile opens (new_file_name now s) (s\<lparr>m_nCurrentWrittenSize := 0\<rparr>)
                      in s1\<lparr>writer := (if ok then W_Lock else W_Done)\<rparr>)
                else s\<lparr>writer := W_Lock\<rparr>)
      | W_Lock \<Rightarrow>
          Some (case m_listLinesToWrite s of
                  [] \<Rightarrow> s\<lparr>writer := (if m_bExit s then W_Done else W_Decided)\<rparr>
                | l # ls \<Rightarrow> s\<lparr>m_listLinesToWrite := ls, writer := W_Have l\<rparr>)
      | W_Decided \<Rightarrow> Some (s\<lparr>writer := W_Waiting\<rparr>)
      | W_Waiting \<Rightarrow> None
      | W_Have strLine \<Rightarrow>
          Some (let s1 = s\<lparr>console := console s @ [Printed strLine]\<rparr>
                in if m_strFileName s = [] then s1\<lparr>writer := W_Top\<rparr>
                   else (let (ok, s2) = writeToFile fw strLine s1
                         in if \<not> ok then s2\<lparr>writer := W_Done\<rparr>
                            else s2\<lparr>m_nCurrentWrittenSize := m_nCurrentWrittenSize s2 + int (length strLine), writer := W_Top\<rparr>))
      | W_Done \<Rightarrow> None)"

text \<open>\<^verbatim>\<open>uninit\<close> up to the \<^verbatim>\<open>join\<close>, which returns when the writer has finished.\<close>

definition uninit_step :: "log_state \<Rightarrow> log_state option" where
  "uninit_step s =
     (case uninit_at s of
        U_Not_called \<Rightarrow> Some (s\<lparr>m_bExit := True, uninit_at := U_Exit_set\<rparr>)
      | U_Exit_set \<Rightarrow> Some (notify_one (s\<lparr>uninit_at := U_Joining\<rparr>))
      | U_Joining \<Rightarrow> None)"

text \<open>
  The system: any number of logging threads, the writer, and the thread that calls \<^verbatim>\<open>uninit\<close>; none of them after
  a crash.
\<close>

inductive log_step :: "log_state \<Rightarrow> log_state \<Rightarrow> bool" where
  step_output: "\<not> crashed s \<Longrightarrow> mutex_free s \<Longrightarrow> nLevel \<noteq> LOG_LEVEL_FATAL \<Longrightarrow>
    log_step s (snd (log_output nLevel szTime threadID position msg s))"
| step_binary: "\<not> crashed s \<Longrightarrow> mutex_free s \<Longrightarrow> log_step s (snd (outputBinary address buffer s))"
| step_fatal_call: "\<not> crashed s \<Longrightarrow> level_enabled (m_nCurrentLevel s) LOG_LEVEL_FATAL \<Longrightarrow>
    log_step s (fatal_begin (log_line (m_strFileName s \<noteq> []) (m_bTruncateLongLog s)
      (makeLinePrefix LOG_LEVEL_FATAL szTime threadID) position msg) s)"
| step_fatal: "\<not> crashed s \<Longrightarrow> fatal_step i now opens fw s = Some s' \<Longrightarrow> log_step s s'"
| step_level: "\<not> crashed s \<Longrightarrow> log_step s (log_setLevel nLevel s)"
| step_writer: "\<not> crashed s \<Longrightarrow> writer_step now opens fw s = Some s' \<Longrightarrow> log_step s s'"
| step_uninit: "\<not> crashed s \<Longrightarrow> uninit_step s = Some s' \<Longrightarrow> log_step s s'"

inductive log_reach :: "log_state \<Rightarrow> log_state \<Rightarrow> bool" for s0 where
  reach_start: "log_reach s0 s0"
| reach_step: "log_reach s0 s \<Longrightarrow> log_step s s' \<Longrightarrow> log_reach s0 s'"

section \<open>Lemmas\<close>

fun in_hand :: "writer_pc \<Rightarrow> bytes list" where
  "in_hand (W_Have l) = [l]"
| "in_hand _ = []"

fun from_queue :: "printed \<Rightarrow> bytes list" where
  "from_queue (Printed l) = [l]"
| "from_queue (Fatal_line l) = []"

text \<open>The lines the writer has printed, and whether no \<^verbatim>\<open>FATAL\<close> call has been made.\<close>

definition written :: "log_state \<Rightarrow> bytes list" where
  "written s = concat (map from_queue (console s))"

definition no_fatal :: "log_state \<Rightarrow> bool" where
  "no_fatal s \<longleftrightarrow> (\<forall>l. Fatal_line l \<notin> set (console s))"

text \<open>Every line printed once and in order; lines for a file are not empty.\<close>

definition lines_ok :: "log_state \<Rightarrow> bool" where
  "lines_ok s \<longleftrightarrow> written s @ in_hand (writer s) @ m_listLinesToWrite s = outputs s \<and>
     (m_strFileName s \<noteq> [] \<longrightarrow> [] \<notin> set (in_hand (writer s) @ m_listLinesToWrite s))"

text \<open>The counter is the size of the current file, which is below the limit when a line is added.\<close>

definition file_ok :: "log_state \<Rightarrow> bool" where
  "file_ok s \<longleftrightarrow> 0 < m_nFileRollSize s \<and> (m_strFileName s \<noteq> [] \<and> writer s \<noteq> W_Done \<longrightarrow>
     (case m_hLogFile s of
        None \<Rightarrow> writer s = W_Top
      | Some name \<Rightarrow> \<exists>c. log_files s name = Some c \<and> int (length c) = m_nCurrentWrittenSize s \<and>
          (writer s = W_Top \<or> m_nCurrentWrittenSize s < m_nFileRollSize s)))"

definition log_ok :: "log_state \<Rightarrow> bool" where
  "log_ok s \<longleftrightarrow> lines_ok s \<and> (no_fatal s \<longrightarrow> fatals s = [] \<and> file_ok s)"

lemma written_cong: "console s' = console s \<Longrightarrow> written s' = written s \<and> no_fatal s' = no_fatal s"
  by (simp add: written_def no_fatal_def)

lemma write_loop_ok: "write_loop fw d = (True, out) \<Longrightarrow> out = d"
proof (induction fw d arbitrary: out rule: write_loop.induct)
  case (1 fw d)
  let ?r = "min (fw d) (length d)"
  show ?case
  proof (cases "?r = 0 \<or> drop ?r d = []")
    case True
    then show ?thesis using "1.prems" by (auto simp: write_loop.simps [of fw d] Let_def split: if_splits)
  next
    case False
    then obtain out' where "write_loop fw (drop ?r d) = (True, out')" "out = take ?r d @ out'"
      using "1.prems" by (auto simp: write_loop.simps [of fw d] Let_def split: if_splits prod.splits)
    then show ?thesis using "1.IH" [of ?r out'] False by auto
  qed
qed

lemma write_loop_succeeds: "\<forall>d. 0 < fw d \<Longrightarrow> d \<noteq> [] \<Longrightarrow> write_loop fw d = (True, d)"
proof (induction fw d rule: write_loop.induct)
  case (1 fw d)
  let ?r = "min (fw d) (length d)"
  have "?r \<noteq> 0" using "1.prems" by (simp add: min_def)
  then show ?case
    using "1.IH" [of ?r] "1.prems"(1) by (cases "drop ?r d = []") (auto simp: write_loop.simps [of fw d] Let_def)
qed

lemma notify_one_fields [simp]:
  "in_hand (writer (notify_one s)) = in_hand (writer s)" "m_listLinesToWrite (notify_one s) = m_listLinesToWrite s"
  "console (notify_one s) = console s" "outputs (notify_one s) = outputs s" "m_strFileName (notify_one s) = m_strFileName s"
  "m_hLogFile (notify_one s) = m_hLogFile s" "log_files (notify_one s) = log_files s" "m_bExit (notify_one s) = m_bExit s"
  "m_nCurrentWrittenSize (notify_one s) = m_nCurrentWrittenSize s" "m_nFileRollSize (notify_one s) = m_nFileRollSize s"
  "writer (notify_one s) = W_Top \<longleftrightarrow> writer s = W_Top" "writer (notify_one s) = W_Done \<longleftrightarrow> writer s = W_Done"
  by (simp_all add: notify_one_def)

lemma queue_line_ok:
  assumes "lines_ok s" and "m_strFileName s \<noteq> [] \<longrightarrow> l \<noteq> []"
  shows "lines_ok (queue_line l s)"
  using assms by (auto simp: lines_ok_def queue_line_def written_def)

lemma queue_line_file: "file_ok s \<Longrightarrow> file_ok (queue_line l s)"
  by (auto simp: file_ok_def queue_line_def split: option.splits)

lemma binary_line_nonempty: "binary_line address buffer \<noteq> []"
  by (simp add: binary_line_def lit_def)

lemma writer_step_lines:
  assumes "writer_step now opens fw s = Some s'" and "lines_ok s"
  shows "lines_ok s'"
proof (cases "writer s")
  case (W_Have l)
  then show ?thesis
    using assms by (auto simp: writer_step_def lines_ok_def written_def writeToFile_def Let_def split: prod.splits option.splits if_splits)
next
  case W_Lock
  then show ?thesis using assms by (cases "m_listLinesToWrite s"; cases "m_bExit s") (auto simp: writer_step_def lines_ok_def written_def)
next
  case W_Top
  then show ?thesis using assms by (auto simp: writer_step_def lines_ok_def written_def createNewFile_def Let_def split: if_splits)
qed (use assms in \<open>auto simp: writer_step_def lines_ok_def written_def\<close>)

lemma writer_step_file:
  assumes "writer_step now opens fw s = Some s'" and "file_ok s"
  shows "file_ok s'"
proof (cases "writer s")
  case (W_Have l)
  show ?thesis
  proof (cases "m_strFileName s = []")
    case True
    then show ?thesis using assms W_Have by (auto simp: writer_step_def file_ok_def)
  next
    case False
    then obtain name c where n: "m_hLogFile s = Some name" "log_files s name = Some c" "int (length c) = m_nCurrentWrittenSize s"
      using assms(2) W_Have by (auto simp: file_ok_def split: option.splits)
    obtain ok out where w: "write_loop fw l = (ok, out)" by (cases "write_loop fw l")
    show ?thesis using assms W_Have False n w write_loop_ok [of fw l out]
      by (cases ok) (auto simp: writer_step_def file_ok_def writeToFile_def Let_def)
  qed
next
  case W_Lock
  then show ?thesis
    using assms by (cases "m_listLinesToWrite s") (auto simp: writer_step_def file_ok_def split: option.splits)
next
  case W_Top
  then show ?thesis
    using assms by (auto simp: writer_step_def file_ok_def createNewFile_def Let_def split: if_splits option.splits)
qed (use assms in \<open>auto simp: writer_step_def file_ok_def split: option.splits\<close>)

lemma writer_step_fatals:
  "writer_step now opens fw s = Some s' \<Longrightarrow> fatals s' = fatals s \<and> crashed s' = crashed s \<and> (no_fatal s' \<longleftrightarrow> no_fatal s)"
  by (cases "writer s"; cases "m_listLinesToWrite s")
    (auto simp: writer_step_def createNewFile_def writeToFile_def no_fatal_def Let_def split: if_splits prod.splits option.splits)

lemma fatal_step_lines:
  assumes "fatal_step i now opens fw s = Some s'" and "lines_ok s"
  shows "lines_ok s' \<and> no_fatal s' = no_fatal s"
  using assms
  by (cases "fatals s ! i")
    (auto simp: fatal_step_def lines_ok_def written_def no_fatal_def createNewFile_def writeToFile_def Let_def
      split: if_splits prod.splits option.splits)

lemma fatal_begin_lines: "lines_ok s \<Longrightarrow> lines_ok (fatal_begin l s) \<and> \<not> no_fatal (fatal_begin l s)"
  by (auto simp: lines_ok_def written_def no_fatal_def fatal_begin_def)

lemma queue_line_fatals [simp]:
  "fatals (queue_line l s) = fatals s" "no_fatal (queue_line l s) = no_fatal s" "crashed (queue_line l s) = crashed s"
  by (simp_all add: queue_line_def notify_one_def no_fatal_def)

lemma log_ok_notify: "log_ok (notify_one s) = log_ok s"
proof -
  have "lines_ok (notify_one s) = lines_ok s" by (simp add: lines_ok_def written_def)
  moreover have "file_ok (notify_one s) = file_ok s" by (cases "m_hLogFile s") (simp_all add: file_ok_def)
  moreover have "no_fatal (notify_one s) = no_fatal s" "fatals (notify_one s) = fatals s"
    by (simp_all add: notify_one_def no_fatal_def)
  ultimately show ?thesis by (simp add: log_ok_def)
qed

lemma log_ok_uninit: "log_ok (s\<lparr>m_bExit := b\<rparr>) = log_ok s" "log_ok (s\<lparr>uninit_at := u\<rparr>) = log_ok s"
  by (cases "m_hLogFile s"; simp add: log_ok_def lines_ok_def file_ok_def written_def no_fatal_def)+

lemma log_step_ok: "log_step s s' \<Longrightarrow> log_ok s \<Longrightarrow> log_ok s'"
proof (induction rule: log_step.induct)
  case (step_output s nLevel szTime threadID position msg)
  then show ?case by (auto simp: log_output_def log_ok_def queue_line_ok queue_line_file log_line_def)
next
  case (step_binary s address buffer)
  then show ?case by (auto simp: outputBinary_def log_ok_def queue_line_ok queue_line_file binary_line_nonempty)
next
  case (step_fatal_call s szTime threadID position msg)
  then show ?case by (simp add: log_ok_def fatal_begin_lines)
next
  case (step_fatal s i now opens fw s')
  then have "\<not> no_fatal s" by (auto simp: log_ok_def fatal_step_def)
  then show ?case using step_fatal fatal_step_lines by (simp add: log_ok_def)
next
  case (step_level s nLevel)
  then show ?case
    by (cases "m_hLogFile s") (simp_all add: log_setLevel_def log_ok_def lines_ok_def file_ok_def written_def no_fatal_def)
next
  case (step_writer s now opens fw s')
  then show ?case using writer_step_lines [of now opens fw s s'] writer_step_file [of now opens fw s s'] writer_step_fatals [of now opens fw s s']
    by (simp add: log_ok_def)
next
  case (step_uninit s s')
  then show ?case by (cases "uninit_at s") (auto simp: uninit_step_def log_ok_notify log_ok_uninit)
qed

lemmas reach_writer = reach_step [OF _ step_writer]
lemmas reach_uninit = reach_step [OF _ step_uninit]
lemmas reach_binary = reach_step [OF _ step_binary]

lemma log_reach_ok:
  assumes "log_reach s0 s" and "log_ok s0"
  shows "log_ok s"
  using assms by (induction rule: log_reach.induct) (auto dest: log_step_ok)

lemma log_init_ok: "0 < rollSize \<Longrightarrow> log_ok (log_init f t rollSize pid)"
  by (simp add: log_ok_def lines_ok_def file_ok_def log_init_def written_def)

section \<open>Stopping\<close>

text \<open>The writer on its own, with files that can be created and written.\<close>

inductive writer_run :: "nat \<Rightarrow> log_state \<Rightarrow> log_state \<Rightarrow> bool" where
  run_start: "writer_run 0 s s"
| run_step: "writer_run n s s' \<Longrightarrow> \<forall>d. 0 < fw d \<Longrightarrow> writer_step now True fw s' = Some s'' \<Longrightarrow> writer_run (Suc n) s s''"

fun rank :: "writer_pc \<Rightarrow> nat" where
  "rank W_Done = 0"
| "rank W_Lock = 1"
| "rank W_Top = 2"
| "rank (W_Have l) = 3"
| "rank _ = 0"

definition steps_left :: "log_state \<Rightarrow> nat" where
  "steps_left s = rank (writer s) + (if writer s = W_Done then 0 else 3 * length (m_listLinesToWrite s))"

text \<open>The flag is set and the writer is not about to wait; if it has finished, then with an empty queue.\<close>

definition stopping :: "log_state \<Rightarrow> bool" where
  "stopping s \<longleftrightarrow> m_bExit s \<and> writer s \<noteq> W_Decided \<and> writer s \<noteq> W_Waiting \<and>
     (writer s = W_Done \<longrightarrow> m_listLinesToWrite s = []) \<and> lines_ok s \<and> file_ok s \<and> no_fatal s"

lemma console_written: "no_fatal s \<Longrightarrow> console s = map Printed (written s)"
proof -
  have "(\<forall>l. Fatal_line l \<notin> set xs) \<Longrightarrow> xs = map Printed (concat (map from_queue xs))" for xs
  proof (induction xs)
    case (Cons x xs)
    then show ?case by (cases x) auto
  qed simp
  then show "no_fatal s \<Longrightarrow> console s = map Printed (written s)" by (simp add: no_fatal_def written_def)
qed

lemma writer_step_stopping:
  assumes "writer_step now True fw s = Some s'" and "stopping s" and "\<forall>d. 0 < fw d"
  shows "stopping s' \<and> steps_left s' < steps_left s \<and> outputs s' = outputs s"
proof -
  have inv: "lines_ok s'" "file_ok s'" "no_fatal s'"
    using assms(1,2) writer_step_lines writer_step_file writer_step_fatals by (auto simp: stopping_def)
  show ?thesis
  proof (cases "writer s")
    case (W_Have l)
    have "m_strFileName s \<noteq> [] \<Longrightarrow> l \<noteq> [] \<and> (\<exists>name. m_hLogFile s = Some name)"
      using assms(2) W_Have by (auto simp: stopping_def lines_ok_def file_ok_def split: option.splits)
    then show ?thesis
      using assms W_Have inv write_loop_succeeds [OF assms(3), of l]
      by (cases "m_strFileName s = []") (auto simp: writer_step_def writeToFile_def Let_def stopping_def steps_left_def)
  next
    case W_Top
    then show ?thesis
      using assms inv by (auto simp: writer_step_def createNewFile_def Let_def stopping_def steps_left_def split: if_splits)
  next
    case W_Lock
    then show ?thesis
      using assms inv by (cases "m_listLinesToWrite s") (auto simp: writer_step_def stopping_def steps_left_def)
  qed (use assms in \<open>auto simp: writer_step_def stopping_def\<close>)
qed

lemma writer_run_stopping:
  assumes "writer_run n s s'" and "stopping s"
  shows "stopping s' \<and> n + steps_left s' \<le> steps_left s \<and> outputs s' = outputs s"
  using assms
proof (induction rule: writer_run.induct)
  case (run_step n s s' fw now s'')
  then show ?case using writer_step_stopping [of now fw s' s''] by auto
qed simp

section \<open>Properties\<close>

text \<open>
  C30: No line that was queued is lost, doubled or reordered between the threads.  In every reachable state of any
  number of logging threads, \<^verbatim>\<open>FATAL\<close> calls included, the writer and \<^verbatim>\<open>uninit\<close>, the lines the writer has printed,
  the line it holds and the lines in the queue are together exactly the lines that were queued, in their
  order (a \<^verbatim>\<open>FATAL\<close> line goes to the console past the queue, and lines in the queue when the writer has ended
  on a file error stay there).  And as long as there was no \<^verbatim>\<open>FATAL\<close> call, when the writer holds a line for a
  file, the file it is going to write to exists and holds fewer bytes than the roll size.
\<close>

theorem log_lines_in_order:
  assumes "log_reach (log_init f t rollSize pid) s" and "0 < rollSize"
  shows "written s @ in_hand (writer s) @ m_listLinesToWrite s = outputs s \<and>
    (\<forall>l. writer s = W_Have l \<and> m_strFileName s \<noteq> [] \<and> no_fatal s \<longrightarrow>
       (\<exists>name c. m_hLogFile s = Some name \<and> log_files s name = Some c \<and> int (length c) < m_nFileRollSize s))"
  using log_reach_ok [OF assms(1) log_init_ok [OF assms(2)]]
  by (auto simp: log_ok_def lines_ok_def file_ok_def split: option.splits)

text \<open>
  Two lines are logged, the writer has created its file and taken the first one.
\<close>

theorem log_lines_in_order_witness:
  "let s0 = log_init (lit ''log'') False 1024 42;
       s1 = snd (outputBinary 0 [1] (snd (outputBinary 0 [] s0)));
       s2 = the (writer_step (lit ''now'') True (\<lambda>_. 1) (the (writer_step (lit ''now'') True (\<lambda>_. 1) s1)))
   in written s2 @ in_hand (writer s2) @ m_listLinesToWrite s2 = outputs s2 \<and> outputs s2 = [binary_line 0 [], binary_line 0 [1]] \<and>
      (\<exists>name c. m_hLogFile s2 = Some name \<and> log_files s2 name = Some c \<and> int (length c) < 1024)"
proof -
  define s0 where "s0 = log_init (lit ''log'') False 1024 42"
  define sa where "sa = snd (outputBinary 0 [] s0)"
  define s1 where "s1 = snd (outputBinary 0 [1] sa)"
  define w1 where "w1 = the (writer_step (lit ''now'') True (\<lambda>_. 1) s1)"
  define s2 where "s2 = the (writer_step (lit ''now'') True (\<lambda>_. 1) w1)"
  note defs = s0_def sa_def s1_def w1_def s2_def log_init_def outputBinary_def queue_line_def notify_one_def writer_step_def
    createNewFile_def Let_def
  have w: "writer_step (lit ''now'') True (\<lambda>_. 1) s1 = Some w1" "writer_step (lit ''now'') True (\<lambda>_. 1) w1 = Some s2"
    "mutex_free s0" "mutex_free sa"
    by (simp_all add: defs mutex_free_def lit_def)
  have c: "\<not> crashed s0" "\<not> crashed sa" "\<not> crashed s1" "\<not> crashed w1" by (simp_all add: defs lit_def)
  have "log_reach s0 s2"
    by (rule reach_writer [OF reach_writer [OF reach_binary [OF reach_binary [OF reach_start c(1) w(3), of 0 "[]", folded sa_def] c(2) w(4),
            of 0 "[1]", folded s1_def] c(3) w(1)] c(4) w(2)])
  from log_lines_in_order [OF this [unfolded s0_def]]
  have "written s2 @ in_hand (writer s2) @ m_listLinesToWrite s2 = outputs s2" "\<forall>l. writer s2 = W_Have l \<and> m_strFileName s2 \<noteq> [] \<and>
       no_fatal s2 \<longrightarrow> (\<exists>name c. m_hLogFile s2 = Some name \<and> log_files s2 name = Some c \<and> int (length c) < m_nFileRollSize s2)" by simp_all
  moreover have "outputs s2 = [binary_line 0 [], binary_line 0 [1]]" "writer s2 = W_Have (binary_line 0 [])" "m_strFileName s2 \<noteq> []"
    "m_nFileRollSize s2 = 1024" "no_fatal s2"
    by (simp_all add: defs lit_def no_fatal_def)
  ultimately show ?thesis unfolding Let_def s0_def [symmetric] sa_def [symmetric] s1_def [symmetric] w1_def [symmetric] s2_def [symmetric]
    by simp
qed

text \<open>
  C31: The writer stops and nothing queued before is lost.  Once \<^verbatim>\<open>m_bExit\<close> is set while the writer is neither
  waiting nor about to wait, there was no \<^verbatim>\<open>FATAL\<close> call, no thread logs any more and the files can be written,
  the writer can always go on until it finishes, it does so within three steps for each line and three more,
  and then every line that was logged has been printed.
\<close>

theorem writer_drains_and_stops:
  assumes "log_reach (log_init f t rollSize pid) s" and "0 < rollSize" and "m_bExit s"
    and "writer s \<notin> {W_Decided, W_Waiting, W_Done}" and "no_fatal s" and "writer_run n s s'"
  shows "n \<le> 3 * length (m_listLinesToWrite s) + 3 \<and>
    (if writer s' = W_Done then console s' = map Printed (outputs s) else \<forall>now fw. writer_step now True fw s' \<noteq> None)"
proof -
  have "stopping s" using log_reach_ok [OF assms(1) log_init_ok [OF assms(2)]] assms(3,4,5) by (auto simp: stopping_def log_ok_def)
  note r = writer_run_stopping [OF assms(6) this]
  moreover have "steps_left s \<le> 3 * length (m_listLinesToWrite s) + 3" by (cases "writer s") (simp_all add: steps_left_def)
  moreover have "writer s' = W_Done \<Longrightarrow> console s' = map Printed (outputs s)"
    using r console_written [of s'] by (auto simp: stopping_def lines_ok_def)
  moreover have "writer s' \<noteq> W_Done \<Longrightarrow> writer_step now True fw s' \<noteq> None" for now fw
    using r by (cases "writer s'") (auto simp: stopping_def writer_step_def)
  ultimately show ?thesis by auto
qed

text \<open>The flag is set before the first line is taken; five steps print it and end the thread.\<close>

theorem writer_drains_and_stops_witness:
  "let s = the (uninit_step (snd (outputBinary 0 [] (log_init [] False 1024 42))));
       w = \<lambda>s. the (writer_step [] True (\<lambda>_. 1) s); s' = w (w (w (w (w s))))
   in writer s' = W_Done \<and> console s' = [Printed (binary_line 0 [])]"
proof -
  define s0 where "s0 = log_init [] False 1024 42"
  define sa where "sa = snd (outputBinary 0 [] s0)"
  define s where "s = the (uninit_step sa)"
  define w where "w = (\<lambda>s. the (writer_step [] True (\<lambda>_. 1) s))"
  note defs = s0_def sa_def s_def w_def log_init_def outputBinary_def queue_line_def notify_one_def writer_step_def uninit_step_def
  have st: "writer_step [] True (\<lambda>_. 1) s = Some (w s)" "writer_step [] True (\<lambda>_. 1) (w s) = Some (w (w s))"
    "writer_step [] True (\<lambda>_. 1) (w (w s)) = Some (w (w (w s)))" "writer_step [] True (\<lambda>_. 1) (w (w (w s))) = Some (w (w (w (w s))))"
    "writer_step [] True (\<lambda>_. 1) (w (w (w (w s)))) = Some (w (w (w (w (w s)))))"
    "mutex_free s0" "uninit_step sa = Some s" "\<not> crashed s0" "\<not> crashed sa"
    by (simp_all add: defs mutex_free_def)
  have one: "\<forall>d. 0 < (\<lambda>_ :: bytes. 1 :: nat) d" by simp
  have "log_reach s0 s" by (rule reach_uninit [OF reach_binary [OF reach_start st(8,6), of 0 "[]", folded sa_def] st(9,7)])
  moreover have "writer_run 5 s (w (w (w (w (w s)))))"
    using run_step [OF run_step [OF run_step [OF run_step [OF run_step [OF run_start one st(1)] one st(2)] one st(3)] one st(4)] one st(5)]
    by (simp add: numeral_eq_Suc)
  moreover have "m_bExit s" "writer s \<notin> {W_Decided, W_Waiting, W_Done}" "outputs s = [binary_line 0 []]" "writer (w (w (w (w (w s))))) = W_Done" "no_fatal s"
    by (simp_all add: defs no_fatal_def)
  ultimately show ?thesis
    using writer_drains_and_stops [of "[]" False 1024 42 s 5 "w (w (w (w (w s))))"]
    unfolding Let_def s0_def [symmetric] sa_def [symmetric] s_def [symmetric] w_def [symmetric] by (simp add: s0_def)
qed

text \<open>
  \<^verbatim>\<open>uninit\<close> can hang.  It sets \<^verbatim>\<open>m_bExit\<close> and notifies without the mutex; between the writer's test of the
  flag and its \<^verbatim>\<open>wait\<close> the notification is lost.  For every configuration such a state can be reached: the
  writer waits, \<^verbatim>\<open>uninit\<close> waits for the writer in \<^verbatim>\<open>join\<close>, and neither can take a step.
\<close>

theorem uninit_can_hang:
  "\<exists>s. log_reach (log_init f t rollSize pid) s \<and> m_bExit s \<and> writer s = W_Waiting \<and> m_listLinesToWrite s = [] \<and>
     uninit_step s = None \<and> (\<forall>now opens fw. writer_step now opens fw s = None)"
proof -
  let ?s0 = "log_init f t rollSize pid"
  obtain s1 where 1: "writer_step [] True (\<lambda>_. 1) ?s0 = Some s1" and f: "writer s1 = W_Lock" "m_listLinesToWrite s1 = []"
    "\<not> m_bExit s1" "uninit_at s1 = U_Not_called" "\<not> crashed s1"
    by (cases "f = []") (auto simp: log_init_def writer_step_def createNewFile_def Let_def)
  let ?s2 = "s1\<lparr>writer := W_Decided\<rparr>"
  let ?s3 = "?s2\<lparr>m_bExit := True, uninit_at := U_Exit_set\<rparr>"
  let ?s4 = "?s3\<lparr>uninit_at := U_Joining\<rparr>"
  let ?s5 = "?s4\<lparr>writer := W_Waiting\<rparr>"
  have 2: "writer_step [] True (\<lambda>_. 1) s1 = Some ?s2" using f by (simp add: writer_step_def)
  have 3: "uninit_step ?s2 = Some ?s3" using f by (simp add: uninit_step_def)
  have 4: "uninit_step ?s3 = Some ?s4" by (simp add: uninit_step_def notify_one_def)
  have 5: "writer_step [] True (\<lambda>_. 1) ?s4 = Some ?s5" by (simp add: writer_step_def)
  have c: "\<not> crashed ?s0" "\<not> crashed ?s2" "\<not> crashed ?s3" "\<not> crashed ?s4" using f(5) by (simp_all add: log_init_def)
  have "log_reach ?s0 ?s5"
    by (rule reach_writer [OF reach_uninit [OF reach_uninit [OF reach_writer [OF reach_writer [OF reach_start c(1) 1] f(5) 2] c(2) 3]
            c(3) 4] c(4) 5])
  then show ?thesis using f(2) by (intro exI [of _ ?s5]) (simp add: writer_step_def uninit_step_def)
qed

end
