(* ===== verification/Connector_Model.thy ===== *)
theory Connector_Model
  imports Prelude
begin

text \<open>
  \<^verbatim>\<open>net/Connector\<close>: the state machine that opens a connection to a server.  Sockets are numbered in the order in
  which they are created; \<open>closed\<close> and \<open>handed_over\<close> are the ones that were closed or given to the
  new-connection callback.  Functors queued in the loop are kept in \<open>tasks\<close>, channels that the poller knows
  (by their socket) in \<open>in_poller\<close>.  Answers of the kernel are arguments; \<open>None\<close> is the dereference of a
  null channel.
\<close>

section \<open>State\<close>

datatype connector_state = kDisconnected | kConnecting | kConnected

datatype connector_task = StartInLoop | StopInLoop | ResetChannel

datatype connect_errno =
    C_ok | C_EINPROGRESS | C_EINTR | C_EISCONN
  | C_EAGAIN | C_EADDRINUSE | C_EADDRNOTAVAIL | C_ECONNREFUSED | C_ENETUNREACH
  | C_EACCES | C_EPERM | C_EAFNOSUPPORT | C_EALREADY | C_EBADF | C_EFAULT | C_ENOTSOCK | C_other

record connector =
  m_connect :: bool
  m_cstate :: connector_state
  m_cchannel :: "nat option"
  m_retryDelayMs :: int
  created :: nat
  closed :: "nat list"
  handed_over :: "nat list"
  in_poller :: "nat set"
  tasks :: "connector_task list"

definition kMaxRetryDelayMs :: int where "kMaxRetryDelayMs = 30 * 1000"
definition kInitRetryDelayMs :: int where "kInitRetryDelayMs = 500"

definition Connector :: connector where
  "Connector = \<lparr>m_connect = False, m_cstate = kDisconnected, m_cchannel = None, m_retryDelayMs = kInitRetryDelayMs,
     created = 0, closed = [], handed_over = [], in_poller = {}, tasks = []\<rparr>"

definition c_queueInLoop :: "connector_task \<Rightarrow> connector \<Rightarrow> connector" where
  "c_queueInLoop t c = c\<lparr>tasks := tasks c @ [t]\<rparr>"

section \<open>Operations\<close>

text \<open>\<^verbatim>\<open>retry\<close> closes the socket; it logs that it will try again but starts no timer.\<close>

definition retry :: "nat \<Rightarrow> connector \<Rightarrow> connector" where
  "retry sockfd c = c\<lparr>closed := closed c @ [sockfd], m_cstate := kDisconnected\<rparr>"

definition connecting :: "nat \<Rightarrow> connector \<Rightarrow> connector" where
  "connecting sockfd c = c\<lparr>m_cstate := kConnecting, m_cchannel := Some sockfd, in_poller := insert sockfd (in_poller c)\<rparr>"

definition connect :: "connect_errno \<Rightarrow> connector \<Rightarrow> connector" where
  "connect err c =
     (let sockfd = created c; c1 = c\<lparr>created := created c + 1\<rparr>
      in if err \<in> {C_ok, C_EINPROGRESS, C_EINTR, C_EISCONN} then connecting sockfd c1
         else if err \<in> {C_EAGAIN, C_EADDRINUSE, C_EADDRNOTAVAIL, C_ECONNREFUSED, C_ENETUNREACH} then retry sockfd c1
         else c1\<lparr>closed := closed c1 @ [sockfd]\<rparr>)"

definition startInLoop :: "connect_errno \<Rightarrow> connector \<Rightarrow> connector" where
  "startInLoop err c = (if m_cstate c \<noteq> kDisconnected then c else if m_connect c then connect err c else c)"

definition start_connector :: "bool \<Rightarrow> connect_errno \<Rightarrow> connector \<Rightarrow> connector" where
  "start_connector isInLoopThread err c =
     (let c1 = c\<lparr>m_connect := True\<rparr> in if isInLoopThread then startInLoop err c1 else c_queueInLoop StartInLoop c1)"

definition restart :: "connect_errno \<Rightarrow> connector \<Rightarrow> connector" where
  "restart err c = startInLoop err (c\<lparr>m_cstate := kDisconnected, m_retryDelayMs := kInitRetryDelayMs, m_connect := True\<rparr>)"

definition stop_connector :: "connector \<Rightarrow> connector" where
  "stop_connector c = c_queueInLoop StopInLoop (c\<lparr>m_connect := False\<rparr>)"

definition removeAndResetChannel :: "connector \<Rightarrow> (nat \<times> connector) option" where
  "removeAndResetChannel c =
     (case m_cchannel c of
        None \<Rightarrow> None
      | Some sockfd \<Rightarrow> Some (sockfd, c_queueInLoop ResetChannel (c\<lparr>in_poller := in_poller c - {sockfd}\<rparr>)))"

definition resetChannel :: "connector \<Rightarrow> connector" where
  "resetChannel c = c\<lparr>m_cchannel := None\<rparr>"

definition stopInLoop :: "connector \<Rightarrow> connector option" where
  "stopInLoop c =
     (if m_cstate c = kConnecting
      then map_option (\<lambda>(sockfd, c1). retry sockfd c1) (removeAndResetChannel (c\<lparr>m_cstate := kDisconnected\<rparr>))
      else Some c)"

text \<open>\<^verbatim>\<open>handleWrite\<close>: \<open>err\<close> is \<^verbatim>\<open>SO_ERROR\<close>; the new-connection callback does not come back to the connector here.\<close>

definition connector_handleWrite :: "bool \<Rightarrow> bool \<Rightarrow> connector \<Rightarrow> connector option" where
  "connector_handleWrite err selfConnect c =
     (if m_cstate c = kConnecting
      then map_option
             (\<lambda>(sockfd, c1).
                if err \<or> selfConnect then retry sockfd c1
                else if m_connect c1 then c1\<lparr>m_cstate := kConnected, handed_over := handed_over c1 @ [sockfd]\<rparr>
                else c1\<lparr>m_cstate := kConnected, closed := closed c1 @ [sockfd]\<rparr>)
             (removeAndResetChannel c)
      else Some c)"

definition connector_handleError :: "connector \<Rightarrow> connector option" where
  "connector_handleError c =
     (if m_cstate c = kConnecting then map_option (\<lambda>(sockfd, c1). retry sockfd c1) (removeAndResetChannel c) else Some c)"

definition run_connector_task :: "connect_errno \<Rightarrow> connector \<Rightarrow> connector option" where
  "run_connector_task err c =
     (case tasks c of
        [] \<Rightarrow> Some c
      | t # ts \<Rightarrow>
          (let c1 = c\<lparr>tasks := ts\<rparr>
           in case t of
                StartInLoop \<Rightarrow> Some (startInLoop err c1)
              | StopInLoop \<Rightarrow> stopInLoop c1
              | ResetChannel \<Rightarrow> Some (resetChannel c1)))"

datatype connector_event =
    C_start bool connect_errno
  | C_restart connect_errno
  | C_stop
  | C_writable bool bool
  | C_error
  | C_task connect_errno

text \<open>Events of the channel only come while the poller knows it.\<close>

fun connector_step :: "connector_event \<Rightarrow> connector \<Rightarrow> connector option" where
  "connector_step (C_start inLoop err) c = Some (start_connector inLoop err c)"
| "connector_step (C_restart err) c = Some (restart err c)"
| "connector_step C_stop c = Some (stop_connector c)"
| "connector_step (C_writable err self) c = (if in_poller c = {} then Some c else connector_handleWrite err self c)"
| "connector_step C_error c = (if in_poller c = {} then Some c else connector_handleError c)"
| "connector_step (C_task err) c = run_connector_task err c"

fun connector_run :: "connector_event list \<Rightarrow> connector \<Rightarrow> connector option" where
  "connector_run [] c = Some c"
| "connector_run (e # es) c = (case connector_step e c of None \<Rightarrow> None | Some c1 \<Rightarrow> connector_run es c1)"

section \<open>Lemmas\<close>

text \<open>Runs in which no new attempt begins while the channel of the last one is still to be reset.\<close>

fun calm :: "connector_event \<Rightarrow> connector \<Rightarrow> bool" where
  "calm (C_start inLoop err) c \<longleftrightarrow> inLoop \<longrightarrow> ResetChannel \<notin> set (tasks c)"
| "calm (C_restart err) c \<longleftrightarrow> m_cstate c \<noteq> kConnecting \<and> ResetChannel \<notin> set (tasks c)"
| "calm (C_task err) c \<longleftrightarrow> (case tasks c of StartInLoop # ts \<Rightarrow> ResetChannel \<notin> set ts | _ \<Rightarrow> True)"
| "calm _ c \<longleftrightarrow> True"

fun calm_run :: "connector_event list \<Rightarrow> connector \<Rightarrow> bool" where
  "calm_run [] c \<longleftrightarrow> True"
| "calm_run (e # es) c \<longleftrightarrow> calm e c \<and> (case connector_step e c of None \<Rightarrow> True | Some c1 \<Rightarrow> calm_run es c1)"

definition sockets_ok :: "connector \<Rightarrow> bool" where
  "sockets_ok c \<longleftrightarrow> distinct (closed c @ handed_over c) \<and> set (closed c @ handed_over c) = {..<created c} - in_poller c \<and>
     (if m_cstate c = kConnecting
      then (\<exists>s < created c. m_cchannel c = Some s \<and> in_poller c = {s}) \<and> ResetChannel \<notin> set (tasks c)
      else in_poller c = {})"

lemma lessThan_Suc_diff: "{..<Suc n} - {n} = {..<n :: nat}"
  by auto

lemma connect_ok:
  assumes "sockets_ok c" and "m_cstate c \<noteq> kConnecting" and "ResetChannel \<notin> set (tasks c)"
  shows "sockets_ok (connect err c)"
  using assms by (auto simp: sockets_ok_def connect_def connecting_def retry_def Let_def lessThan_Suc_diff)

lemma startInLoop_ok:
  assumes "sockets_ok c" and "ResetChannel \<notin> set (tasks c)"
  shows "sockets_ok (startInLoop err c)"
  using assms connect_ok by (auto simp: startInLoop_def)

text \<open>Taking the channel away: its socket is the only one without an owner, and one of the branches gives it one.\<close>

lemma removeChannel_socket:
  assumes "sockets_ok c" and "m_cstate c = kConnecting"
  obtains s where "removeAndResetChannel c = Some (s, c_queueInLoop ResetChannel (c\<lparr>in_poller := {}\<rparr>))" "s < created c"
    "distinct (closed c @ handed_over c @ [s])" "insert s (set (closed c @ handed_over c)) = {..<created c}"
proof -
  obtain s where s: "s < created c" "m_cchannel c = Some s" "in_poller c = {s}" using assms by (auto simp: sockets_ok_def)
  moreover have "insert s ({..<created c} - {s}) = {..<created c}" using s(1) by auto
  moreover have "s \<notin> set (closed c @ handed_over c)" using assms s(3) by (auto simp: sockets_ok_def)
  ultimately show thesis
    using that [of s] assms(1) by (simp add: removeAndResetChannel_def sockets_ok_def)
qed

lemma retry_ok:
  assumes "sockets_ok c" and "m_cstate c = kConnecting"
  shows "\<exists>s c1. removeAndResetChannel c = Some (s, c1) \<and> sockets_ok (retry s c1) \<and> m_connect c1 = m_connect c \<and>
    sockets_ok (c1\<lparr>m_cstate := kConnected, handed_over := handed_over c1 @ [s]\<rparr>) \<and>
    sockets_ok (c1\<lparr>m_cstate := kConnected, closed := closed c1 @ [s]\<rparr>)"
  by (rule removeChannel_socket [OF assms]) (auto simp: sockets_ok_def c_queueInLoop_def retry_def)

lemma remove_state: "removeAndResetChannel (c\<lparr>m_cstate := x\<rparr>) = map_option (\<lambda>(s, c1). (s, c1\<lparr>m_cstate := x\<rparr>)) (removeAndResetChannel c)"
  by (cases "m_cchannel c") (simp_all add: removeAndResetChannel_def c_queueInLoop_def)

lemma retry_state: "retry s (c\<lparr>m_cstate := x\<rparr>) = retry s c"
  by (simp add: retry_def)

lemma sockets_ok_fields:
  "sockets_ok (c\<lparr>m_connect := b\<rparr>) = sockets_ok c" "sockets_ok (c\<lparr>m_retryDelayMs := d\<rparr>) = sockets_ok c"
  "t \<noteq> ResetChannel \<Longrightarrow> sockets_ok (c_queueInLoop t c) = sockets_ok c"
  by (simp_all add: sockets_ok_def c_queueInLoop_def)

lemma sockets_ok_task: "sockets_ok c \<Longrightarrow> tasks c = t # ts \<Longrightarrow> sockets_ok (c\<lparr>tasks := ts\<rparr>)"
  by (auto simp: sockets_ok_def)

lemma stopInLoop_ok: "sockets_ok c \<Longrightarrow> \<exists>c'. stopInLoop c = Some c' \<and> sockets_ok c'"
  using retry_ok [of c] by (cases "m_cstate c = kConnecting") (auto simp: stopInLoop_def remove_state retry_state)

lemma run_task_ok:
  assumes "sockets_ok c" and "calm (C_task err) c"
  shows "\<exists>c'. run_connector_task err c = Some c' \<and> sockets_ok c'"
proof (cases "tasks c")
  case Nil
  then show ?thesis using assms by (simp add: run_connector_task_def)
next
  case (Cons t ts)
  note c1 = sockets_ok_task [OF assms(1) Cons]
  show ?thesis
  proof (cases t)
    case StartInLoop
    then show ?thesis using Cons c1 assms(2) startInLoop_ok [of "c\<lparr>tasks := ts\<rparr>" err] by (simp add: run_connector_task_def)
  next
    case StopInLoop
    then show ?thesis using Cons stopInLoop_ok [OF c1] by (simp add: run_connector_task_def)
  next
    case ResetChannel
    then have "m_cstate c \<noteq> kConnecting" using assms(1) Cons by (auto simp: sockets_ok_def)
    then show ?thesis using Cons c1 ResetChannel by (simp add: run_connector_task_def resetChannel_def sockets_ok_def)
  qed
qed

lemma connector_step_ok:
  assumes "sockets_ok c" and "calm e c"
  shows "\<exists>c'. connector_step e c = Some c' \<and> sockets_ok c'"
proof (cases e)
  case (C_start inLoop err)
  then show ?thesis
    using assms startInLoop_ok [of "c\<lparr>m_connect := True\<rparr>" err] by (simp add: start_connector_def Let_def sockets_ok_fields)
next
  case (C_restart err)
  let ?c = "c\<lparr>m_cstate := kDisconnected, m_retryDelayMs := kInitRetryDelayMs, m_connect := True\<rparr>"
  have "sockets_ok ?c" using assms C_restart by (simp add: sockets_ok_def)
  then show ?thesis using assms C_restart startInLoop_ok [of ?c err] by (simp add: restart_def)
next
  case (C_writable err self)
  show ?thesis
  proof (cases "in_poller c = {} \<or> m_cstate c \<noteq> kConnecting")
    case True
    then show ?thesis using assms(1) C_writable by (auto simp: connector_handleWrite_def)
  next
    case False
    then obtain s c1 where "removeAndResetChannel c = Some (s, c1)" "sockets_ok (retry s c1)"
      "sockets_ok (c1\<lparr>m_cstate := kConnected, handed_over := handed_over c1 @ [s]\<rparr>)"
      "sockets_ok (c1\<lparr>m_cstate := kConnected, closed := closed c1 @ [s]\<rparr>)"
      using retry_ok [OF assms(1)] by blast
    then show ?thesis using False C_writable by (simp add: connector_handleWrite_def)
  qed
next
  case C_error
  then show ?thesis using assms(1) retry_ok [OF assms(1)] by (auto simp: connector_handleError_def)
next
  case (C_task err)
  then show ?thesis using run_task_ok [OF assms(1)] assms(2) by simp
qed (use assms in \<open>simp add: stop_connector_def sockets_ok_fields\<close>)

lemma connector_run_ok: "sockets_ok c \<Longrightarrow> calm_run es c \<Longrightarrow> \<exists>c'. connector_run es c = Some c' \<and> sockets_ok c'"
proof (induction es arbitrary: c)
  case (Cons e es)
  then obtain c1 where "connector_step e c = Some c1" "sockets_ok c1" using connector_step_ok [of c e] by auto
  then show ?case using Cons by simp
qed simp

lemma connector_run_append:
  "connector_run (es @ es') c = (case connector_run es c of None \<Rightarrow> None | Some c' \<Rightarrow> connector_run es' c')"
  by (induction es arbitrary: c) (auto split: option.split)

section \<open>Properties\<close>

text \<open>
  The connector loses no socket and dereferences no null channel.  In every run in which no new attempt
  begins while the reset of the last channel is still queued, each socket it has created has exactly one
  owner: it was closed, or it was handed to the callback, or it is the one whose connection is in progress,
  which is then the only channel of the connector in the poller.
\<close>

theorem connector_sockets_owned:
  assumes "calm_run es Connector"
  shows "\<exists>c. connector_run es Connector = Some c \<and> distinct (closed c @ handed_over c) \<and>
    set (closed c) \<union> set (handed_over c) \<union> in_poller c = {..<created c} \<and>
    (set (closed c) \<union> set (handed_over c)) \<inter> in_poller c = {} \<and>
    in_poller c = (if m_cstate c = kConnecting then {the (m_cchannel c)} else {})"
proof -
  have "sockets_ok Connector" by (simp add: sockets_ok_def Connector_def)
  from connector_run_ok [OF this assms] obtain c where "connector_run es Connector = Some c" "sockets_ok c" by blast
  then show ?thesis by (intro exI [of _ c]) (auto simp: sockets_ok_def split: if_splits)
qed

theorem connector_sockets_owned_witness:
  "\<exists>c. connector_run [C_start True C_ECONNREFUSED, C_start True C_EINPROGRESS, C_writable False False, C_task C_ok] Connector = Some c
     \<and> set (closed c) \<union> set (handed_over c) \<union> in_poller c = {..<created c}"
proof -
  have "calm_run [C_start True C_ECONNREFUSED, C_start True C_EINPROGRESS, C_writable False False, C_task C_ok] Connector"
    by code_simp
  from connector_sockets_owned [OF this] show ?thesis by blast
qed

text \<open>
  A new attempt that begins before the queued reset has run loses its channel.  Whenever \<^verbatim>\<open>resetChannel\<close>
  is next in the queue and \<^verbatim>\<open>start\<close> begins an attempt, the reset destroys the channel of the new attempt
  while the poller still knows it: the connector stays in \<^verbatim>\<open>kConnecting\<close> without a channel, its socket is
  neither closed nor handed over, and the next event of that socket uses the destroyed channel.
\<close>

theorem early_start_loses_channel:
  assumes "m_cstate c = kDisconnected" and "tasks c = ResetChannel # ts" and "created c \<notin> set (closed c @ handed_over c)"
  shows "\<exists>c1. run_connector_task err (start_connector True C_EINPROGRESS c) = Some c1 \<and> m_cstate c1 = kConnecting \<and>
    m_cchannel c1 = None \<and> created c \<in> in_poller c1 \<and> created c \<notin> set (closed c1 @ handed_over c1) \<and>
    connector_step (C_writable False False) c1 = None"
  using assms
  by (auto simp: start_connector_def startInLoop_def connect_def connecting_def run_connector_task_def resetChannel_def
      connector_handleWrite_def removeAndResetChannel_def Let_def)

text \<open>The first attempt fails with an error event, and the user starts again at once.\<close>

theorem early_start_loses_channel_witness:
  "\<exists>c1. connector_run [C_start True C_EINPROGRESS, C_error, C_start True C_EINPROGRESS, C_task C_ok] Connector = Some c1 \<and>
     m_cstate c1 = kConnecting \<and> m_cchannel c1 = None"
proof -
  define c where "c = the (connector_run [C_start True C_EINPROGRESS, C_error] Connector)"
  have run: "connector_run [C_start True C_EINPROGRESS, C_error] Connector = Some c"
    and c: "m_cstate c = kDisconnected" "tasks c = ResetChannel # []" "created c \<notin> set (closed c @ handed_over c)"
    by (simp_all add: c_def Connector_def start_connector_def startInLoop_def connect_def connecting_def connector_handleError_def
        removeAndResetChannel_def c_queueInLoop_def retry_def Let_def)
  have "connector_run [C_start True C_EINPROGRESS, C_error, C_start True C_EINPROGRESS, C_task C_ok] Connector
      = run_connector_task C_ok (start_connector True C_EINPROGRESS c)"
    using run connector_run_append [of "[C_start True C_EINPROGRESS, C_error]" "[C_start True C_EINPROGRESS, C_task C_ok]" Connector]
    by (simp split: option.splits)
  then show ?thesis using early_start_loses_channel [OF c, of C_ok] by auto
qed

end
