(* ===== verification/Tcp_Client.thy ===== *)
theory Tcp_Client
  imports Connector_Model Inet_Address
begin

text \<open>
  \<^verbatim>\<open>net/TcpClient\<close> on top of the connector.  Connection objects are numbered in the order of their creation;
  \<open>established\<close>, \<open>destroyed\<close> and \<open>shut\<close> list the calls of \<^verbatim>\<open>connectEstablished\<close>, the queued calls of
  \<^verbatim>\<open>connectDestroyed\<close> and the calls of \<^verbatim>\<open>shutdown\<close>; \<open>forced\<close> those of \<^verbatim>\<open>forceClose\<close>.
\<close>

section \<open>State\<close>

record client_conn =
  cc_name :: bytes
  cc_sock :: nat

record tcp_client =
  m_connector :: connector
  m_name :: bytes
  m_retry :: bool
  m_wantConnect :: bool
  m_nextClientId :: int
  m_connection :: "nat option"
  client_conns :: "client_conn list"
  established :: "nat list"
  destroyed :: "nat list"
  shut :: "nat list"
  forced :: "nat list"

definition TcpClient :: "bytes \<Rightarrow> tcp_client" where
  "TcpClient nameArg =
     \<lparr>m_connector = Connector, m_name = nameArg, m_retry = False, m_wantConnect = True, m_nextClientId = 1,
      m_connection = None, client_conns = [], established = [], destroyed = [], shut = [], forced = []\<rparr>"

section \<open>Operations\<close>

definition enableRetry :: "tcp_client \<Rightarrow> tcp_client" where
  "enableRetry cl = cl\<lparr>m_retry := True\<rparr>"

definition client_connect :: "bool \<Rightarrow> connect_errno \<Rightarrow> tcp_client \<Rightarrow> tcp_client" where
  "client_connect isInLoopThread err cl =
     cl\<lparr>m_wantConnect := True, m_connector := start_connector isInLoopThread err (m_connector cl)\<rparr>"

definition client_disconnect :: "tcp_client \<Rightarrow> tcp_client" where
  "client_disconnect cl =
     (let cl1 = cl\<lparr>m_wantConnect := False\<rparr>
      in case m_connection cl1 of None \<Rightarrow> cl1 | Some c \<Rightarrow> cl1\<lparr>shut := shut cl1 @ [c]\<rparr>)"

definition client_stop :: "tcp_client \<Rightarrow> tcp_client" where
  "client_stop cl = cl\<lparr>m_wantConnect := False, m_connector := stop_connector (m_connector cl)\<rparr>"

text \<open>\<^verbatim>\<open>newConnection\<close>; \<open>peer\<close> is the text of the peer's address.\<close>

definition client_newConnection :: "bytes \<Rightarrow> nat \<Rightarrow> tcp_client \<Rightarrow> tcp_client" where
  "client_newConnection peer sockfd cl =
     (let name = m_name cl @ take 31 (lit '':'' @ peer @ lit ''#'' @ print_int (m_nextClientId cl));
          c = length (client_conns cl)
      in cl\<lparr>m_nextClientId := m_nextClientId cl + 1,
            client_conns := client_conns cl @ [\<lparr>cc_name = name, cc_sock = sockfd\<rparr>],
            m_connection := Some c, established := established cl @ [c]\<rparr>)"

text \<open>\<^verbatim>\<open>removeConnection\<close>, the close callback of a connection; \<open>err\<close> is the result of the next \<^verbatim>\<open>connect\<close>.\<close>

definition client_removeConnection :: "connect_errno \<Rightarrow> nat \<Rightarrow> tcp_client \<Rightarrow> tcp_client" where
  "client_removeConnection err c cl =
     (if m_connection cl \<noteq> Some c then cl
      else (let cl1 = cl\<lparr>m_connection := None, destroyed := destroyed cl @ [c]\<rparr>
            in if m_retry cl1 \<and> m_wantConnect cl1 then cl1\<lparr>m_connector := restart err (m_connector cl1)\<rparr> else cl1))"

text \<open>
  The destructor: \<open>unique\<close> tells whether the client holds the only reference to the connection.  The close
  callback is replaced by one that only queues \<^verbatim>\<open>connectDestroyed\<close>.
\<close>

definition client_destroy :: "bool \<Rightarrow> tcp_client \<Rightarrow> tcp_client" where
  "client_destroy unique cl =
     (case m_connection cl of
        Some c \<Rightarrow> (if unique then cl\<lparr>forced := forced cl @ [c]\<rparr> else cl)
      | None \<Rightarrow> cl\<lparr>m_connector := stop_connector (m_connector cl)\<rparr>)"

definition detail_removeConnection :: "nat \<Rightarrow> tcp_client \<Rightarrow> tcp_client" where
  "detail_removeConnection c cl = cl\<lparr>destroyed := destroyed cl @ [c]\<rparr>"

text \<open>
  The events of the connector; a socket that its \<^verbatim>\<open>handleWrite\<close> hands over goes to \<^verbatim>\<open>newConnection\<close> at once.
\<close>

definition client_connector_event :: "bytes \<Rightarrow> connector_event \<Rightarrow> tcp_client \<Rightarrow> tcp_client option" where
  "client_connector_event peer e cl =
     map_option
       (\<lambda>k. fold (client_newConnection peer) (drop (length (handed_over (m_connector cl))) (handed_over k)) (cl\<lparr>m_connector := k\<rparr>))
       (connector_step e (m_connector cl))"

datatype client_event =
    K_retry
  | K_connect bool connect_errno
  | K_disconnect
  | K_stop
  | K_writable bytes bool bool
  | K_error
  | K_task connect_errno
  | K_closed connect_errno nat

fun client_step :: "client_event \<Rightarrow> tcp_client \<Rightarrow> tcp_client option" where
  "client_step K_retry cl = Some (enableRetry cl)"
| "client_step (K_connect inLoop err) cl = Some (client_connect inLoop err cl)"
| "client_step K_disconnect cl = Some (client_disconnect cl)"
| "client_step K_stop cl = Some (client_stop cl)"
| "client_step (K_writable peer err self) cl = client_connector_event peer (C_writable err self) cl"
| "client_step K_error cl = client_connector_event [] C_error cl"
| "client_step (K_task err) cl = client_connector_event [] (C_task err) cl"
| "client_step (K_closed err c) cl = Some (client_removeConnection err c cl)"

fun client_run :: "client_event list \<Rightarrow> tcp_client \<Rightarrow> tcp_client option" where
  "client_run [] cl = Some cl"
| "client_run (e # es) cl = (case client_step e cl of None \<Rightarrow> None | Some cl1 \<Rightarrow> client_run es cl1)"

section \<open>Lemmas\<close>

text \<open>As for the connector alone: no new attempt begins while the reset of the last channel is queued.\<close>

fun client_calm :: "client_event \<Rightarrow> tcp_client \<Rightarrow> bool" where
  "client_calm (K_connect inLoop err) cl \<longleftrightarrow> calm (C_start inLoop err) (m_connector cl)"
| "client_calm (K_task err) cl \<longleftrightarrow> calm (C_task err) (m_connector cl)"
| "client_calm (K_closed err c) cl \<longleftrightarrow> ResetChannel \<notin> set (tasks (m_connector cl))"
| "client_calm _ cl \<longleftrightarrow> True"

fun client_calm_run :: "client_event list \<Rightarrow> tcp_client \<Rightarrow> bool" where
  "client_calm_run [] cl \<longleftrightarrow> True"
| "client_calm_run (e # es) cl \<longleftrightarrow>
     client_calm e cl \<and> (case client_step e cl of None \<Rightarrow> True | Some cl1 \<Rightarrow> client_calm_run es cl1)"

definition client_ok :: "tcp_client \<Rightarrow> bool" where
  "client_ok cl \<longleftrightarrow> sockets_ok (m_connector cl) \<and> map cc_sock (client_conns cl) = handed_over (m_connector cl) \<and>
     established cl = [0..<length (client_conns cl)] \<and>
     (case m_connection cl of
        None \<Rightarrow> destroyed cl = [0..<length (client_conns cl)]
      | Some c \<Rightarrow> length (client_conns cl) = Suc c \<and> destroyed cl = [0..<c] \<and> m_cstate (m_connector cl) = kConnected)"

text \<open>Each step of the connector hands over at most one socket, and only a connecting one does.\<close>

lemma connector_step_hands_over:
  assumes "connector_step e k = Some k'" and "\<forall>err. e \<noteq> C_restart err"
  shows "handed_over k' = handed_over k \<and> (m_cstate k = kConnected \<longrightarrow> m_cstate k' = kConnected) \<or>
    (\<exists>s. m_cstate k = kConnecting \<and> m_cstate k' = kConnected \<and> handed_over k' = handed_over k @ [s])"
  using assms
  by (cases e)
    (auto simp: start_connector_def startInLoop_def connect_def connecting_def retry_def c_queueInLoop_def stop_connector_def
      connector_handleWrite_def connector_handleError_def removeAndResetChannel_def run_connector_task_def resetChannel_def
      stopInLoop_def Let_def split: if_splits option.splits list.splits connector_task.splits)


lemma start_keeps:
  "handed_over (start_connector b err k) = handed_over k" "handed_over (restart err k) = handed_over k"
  "handed_over (stop_connector k) = handed_over k" "m_cstate (stop_connector k) = m_cstate k"
  "m_cstate k = kConnected \<Longrightarrow> m_cstate (start_connector b err k) = kConnected"
  by (auto simp: start_connector_def restart_def startInLoop_def connect_def connecting_def retry_def c_queueInLoop_def
      stop_connector_def Let_def)

lemma connector_event_ok:
  assumes "client_ok cl" and "calm e (m_connector cl)" and "\<forall>err. e \<noteq> C_restart err"
  shows "\<exists>cl'. client_connector_event peer e cl = Some cl' \<and> client_ok cl'"
proof -
  let ?k = "m_connector cl"
  have "sockets_ok ?k" using assms(1) by (simp add: client_ok_def)
  from connector_step_ok [OF this assms(2)] obtain k' where k': "connector_step e ?k = Some k'" "sockets_ok k'" by blast
  from connector_step_hands_over [OF k'(1) assms(3)] show ?thesis
  proof (elim disjE exE)
    assume "handed_over k' = handed_over ?k \<and> (m_cstate ?k = kConnected \<longrightarrow> m_cstate k' = kConnected)"
    then show ?thesis using k' assms(1) by (auto simp: client_connector_event_def client_ok_def split: option.splits)
  next
    fix sock
    assume *: "m_cstate ?k = kConnecting \<and> m_cstate k' = kConnected \<and> handed_over k' = handed_over ?k @ [sock]"
    then have "m_connection cl = None" using assms(1) by (auto simp: client_ok_def split: option.splits)
    then show ?thesis using * k' assms(1) by (auto simp: client_connector_event_def client_newConnection_def client_ok_def Let_def)
  qed
qed

lemma client_step_ok:
  assumes "client_ok cl" and "client_calm e cl"
  shows "\<exists>cl'. client_step e cl = Some cl' \<and> client_ok cl'"
proof (cases e)
  case (K_connect b err)
  have "sockets_ok (m_connector cl)" using assms(1) by (simp add: client_ok_def)
  from connector_step_ok [OF this, of "C_start b err"] have "sockets_ok (start_connector b err (m_connector cl))"
    using assms(2) K_connect by simp
  then show ?thesis
    using K_connect assms(1) by (auto simp: client_connect_def client_ok_def start_keeps split: option.splits)
next
  case K_stop
  have "sockets_ok (m_connector cl)" using assms(1) by (simp add: client_ok_def)
  from connector_step_ok [OF this, of C_stop] show ?thesis
    using K_stop assms(1) by (auto simp: client_stop_def client_ok_def start_keeps split: option.splits)
next
  case (K_closed err c)
  show ?thesis
  proof (cases "m_connection cl = Some c")
    case True
    then have k: "sockets_ok (m_connector cl)" "m_cstate (m_connector cl) = kConnected" using assms(1) by (simp_all add: client_ok_def)
    from connector_step_ok [OF k(1), of "C_restart err"] have "sockets_ok (restart err (m_connector cl))"
      using assms(2) k(2) K_closed by simp
    then show ?thesis using True K_closed assms(1) by (auto simp: client_removeConnection_def client_ok_def start_keeps Let_def)
  qed (use assms K_closed in \<open>simp add: client_removeConnection_def\<close>)
qed (use assms connector_event_ok [of cl] in
    \<open>auto simp: enableRetry_def client_disconnect_def client_ok_def Let_def split: option.splits\<close>)

lemma client_run_ok: "client_ok cl \<Longrightarrow> client_calm_run es cl \<Longrightarrow> \<exists>cl'. client_run es cl = Some cl' \<and> client_ok cl'"
proof (induction es arbitrary: cl)
  case (Cons e es)
  then obtain cl1 where "client_step e cl = Some cl1" "client_ok cl1" using client_step_ok [of cl e] by auto
  then show ?case using Cons by simp
qed simp

lemma TcpClient_ok: "client_ok (TcpClient name)"
  by (simp add: client_ok_def TcpClient_def sockets_ok_def Connector_def)


text \<open>A client that does not retry: from its first connection on the connector stays in \<^verbatim>\<open>kConnected\<close>.\<close>

definition once_ok :: "tcp_client \<Rightarrow> bool" where
  "once_ok cl \<longleftrightarrow> \<not> m_retry cl \<and>
     (client_conns cl = [] \<or> length (client_conns cl) = 1 \<and> m_cstate (m_connector cl) = kConnected)"

lemma connector_event_once:
  assumes "once_ok cl" and "client_connector_event peer e cl = Some cl'" and "\<forall>err. e \<noteq> C_restart err"
  shows "once_ok cl'"
proof -
  obtain k' where k': "connector_step e (m_connector cl) = Some k'"
    "cl' = fold (client_newConnection peer) (drop (length (handed_over (m_connector cl))) (handed_over k')) (cl\<lparr>m_connector := k'\<rparr>)"
    using assms(2) by (auto simp: client_connector_event_def)
  from connector_step_hands_over [OF k'(1) assms(3)] show ?thesis
    using k'(2) assms(1) by (auto simp: once_ok_def client_newConnection_def Let_def)
qed

lemma client_step_once: "once_ok cl \<Longrightarrow> client_step e cl = Some cl' \<Longrightarrow> e \<noteq> K_retry \<Longrightarrow> once_ok cl'"
  by (cases e)
    (auto simp: client_connect_def client_disconnect_def client_stop_def client_removeConnection_def once_ok_def start_keeps Let_def
      split: option.splits if_splits dest: connector_event_once [unfolded once_ok_def, rotated])

lemma client_run_once: "once_ok cl \<Longrightarrow> client_run es cl = Some cl' \<Longrightarrow> K_retry \<notin> set es \<Longrightarrow> once_ok cl'"
  by (induction es arbitrary: cl) (auto split: option.splits intro: client_step_once)

section \<open>Properties\<close>

text \<open>
  The client holds one connection at a time and loses none.  In every run in which no attempt begins while
  the reset of the last channel is queued: each socket the connector handed over has become one connection
  object, established once; all of them are destroyed once and in order, except the latest, which is not
  destroyed exactly as long as it is the connection of the client.
\<close>

theorem client_connection_lifecycle:
  assumes "client_calm_run es (TcpClient name)"
  shows "\<exists>cl. client_run es (TcpClient name) = Some cl \<and>
    map cc_sock (client_conns cl) = handed_over (m_connector cl) \<and> established cl = [0..<length (client_conns cl)] \<and>
    (case m_connection cl of
       None \<Rightarrow> destroyed cl = established cl
     | Some c \<Rightarrow> destroyed cl @ [c] = established cl)"
proof -
  obtain cl where cl: "client_run es (TcpClient name) = Some cl" "client_ok cl" using client_run_ok [OF TcpClient_ok assms] by blast
  then show ?thesis by (intro exI [of _ cl]) (auto simp: client_ok_def split: option.splits)
qed

text \<open>A client that retries: the first attempt is refused, the second connects, closes and is followed by a third.\<close>

theorem client_connection_lifecycle_witness:
  "\<exists>cl. client_run [K_retry, K_connect True C_ECONNREFUSED, K_connect True C_EINPROGRESS, K_writable [] False False, K_task C_ok,
       K_closed C_EINPROGRESS 0, K_writable [] False False] (TcpClient []) = Some cl \<and>
     established cl = [0..<length (client_conns cl)]"
proof -
  have "client_calm_run [K_retry, K_connect True C_ECONNREFUSED, K_connect True C_EINPROGRESS, K_writable [] False False, K_task C_ok,
       K_closed C_EINPROGRESS 0, K_writable [] False False] (TcpClient [])"
    by code_simp
  from client_connection_lifecycle [OF this] show ?thesis by blast
qed

text \<open>
  Without \<^verbatim>\<open>enableRetry\<close> a client connects at most once in its life.  The connector stays in \<^verbatim>\<open>kConnected\<close>
  when its connection has closed, so a later \<^verbatim>\<open>connect()\<close> opens no socket.
\<close>

theorem client_connects_once:
  assumes "client_run es (TcpClient name) = Some cl" and "K_retry \<notin> set es"
  shows "length (client_conns cl) \<le> 1 \<and>
    (client_conns cl \<noteq> [] \<longrightarrow> created (m_connector (client_connect inLoop err cl)) = created (m_connector cl))"
proof -
  have "once_ok (TcpClient name)" by (simp add: once_ok_def TcpClient_def)
  from client_run_once [OF this assms] show ?thesis
    by (auto simp: once_ok_def client_connect_def start_connector_def startInLoop_def c_queueInLoop_def Let_def)
qed

theorem client_connects_once_witness:
  "\<exists>cl. client_run [K_connect True C_EINPROGRESS, K_writable [] False False, K_task C_ok, K_closed C_ok 0] (TcpClient []) = Some cl \<and>
     m_connection cl = None \<and> created (m_connector cl) = 1 \<and> created (m_connector (client_connect True C_EINPROGRESS cl)) = 1"
proof -
  let ?es = "[K_connect True C_EINPROGRESS, K_writable [] False False, K_task C_ok, K_closed C_ok 0]"
  define cl where "cl = the (client_run ?es (TcpClient []))"
  have run: "client_run ?es (TcpClient []) = Some cl"
    and cl: "m_connection cl = None" "client_conns cl \<noteq> []" "created (m_connector cl) = 1"
    by (simp_all add: cl_def TcpClient_def Connector_def client_connect_def start_connector_def startInLoop_def connect_def connecting_def
        client_connector_event_def connector_handleWrite_def removeAndResetChannel_def c_queueInLoop_def run_connector_task_def
        resetChannel_def client_newConnection_def client_removeConnection_def Let_def)
  from client_connects_once [OF run] cl have "created (m_connector (client_connect True C_EINPROGRESS cl)) = 1" by simp
  then show ?thesis using run cl by blast
qed

end
