(* ===== verification/Loop_Threads.thy ===== *)
theory Loop_Threads
  imports Event_Loop
begin

text \<open>
  \<^verbatim>\<open>base/CountDownLatch\<close> and \<^verbatim>\<open>net/EventLoopThread\<close>: threads that wait for each other.  Both wait in a loop
  \<^verbatim>\<open>while (!condition) cv.wait(lock)\<close> under the mutex that guards the condition, so a turn of that loop, and
  every change under the mutex, is one step.  Waiting threads are numbered.
\<close>

section \<open>Condition variables\<close>

text \<open>A thread that waits: before the call, about to test the condition, asleep, or past the loop.\<close>

datatype waiter_pc = Not_called | Ready | Asleep | Passed

record 'd monitor =
  shared :: 'd
  waiters :: "nat \<Rightarrow> waiter_pc"

definition call_wait :: "nat \<Rightarrow> 'd monitor \<Rightarrow> 'd monitor" where
  "call_wait i s = (if waiters s i = Not_called then s\<lparr>waiters := (waiters s)(i := Ready)\<rparr> else s)"

definition cv_wait :: "('d \<Rightarrow> bool) \<Rightarrow> nat \<Rightarrow> 'd monitor \<Rightarrow> 'd monitor" where
  "cv_wait ready i s =
     (if waiters s i = Ready then s\<lparr>waiters := (waiters s)(i := (if ready (shared s) then Passed else Asleep))\<rparr> else s)"

definition notify_all :: "'d monitor \<Rightarrow> 'd monitor" where
  "notify_all s = s\<lparr>waiters := (\<lambda>i. if waiters s i = Asleep then Ready else waiters s i)\<rparr>"

definition spurious :: "nat \<Rightarrow> 'd monitor \<Rightarrow> 'd monitor" where
  "spurious i s = (if waiters s i = Asleep then s\<lparr>waiters := (waiters s)(i := Ready)\<rparr> else s)"

text \<open>Interleavings of the waiting threads (with spurious wake-ups) and of the other operations.\<close>

datatype 'e mon_event = Call nat | Test nat | Spurious nat | Op 'e

fun mon_step :: "('d \<Rightarrow> bool) \<Rightarrow> ('e \<Rightarrow> 'd monitor \<Rightarrow> 'd monitor) \<Rightarrow> 'e mon_event \<Rightarrow> 'd monitor \<Rightarrow> 'd monitor" where
  "mon_step ready op (Call i) s = call_wait i s"
| "mon_step ready op (Test i) s = cv_wait ready i s"
| "mon_step ready op (Spurious i) s = spurious i s"
| "mon_step ready op (Op e) s = op e s"

section \<open>CountDownLatch\<close>

definition CountDownLatch :: "int \<Rightarrow> int monitor" where
  "CountDownLatch count = \<lparr>shared = count, waiters = (\<lambda>_. Not_called)\<rparr>"

definition latch_open :: "int \<Rightarrow> bool" where
  "latch_open count \<longleftrightarrow> \<not> count > 0"

definition latch_wait :: "nat \<Rightarrow> int monitor \<Rightarrow> int monitor" where
  "latch_wait = cv_wait latch_open"

definition countDown :: "int monitor \<Rightarrow> int monitor" where
  "countDown s = (let s1 = s\<lparr>shared := shared s - 1\<rparr> in if shared s1 = 0 then notify_all s1 else s1)"

definition getCount :: "int monitor \<Rightarrow> int" where
  "getCount = shared"

section \<open>EventLoopThread\<close>

text \<open>
  The thread function: the loop is constructed and the init callback called, the pointer is published, the
  loop is entered and runs, the pointer is reset, the loop (a local variable) is destroyed.  \<^verbatim>\<open>stopLoop\<close> is
  as fine: the test of the pointer, the two actions of \<^verbatim>\<open>quit\<close>, \<^verbatim>\<open>join\<close>.
\<close>

datatype thread_pc = T_None | T_Created | T_Publish | T_Enter | T_Loop | T_Leave | T_Destroy | T_Finished

datatype stop_pc = S_Idle | S_Quit | S_Wakeup | S_Join | S_Joined

datatype thread_error = Dead_loop | Not_joinable

record 'f loop_thread =
  m_loop :: bool
  local_loop :: "'f event_loop option"
  thread_at :: thread_pc
  stop_at :: stop_pc
  failure :: "thread_error option"

definition EventLoopThread :: "'f loop_thread monitor" where
  "EventLoopThread =
     \<lparr>shared = \<lparr>m_loop = False, local_loop = None, thread_at = T_None, stop_at = S_Idle, failure = None\<rparr>,
      waiters = (\<lambda>_. Not_called)\<rparr>"

definition on_shared :: "('d \<Rightarrow> 'd) \<Rightarrow> 'd monitor \<Rightarrow> 'd monitor" where
  "on_shared f s = s\<lparr>shared := f (shared s)\<rparr>"

text \<open>\<^verbatim>\<open>startLoop\<close> up to its wait; waiter 0 is the thread that calls it.\<close>

definition startLoop :: "'f loop_thread monitor \<Rightarrow> 'f loop_thread monitor" where
  "startLoop s =
     (if thread_at (shared s) = T_None then call_wait 0 (on_shared (\<lambda>d. d\<lparr>thread_at := T_Created\<rparr>) s) else s)"

text \<open>Access to the loop through a pointer from another thread.\<close>

definition with_loop :: "('f event_loop \<Rightarrow> 'f event_loop) \<Rightarrow> 'f loop_thread \<Rightarrow> 'f loop_thread" where
  "with_loop f d = (case local_loop d of None \<Rightarrow> d\<lparr>failure := Some Dead_loop\<rparr> | Some el \<Rightarrow> d\<lparr>local_loop := Some (f el)\<rparr>)"

text \<open>
  A step of \<^verbatim>\<open>threadFunc\<close>.  \<open>cb\<close> are the calls of the init callback, \<open>eff\<close> those of other callbacks;
  \<open>ts\<close> and \<open>acts\<close> are the callbacks of timers and channels in this iteration.
\<close>

definition quiet_round :: "'f list \<Rightarrow> 'f list \<Rightarrow> 'f round" where
  "quiet_round ts acts =
     \<lparr>timer_callbacks = ts, during_poll = [], active_callbacks = acts, during_events = [], during_tasks = (\<lambda>_. [])\<rparr>"

definition threadFunc ::
  "'f loop_call list \<Rightarrow> ('f \<Rightarrow> 'f loop_call list) \<Rightarrow> 'f list \<Rightarrow> 'f list \<Rightarrow> 'f loop_thread monitor \<Rightarrow> 'f loop_thread monitor" where
  "threadFunc cb eff ts acts s =
     (case thread_at (shared s) of
        T_None \<Rightarrow> s
      | T_Created \<Rightarrow> on_shared (\<lambda>d. d\<lparr>local_loop := Some (fold (do_call True) cb EventLoop), thread_at := T_Publish\<rparr>) s
      | T_Publish \<Rightarrow> notify_all (on_shared (\<lambda>d. d\<lparr>m_loop := True, thread_at := T_Enter\<rparr>) s)
      | T_Enter \<Rightarrow> on_shared (\<lambda>d. (with_loop loop_start d)\<lparr>thread_at := T_Loop\<rparr>) s
      | T_Loop \<Rightarrow>
          on_shared (\<lambda>d. if m_quit (the (local_loop d))
                         then (with_loop (\<lambda>el. el\<lparr>m_looping := False\<rparr>) d)\<lparr>thread_at := T_Leave\<rparr>
                         else with_loop (loop_iteration eff (quiet_round ts acts)) d) s
      | T_Leave \<Rightarrow> on_shared (\<lambda>d. d\<lparr>m_loop := False, thread_at := T_Destroy\<rparr>) s
      | T_Destroy \<Rightarrow> on_shared (\<lambda>d. d\<lparr>local_loop := None, thread_at := T_Finished\<rparr>) s
      | T_Finished \<Rightarrow> s)"

text \<open>
  A step of \<^verbatim>\<open>stopLoop\<close>, called after \<^verbatim>\<open>startLoop\<close> has returned; \<^verbatim>\<open>join\<close> waits for the end of the thread,
  and a second \<^verbatim>\<open>join\<close> throws.
\<close>

definition stopLoop :: "'f loop_thread monitor \<Rightarrow> 'f loop_thread monitor" where
  "stopLoop s =
     (if waiters s 0 \<noteq> Passed then s
      else on_shared
        (\<lambda>d. case stop_at d of
               S_Idle \<Rightarrow> d\<lparr>stop_at := (if m_loop d then S_Quit else S_Join)\<rparr>
             | S_Quit \<Rightarrow> (with_loop (\<lambda>el. el\<lparr>m_quit := True\<rparr>) d)\<lparr>stop_at := S_Wakeup\<rparr>
             | S_Wakeup \<Rightarrow> (with_loop wakeup d)\<lparr>stop_at := S_Join\<rparr>
             | S_Join \<Rightarrow> (if thread_at d = T_Finished then d\<lparr>stop_at := S_Joined\<rparr> else d)
             | S_Joined \<Rightarrow> d\<lparr>failure := Some Not_joinable\<rparr>) s)"

text \<open>Another thread that has the pointer hands a functor to the loop.\<close>

definition use_loop :: "'f \<Rightarrow> 'f loop_thread monitor \<Rightarrow> 'f loop_thread monitor" where
  "use_loop f s = (if waiters s 0 = Passed then on_shared (with_loop (loop_queueInLoop False f)) s else s)"

datatype 'f thread_op = Start_loop | Thread_turn "'f list" "'f list" | Stop_loop | Use_loop 'f

fun do_thread_op :: "'f loop_call list \<Rightarrow> ('f \<Rightarrow> 'f loop_call list) \<Rightarrow> 'f thread_op \<Rightarrow> 'f loop_thread monitor \<Rightarrow> 'f loop_thread monitor" where
  "do_thread_op cb eff Start_loop s = startLoop s"
| "do_thread_op cb eff (Thread_turn ts acts) s = threadFunc cb eff ts acts s"
| "do_thread_op cb eff Stop_loop s = stopLoop s"
| "do_thread_op cb eff (Use_loop f) s = use_loop f s"

definition thread_run ::
  "'f loop_call list \<Rightarrow> ('f \<Rightarrow> 'f loop_call list) \<Rightarrow> 'f thread_op mon_event list \<Rightarrow> 'f loop_thread monitor \<Rightarrow> 'f loop_thread monitor" where
  "thread_run cb eff es s = fold (mon_step m_loop (do_thread_op cb eff)) es s"

section \<open>The protocol of a condition variable\<close>

text \<open>
  The law of the operations: they put nobody to sleep, and whichever makes the condition true wakes all.
  Then nobody sleeps while the condition holds.
\<close>

definition nobody_sleeps :: "('d \<Rightarrow> bool) \<Rightarrow> 'd monitor \<Rightarrow> bool" where
  "nobody_sleeps ready s \<longleftrightarrow> (\<forall>i. waiters s i = Asleep \<longrightarrow> \<not> ready (shared s))"

locale monitor_protocol =
  fixes ready :: "'d \<Rightarrow> bool"
    and op :: "'e \<Rightarrow> 'd monitor \<Rightarrow> 'd monitor"
  assumes sleeps: "waiters (op e s) i = Asleep \<Longrightarrow> waiters s i = Asleep"
    and wakes: "ready (shared (op e s)) \<Longrightarrow> ready (shared s) \<or> waiters (op e s) i \<noteq> Asleep"
begin

lemma step_no_lost: "nobody_sleeps ready s \<Longrightarrow> nobody_sleeps ready (mon_step ready op e s)"
proof (cases e)
  case (Op x)
  assume "nobody_sleeps ready s"
  then show ?thesis using Op sleeps [of x s] wakes [of x s] by (auto simp: nobody_sleeps_def)
qed (auto simp: nobody_sleeps_def call_wait_def cv_wait_def spurious_def split: if_splits)

end

sublocale monitor_protocol \<subseteq> waiting: stepping "mon_step ready op" "nobody_sleeps ready" "\<lambda>_. True"
  by unfold_locales (rule step_no_lost)

context monitor_protocol
begin

lemma awake_when_ready:
  assumes "nobody_sleeps ready s" and "ready (shared (fold (mon_step ready op) es s))"
  shows "waiters (fold (mon_step ready op) es s) i \<noteq> Asleep"
  using waiting.run_inv [OF assms(1), of es] assms(2) by (auto simp: nobody_sleeps_def)

end

lemma notify_all_simps [simp]: "shared (notify_all s) = shared s" "waiters (notify_all s) i \<noteq> Asleep"
  by (auto simp: notify_all_def)

lemma on_shared_simps [simp]: "shared (on_shared f s) = f (shared s)" "waiters (on_shared f s) = waiters s"
  by (simp_all add: on_shared_def)

interpretation latch: monitor_protocol latch_open "\<lambda>_::unit. countDown"
  by unfold_locales (auto simp: countDown_def notify_all_def latch_open_def Let_def split: if_splits)


lemma with_loop_simps [simp]:
  "m_loop (with_loop f d) = m_loop d" "thread_at (with_loop f d) = thread_at d" "stop_at (with_loop f d) = stop_at d"
  by (simp_all add: with_loop_def split: option.split)

lemma thread_op_wakes:
  "waiters (do_thread_op cb eff e s) i = Asleep \<Longrightarrow> waiters s i = Asleep"
  "m_loop (shared (do_thread_op cb eff e s)) \<Longrightarrow> m_loop (shared s) \<or> waiters (do_thread_op cb eff e s) i \<noteq> Asleep"
  by (cases e; auto simp: startLoop_def threadFunc_def stopLoop_def use_loop_def call_wait_def notify_all_def on_shared_def
      split: thread_pc.splits stop_pc.splits if_splits)+

interpretation loop_thread: monitor_protocol m_loop "do_thread_op cb eff" for cb eff
  by unfold_locales (use thread_op_wakes in metis)+


section \<open>Lemmas\<close>

text \<open>A loop whose callbacks never call \<^verbatim>\<open>quit\<close> does not quit by itself.\<close>

definition never_quits :: "('f \<Rightarrow> 'f loop_call list) \<Rightarrow> bool" where
  "never_quits eff \<longleftrightarrow> (\<forall>f. Quit \<notin> set (eff f))"

lemma do_calls_quit: "Quit \<notin> set cs \<Longrightarrow> m_quit (fold (do_call b) cs el) = m_quit el"
proof (induction cs arbitrary: el)
  case (Cons c cs)
  then show ?case by (cases c) (auto simp: loop_queueInLoop_def wakeup_def Let_def)
qed simp

lemma callbacks_quit:
  assumes "never_quits eff"
  shows "m_quit (run_callback eff f el) = m_quit el" and "m_quit (fold (run_callback eff) fs el) = m_quit el"
proof -
  show *: "m_quit (run_callback eff f el) = m_quit el" for f el
    using assms by (simp add: run_callback_def never_quits_def do_calls_quit)
  show "m_quit (fold (run_callback eff) fs el) = m_quit el" by (induction fs arbitrary: el) (simp_all add: *)
qed

lemma run_functors_quit:
  "never_quits eff \<Longrightarrow> m_quit (run_functors eff (\<lambda>_. []) i fs el) = m_quit el"
  by (induction fs arbitrary: i el) (simp_all add: run_functor_def callbacks_quit)

lemma iteration_quit: "never_quits eff \<Longrightarrow> m_quit (loop_iteration eff (quiet_round ts acts) el) = m_quit el"
  by (simp add: loop_iteration_def quiet_round_def doOtherTasks_def callbacks_quit run_functors_quit wakeup_read_def Let_def
      split: option.split)

text \<open>From \<^verbatim>\<open>startLoop\<close> on, while nobody stops the loop.\<close>

fun starting :: "'f thread_op mon_event \<Rightarrow> bool" where
  "starting (Call i) = False"
| "starting (Op Stop_loop) = False"
| "starting _ = True"

definition start_ok :: "'f loop_thread monitor \<Rightarrow> bool" where
  "start_ok s \<longleftrightarrow> failure (shared s) = None \<and> stop_at (shared s) = S_Idle \<and>
     (case thread_at (shared s) of
        T_None \<Rightarrow> \<not> m_loop (shared s) \<and> waiters s 0 = Not_called
      | T_Created \<Rightarrow> \<not> m_loop (shared s) \<and> waiters s 0 \<in> {Ready, Asleep}
      | T_Publish \<Rightarrow> \<not> m_loop (shared s) \<and> waiters s 0 \<in> {Ready, Asleep} \<and> local_loop (shared s) \<noteq> None
      | T_Enter \<Rightarrow> m_loop (shared s) \<and> waiters s 0 \<in> {Ready, Passed} \<and> local_loop (shared s) \<noteq> None
      | T_Loop \<Rightarrow> m_loop (shared s) \<and> waiters s 0 \<in> {Ready, Passed} \<and>
          (\<exists>el. local_loop (shared s) = Some el \<and> \<not> m_quit el)
      | _ \<Rightarrow> False)"

lemma start_ok_init: "start_ok EventLoopThread"
  by (simp add: start_ok_def EventLoopThread_def)

lemma turn_start_ok: "never_quits eff \<Longrightarrow> start_ok s \<Longrightarrow> start_ok (threadFunc cb eff ts acts s)"
  by (cases "thread_at (shared s)")
    (auto simp: start_ok_def threadFunc_def with_loop_def notify_all_def loop_start_def iteration_quit)

lemma use_start_ok: "start_ok s \<Longrightarrow> start_ok (use_loop f s)"
  by (cases "thread_at (shared s)")
    (auto simp: start_ok_def use_loop_def with_loop_def loop_queueInLoop_def wakeup_def Let_def)

lemma waiter_start_ok: "start_ok s \<Longrightarrow> start_ok (cv_wait m_loop i s)" "start_ok s \<Longrightarrow> start_ok (spurious i s)"
  by (cases "thread_at (shared s)"; auto simp: start_ok_def cv_wait_def spurious_def)+

lemma step_start_ok:
  assumes "never_quits eff" and "start_ok s" and "starting e"
  shows "start_ok (mon_step m_loop (do_thread_op cb eff) e s)"
proof (cases e)
  case (Op x)
  have "start_ok (startLoop s)"
    using assms(2) by (cases "thread_at (shared s)") (auto simp: start_ok_def startLoop_def call_wait_def)
  then show ?thesis using Op assms by (cases x) (simp_all add: turn_start_ok use_start_ok)
qed (use assms in \<open>simp_all add: waiter_start_ok\<close>)

lemma run_start_ok:
  assumes "never_quits eff" and "\<forall>e\<in>set es. starting e"
  shows "start_ok (thread_run cb eff es EventLoopThread)"
proof -
  have "start_ok s \<Longrightarrow> \<forall>e\<in>set es. starting e \<Longrightarrow> start_ok (thread_run cb eff es s)" for s
    unfolding thread_run_def by (induction es arbitrary: s) (auto intro: step_start_ok [OF assms(1)])
  then show ?thesis using start_ok_init assms(2) by blast
qed

lemma thread_run_append: "thread_run cb eff (es @ es') s = thread_run cb eff es' (thread_run cb eff es s)"
  by (simp add: thread_run_def)

lemma thread_run_simps [simp]:
  "thread_run cb eff [] s = s" "thread_run cb eff (e # es) s = thread_run cb eff es (mon_step m_loop (do_thread_op cb eff) e s)"
  by (simp_all add: thread_run_def)

text \<open>A thread whose loop has been entered after its \<^verbatim>\<open>quit\<close>.\<close>

definition stuck :: "'f loop_thread monitor \<Rightarrow> bool" where
  "stuck s \<longleftrightarrow> thread_at (shared s) = T_Loop \<and> stop_at (shared s) = S_Join \<and>
     (\<exists>el. local_loop (shared s) = Some el \<and> \<not> m_quit el)"

lemma step_stuck:
  assumes "never_quits eff" and "stuck s"
  shows "stuck (mon_step m_loop (do_thread_op cb eff) e s)"
proof (cases e)
  case (Op x)
  then show ?thesis using assms
    by (cases x) (auto simp: stuck_def startLoop_def stopLoop_def threadFunc_def use_loop_def with_loop_def iteration_quit
        loop_queueInLoop_def wakeup_def Let_def)
qed (use assms in \<open>auto simp: stuck_def call_wait_def cv_wait_def spurious_def\<close>)

lemma run_stuck: "never_quits eff \<Longrightarrow> stuck s \<Longrightarrow> stuck (thread_run cb eff es s)"
  by (induction es arbitrary: s) (auto intro: step_stuck)

section \<open>Properties\<close>

text \<open>
  A latch opens exactly when it has been counted down.  In every interleaving of any number of waiting
  threads with \<^verbatim>\<open>countDown\<close>, spurious wake-ups included, no thread gets past \<^verbatim>\<open>wait\<close> before the count has
  been reached, and from then on no thread sleeps and every waiting one passes with its next test.
\<close>

theorem latch_opens_exactly:
  fixes es :: "unit mon_event list" and n :: int
  defines "s \<equiv> fold (mon_step latch_open (\<lambda>_. countDown)) es (CountDownLatch n)"
    and "k \<equiv> int (length (filter (\<lambda>e. e = Op ()) es))"
  shows "(waiters s i = Passed \<longrightarrow> n \<le> k) \<and>
    (n \<le> k \<longrightarrow> waiters s i \<noteq> Asleep \<and> (waiters s i = Ready \<longrightarrow> waiters (latch_wait i s) i = Passed))"
proof -
  have count: "shared (fold (mon_step latch_open (\<lambda>_. countDown)) es t)
      = shared t - int (length (filter (\<lambda>e. e = Op ()) es))" for t
  proof (induction es arbitrary: t)
    case (Cons e es)
    then show ?case
      by (cases e) (auto simp: call_wait_def cv_wait_def spurious_def countDown_def Let_def)
  qed simp
  have passed: "waiters (fold (mon_step latch_open (\<lambda>_. countDown)) es t) i = Passed \<Longrightarrow>
      waiters t i \<noteq> Passed \<or> shared t \<le> 0 \<Longrightarrow> shared (fold (mon_step latch_open (\<lambda>_. countDown)) es t) \<le> 0" for t
  proof (induction es arbitrary: t)
    case (Cons e es)
    show ?case
      by (simp, rule Cons.IH) (use Cons.prems in \<open>cases e;
        auto simp: call_wait_def cv_wait_def spurious_def countDown_def notify_all_def latch_open_def Let_def split: if_splits\<close>)+
  qed simp
  have s: "shared s = n - k" using count by (simp add: s_def k_def CountDownLatch_def)
  moreover have "waiters s i = Passed \<Longrightarrow> shared s \<le> 0" using passed by (simp add: s_def CountDownLatch_def)
  moreover have "n \<le> k \<Longrightarrow> waiters s i \<noteq> Asleep"
  proof -
    assume "n \<le> k"
    then have "latch_open (shared s)" using s by (simp add: latch_open_def)
    moreover have "nobody_sleeps latch_open (CountDownLatch n)" by (simp add: nobody_sleeps_def CountDownLatch_def)
    ultimately show ?thesis using latch.awake_when_ready unfolding s_def by blast
  qed
  ultimately show ?thesis by (auto simp: latch_wait_def cv_wait_def latch_open_def)
qed


theorem latch_opens_exactly_witness:
  "let s = fold (mon_step latch_open (\<lambda>_. countDown)) [Call 0, Test 0, Op (), Spurious 0, Test 0, Op ()] (CountDownLatch 2)
   in waiters s 0 = Ready \<and> waiters (latch_wait 0 s) 0 = Passed"
proof -
  let ?es = "[Call 0, Test 0, Op (), Spurious 0, Test 0, Op ()] :: unit mon_event list"
  have "waiters (fold (mon_step latch_open (\<lambda>_. countDown)) ?es (CountDownLatch 2)) 0 = Ready" by code_simp
  moreover have "(2::int) \<le> int (length (filter (\<lambda>e. e = Op ()) ?es))" by simp
  ultimately show ?thesis using latch_opens_exactly [of ?es 2 0] by (simp only: Let_def)
qed

text \<open>
  C28: \<^verbatim>\<open>startLoop\<close> returns the loop of a running thread.  For any interleaving of the calling thread (spurious
  wake-ups included), the new thread and users of the loop, as long as nobody stops it: the caller never
  sleeps once the pointer is published, what it returns is not null, no step uses a destroyed loop, and a
  caller that has not returned does so after two more turns of the thread.
\<close>

theorem startLoop_returns:
  assumes "never_quits eff" and "\<forall>e\<in>set es. starting e"
  shows "let s = thread_run cb eff es EventLoopThread in failure (shared s) = None \<and>
    (waiters s 0 = Asleep \<longrightarrow> \<not> m_loop (shared s)) \<and> (waiters s 0 = Passed \<longrightarrow> m_loop (shared s)) \<and>
    (waiters s 0 \<noteq> Not_called \<longrightarrow>
       waiters (thread_run cb eff [Op (Thread_turn ts acts), Op (Thread_turn ts' acts'), Test 0] s) 0 = Passed)"
proof -
  let ?s = "thread_run cb eff es EventLoopThread"
  have ok: "start_ok ?s" using run_start_ok [OF assms] .
  have "nobody_sleeps m_loop (EventLoopThread :: 'a loop_thread monitor)" by (simp add: nobody_sleeps_def EventLoopThread_def)
  from loop_thread.waiting.run_inv [OF this, of es cb eff]
  have sleep: "waiters ?s 0 = Asleep \<longrightarrow> \<not> m_loop (shared ?s)" by (auto simp: nobody_sleeps_def thread_run_def)
  have "waiters ?s 0 \<noteq> Not_called \<longrightarrow>
      waiters (thread_run cb eff [Op (Thread_turn ts acts), Op (Thread_turn ts' acts'), Test 0] ?s) 0 = Passed"
    using ok assms(1) unfolding start_ok_def
    by (cases "thread_at (shared ?s)")
      (auto simp: threadFunc_def notify_all_def cv_wait_def with_loop_def loop_start_def iteration_quit)
  moreover have "failure (shared ?s) = None \<and> (waiters ?s 0 = Passed \<longrightarrow> m_loop (shared ?s))"
    using ok by (cases "thread_at (shared ?s)") (auto simp: start_ok_def)
  ultimately show ?thesis using sleep unfolding Let_def by blast
qed

theorem startLoop_returns_witness:
  "let s = thread_run [] (\<lambda>_. []) [Op Start_loop, Test 0, Op (Thread_turn [] [])] (EventLoopThread :: unit loop_thread monitor)
   in waiters s 0 = Asleep \<and>
      waiters (thread_run [] (\<lambda>_. []) [Op (Thread_turn [] []), Op (Thread_turn [] []), Test 0] s) 0 = Passed"
proof -
  let ?es = "[Op Start_loop, Test 0, Op (Thread_turn [] [])] :: unit thread_op mon_event list"
  have h: "never_quits (\<lambda>_::unit. [])" "\<forall>e\<in>set ?es. starting e" by (simp_all add: never_quits_def)
  have "waiters (thread_run [] (\<lambda>_. []) ?es EventLoopThread) 0 = Asleep"
    by (simp add: EventLoopThread_def startLoop_def call_wait_def cv_wait_def threadFunc_def)
  then show ?thesis using startLoop_returns [OF h, of "[]" "[]" "[]" "[]" "[]"] by (simp only: Let_def) auto
qed


text \<open>
  Once the loop has been entered, \<^verbatim>\<open>stopLoop\<close> ends the thread: if its two actions on the loop are not
  interrupted, three more turns of the thread destroy the loop and \<^verbatim>\<open>join\<close> returns.
\<close>

theorem stopLoop_joins:
  assumes "never_quits eff" and "\<forall>e\<in>set es. starting e"
    and "waiters (thread_run cb eff es EventLoopThread) 0 = Passed"
    and "thread_at (shared (thread_run cb eff es EventLoopThread)) = T_Loop"
  shows "let s = thread_run cb eff (es @ [Op Stop_loop, Op Stop_loop, Op Stop_loop, Op (Thread_turn ts acts), Op (Thread_turn ts acts),
      Op (Thread_turn ts acts), Op Stop_loop]) EventLoopThread
    in stop_at (shared s) = S_Joined \<and> thread_at (shared s) = T_Finished \<and> failure (shared s) = None"
proof -
  let ?s = "thread_run cb eff es EventLoopThread"
  have "start_ok ?s" using run_start_ok [OF assms(1,2)] .
  then obtain el where "failure (shared ?s) = None" "stop_at (shared ?s) = S_Idle" "m_loop (shared ?s)" "local_loop (shared ?s) = Some el"
    using assms(4) by (auto simp: start_ok_def)
  then show ?thesis
    using assms(3,4) by (simp add: thread_run_append stopLoop_def threadFunc_def with_loop_def wakeup_def Let_def)
qed

theorem stopLoop_joins_witness:
  "let s = thread_run [] (\<lambda>_. []) ([Op Start_loop, Op (Thread_turn [] []), Op (Thread_turn [] []), Test 0, Op (Thread_turn [] [])] @
      [Op Stop_loop, Op Stop_loop, Op Stop_loop, Op (Thread_turn [] []), Op (Thread_turn [] []), Op (Thread_turn [] []), Op Stop_loop])
      (EventLoopThread :: unit loop_thread monitor)
   in stop_at (shared s) = S_Joined \<and> thread_at (shared s) = T_Finished \<and> failure (shared s) = None"
proof -
  let ?es = "[Op Start_loop, Op (Thread_turn [] []), Op (Thread_turn [] []), Test 0, Op (Thread_turn [] [])] :: unit thread_op mon_event list"
  let ?s = "thread_run [] (\<lambda>_. []) ?es EventLoopThread"
  have h: "never_quits (\<lambda>_::unit. [])" "\<forall>e\<in>set ?es. starting e" by (simp_all add: never_quits_def)
  have "waiters ?s 0 = Passed" "thread_at (shared ?s) = T_Loop"
    by (simp_all add: EventLoopThread_def startLoop_def call_wait_def cv_wait_def threadFunc_def notify_all_def)
  from stopLoop_joins [OF h this] show ?thesis .
qed

text \<open>
  \<^verbatim>\<open>stopLoop\<close> can wait for ever.  \<^verbatim>\<open>loop()\<close> begins with \<^verbatim>\<open>m_quit = false\<close>: when \<^verbatim>\<open>stopLoop\<close> comes after
  the pointer was published and before the loop is entered, its request is overwritten, and in no
  continuation does the thread end or \<^verbatim>\<open>join\<close> return.
\<close>

theorem stopLoop_can_hang:
  assumes "never_quits eff"
  shows "\<exists>es. \<forall>es'. let s = thread_run cb eff (es @ es') EventLoopThread
    in stop_at (shared s) = S_Join \<and> thread_at (shared s) = T_Loop"
proof -
  let ?es = "[Op Start_loop, Op (Thread_turn [] []), Op (Thread_turn [] []), Test 0, Op Stop_loop, Op Stop_loop, Op Stop_loop,
    Op (Thread_turn [] [])] :: 'a thread_op mon_event list"
  have "stuck (thread_run cb eff ?es EventLoopThread)"
    by (simp add: stuck_def EventLoopThread_def startLoop_def call_wait_def cv_wait_def threadFunc_def notify_all_def stopLoop_def
        with_loop_def loop_start_def)
  then have "stuck (thread_run cb eff (?es @ es') EventLoopThread)" for es'
    using run_stuck [OF assms] by (simp only: thread_run_append)
  then show ?thesis by (intro exI [of _ ?es]) (simp add: stuck_def Let_def)
qed

theorem stopLoop_can_hang_witness:
  "\<exists>es. \<forall>es'. let s = thread_run [] (\<lambda>_. []) (es @ es') (EventLoopThread :: unit loop_thread monitor)
     in stop_at (shared s) = S_Join \<and> thread_at (shared s) = T_Loop"
proof -
  have "never_quits (\<lambda>_::unit. [])" by (simp add: never_quits_def)
  from stopLoop_can_hang [OF this] show ?thesis .
qed

text \<open>
  The comment in \<^verbatim>\<open>EventLoop::quit\<close> is right: a thread that ends between the two actions of \<^verbatim>\<open>quit\<close> leaves
  \<^verbatim>\<open>wakeup\<close> with a destroyed loop.  And a second \<^verbatim>\<open>stop\<close> of the pool joins a thread that has been joined.
\<close>

lemma quit_races_with_exit:
  "failure (shared (thread_run cb eff ([Op Start_loop, Op (Thread_turn [] []), Op (Thread_turn [] []), Test 0, Op (Thread_turn [] []),
     Op Stop_loop, Op Stop_loop, Op (Thread_turn [] []), Op (Thread_turn [] []), Op (Thread_turn [] []), Op Stop_loop])
     EventLoopThread)) = Some Dead_loop"
  by (simp add: EventLoopThread_def startLoop_def call_wait_def cv_wait_def threadFunc_def notify_all_def stopLoop_def with_loop_def
      loop_start_def)

lemma second_stop_fails:
  "stop_at (shared s) = S_Joined \<Longrightarrow> waiters s 0 = Passed \<Longrightarrow> failure (shared (stopLoop s)) = Some Not_joinable"
  by (simp add: stopLoop_def)

end
