(* ===== verification/Poller_Wait.thy ===== *)
theory Poller_Wait
  imports Poller
begin

text \<open>
  The waiting calls of \<^verbatim>\<open>net/SelectPoller\<close> and \<^verbatim>\<open>net/PollPoller\<close>, and what \<^verbatim>\<open>net/EventLoop\<close> does with its
  poller: forwarding for its own channels, and the channel of its wake-up descriptor.
\<close>

section \<open>SelectPoller\<close>

text \<open>
  \<^verbatim>\<open>SelectPoller::poll\<close>.  \<open>cl\<close> are the entries of \<^verbatim>\<open>m_channels\<close> in the order of the map; \<open>rd\<close> and \<open>wr\<close>
  tell which descriptors the kernel finds readable and writable, \<open>failed\<close> that \<^verbatim>\<open>select\<close> returned an error.
  \<^verbatim>\<open>select\<close> leaves the ready ones of the requested descriptors in the sets and returns their number.
\<close>

definition select_request :: "int32 \<Rightarrow> (int \<times> nat) list \<Rightarrow> select_poller \<Rightarrow> int list" where
  "select_request ev cl sp = map fst (filter (\<lambda>(fd, c). m_events (s_chans sp c) AND ev \<noteq> 0) cl)"

definition Select_poll ::
  "(int \<times> nat) list \<Rightarrow> bool \<Rightarrow> (int \<Rightarrow> bool) \<Rightarrow> (int \<Rightarrow> bool) \<Rightarrow> select_poller \<Rightarrow> nat list \<times> select_poller" where
  "Select_poll cl failed rd wr sp =
     (let readfds = filter rd (select_request XPOLLIN cl sp);
          writefds = filter wr (select_request XPOLLOUT cl sp);
          numEvents = length readfds + length writefds
      in if failed \<or> numEvents = 0 then ([], sp)
         else (let (cs, sp1) = Select_fill numEvents cl (\<lambda>fd. fd \<in> set readfds) (\<lambda>fd. fd \<in> set writefds) sp
               in (cs, if numEvents = length (s_events sp1)
                       then sp1\<lparr>s_events := s_events sp1 @ replicate numEvents (0, None)\<rparr> else sp1)))"

section \<open>PollPoller\<close>

text \<open>
  \<^verbatim>\<open>PollPoller::poll\<close>: the kernel sets \<^verbatim>\<open>revents\<close> of every entry (to 0 where the descriptor is negative) and
  returns how many are not 0.
\<close>

definition kernel_poll :: "(int \<Rightarrow> int16) \<Rightarrow> pollfd list \<Rightarrow> pollfd list" where
  "kernel_poll revents pfds = map (\<lambda>p. p\<lparr>pfd_revents := (if pfd_fd p < 0 then 0 else revents (pfd_fd p))\<rparr>) pfds"

definition Poll_poll :: "bool \<Rightarrow> (int \<Rightarrow> int16) \<Rightarrow> poll_poller \<Rightarrow> nat list \<times> poll_poller" where
  "Poll_poll failed revents pp =
     (if failed then ([], pp)
      else (let pp1 = pp\<lparr>m_pollfds := kernel_poll revents (m_pollfds pp)\<rparr>;
                numEvents = length (filter (\<lambda>p. pfd_revents p \<noteq> 0) (m_pollfds pp1))
            in if numEvents = 0 then ([], pp1) else Poll_fill numEvents (m_pollfds pp1) pp1))"

section \<open>EventLoop and its poller\<close>

text \<open>\<open>own\<close>: the channel belongs to this loop.\<close>

definition loop_updateChannel :: "bool \<Rightarrow> bool \<Rightarrow> nat \<Rightarrow> epoll_poller \<Rightarrow> bool \<times> epoll_poller" where
  "loop_updateChannel own refuse c ep = (if \<not> own then (False, ep) else updateChannel refuse c ep)"

definition loop_removeChannel :: "bool \<Rightarrow> bool \<Rightarrow> nat \<Rightarrow> epoll_poller \<Rightarrow> epoll_poller" where
  "loop_removeChannel own refuse c ep = (if \<not> own then ep else removeChannel refuse c ep)"

text \<open>
  The constructor registers the channel \<open>w\<close> of the wake-up descriptor, the destructor removes it.  Whether
  \<^verbatim>\<open>epoll_ctl\<close> refuses the request (for want of memory, of watches, or because \<^verbatim>\<open>epoll_create1\<close> had failed) is
  an argument: the constructor ignores the result of \<^verbatim>\<open>enableReading\<close>.
\<close>

definition loop_poller :: "bool \<Rightarrow> nat \<Rightarrow> (nat \<Rightarrow> channel) \<Rightarrow> epoll_poller" where
  "loop_poller refuse w cs = snd (channel_mask EnableReading refuse w (EPollPoller cs))"

definition loop_poller_destroy :: "bool \<Rightarrow> nat \<Rightarrow> epoll_poller \<Rightarrow> epoll_poller" where
  "loop_poller_destroy refuse w ep = channel_remove refuse w (snd (channel_mask DisableAll refuse w ep))"

text \<open>A call of the program on one of its channels, with the answer of \<^verbatim>\<open>epoll_ctl\<close> to it.\<close>

fun poll_call :: "poll_event \<times> bool \<Rightarrow> epoll_poller \<Rightarrow> epoll_poller" where
  "poll_call (Mask op c, refuse) ep = snd (channel_mask op refuse c ep)"
| "poll_call (Unregister c, refuse) ep = channel_remove refuse c ep"

section \<open>Lemmas\<close>

lemma upd_schan_simps [simp]:
  "s_events (upd_schan c f sp) = s_events sp" "s_channels (upd_schan c f sp) = s_channels sp"
  "s_chans (upd_schan c f sp) d = (if d = c then f (s_chans sp c) else s_chans sp d)"
  by (simp_all add: upd_schan_def)

definition fired :: "(int \<Rightarrow> bool) \<Rightarrow> (int \<Rightarrow> bool) \<Rightarrow> int \<Rightarrow> int32" where
  "fired R W fd = (if R fd then XPOLLIN else 0) OR (if W fd then XPOLLOUT else 0)"

lemma Select_fill_all:
  assumes "distinct (map snd cl)" and "length (filter (\<lambda>(fd, c). R fd \<or> W fd) cl) \<le> k"
  shows "fst (Select_fill k cl R W sp) = map snd (filter (\<lambda>(fd, c). R fd \<or> W fd) cl) \<and>
    (\<forall>(fd, c)\<in>set cl. s_chans (snd (Select_fill k cl R W sp)) c = add_revents (fired R W fd) (s_chans sp c)) \<and>
    (\<forall>c. c \<notin> snd ` set cl \<longrightarrow> s_chans (snd (Select_fill k cl R W sp)) c = s_chans sp c)"
  using assms
proof (induction k cl R W sp rule: Select_fill.induct)
  case (1 k R W sp)
  then show ?case by simp
next
  case (2 k fd c rest R W sp)
  let ?hit = "\<lambda>(fd, c). R fd \<or> W fd"
  let ?sp1 = "if R fd then upd_schan c (add_revents XPOLLIN) sp else sp"
  define sp2 where "sp2 = (if W fd then upd_schan c (add_revents XPOLLOUT) ?sp1 else ?sp1)"
  have eq: "Select_fill k ((fd, c) # rest) R W sp =
      (if R fd \<or> W fd then (if k \<le> 1 then ([c], sp2) else (let (cs, sp3) = Select_fill (k - 1) rest R W sp2 in (c # cs, sp3)))
       else Select_fill k rest R W sp2)"
    by (simp add: sp2_def Let_def)
  have c: "s_chans sp2 c = add_revents (fired R W fd) (s_chans sp c)" and o: "d \<noteq> c \<Longrightarrow> s_chans sp2 d = s_chans sp d" for d
    by (auto simp: sp2_def fired_def add_revents_def or.assoc)
  have d: "distinct (map snd rest)" "c \<notin> snd ` set rest" using 2(3) by simp_all
  then have o': "(fd', d) \<in> set rest \<Longrightarrow> s_chans sp2 d = s_chans sp d \<and> d \<noteq> c" for fd' d using o [of d] by force
  consider (none) "\<not> (R fd \<or> W fd)" | (last) "R fd \<or> W fd" "k \<le> 1" | (more) "R fd \<or> W fd" "\<not> k \<le> 1" by blast
  then show ?case
  proof cases
    case none
    have "length (filter ?hit rest) \<le> k" using 2(4) none by simp
    from 2(2) [OF refl sp2_def none d(1) this] c o o' d(2) none show ?thesis by (auto simp: eq simp del: Select_fill.simps)
  next
    case last
    then have "Suc (length (filter ?hit rest)) \<le> k" using 2(4) by auto
    then have "length (filter ?hit rest) = 0" using last(2) by linarith
    then have r: "filter ?hit rest = []" by (rule length_0_conv [THEN iffD1])
    then have "\<forall>(fd', d)\<in>set rest. fired R W fd' = 0" by (auto simp: filter_empty_conv fired_def)
    then show ?thesis using last c o o' r by (auto simp: eq add_revents_def simp del: Select_fill.simps)
  next
    case more
    obtain cs sp3 where f: "Select_fill (k - 1) rest R W sp2 = (cs, sp3)" by (cases "Select_fill (k - 1) rest R W sp2")
    have "length (filter ?hit rest) \<le> k - 1" using 2(4) more by auto
    from 2(1) [OF refl sp2_def more d(1) this] f c o o' d(2) more show ?thesis by (auto simp: eq simp del: Select_fill.simps)
  qed
qed

lemma length_filter_or: "length (filter (\<lambda>x. P x \<or> Q x) xs) \<le> length (filter P xs) + length (filter Q xs)"
  by (induction xs) auto

lemma select_request_in:
  assumes "distinct (map fst cl)" and "(fd, c) \<in> set cl"
  shows "fd \<in> set (select_request ev cl sp) \<longleftrightarrow> m_events (s_chans sp c) AND ev \<noteq> 0"
  using assms by (auto simp: select_request_def image_iff dest: eq_key_imp_eq_value)

lemma length_select_request:
  "length (filter r (select_request ev cl sp)) = length (filter (\<lambda>(fd, c). r fd \<and> m_events (s_chans sp c) AND ev \<noteq> 0) cl)"
  by (induction cl) (auto simp: select_request_def)

lemma sel_wf_distinct:
  assumes "sel_wf sp" and "distinct (map fst cl)" and "set cl \<subseteq> {(fd, c). s_channels sp fd = Some c}"
  shows "distinct (map snd cl)"
proof -
  have "map fst cl = map (\<lambda>c. m_fd (s_chans sp c)) (map snd cl)" using assms(1,3) by (auto simp: sel_wf_def)
  from this assms(2) have "distinct (map (\<lambda>c. m_fd (s_chans sp c)) (map snd cl))" by (rule subst)
  then show ?thesis by (simp only: distinct_map)
qed

text \<open>What is done with another channel leaves the entries of a registered one alone, in the map and in the kernel.\<close>

lemma epoll_ctl_other: "fd \<noteq> fd' \<Longrightarrow> snd (epoll_ctl r op fd ev ints) fd' = ints fd'"
  by (cases op) auto

lemma ep_update_other:
  "ep_channels (snd (ep_update r op d ep)) = ep_channels ep" "chans (snd (ep_update r op d ep)) = chans ep"
  "m_fd (chans ep d) \<noteq> fd \<Longrightarrow> interest (snd (ep_update r op d ep)) fd = interest ep fd"
  using epoll_ctl_other [of "m_fd (chans ep d)" fd r op "(m_events (chans ep d), d)" "interest ep"]
  by (auto simp: ep_update_def Let_def split: prod.split)

lemma upd_chan_simps:
  "ep_channels (upd_chan c f ep) = ep_channels ep" "interest (upd_chan c f ep) = interest ep"
  "chans (upd_chan c f ep) d = (if d = c then f (chans ep c) else chans ep d)"
  by (simp_all add: upd_chan_def)

lemma updateChannel_other:
  assumes "ep_channels ep fd = Some w" and "d \<noteq> w"
  shows "ep_channels (snd (updateChannel r d ep)) fd = Some w \<and> interest (snd (updateChannel r d ep)) fd = interest ep fd"
proof (cases "m_fd (chans ep d) = fd")
  case True
  then show ?thesis using assms by (auto simp: updateChannel_def Let_def)
next
  case False
  have "ep_update r CTL_DEL d ep = (ok, ep1) \<Longrightarrow> ep_channels ep1 = ep_channels ep \<and> interest ep1 fd = interest ep fd" for ok ep1
    using ep_update_other(1) [of r CTL_DEL d ep] ep_update_other(3) [OF False, of r CTL_DEL] by simp
  then show ?thesis
    using assms False
    by (auto simp: updateChannel_def Let_def ep_update_other upd_chan_simps set_index_def split: prod.splits)
qed

lemma poll_call_other:
  assumes "ep_channels ep fd = Some w" and "e \<noteq> Unregister w" and "\<forall>op. e \<noteq> Mask op w"
  shows "ep_channels (poll_call (e, r) ep) fd = Some w \<and> interest (poll_call (e, r) ep) fd = interest ep fd"
proof (cases e)
  case (Mask op d)
  then show ?thesis
    using assms updateChannel_other [of "upd_chan d (\<lambda>ch. ch\<lparr>m_events := mask_events op (m_events ch)\<rparr>) ep" fd w d r]
    by (simp add: channel_mask_def upd_chan_simps)
next
  case (Unregister d)
  then show ?thesis
    using assms by (auto simp: channel_remove_def removeChannel_def Let_def ep_update_other upd_chan_simps)
qed

lemma poll_calls_other:
  assumes "ep_channels ep fd = Some w" and "\<forall>(e, r)\<in>set es. e \<noteq> Unregister w \<and> (\<forall>op. e \<noteq> Mask op w)"
  shows "interest (fold poll_call es ep) fd = interest ep fd"
  using assms
proof (induction es arbitrary: ep)
  case (Cons x es)
  obtain e r where x: "x = (e, r)" by (cases x)
  note k = poll_call_other [OF Cons.prems(1), of e r]
  show ?case using Cons.IH [of "poll_call (e, r) ep"] k Cons.prems(2) x by simp
qed simp

section \<open>Properties\<close>

text \<open>
  \<^verbatim>\<open>SelectPoller::poll\<close> reports every registered channel that is ready for something it asked for, exactly
  once, in the order of the descriptors, although it stops after as many channels as \<^verbatim>\<open>select\<close> counted
  events.  The events found are added to \<^verbatim>\<open>m_revents\<close> of each channel, whose earlier content stays.
\<close>

theorem select_reports_ready:
  assumes "sel_wf sp" and "distinct (map fst cl)" and "set cl = {(fd, c). s_channels sp fd = Some c}"
  shows "let ready = (\<lambda>ev r (fd, c). r fd \<and> m_events (s_chans sp c) AND ev \<noteq> 0);
      (cs, sp1) = Select_poll cl False rd wr sp
    in cs = map snd (filter (\<lambda>x. ready XPOLLIN rd x \<or> ready XPOLLOUT wr x) cl) \<and>
       (\<forall>(fd, c)\<in>set cl. m_revents (s_chans sp1 c) = m_revents (s_chans sp c) OR
          (if ready XPOLLIN rd (fd, c) then XPOLLIN else 0) OR (if ready XPOLLOUT wr (fd, c) then XPOLLOUT else 0))"
proof -
  let ?ready = "\<lambda>ev r (fd, c). r fd \<and> m_events (s_chans sp c) AND ev \<noteq> 0"
  let ?r = "filter rd (select_request XPOLLIN cl sp)" and ?w = "filter wr (select_request XPOLLOUT cl sp)"
  let ?n = "length ?r + length ?w"
  let ?R = "\<lambda>fd. fd \<in> set ?r" and ?W = "\<lambda>fd. fd \<in> set ?w"
  have eq: "filter (\<lambda>(fd, c). ?R fd \<or> ?W fd) cl = filter (\<lambda>x. ?ready XPOLLIN rd x \<or> ?ready XPOLLOUT wr x) cl"
    by (intro filter_cong refl) (auto simp: select_request_in [OF assms(2)])
  have n: "length (filter (\<lambda>(fd, c). ?R fd \<or> ?W fd) cl) \<le> ?n"
    unfolding eq length_select_request by (rule length_filter_or)
  have fired: "fired ?R ?W fd = (if ?ready XPOLLIN rd (fd, c) then XPOLLIN else 0) OR (if ?ready XPOLLOUT wr (fd, c) then XPOLLOUT else 0)"
    if "(fd, c) \<in> set cl" for fd c
    using select_request_in [OF assms(2) that] by (simp add: fired_def)
  have "distinct (map snd cl)" using sel_wf_distinct [OF assms(1,2)] assms(3) by simp
  note fill = Select_fill_all [OF this n, of sp]
  obtain cs sp1 where f: "Select_fill ?n cl ?R ?W sp = (cs, sp1)" by (cases "Select_fill ?n cl ?R ?W sp")
  show ?thesis
  proof (cases "?n = 0")
    case True
    then have "filter (\<lambda>x. ?ready XPOLLIN rd x \<or> ?ready XPOLLOUT wr x) cl = []" using n eq by simp
    then show ?thesis using True by (auto simp: Select_poll_def Let_def filter_empty_conv)
  next
    case False
    then have "Select_poll cl False rd wr sp =
        (cs, if ?n = length (s_events sp1) then sp1\<lparr>s_events := s_events sp1 @ replicate ?n (0, None)\<rparr> else sp1)"
      using f unfolding Select_poll_def Let_def by auto
    then show ?thesis using fill f eq fired by (auto simp: add_revents_def Let_def or.assoc)
  qed
qed

text \<open>Descriptors 5 and 6 wait for both events; 5 is writable, 6 readable and writable.\<close>

theorem select_reports_ready_witness:
  "let sp = \<lparr>s_chans = (\<lambda>c. (Channel (int c + 5))\<lparr>m_events := 5\<rparr>), s_channels = [5 \<mapsto> 0, 6 \<mapsto> 1], s_events = []\<rparr>
   in fst (Select_poll [(5, 0), (6, 1)] False (\<lambda>fd. fd = 6) (\<lambda>_. True) sp) = [0, 1]"
proof -
  let ?sp = "\<lparr>s_chans = (\<lambda>c. (Channel (int c + 5))\<lparr>m_events := 5\<rparr>), s_channels = [5 \<mapsto> 0, 6 \<mapsto> 1], s_events = []\<rparr>"
  have "sel_wf ?sp" "distinct (map fst [(5::int, 0::nat), (6, 1)])" "set [(5, 0), (6, 1)] = {(fd, c). s_channels ?sp fd = Some c}"
    by (auto simp: sel_wf_def Channel_def split: if_splits)
  from select_reports_ready [OF this, of "\<lambda>fd. fd = 6" "\<lambda>_. True"] show ?thesis
    by (cases "Select_poll [(5, 0), (6, 1)] False (\<lambda>fd. fd = 6) (\<lambda>_. True) ?sp") (simp add: xpoll_defs)
qed

text \<open>
  Nothing clears \<^verbatim>\<open>m_revents\<close>: a channel that was readable in one round and is only writable in the next one
  gets its read callback again.
\<close>

lemma select_stale_revents:
  fixes c :: nat and fd :: int
  defines "sp \<equiv> \<lparr>s_chans = (\<lambda>_. (Channel fd)\<lparr>m_events := 5\<rparr>), s_channels = [fd \<mapsto> c], s_events = []\<rparr>"
  defines "sp1 \<equiv> snd (Select_poll [(fd, c)] False (\<lambda>_. True) (\<lambda>_. False) sp)"
  shows "handleEvent (m_revents (s_chans (snd (Select_poll [(fd, c)] False (\<lambda>_. False) (\<lambda>_. True) sp1)) c)) = [ReadCb, WriteCb]"
  by (simp add: sp1_def sp_def Select_poll_def select_request_def add_revents_def Channel_def handleEvent_def xpoll_defs Let_def)

text \<open>
  C29: The wake-up descriptor of a loop stays watched once the kernel has taken it.  From the constructor on,
  whatever the program does with its other channels and whatever \<^verbatim>\<open>epoll_ctl\<close> answers to that, the kernel
  watches the wake-up descriptor for reading with the wake-up channel if it accepted the registration in
  the constructor; if it refused it, which the constructor does not notice, the descriptor is never watched.
\<close>

theorem wakeup_channel_watched:
  assumes "\<forall>c. m_index (cs c) = kNew" and "m_events (cs w) = kNoneEvent"
    and "\<forall>(e, r)\<in>set es. e \<noteq> Unregister w \<and> (\<forall>op. e \<noteq> Mask op w)"
  shows "interest (fold poll_call es (loop_poller refuse w cs)) (m_fd (cs w)) = (if refuse then None else Some (kReadEvent, w))"
proof -
  have "ep_channels (loop_poller refuse w cs) (m_fd (cs w)) = Some w"
    "interest (loop_poller refuse w cs) (m_fd (cs w)) = (if refuse then None else Some (kReadEvent, w))"
    using assms(1,2)
    by (simp_all add: loop_poller_def channel_mask_def updateChannel_def upd_chan_def set_index_def EPollPoller_def ep_update_def
        kNoneEvent_def Let_def)
  then show ?thesis using poll_calls_other [OF _ assms(3)] by simp
qed

text \<open>
  A loop with two connections, one of them closed again, the other refused by the kernel; the descriptor of the
  wake-up channel is 5.
\<close>

theorem wakeup_channel_watched_witness:
  "interest (fold poll_call [(Mask EnableReading 1, False), (Mask EnableReading 2, True), (Mask DisableAll 1, False), (Unregister 1, False)]
     (loop_poller False 0 (\<lambda>c. Channel (int c + 5)))) 5 = Some (kReadEvent, 0)"
  using wakeup_channel_watched [of "\<lambda>c. Channel (int c + 5)" 0
      "[(Mask EnableReading 1, False), (Mask EnableReading 2, True), (Mask DisableAll 1, False), (Unregister 1, False)]" False]
  by (simp add: Channel_def index_defs kNoneEvent_def)

end
