(* ===== verification/Server_Main.thy ===== *)
theory Server_Main
  imports Config_File Tcp_Server Acceptor_Model Chat_Server
begin

text \<open>
  \<^verbatim>\<open>chatserversrc/main.cpp\<close> and \<^verbatim>\<open>ChatServer::init\<close>: from the configuration file to a listening server.  What
  the file system, the kernel, the database and redis answer is an input.  A null pointer that becomes a
  \<^verbatim>\<open>std::string\<close> or an argument of \<^verbatim>\<open>atol\<close> ends the process, as does \<^verbatim>\<open>LOGF\<close> where it does not return
  (\<open>logf_returns\<close>: it does when the log file is not open and cannot be created).
\<close>

section \<open>Inputs and results\<close>

datatype main_error =
    Config_failed config_error
  | Null_string
  | Database_failed db_error
  | Data_failed data_error
  | Fatal_log
  | Unterminated

datatype main_end = Exit int | Crash main_error

record ('m, 'r) main_env =
  db_api :: "'m mysql_api"
  js_api :: json_api
  red_api :: "'r redis_api"
  junk_int :: int32
  junk_stack :: "nat \<Rightarrow> byte"
  config_content :: "bytes option"
  sql_content :: "bytes option"
  dir_exists :: "bytes \<Rightarrow> bool"
  mkdir_ok :: "bytes \<Rightarrow> bool"
  bind_ok :: "sockaddr_in \<Rightarrow> bool"
  listen_ok :: bool
  ephemeral :: sockaddr_in
  logf_returns :: "fatal_site \<Rightarrow> bool"
  fds :: fd_table

record 'r running =
  chat :: "'r chat_server"
  tcp :: tcp_server
  listener :: acceptor
  listen_addr :: sockaddr_in

definition and_then :: "'e + 'a \<Rightarrow> ('a \<Rightarrow> 'e + 'b) \<Rightarrow> 'e + 'b" where
  "and_then r f = (case r of Inl e \<Rightarrow> Inl e | Inr x \<Rightarrow> f x)"

definition failing :: "('e \<Rightarrow> main_error) \<Rightarrow> 'e + 'a \<Rightarrow> main_end + 'a" where
  "failing f r = (case r of Inl e \<Rightarrow> Inl (Crash (f e)) | Inr x \<Rightarrow> Inr x)"

section \<open>ChatServer::init\<close>

definition ChatServer_init ::
  "('m, 'r) main_env \<Rightarrow> bytes \<Rightarrow> int16 \<Rightarrow> 'r chat_server \<Rightarrow> main_end + 'r running" where
  "ChatServer_init env ip port cs =
     (let addr = InetAddress_ip ip port
      in case toIpPort (junk_stack env) addr of
           None \<Rightarrow> Inl (Crash Unterminated)
         | Some hostport \<Rightarrow>
             (case Acceptor (logf_returns env) (bind_ok env addr) addr (fds env) of
                None \<Rightarrow> Inl (Crash Fatal_log)
              | Some (a, fds1) \<Rightarrow>
                  (case listen (logf_returns env) (listen_ok env) (ephemeral env) (setNewConnectionCallback a) of
                     None \<Rightarrow> Inl (Crash Fatal_log)
                   | Some a1 \<Rightarrow>
                       Inr \<lparr>chat = cs, tcp = start 6 (TcpServer hostport (lit ''414CHATSERVER'')), listener = a1,
                            listen_addr = addr\<rparr>)))"

definition ChatServer_uninit :: "'r running \<Rightarrow> server_error + 'r running" where
  "ChatServer_uninit s = map_sum id (\<lambda>srv. s\<lparr>tcp := srv\<rparr>) (stop (tcp s))"

section \<open>main\<close>

text \<open>A value of the configuration, as the pointer \<^verbatim>\<open>getConfigName\<close> returns and as a string made of it.\<close>

definition config_pointer :: "bytes \<Rightarrow> config_reader \<Rightarrow> main_end + bytes option" where
  "config_pointer name cfg = failing Config_failed (getConfigName name cfg)"

definition config_string :: "bytes \<Rightarrow> config_reader \<Rightarrow> main_end + bytes" where
  "config_string name cfg =
     and_then (config_pointer name cfg) (\<lambda>v. case v of None \<Rightarrow> Inl (Crash Null_string) | Some s \<Rightarrow> Inr s)"

text \<open>\<^verbatim>\<open>atol\<close> on a C string, and the conversion of its value to \<^verbatim>\<open>short\<close>.\<close>

definition short_atol :: "bytes \<Rightarrow> int16" where
  "short_atol s = (case atoll (s @ [0]) of None \<Rightarrow> 0 | Some v \<Rightarrow> word_of_int v)"

definition no_users :: user_manager where
  "no_users = \<lparr>m_allCachedUsers = [], um_strDbServer = [], um_strDbUserName = [], um_strDbPassword = [], um_strDbName = []\<rparr>"

definition no_cache :: msg_cache_manager where
  "no_cache = \<lparr>mc_strDbServer = [], mc_strDbUserName = [], mc_strDbPassword = [], mc_strDbName = [], m_strRedisUrl = []\<rparr>"

definition no_manager :: mysql_manager where
  "no_manager = \<lparr>m_poConn = None, m_strHost = [], m_strUser = [], m_strPassword = [], m_strDataBase = []\<rparr>"

text \<open>The directory of the log files is created when it does not exist.\<close>

definition main_log_dir :: "('m, 'r) main_env \<Rightarrow> config_reader \<Rightarrow> main_end + bytes" where
  "main_log_dir env cfg =
     and_then (config_pointer (lit ''logfiledir'') cfg)
       (\<lambda>v. case v of
              None \<Rightarrow> Inl (Exit 1)
            | Some dir \<Rightarrow>
                if \<not> dir_exists env dir \<and> \<not> mkdir_ok env dir then Inl (Exit 1)
                else and_then (config_string (lit ''logfilename'') cfg) (\<lambda>name. Inr (dir @ name)))"

text \<open>The three singletons; that one of them could not be initialised is only printed.\<close>

definition main_singletons ::
  "('m, 'r) main_env \<Rightarrow> config_reader \<Rightarrow> 'm \<Rightarrow> 'r \<Rightarrow> main_end + (user_manager \<times> msg_cache_manager \<times> 'r)" where
  "main_singletons env cfg w r =
     and_then (config_string (lit ''dbserver'') cfg) (\<lambda>dbserver.
     and_then (config_string (lit ''dbuser'') cfg) (\<lambda>dbuser.
     and_then (config_pointer (lit ''dbpassword'') cfg) (\<lambda>dbpassword.
     and_then (config_string (lit ''dbname'') cfg) (\<lambda>dbname.
     and_then (failing Database_failed (MysqlManager_init (db_api env) (sql_content env) dbserver dbuser dbpassword dbname no_manager w))
       (\<lambda>(_, _, w1).
     and_then (failing Database_failed (UserManager_init (db_api env) (junk_int env) dbserver dbuser dbpassword dbname no_users w1))
       (\<lambda>(_, um, w2).
     and_then (config_string (lit ''redisUrl'') cfg) (\<lambda>redisUrl.
     and_then (failing Data_failed (MsgCacheManager_init (db_api env) (js_api env) (red_api env) (junk_int env) dbserver dbuser dbpassword
         dbname redisUrl no_cache w2 r))
       (\<lambda>(_, mc, w3, r1). Inr (um, mc, r1)))))))))"

definition main_program :: "('m, 'r) main_env \<Rightarrow> 'm \<Rightarrow> 'r \<Rightarrow> main_end + 'r running" where
  "main_program env w r =
     and_then (failing Config_failed (CConfigFileReader (lit ''../etc/chatserver.conf'') (config_content env))) (\<lambda>cfg.
     and_then (main_log_dir env cfg) (\<lambda>logFileFullPath.
     and_then (main_singletons env cfg w r) (\<lambda>(um, mc, r1).
     and_then (config_pointer (lit ''listenip'') cfg) (\<lambda>listenip.
     and_then (config_string (lit ''listenport'') cfg) (\<lambda>listenport.
     case listenip of
       None \<Rightarrow> Inl (Crash Null_string)
     | Some ip \<Rightarrow> ChatServer_init env ip (short_atol listenport) (ChatServer um mc r1))))))"

section \<open>Lemmas\<close>

lemma and_then_Inr: "and_then r f = Inr y \<longleftrightarrow> (\<exists>x. r = Inr x \<and> f x = Inr y)"
  by (auto simp: and_then_def split: sum.splits)

lemma failing_Inr: "failing f r = Inr x \<longleftrightarrow> r = Inr x"
  by (auto simp: failing_def split: sum.splits)

lemma config_values:
  "config_pointer k cfg = Inr v \<longleftrightarrow> getConfigName k cfg = Inr v" "config_string k cfg = Inr s \<longleftrightarrow> getConfigName k cfg = Inr (Some s)"
  by (auto simp: config_string_def config_pointer_def and_then_Inr failing_Inr split: option.splits)

lemmas main_steps = and_then_Inr failing_Inr config_values

lemma short_atol_print: "short_atol (print_int (uint (p :: int16))) = p"
proof -
  have "uint p < 2 ^ 16" using uint_bounded [of p] by simp
  then have "- (2 ^ 63) \<le> uint p" and "uint p < 2 ^ 63" using order_trans [of "- (2 ^ 63)" 0 "uint p"] by simp_all
  from atoll_print_int [OF this, of 0 "[]"] show ?thesis by (simp add: short_atol_def is_digit_def)
qed

text \<open>What a started server is, whatever its addresses.\<close>

lemma ChatServer_init_Inr:
  assumes "ChatServer_init env ip port cs = Inr st"
  shows "listen_addr st = InetAddress_ip ip port" and "chat st = cs"
    and "m_hostport (tcp st) = inet_ntop (s_addr (InetAddress_ip ip port)) @ lit '':'' @
      print_int (uint (networkToHost16 (sin_port (InetAddress_ip ip port))))"
    and "srv_started (tcp st)" and "srv_listening (tcp st)" and "\<exists>p. m_pool (tcp st) = Some p \<and> m_loops p = map Worker [0..<6]"
    and "m_acceptReading (listener st)" and "m_newConnectionCallback (listener st)"
  using assms
  by (auto simp: ChatServer_init_def toIpPort_text listen_def listenOrDie_def setNewConnectionCallback_def LOGF_def start_def TcpServer_def
      pool_start_def pool_init_def EventLoopThreadPool_def Let_def split: option.splits if_splits)

text \<open>What the kernel does with the listening socket, when every call succeeds, and when only \<^verbatim>\<open>bind\<close> fails.\<close>

lemma ChatServer_init_socket:
  assumes "ChatServer_init env ip port cs = Inr st"
  defines "addr \<equiv> InetAddress_ip ip port"
  shows "(\<forall>site. \<not> logf_returns env site) \<Longrightarrow> sock_listens (listener st) \<and> sock_addr (listener st) = Some addr"
    and "lowest_free (fds env) \<noteq> None \<and> \<not> bind_ok env addr \<and> listen_ok env \<Longrightarrow>
      sock_listens (listener st) \<and> sock_addr (listener st) = Some (ephemeral env)"
proof -
  obtain a fds1 a1 where a: "Acceptor (logf_returns env) (bind_ok env addr) addr (fds env) = Some (a, fds1)"
    and a1: "listen (logf_returns env) (listen_ok env) (ephemeral env) (setNewConnectionCallback a) = Some a1" and st: "listener st = a1"
    using assms(1) by (auto simp: ChatServer_init_def addr_def Let_def split: option.splits)
  note defs = Acceptor_def createNonblockingOrDie_def sys_open_def bindOrDie_def listen_def listenOrDie_def
    setNewConnectionCallback_def LOGF_def
  show "(\<forall>site. \<not> logf_returns env site) \<Longrightarrow> sock_listens (listener st) \<and> sock_addr (listener st) = Some addr"
    using a a1 unfolding st by (auto simp: defs split: option.splits if_splits)
  show "lowest_free (fds env) \<noteq> None \<and> \<not> bind_ok env addr \<and> listen_ok env \<Longrightarrow>
      sock_listens (listener st) \<and> sock_addr (listener st) = Some (ephemeral env)"
    using a a1 unfolding st by (auto simp: defs split: option.splits if_splits)
qed

lemma main_program_Inr:
  assumes "main_program env w r = Inr st" and "CConfigFileReader (lit ''../etc/chatserver.conf'') (config_content env) = Inr cfg"
  shows "\<exists>ip port um mc r1 dir. getConfigName (lit ''listenip'') cfg = Inr (Some ip) \<and> getConfigName (lit ''listenport'') cfg = Inr (Some port) \<and>
    main_log_dir env cfg = Inr dir \<and> main_singletons env cfg w r = Inr (um, mc, r1) \<and>
    ChatServer_init env ip (short_atol port) (ChatServer um mc r1) = Inr st"
  using assms unfolding main_program_def by (auto simp: main_steps split: option.splits)

lemma main_keys:
  assumes "main_singletons env cfg w r = Inr x" and "main_log_dir env cfg = Inr dir"
    and "k \<in> {lit ''logfiledir'', lit ''logfilename'', lit ''dbserver'', lit ''dbuser'', lit ''dbname'', lit ''redisUrl''}"
  shows "\<exists>v. getConfigName k cfg = Inr (Some v)"
  using assms unfolding main_singletons_def main_log_dir_def by (auto simp: main_steps split: option.splits if_splits)

text \<open>With a database that nobody can connect to, the singletons are initialised and empty.\<close>

lemma singletons_without_database:
  assumes down: "\<And>h u p d w. fst (mysql_real_connect (db_api env) h u p d w) = False"
    and keys: "getConfigName (lit ''dbserver'') cfg = Inr (Some s)" "getConfigName (lit ''dbuser'') cfg = Inr (Some u)"
      "getConfigName (lit ''dbpassword'') cfg = Inr p" "getConfigName (lit ''dbname'') cfg = Inr (Some d)"
      "getConfigName (lit ''redisUrl'') cfg = Inr (Some url)"
  shows "\<exists>um mc. main_singletons env cfg w r = Inr (um, mc, r) \<and> m_allCachedUsers um = []"
proof -
  have no_users: "m_allCachedUsers no_users = []" by (simp add: no_users_def)
  have db: "\<exists>db w'. initialize (db_api env) h u' p' d' CDatabaseMysql w = Inr (False, db, w')" for h u' p' d' w
    using down [of h u' p' d' w] by (auto simp: initialize_def CDatabaseMysql_def Let_def split: prod.splits)
  have 1: "\<exists>mm w'. MysqlManager_init (db_api env) f s u p d no_manager w = Inr (False, mm, w')" for f w
    using db [of s u "case p of None \<Rightarrow> m_strPassword no_manager | Some x \<Rightarrow> x" "[]" w] by (auto simp: MysqlManager_init_def Let_def)
  have 2: "\<exists>um w'. UserManager_init (db_api env) j s u p d no_users w = Inr (False, um, w') \<and> m_allCachedUsers um = []" for j w
    using db [of s u "case p of None \<Rightarrow> um_strDbPassword no_users | Some x \<Rightarrow> x" d w]
    by (auto simp: UserManager_init_def loadUsersFromDb_def no_users)
  have 3: "\<exists>mc w'. MsgCacheManager_init (db_api env) (js_api env) (red_api env) j s u p d url no_cache w r = Inr (False, mc, w', r)" for j w
    using db [of s u "case p of None \<Rightarrow> mc_strDbPassword no_cache | Some x \<Rightarrow> x" d w]
    by (auto simp: MsgCacheManager_init_def loadMsgFromDbAndStoreInRedis_def Let_def)
  obtain mm w1 where "MysqlManager_init (db_api env) (sql_content env) s u p d no_manager w = Inr (False, mm, w1)" using 1 by blast
  moreover obtain um w2 where "UserManager_init (db_api env) (junk_int env) s u p d no_users w1 = Inr (False, um, w2)" "m_allCachedUsers um = []"
    using 2 by blast
  moreover obtain mc w3 where "MsgCacheManager_init (db_api env) (js_api env) (red_api env) (junk_int env) s u p d url no_cache w2 r
      = Inr (False, mc, w3, r)" using 3 by blast
  ultimately show ?thesis
    using keys by (simp add: main_singletons_def and_then_def config_string_def config_pointer_def failing_def)
qed

lemma main_without_database:
  assumes "CConfigFileReader (lit ''../etc/chatserver.conf'') (config_content env) = Inr cfg"
    and "\<forall>k\<in>{lit ''logfiledir'', lit ''logfilename'', lit ''dbserver'', lit ''dbuser'', lit ''dbname'', lit ''redisUrl'',
        lit ''listenip'', lit ''listenport''}. \<exists>v. getConfigName k cfg = Inr (Some v)"
    and "\<forall>d. dir_exists env d" and "\<forall>addr. bind_ok env addr" and "listen_ok env" and "lowest_free (fds env) \<noteq> None"
    and "\<forall>h u p d w. fst (mysql_real_connect (db_api env) h u p d w) = False"
  shows "\<exists>st. main_program env w r = Inr st \<and> srv_listening (tcp st) \<and> m_allCachedUsers (users (chat st)) = [] \<and>
    redis_world (chat st) = r"
proof -
  obtain vd vn vs vu vdb vr vi vp where v: "getConfigName (lit ''logfiledir'') cfg = Inr (Some vd)" "getConfigName (lit ''logfilename'') cfg = Inr (Some vn)"
    "getConfigName (lit ''dbserver'') cfg = Inr (Some vs)" "getConfigName (lit ''dbuser'') cfg = Inr (Some vu)"
    "getConfigName (lit ''dbname'') cfg = Inr (Some vdb)" "getConfigName (lit ''redisUrl'') cfg = Inr (Some vr)"
    "getConfigName (lit ''listenip'') cfg = Inr (Some vi)" "getConfigName (lit ''listenport'') cfg = Inr (Some vp)"
    using assms(2) by auto
  obtain p where p: "getConfigName (lit ''dbpassword'') cfg = Inr p"
    using v(1) by (auto simp: getConfigName_def split: option.splits)
  have down: "fst (mysql_real_connect (db_api env) h u p d w) = False" for h u p d w using assms(7) by blast
  obtain um mc where s: "main_singletons env cfg w r = Inr (um, mc, r)" "m_allCachedUsers um = []"
    using singletons_without_database [OF down v(3,4) p v(5,6)] by blast
  have "\<exists>st. ChatServer_init env vi (short_atol vp) (ChatServer um mc r) = Inr st"
    using assms(4,5,6)
    by (auto simp: ChatServer_init_def toIpPort_text Acceptor_def createNonblockingOrDie_def sys_open_def bindOrDie_def listen_def
        listenOrDie_def setNewConnectionCallback_def Let_def split: option.splits prod.splits)
  then obtain st where st: "ChatServer_init env vi (short_atol vp) (ChatServer um mc r) = Inr st" by blast
  have "main_log_dir env cfg = Inr (vd @ vn)"
    using v(1,2) assms(3) by (simp add: main_log_dir_def and_then_def config_string_def config_pointer_def failing_def)
  then have "main_program env w r = Inr st"
    using assms(1) s st v(7,8)
    by (simp add: main_program_def and_then_def config_string_def config_pointer_def failing_def)
  then show ?thesis using ChatServer_init_Inr [OF st] s(2) by (simp add: ChatServer_def)
qed

text \<open>A configuration file, and an environment without a database.\<close>

definition demo_config :: bytes where
  "demo_config = concat (map (\<lambda>l. l @ [10])
     [lit ''# demo'', lit ''logfiledir=logs/'', lit ''logfilename = chat'', lit ''dbserver=127.0.0.1'', lit ''dbuser=root'', lit ''dbname=chat'',
      lit ''redisUrl=tcp://127.0.0.1'', lit ''listenip=127.0.0.1'', lit ''listenport=50000''])"

definition demo_main :: "(unit, bytes \<Rightarrow> bytes list) main_env" where
  "demo_main = \<lparr>db_api = \<lparr>mysql_real_connect = (\<lambda>_ _ _ _ w. (False, w)), mysql_real_query = (\<lambda>_ w. (1, w)), mysql_errno = (\<lambda>_. 0),
       mysql_store_result = (\<lambda>w. (None, w)), mysql_field_count = (\<lambda>_. 0)\<rparr>,
     js_api = \<lparr>json_parse = (\<lambda>_. None), json_dump = (\<lambda>_. None)\<rparr>, red_api = mem_redis, junk_int = 0, junk_stack = (\<lambda>_. 0),
     config_content = Some demo_config, sql_content = None, dir_exists = (\<lambda>_. True), mkdir_ok = (\<lambda>_. True), bind_ok = (\<lambda>_. True),
     listen_ok = True, ephemeral = zero_addr, logf_returns = (\<lambda>_. False), fds = \<lparr>open_fds = {0, 1, 2}, fd_limit = 1024, backlog = []\<rparr>\<rparr>"

definition demo_reader :: config_reader where
  "demo_reader = projr (CConfigFileReader (lit ''../etc/chatserver.conf'') (Some demo_config))"

lemma demo_config_read:
  "CConfigFileReader (lit ''../etc/chatserver.conf'') (config_content demo_main) = Inr demo_reader"
proof -
  have "\<not> isl (CConfigFileReader (lit ''../etc/chatserver.conf'') (Some demo_config))" by code_simp
  then show ?thesis by (simp add: demo_main_def demo_reader_def sum.expand)
qed

lemma demo_values:
  "getConfigName (lit ''logfiledir'') demo_reader = Inr (Some (lit ''logs/''))"
  "getConfigName (lit ''logfilename'') demo_reader = Inr (Some (lit ''chat''))"
  "getConfigName (lit ''dbserver'') demo_reader = Inr (Some (lit ''127.0.0.1''))"
  "getConfigName (lit ''dbuser'') demo_reader = Inr (Some (lit ''root''))"
  "getConfigName (lit ''dbname'') demo_reader = Inr (Some (lit ''chat''))"
  "getConfigName (lit ''redisUrl'') demo_reader = Inr (Some (lit ''tcp://127.0.0.1''))"
  "getConfigName (lit ''listenip'') demo_reader = Inr (Some (lit ''127.0.0.1''))"
  "getConfigName (lit ''listenport'') demo_reader = Inr (Some (lit ''50000''))"
  by code_simp+

lemma demo_texts: "lit ''127.0.0.1'' = inet_ntop 0x0100007F" "lit ''50000'' = print_int (uint (50000 :: int16))"
proof -
  show "lit ''127.0.0.1'' = inet_ntop 0x0100007F" by code_simp
  show "lit ''50000'' = print_int (uint (50000 :: int16))" by (simp add: lit_def print_int_def nat_digits.simps)
qed

lemma demo_main_ok:
  "\<forall>k\<in>{lit ''logfiledir'', lit ''logfilename'', lit ''dbserver'', lit ''dbuser'', lit ''dbname'', lit ''redisUrl'', lit ''listenip'',
     lit ''listenport''}. \<exists>v. getConfigName k demo_reader = Inr (Some v)"
  "\<forall>d. dir_exists demo_main d" "\<forall>addr. bind_ok demo_main addr" "listen_ok demo_main" "lowest_free (fds demo_main) \<noteq> None"
  "\<forall>h u p d w. fst (mysql_real_connect (db_api demo_main) h u p d w) = False"
  using demo_values by (auto simp: demo_main_def lowest_free_None subset_iff intro: exI [of _ 3])

section \<open>Properties\<close>

text \<open>
  C22: A started server listens where the configuration says, unless the call of \<^verbatim>\<open>LOGF\<close> that should stop it
  returns.  If \<^verbatim>\<open>main\<close> reaches its event loop, all the keys it needs were in the file (\<^verbatim>\<open>dbpassword\<close> may be
  missing); and when \<^verbatim>\<open>listenip\<close> is the dotted decimal text of an address and \<^verbatim>\<open>listenport\<close> the decimal text of a
  port, 32768 and above included, this is the address and port it asks the kernel for, it names its
  connections after them, has six workers, and its acceptor hands new connections to it.  If \<^verbatim>\<open>LOGF\<close> ends the
  process wherever it is called, the socket is bound to exactly this address and port and listens.  If it
  returns (the log file is not open and cannot be created) and only \<^verbatim>\<open>bind\<close> failed, the server runs all the
  same and listens on the port the kernel has chosen.
\<close>

theorem server_listens_as_configured:
  assumes "main_program env w r = Inr st"
    and "CConfigFileReader (lit ''../etc/chatserver.conf'') (config_content env) = Inr cfg"
    and "getConfigName (lit ''listenip'') cfg = Inr (Some (inet_ntop a))"
    and "getConfigName (lit ''listenport'') cfg = Inr (Some (print_int (uint port)))"
  shows "s_addr (listen_addr st) = a \<and> sin_toPort (listen_addr st) = port \<and>
    m_hostport (tcp st) = inet_ntop a @ lit '':'' @ print_int (uint port) \<and>
    srv_listening (tcp st) \<and> (\<exists>p. m_pool (tcp st) = Some p \<and> m_loops p = map Worker [0..<6]) \<and>
    m_acceptReading (listener st) \<and> m_newConnectionCallback (listener st) \<and>
    ((\<forall>site. \<not> logf_returns env site) \<longrightarrow> sock_listens (listener st) \<and> sock_addr (listener st) = Some (listen_addr st)) \<and>
    (lowest_free (fds env) \<noteq> None \<and> \<not> bind_ok env (listen_addr st) \<and> listen_ok env \<longrightarrow>
       sock_listens (listener st) \<and> sock_addr (listener st) = Some (ephemeral env)) \<and>
    (\<forall>k\<in>{lit ''logfiledir'', lit ''logfilename'', lit ''dbserver'', lit ''dbuser'', lit ''dbname'', lit ''redisUrl''}.
       \<exists>v. getConfigName k cfg = Inr (Some v))"
proof -
  obtain um mc r1 dir where m: "main_log_dir env cfg = Inr dir" "main_singletons env cfg w r = Inr (um, mc, r1)"
    "ChatServer_init env (inet_ntop a) (short_atol (print_int (uint port))) (ChatServer um mc r1) = Inr st"
    using main_program_Inr [OF assms(1,2)] assms(3,4) by auto
  note st = ChatServer_init_Inr [OF m(3) [unfolded short_atol_print]] ChatServer_init_socket [OF m(3) [unfolded short_atol_print]]
  show ?thesis
    using main_keys [OF m(2,1)] st by (simp add: sin_toPort_def InetAddress_ip_text)
qed

theorem server_listens_as_configured_witness:
  "\<exists>st. main_program demo_main () (\<lambda>_. []) = Inr st \<and> m_hostport (tcp st) = lit ''127.0.0.1:50000'' \<and>
     sock_listens (listener st) \<and> sock_addr (listener st) = Some (listen_addr st)"
proof -
  obtain st where st: "main_program demo_main () (\<lambda>_. []) = Inr st"
    using main_without_database [OF demo_config_read demo_main_ok] by blast
  note s = server_listens_as_configured [OF st demo_config_read demo_values(7,8) [unfolded demo_texts]]
  then have l: "sock_listens (listener st) \<and> sock_addr (listener st) = Some (listen_addr st)" by (simp add: demo_main_def)
  have "m_hostport (tcp st) = lit ''127.0.0.1'' @ lit '':'' @ lit ''50000''" using s by (simp only: demo_texts)
  also have "\<dots> = lit ''127.0.0.1:50000''" by (simp add: lit_def)
  finally show ?thesis using st l by blast
qed

text \<open>
  The server starts without its database.  When no connection to the database can be made, all three
  initialisations fail, which is only printed: \<^verbatim>\<open>main\<close> goes on to serve, without users and without touching
  the message log.
\<close>

theorem serves_without_database:
  assumes "CConfigFileReader (lit ''../etc/chatserver.conf'') (config_content env) = Inr cfg"
    and "\<forall>k\<in>{lit ''logfiledir'', lit ''logfilename'', lit ''dbserver'', lit ''dbuser'', lit ''dbname'', lit ''redisUrl'',
        lit ''listenip'', lit ''listenport''}. \<exists>v. getConfigName k cfg = Inr (Some v)"
    and "\<forall>d. dir_exists env d" and "\<forall>addr. bind_ok env addr" and "listen_ok env" and "lowest_free (fds env) \<noteq> None"
    and "\<forall>h u p d w. fst (mysql_real_connect (db_api env) h u p d w) = False"
  shows "\<exists>st. main_program env w r = Inr st \<and> srv_listening (tcp st) \<and> m_allCachedUsers (users (chat st)) = [] \<and>
    redis_world (chat st) = r"
  by (rule main_without_database [OF assms])

theorem serves_without_database_witness:
  "\<exists>st. main_program demo_main () (\<lambda>_. []) = Inr st \<and> m_allCachedUsers (users (chat st)) = []"
  using serves_without_database [OF demo_config_read demo_main_ok] by blast

end
