(* ===== verification/Chat_Over_Tcp.thy ===== *)
theory Chat_Over_Tcp
  imports Tcp_Connection Chat_Framing
begin

text \<open>
  The session on its connection: \<^verbatim>\<open>TcpConnection::handleRead\<close> reads into the input buffer and calls the
  message callback, which \<^verbatim>\<open>ChatServer::onConnected\<close> has set to \<^verbatim>\<open>ChatSession::onRead\<close>.  Together with the
  output side of the peer this gives the way of a request from one process to the handlers of the other.
\<close>

section \<open>A read event\<close>

text \<open>\<open>d\<close> is what the kernel delivers to \<^verbatim>\<open>readv\<close>; nothing is the end of the stream.\<close>

definition session_read ::
  "'r chat_env \<Rightarrow> nat \<Rightarrow> nat \<Rightarrow> bytes \<Rightarrow> tcp_connection \<times> 'r chat_server \<Rightarrow> chat_error + (tcp_connection \<times> 'r chat_server)" where
  "session_read env p conn d x =
     (let tc = handleRead (IO_data d) 0 (fst x)
      in if d = [] then Inr (tc, snd x)
         else (case onRead env p conn (m_inputBuffer tc) (snd x) of
                 Inl e \<Rightarrow> Inl e
               | Inr (b, st) \<Rightarrow> Inr (tc\<lparr>m_inputBuffer := b\<rparr>, st)))"

fun session_reads ::
  "'r chat_env \<Rightarrow> nat \<Rightarrow> nat \<Rightarrow> bytes list \<Rightarrow> tcp_connection \<times> 'r chat_server \<Rightarrow> chat_error + (tcp_connection \<times> 'r chat_server)" where
  "session_reads env p conn [] x = Inr x"
| "session_reads env p conn (d # ds) x =
     (case session_read env p conn d x of Inl e \<Rightarrow> Inl e | Inr y \<Rightarrow> session_reads env p conn ds y)"

section \<open>Lemmas\<close>

text \<open>What the receive loop does with a stream it does before with every prefix of it.\<close>

lemma serve_prefix:
  "serve env p conn (xs @ d) st = Inr (ys, False, st') \<Longrightarrow> \<exists>ys1 st1. serve env p conn xs st = Inr (ys1, False, st1)"
proof (induction env p conn xs st rule: serve.induct)
  case (1 env p conn xs st)
  let ?w = "of_le_bytes (take 4 xs) :: int32"
  show ?case
  proof (cases "length xs < 4 \<or> length xs < unat ((scast ?w :: 64 word) + 4) \<and> sint ?w \<le> MAX_PACKAGE_SIZE")
    case True
    then show ?thesis by (auto simp: serve.simps [of env p conn xs st] Let_def)
  next
    case False
    then have w: "take 4 (xs @ d) = take 4 xs" "sint ?w \<le> MAX_PACKAGE_SIZE" "\<not> sint ?w < 0"
      using "1.prems" by (auto simp: serve.simps [of env p conn "xs @ d" st] Let_def split: if_splits)
    define n where "n = nat (sint ?w)"
    have le: "4 + n \<le> length xs" using False w frame_total_pos [of ?w] by (simp add: n_def)
    have step: "serve env p conn (xs @ e) st = (case process env p (take n (drop 4 xs)) st of Inl e \<Rightarrow> Inl e
        | Inr (ok, st1) \<Rightarrow> if ok then serve env p conn (drop (4 + n) xs @ e) (touch env p st1)
            else Inr (drop (4 + n) xs @ e, True, emit (Chat_Server.ForceClose conn) st1))" for e
      using False w le frame_total_pos [of ?w] unfolding n_def
      by (cases "process env p (take (nat (sint ?w)) (drop 4 xs)) st")
        (auto simp: serve.simps [of env p conn "xs @ e" st] Let_def)
    obtain st1 where pr: "process env p (take n (drop 4 xs)) st = Inr (True, st1)"
      and "serve env p conn (drop (4 + n) xs @ d) (touch env p st1) = Inr (ys, False, st')"
      using "1.prems" step [of d] by (auto split: sum.splits if_splits)
    moreover note "1.IH" [OF refl _ _ _ w(3), of "(True, st1)" True st1] False w
    ultimately show ?thesis using step [of "[]"] by (auto simp: n_def)
  qed
qed

lemma handleRead_data:
  assumes "buf_inv (m_inputBuffer tc)" and "d \<noteq> []"
  shows "content (m_inputBuffer (handleRead (IO_data d) e tc)) = content (m_inputBuffer tc) @ d"
    and "buf_inv (m_inputBuffer (handleRead (IO_data d) e tc))"
    and "outstream (handleRead (IO_data d) e tc) = outstream tc"
proof -
  obtain n x b where r: "readFd (IO_data d) e (m_inputBuffer tc) = (n, x, b)" by (cases "readFd (IO_data d) e (m_inputBuffer tc)")
  then have "n = int (length d)" "content b = content (m_inputBuffer tc) @ d" "buf_inv b"
    using readFd_post(2,3) [OF assms(1), of d e] readFd_post(1) [OF assms(1), of "IO_data d" e] by simp_all
  then show "content (m_inputBuffer (handleRead (IO_data d) e tc)) = content (m_inputBuffer tc) @ d"
    and "buf_inv (m_inputBuffer (handleRead (IO_data d) e tc))" and "outstream (handleRead (IO_data d) e tc) = outstream tc"
    using assms(2) r by (simp_all add: handleRead_def call_def outstream_def Let_def)
qed

lemma session_read_serve:
  assumes "buf_inv (m_inputBuffer tc)" and "d \<noteq> []"
    and "serve env p conn (content (m_inputBuffer tc) @ d) st = Inr (ys, False, st')"
  shows "\<exists>tc'. session_read env p conn d (tc, st) = Inr (tc', st') \<and> content (m_inputBuffer tc') = ys \<and> buf_inv (m_inputBuffer tc')"
proof -
  let ?b = "m_inputBuffer (handleRead (IO_data d) 0 tc)"
  note h = handleRead_data [OF assms(1,2), of 0]
  have "outcome (onRead env p conn ?b st) = Inr (ys, st')" using onRead_outcome [OF h(2), of env p conn st] assms(3) by (simp add: h(1))
  then obtain b where "onRead env p conn ?b st = Inr (b, st')" "content b = ys"
    by (cases "onRead env p conn ?b st") (auto simp: outcome_def)
  moreover from this(1) have "buf_inv b" using onRead_buf_inv [OF h(2)] by blast
  ultimately show ?thesis using assms(2) by (simp add: session_read_def Let_def)
qed

lemma session_reads_serve:
  assumes "buf_inv (m_inputBuffer tc)" and "[] \<notin> set ds"
    and "serve env p conn (content (m_inputBuffer tc) @ concat ds) st = Inr (ys, False, st')" and "ds \<noteq> []"
  shows "\<exists>tc'. session_reads env p conn ds (tc, st) = Inr (tc', st') \<and> content (m_inputBuffer tc') = ys \<and> buf_inv (m_inputBuffer tc')"
  using assms
proof (induction ds arbitrary: tc st)
  case (Cons d ds)
  have s: "serve env p conn ((content (m_inputBuffer tc) @ d) @ concat ds) st = Inr (ys, False, st')" using Cons.prems(3) by simp
  obtain ys1 st1 where 1: "serve env p conn (content (m_inputBuffer tc) @ d) st = Inr (ys1, False, st1)"
    using serve_prefix [OF s] by blast
  have rest: "serve env p conn (ys1 @ concat ds) st1 = Inr (ys, False, st')" using s serve_append [OF 1, of "concat ds"] by simp
  obtain tc1 where tc1: "session_read env p conn d (tc, st) = Inr (tc1, st1)" "content (m_inputBuffer tc1) = ys1" "buf_inv (m_inputBuffer tc1)"
    using session_read_serve [OF Cons.prems(1) _ 1] Cons.prems(2) by auto
  show ?case
  proof (cases "ds = []")
    case True
    then show ?thesis using tc1 rest serve_append [OF 1, of "[]"] 1 by simp
  next
    case False
    then show ?thesis using Cons.IH [OF tc1(3) _ _ False] Cons.prems(2) rest tc1 by simp
  qed
qed simp


section \<open>Properties\<close>

text \<open>
  C3: Requests reach the handlers, from socket to socket.  A peer sends messages in frames over its connection,
  with whatever partial writes, writable events and queued functors until its output is flushed; the network
  delivers the bytes on its wire in arbitrary non-empty pieces, each read by \<^verbatim>\<open>readv\<close> into the input buffer
  and the stack buffer of a connection of the server.  Then the handlers of the session run on exactly these
  messages, each once and in order, with the effect of handing them over one by one; nothing stays buffered.
\<close>

theorem requests_reach_handlers:
  assumes "conn_run es (TcpConnection fd) = (frames bodies, peer)" and "content (m_outputBuffer peer) = []"
    and "concat ds = wire peer" and "[] \<notin> set ds" and "\<forall>x\<in>set bodies. int (length x) \<le> MAX_PACKAGE_SIZE"
    and "deliver env p conn bodies st = Inr ([], False, st')"
  shows "\<exists>tc'. session_reads env p conn ds (TcpConnection sockfd, st) = Inr (tc', st') \<and> content (m_inputBuffer tc') = []"
proof -
  have "wire peer = frames bodies"
    using conn_run_post [OF TcpConnection_inv, of es fd] assms(1,2)
    by (simp add: outstream_def TcpConnection_def content_def ByteBuffer_def)
  then have ds: "concat ds = frames bodies" using assms(3) by simp
  show ?thesis
  proof (cases "ds = []")
    case True
    then have "bodies = []" using ds by (cases bodies) (simp_all add: frame_def le_bytes_def)
    then show ?thesis using True assms(6) by (simp add: TcpConnection_def content_ByteBuffer)
  next
    case False
    have "serve env p conn (frames bodies) st = Inr ([], False, st')" using serve_frames [OF assms(5), of env p conn st] assms(6) by simp
    then show ?thesis
      using session_reads_serve [of "TcpConnection sockfd" ds env p conn st "[]" st'] assms(4) ds False
      by (auto simp: TcpConnection_def content_ByteBuffer buf_inv_ByteBuffer)
  qed
qed


text \<open>
  One request, of which the kernel takes three bytes at once and the rest with the next writable event, and
  which arrives in two pieces.
\<close>

definition demo_request :: bytes where
  "demo_request = packet (\<lambda>_. 0) 5 9 [65]"

definition demo_sends :: "conn_event list" where
  "demo_sends = [Established True, Send True (frame demo_request) (Wrote 3), Channel_event XPOLLOUT IO_error 0 (Wrote 1000)]"

lemma snd_conn_run: "snd (conn_run es tc) = fold conn_step es tc"
  by (induction es arbitrary: tc) (simp_all add: case_prod_beta Let_def)

lemma demo_length: "4 \<le> length (frame demo_request)" "length (frame demo_request) \<le> 24"
  using length_packet [of "[65]" "\<lambda>_. 0" 5 9] by (simp_all add: frame_def demo_request_def)

lemma demo_sent:
  defines "tc \<equiv> fold conn_step [Established True, Send True (frame demo_request) (Wrote 3)] (TcpConnection 4)"
  shows "m_state tc = kConnected" and "content (m_outputBuffer tc) = drop 3 (frame demo_request)"
    and "fst (conn_run demo_sends (TcpConnection 4)) = frames [demo_request]"
  using TcpConnection_fresh [of 4] demo_length unfolding tc_def demo_sends_def
  by (simp_all add: connectEstablished_def send_def sendInLoop_def write_directly_def conn_defs append_post accepted_def
      isWriting_bit mask_bits Let_def, simp_all add: xpoll_defs)


theorem requests_reach_handlers_witness:
  "\<exists>tc' st'. session_reads demo_env 0 7 [take 2 (frame demo_request), drop 2 (frame demo_request)] (TcpConnection 6, demo_server)
     = Inr (tc', st') \<and> content (m_inputBuffer tc') = [] \<and>
     ConnSend 7 (frame (packet (\<lambda>_. 170) 5 9 not_login_text)) \<in> set (outbox st')"
proof -
  let ?tc = "fold conn_step [Established True, Send True (frame demo_request) (Wrote 3)] (TcpConnection 4)"
  define peer where "peer = snd (conn_run demo_sends (TcpConnection 4))"
  have peer': "peer = handleWrite (Wrote 1000) ?tc"
    unfolding peer_def snd_conn_run demo_sends_def by (simp add: channel_event_def handleEvent_def xpoll_defs)
  have "conn_inv ?tc" by (rule reachable_inv)
  from handleWrite_progress(3) [OF this, of 1000] have flushed: "content (m_outputBuffer peer) = []"
    using demo_sent(1,2) demo_length(2) unfolding peer' by simp
  have run: "conn_run demo_sends (TcpConnection 4) = (frames [demo_request], peer)" using demo_sent(3) by (simp add: peer_def prod_eq_iff)
  have wire: "concat [take 2 (frame demo_request), drop 2 (frame demo_request)] = wire peer"
    using conn_run_post [OF TcpConnection_inv, of demo_sends 4] run flushed TcpConnection_fresh(4,9) [of 4] by (simp add: outstream_def)
  have pieces: "[] \<notin> set [take 2 (frame demo_request), drop 2 (frame demo_request)]"
    using demo_length(1) by auto
  have small: "\<forall>x\<in>set [demo_request]. int (length x) \<le> MAX_PACKAGE_SIZE"
    using demo_length(2) by (simp add: frame_def MAX_PACKAGE_SIZE_def)
  let ?st = "touch demo_env 0 (upd_session 0 bump_seq
      (emit (ConnSend 7 (frame (packet (\<lambda>_. 170) 5 9 not_login_text))) (upd_session 0 (set_seq 9) demo_server)))"
  have "deliver demo_env 0 7 [demo_request] demo_server = Inr ([], False, ?st)"
    by (simp add: demo_request_def process_packet demo_dispatch)
  from requests_reach_handlers [OF run flushed wire pieces small this, of 6]
  show ?thesis by (auto simp: touch_def upd_session_def emit_def)
qed

end
