(* ===== verification/Json_Utf8.thy ===== *)
theory Json_Utf8
  imports Prelude
begin

text \<open>
  UTF-8 in \<^verbatim>\<open>json/json.hpp\<close>.  The serializer checks strings with a table-driven automaton (\<^verbatim>\<open>decode\<close>),
  the lexer with the byte ranges of the Unicode standard, and writes code points as bytes itself.  The
  lemmas show that the three agree: the automaton accepts exactly the texts that are sequences of encoded
  scalar values, and yields those values.
\<close>

section \<open>Definitions\<close>

definition UTF8_ACCEPT :: byte where
  "UTF8_ACCEPT = 0"

definition UTF8_REJECT :: byte where
  "UTF8_REJECT = 1"

text \<open>The first 256 entries of the table: the class of a byte.\<close>

definition utf8_classes :: "byte list" where
  "utf8_classes =
     replicate 128 0 @
     replicate 16 1 @ replicate 16 9 @
     replicate 32 7 @
     replicate 2 8 @ replicate 30 2 @
     [0xA] @ replicate 12 3 @ [4] @ replicate 2 3 @
     [0xB] @ replicate 3 6 @ [5] @ replicate 11 8"

text \<open>The other 144: for each of nine states the next state by class.\<close>

definition utf8_states :: "byte list" where
  "utf8_states =
     [0x0, 0x1, 0x2, 0x3, 0x5, 0x8, 0x7, 0x1, 0x1, 0x1, 0x4, 0x6, 0x1, 0x1, 0x1, 0x1,
      1, 1, 1, 1, 1, 1, 1, 1, 1, 1, 1, 1, 1, 1, 1, 1, 1, 0, 1, 1, 1, 1, 1, 0, 1, 0, 1, 1, 1, 1, 1, 1,
      1, 2, 1, 1, 1, 1, 1, 2, 1, 2, 1, 1, 1, 1, 1, 1, 1, 1, 1, 1, 1, 1, 1, 2, 1, 1, 1, 1, 1, 1, 1, 1,
      1, 2, 1, 1, 1, 1, 1, 1, 1, 2, 1, 1, 1, 1, 1, 1, 1, 1, 1, 1, 1, 1, 1, 3, 1, 3, 1, 1, 1, 1, 1, 1,
      1, 3, 1, 1, 1, 1, 1, 3, 1, 3, 1, 1, 1, 1, 1, 1, 1, 3, 1, 1, 1, 1, 1, 1, 1, 1, 1, 1, 1, 1, 1, 1]"

definition utf8d :: "byte list" where
  "utf8d = utf8_classes @ utf8_states"

text \<open>\<^verbatim>\<open>decode(state, codep, byte)\<close>: the new state and code point.\<close>

definition decode :: "byte \<times> int32 \<Rightarrow> byte \<Rightarrow> byte \<times> int32" where
  "decode st b =
     (let (state, codep) = st;
          type = utf8d ! unat b;
          codep' = (if state \<noteq> UTF8_ACCEPT then (ucast b AND 0x3F) OR push_bit 6 codep
                    else drop_bit (unat type) 0xFF AND ucast b);
          index = 256 + unat state * 16 + unat type
      in (utf8d ! index, codep'))"

text \<open>The bytes the lexer writes for a code point.\<close>

definition codepoint_bytes :: "int32 \<Rightarrow> bytes" where
  "codepoint_bytes codepoint =
     (if codepoint < 0x80 then [ucast codepoint]
      else if codepoint \<le> 0x7FF then
        [ucast (0xC0 OR drop_bit 6 codepoint), ucast (0x80 OR (codepoint AND 0x3F))]
      else if codepoint \<le> 0xFFFF then
        [ucast (0xE0 OR drop_bit 12 codepoint), ucast (0x80 OR (drop_bit 6 codepoint AND 0x3F)),
         ucast (0x80 OR (codepoint AND 0x3F))]
      else
        [ucast (0xF0 OR drop_bit 18 codepoint), ucast (0x80 OR (drop_bit 12 codepoint AND 0x3F)),
         ucast (0x80 OR (drop_bit 6 codepoint AND 0x3F)), ucast (0x80 OR (codepoint AND 0x3F))])"

section \<open>What is to be shown\<close>

text \<open>The Unicode scalar values, a text of them, and the texts that are well formed.\<close>

definition scalar_value :: "int32 \<Rightarrow> bool" where
  "scalar_value c \<longleftrightarrow> c < 0xD800 \<or> 0xE000 \<le> c \<and> c < 0x110000"

definition utf8_text :: "int32 list \<Rightarrow> bytes" where
  "utf8_text cps = concat (map codepoint_bytes cps)"

definition valid_utf8 :: "bytes \<Rightarrow> bool" where
  "valid_utf8 s \<longleftrightarrow> fst (foldl decode (UTF8_ACCEPT, 0) s) = UTF8_ACCEPT"

text \<open>Table 3-7 of the Unicode standard, the ranges the lexer checks.\<close>

definition cont_byte :: "byte \<Rightarrow> bool" where
  "cont_byte b \<longleftrightarrow> 0x80 \<le> b \<and> b \<le> 0xBF"

fun utf8_seq :: "bytes \<Rightarrow> bool" where
  "utf8_seq [a] = (a < 0x80)"
| "utf8_seq [a, b] = (0xC2 \<le> a \<and> a \<le> 0xDF \<and> cont_byte b)"
| "utf8_seq [a, b, c] =
     (((a = 0xE0 \<and> 0xA0 \<le> b \<and> b \<le> 0xBF) \<or> (0xE1 \<le> a \<and> a \<le> 0xEF \<and> a \<noteq> 0xED \<and> cont_byte b) \<or>
       (a = 0xED \<and> 0x80 \<le> b \<and> b \<le> 0x9F)) \<and> cont_byte c)"
| "utf8_seq [a, b, c, d] =
     (((a = 0xF0 \<and> 0x90 \<le> b \<and> b \<le> 0xBF) \<or> (0xF1 \<le> a \<and> a \<le> 0xF3 \<and> cont_byte b) \<or>
       (a = 0xF4 \<and> 0x80 \<le> b \<and> b \<le> 0x8F)) \<and> cont_byte c \<and> cont_byte d)"
| "utf8_seq _ = False"

section \<open>Lemmas: code points as numbers\<close>

lemma take_bit_small: "unat v < 2 ^ n \<Longrightarrow> take_bit n v = (v :: 'a::len word)"
  by (rule unsigned_word_eqI [where 'a = nat]) (simp add: unat_take_bit)

lemma or_is_plus:
  assumes "unat v < 2 ^ n"
  shows "(push_bit n a :: 'a::len word) OR v = push_bit n a + v"
proof -
  have "push_bit n a AND take_bit n v = 0"
    by (rule bit_word_eqI) (simp add: bit_simps)
  then show ?thesis
    using take_bit_small [OF assms] by (simp add: disjunctive_add_eq_or)
qed

lemma unat_or:
  assumes "unat v < 2 ^ n" and "unat a * 2 ^ n + 2 ^ n \<le> 2 ^ LENGTH('a)"
  shows "unat ((push_bit n a :: 'a::len word) OR v) = unat a * 2 ^ n + unat v"
proof -
  have "unat a * 2 ^ n < 2 ^ LENGTH('a)"
    by (rule less_le_trans [OF _ assms(2)]) simp
  then have "unat (push_bit n a) = unat a * 2 ^ n"
    unfolding unsigned_push_bit_eq push_bit_eq_mult [of n "unat a"] by (simp add: take_bit_nat_eq_self)
  moreover have "unat (push_bit n a + v) = unat (push_bit n a) + unat v"
    by (rule unat_add_lem [THEN iffD1]) (use assms calculation in linarith)
  ultimately show ?thesis by (simp add: or_is_plus [OF assms(1)])
qed

lemma and_0x3F: "(v :: int32) AND 0x3F = take_bit 6 v"
  by (simp add: take_bit_eq_mask mask_eq_exp_minus_1)

lemma unat_lead:
  "unat v < 64 \<Longrightarrow> unat (0xC0 OR v :: int32) = 192 + unat v"
  "unat v < 32 \<Longrightarrow> unat (0xE0 OR v :: int32) = 224 + unat v"
  "unat v < 16 \<Longrightarrow> unat (0xF0 OR v :: int32) = 240 + unat v"
  "unat (0x80 OR (v AND 0x3F) :: int32) = 128 + unat v mod 64"
  using unat_or [of v 6 3] unat_or [of v 5 7] unat_or [of v 4 15] unat_or [of "take_bit 6 v" 7 1]
  by (simp_all add: and_0x3F unat_take_bit push_bit_eq_mult)

lemma unat_byte: "unat (v :: int32) < 256 \<Longrightarrow> unat (ucast v :: byte) = unat v"
  by (simp add: unsigned_ucast_eq take_bit_nat_eq_self)

text \<open>The encoding in plain arithmetic.\<close>

definition nat_utf8 :: "nat \<Rightarrow> nat list" where
  "nat_utf8 u =
     (if u < 0x80 then [u]
      else if u < 0x800 then [192 + u div 64, 128 + u mod 64]
      else if u < 0x10000 then [224 + u div 64 div 64, 128 + u div 64 mod 64, 128 + u mod 64]
      else [240 + u div 64 div 64 div 64, 128 + u div 64 div 64 mod 64, 128 + u div 64 mod 64, 128 + u mod 64])"

lemma div_64: "u div 4096 = u div 64 div (64 :: nat)" "u div 262144 = u div 64 div 64 div (64 :: nat)"
  by (simp_all flip: div_mult2_eq)

lemma base_64: "z < 64 \<Longrightarrow> (m * 64 + z) div 64 = (m :: nat)" "z < 64 \<Longrightarrow> (m * 64 + z) mod 64 = (z :: nat)"
  by simp_all

lemma codepoint_bytes_unat:
  assumes "unat cp < 0x110000"
  shows "map unat (codepoint_bytes cp) = nat_utf8 (unat cp)"
proof -
  have m: "u mod 64 < 64" for u :: nat by simp
  have "unat cp < 0x800 \<Longrightarrow> unat cp div 64 < 32" and "unat cp < 0x10000 \<Longrightarrow> unat cp div 64 div 64 < 16"
    and "unat cp div 64 div 64 div 64 < 5"
    using assms by auto
  then show ?thesis
    by (auto simp: codepoint_bytes_def nat_utf8_def word_less_nat_alt word_le_nat_alt unat_drop_bit unat_lead unat_byte div_64
        add_less_le_mono [OF _ less_imp_le, OF _ m, of 128 256])
qed

lemma scalar_value_unat:
  "scalar_value cp \<longleftrightarrow> unat cp < 0xD800 \<or> 0xE000 \<le> unat cp \<and> unat cp < 0x110000"
  by (simp add: scalar_value_def word_less_nat_alt word_le_nat_alt)

lemmas word_nat_simps = word_less_nat_alt word_le_nat_alt word_unat_eq_iff

lemma map_unat_eq: "map unat xs = map unat ys \<longleftrightarrow> xs = (ys :: 'a::len word list)"
  by (simp add: inj_map_eq_map inj_unsigned)

lemma unat_byte_bound: "unat (b :: byte) < 256"
  using unat_bound [of b] by simp

lemma mod_64: "u mod 64 \<le> (63 :: nat)"
  using mod_less_divisor [of 64 u] by linarith

lemma utf8_seq_codepoint:
  assumes "scalar_value cp"
  shows "utf8_seq (codepoint_bytes cp)"
proof -
  let ?u = "unat cp"
  have u: "?u < 0xD800 \<or> 0xE000 \<le> ?u \<and> ?u < 0x110000" using assms by (simp add: scalar_value_unat)
  then have eq: "map unat (codepoint_bytes cp) = nat_utf8 ?u" by (intro codepoint_bytes_unat) auto
  consider "?u < 0x80" | "0x80 \<le> ?u" "?u < 0x800" | "0x800 \<le> ?u" "?u < 0x10000" | "0x10000 \<le> ?u" by linarith
  then show ?thesis
  proof cases
    case 1
    then show ?thesis using eq by (auto simp: nat_utf8_def map_eq_Cons_conv word_nat_simps)
  next
    case 2
    then obtain a b where "codepoint_bytes cp = [a, b]" "unat a = 192 + ?u div 64" "unat b = 128 + ?u mod 64"
      using eq by (auto simp: nat_utf8_def map_eq_Cons_conv)
    then show ?thesis using 2 by (auto simp: word_nat_simps cont_byte_def)
  next
    case 3
    then have "map unat (codepoint_bytes cp) = [224 + ?u div 64 div 64, 128 + ?u div 64 mod 64, 128 + ?u mod 64]"
      using eq by (simp add: nat_utf8_def)
    then obtain a b c where bs: "codepoint_bytes cp = [a, b, c]" "unat a = 224 + ?u div 64 div 64"
      "unat b = 128 + ?u div 64 mod 64" "unat c = 128 + ?u mod 64"
      by (auto simp only: map_eq_Cons_conv list.map_disc_iff)
    define q where "q = ?u div 64"
    have q: "32 \<le> q" "q < 0x360 \<or> 0x380 \<le> q" "q < 0x400" using 3 u by (auto simp: q_def)
    have "q = 64 * (q div 64) + q mod 64" by simp
    note m = this mod_64 [of q] mod_64 [of ?u]
    have "q div 64 = 0 \<and> 32 \<le> q mod 64 \<or> 1 \<le> q div 64 \<and> q div 64 \<noteq> 13 \<or> q div 64 = 13 \<and> q mod 64 < 32" "q div 64 < 16"
      using q m by linarith+
    then show ?thesis
      using bs(2,3,4) m(2,3) unfolding bs(1) q_def [symmetric] utf8_seq.simps cont_byte_def
      by (elim disjE conjE) (simp_all add: word_nat_simps)
  next
    case 4
    then have "map unat (codepoint_bytes cp) =
        [240 + ?u div 64 div 64 div 64, 128 + ?u div 64 div 64 mod 64, 128 + ?u div 64 mod 64, 128 + ?u mod 64]"
      using eq by (simp add: nat_utf8_def)
    then obtain a b c d where bs: "codepoint_bytes cp = [a, b, c, d]" "unat a = 240 + ?u div 64 div 64 div 64"
      "unat b = 128 + ?u div 64 div 64 mod 64" "unat c = 128 + ?u div 64 mod 64" "unat d = 128 + ?u mod 64"
      by (auto simp only: map_eq_Cons_conv list.map_disc_iff)
    define q where "q = ?u div 64 div 64"
    have q: "16 \<le> q" "q < 0x110" using 4 u by (auto simp: q_def)
    have "q = 64 * (q div 64) + q mod 64" by simp
    note m = this mod_64 [of q] mod_64 [of ?u] mod_64 [of "?u div 64"]
    have "q div 64 = 0 \<and> 16 \<le> q mod 64 \<or> 1 \<le> q div 64 \<and> q div 64 \<le> 3 \<or> q div 64 = 4 \<and> q mod 64 < 16"
      using q m by linarith
    then show ?thesis
      using bs(2-5) m(2-4) unfolding bs(1) q_def [symmetric] utf8_seq.simps cont_byte_def
      by (elim disjE conjE) (simp_all add: word_nat_simps)
  qed
qed

lemma codepoint_of_nat:
  assumes "u < 0xD800 \<or> 0xE000 \<le> u \<and> u < 0x110000" and "map unat bs = nat_utf8 u"
  shows "\<exists>cp. unat cp = u \<and> scalar_value cp \<and> codepoint_bytes cp = bs"
proof (intro exI conjI)
  have u: "unat (word_of_nat u :: int32) = u"
    using assms(1) by (intro unat_word_of_nat_small) auto
  then show "unat (word_of_nat u :: int32) = u" "scalar_value (word_of_nat u)"
    using assms(1) by (simp_all add: scalar_value_unat)
  have "map unat (codepoint_bytes (word_of_nat u)) = map unat bs"
    using codepoint_bytes_unat [of "word_of_nat u"] assms u by auto
  then show "codepoint_bytes (word_of_nat u) = bs" by (simp only: map_unat_eq)
qed

text \<open>The number a sequence stands for: the payload bits of its bytes.\<close>

fun seq_value :: "bytes \<Rightarrow> nat" where
  "seq_value [a] = unat a"
| "seq_value [a, b] = (unat a - 192) * 64 + (unat b - 128)"
| "seq_value [a, b, c] = ((unat a - 224) * 64 + (unat b - 128)) * 64 + (unat c - 128)"
| "seq_value [a, b, c, d] =
     (((unat a - 240) * 64 + (unat b - 128)) * 64 + (unat c - 128)) * 64 + (unat d - 128)"
| "seq_value _ = 0"

lemma nat_utf8_digits:
  "0x80 \<le> x * 64 + y \<Longrightarrow> x < 32 \<Longrightarrow> y < 64 \<Longrightarrow> nat_utf8 (x * 64 + y) = [192 + x, 128 + y]"
  "0x800 \<le> (x * 64 + y) * 64 + z \<Longrightarrow> x < 16 \<Longrightarrow> y < 64 \<Longrightarrow> z < 64 \<Longrightarrow>
     nat_utf8 ((x * 64 + y) * 64 + z) = [224 + x, 128 + y, 128 + z]"
  "0x10000 \<le> ((x * 64 + y) * 64 + z) * 64 + w \<Longrightarrow> y < 64 \<Longrightarrow> z < 64 \<Longrightarrow> w < 64 \<Longrightarrow>
     nat_utf8 (((x * 64 + y) * 64 + z) * 64 + w) = [240 + x, 128 + y, 128 + z, 128 + w]"
  by (simp_all only: nat_utf8_def base_64) simp_all

lemma seq_is_codepoint:
  assumes "utf8_seq bs"
  shows "\<exists>cp. unat cp = seq_value bs \<and> scalar_value cp \<and> codepoint_bytes cp = bs"
proof (rule codepoint_of_nat)
  have "(seq_value bs < 0xD800 \<or> 0xE000 \<le> seq_value bs \<and> seq_value bs < 0x110000) \<and>
    map unat bs = nat_utf8 (seq_value bs)"
    using assms
  proof (cases bs rule: utf8_seq.cases)
    case (1 a)
    then show ?thesis using assms by (simp add: nat_utf8_def word_nat_simps)
  next
    case (2 a b)
    then have le: "192 \<le> unat a" "128 \<le> unat b" using assms by (simp_all add: word_nat_simps cont_byte_def)
    then obtain x y where xy: "unat a = 192 + x" "unat b = 128 + y" by (metis nat_le_iff_add)
    then show ?thesis using assms 2 nat_utf8_digits(1) [of x y] by (simp add: word_nat_simps cont_byte_def)
  next
    case (3 a b c)
    then have le: "224 \<le> unat a" "128 \<le> unat b" "128 \<le> unat c"
      using assms by (auto simp: word_nat_simps cont_byte_def)
    then obtain x y z where xyz: "unat a = 224 + x" "unat b = 128 + y" "unat c = 128 + z" by (metis nat_le_iff_add)
    then show ?thesis
      using assms 3 nat_utf8_digits(2) [of x y z] by (auto simp: word_nat_simps cont_byte_def)
  next
    case (4 a b c d)
    then have le: "240 \<le> unat a" "128 \<le> unat b" "128 \<le> unat c" "128 \<le> unat d"
      using assms by (auto simp: word_nat_simps cont_byte_def)
    then obtain x y z w where xyzw: "unat a = 240 + x" "unat b = 128 + y" "unat c = 128 + z" "unat d = 128 + w"
      by (metis nat_le_iff_add)
    then show ?thesis
      using assms 4 nat_utf8_digits(3) [of x y z w] by (auto simp: word_nat_simps cont_byte_def)
  qed auto
  then show "seq_value bs < 0xD800 \<or> 0xE000 \<le> seq_value bs \<and> seq_value bs < 0x110000"
    and "map unat bs = nat_utf8 (seq_value bs)" by blast+
qed

section \<open>Lemmas: the automaton\<close>

lemma table_row:
  "j \<le> n \<Longrightarrow> (replicate k x @ xs) ! (n - j) = (if n < j + k then x else xs ! (n - (j + k)))"
  "j \<le> n \<Longrightarrow> ([x] @ xs) ! (n - j) = (if n = j then x else xs ! (n - (j + 1)))"
  for x :: byte
  by (auto simp: nth_append nth_Cons')

lemma utf8_class:
  assumes "n < 256"
  shows "utf8d ! n =
    (if n < 0x80 then 0 else if n < 0x90 then 1 else if n < 0xA0 then 9 else if n < 0xC0 then 7
     else if n < 0xC2 then 8 else if n < 0xE0 then 2 else if n = 0xE0 then 0xA else if n = 0xED then 4
     else if n < 0xF0 then 3 else if n = 0xF0 then 0xB else if n < 0xF4 then 6 else if n = 0xF4 then 5 else 8)"
proof -
  have "utf8d ! (n - 0) = (if n < 0x80 then 0 else if n < 0x90 then 1 else if n < 0xA0 then 9 else if n < 0xC0 then 7
     else if n < 0xC2 then 8 else if n < 0xE0 then 2 else if n = 0xE0 then 0xA else if n = 0xED then 4
     else if n < 0xF0 then 3 else if n = 0xF0 then 0xB else if n < 0xF4 then 6 else if n = 0xF4 then 5 else 8)"
    using assms unfolding utf8d_def utf8_classes_def append_assoc
    apply -
    apply (subst table_row(1), linarith, simp only: arith_simps arith_special, rule if_cong [OF refl refl])+
    apply (simp add: table_row)
    done
  then show ?thesis by simp
qed

lemma utf8_state_entry: "utf8d ! (256 + k) = utf8_states ! k"
proof -
  have "length utf8_classes = 256" by (simp add: utf8_classes_def)
  then show ?thesis by (simp add: utf8d_def nth_append)
qed

definition next_codepoint :: "int32 \<Rightarrow> byte \<Rightarrow> int32" where
  "next_codepoint codep b = (ucast b AND 0x3F) OR push_bit 6 codep"

text \<open>One step in each of the nine states.\<close>

lemma decode_next:
  "s \<noteq> 0 \<Longrightarrow> decode (s, c) b = (utf8_states ! (unat s * 16 + unat (utf8d ! unat b)), next_codepoint c b)"
  "decode (0, c) b =
     (utf8_states ! unat (utf8d ! unat b), drop_bit (unat (utf8d ! unat b)) 0xFF AND ucast b)"
  by (simp_all add: decode_def next_codepoint_def UTF8_ACCEPT_def Let_def add.assoc utf8_state_entry
      utf8_state_entry [of "unat (utf8d ! unat b)"])

lemma decode_cont:
  "decode (1, c) b = (1, next_codepoint c b)"
  "decode (2, c) b = (if 0x80 \<le> unat b \<and> unat b < 0xC0 then 0 else 1, next_codepoint c b)"
  "decode (3, c) b = (if 0x80 \<le> unat b \<and> unat b < 0xC0 then 2 else 1, next_codepoint c b)"
  "decode (4, c) b = (if 0xA0 \<le> unat b \<and> unat b < 0xC0 then 2 else 1, next_codepoint c b)"
  "decode (5, c) b = (if 0x80 \<le> unat b \<and> unat b < 0xA0 then 2 else 1, next_codepoint c b)"
  "decode (6, c) b = (if 0x90 \<le> unat b \<and> unat b < 0xC0 then 3 else 1, next_codepoint c b)"
  "decode (7, c) b = (if 0x80 \<le> unat b \<and> unat b < 0xC0 then 3 else 1, next_codepoint c b)"
  "decode (8, c) b = (if 0x80 \<le> unat b \<and> unat b < 0x90 then 3 else 1, next_codepoint c b)"
  by (simp_all add: decode_next utf8_class [OF unat_byte_bound] utf8_states_def)

lemma decode_lead:
  "fst (decode (0, c) b) =
     (if unat b < 0x80 then 0 else if unat b < 0xC2 then 1 else if unat b < 0xE0 then 2
      else if unat b = 0xE0 then 4 else if unat b = 0xED then 5 else if unat b < 0xF0 then 3
      else if unat b = 0xF0 then 6 else if unat b < 0xF4 then 7 else if unat b = 0xF4 then 8 else 1)"
  by (simp add: decode_next utf8_class [OF unat_byte_bound] utf8_states_def)

lemma unat_and_byte: "unat ((2 ^ n - 1 :: int32) AND ucast b) = unat (b :: byte) mod 2 ^ n"
proof -
  have "(2 ^ n - 1 :: int32) AND ucast b = take_bit n (ucast b)"
    by (simp add: take_bit_eq_mask mask_eq_exp_minus_1 and.commute)
  moreover have "unat (ucast b :: int32) = unat b" by (rule unat_ucast_up) simp
  ultimately show ?thesis by (simp add: unat_take_bit)
qed

lemma mod_interval: "q * m \<le> n \<Longrightarrow> n < q * m + m \<Longrightarrow> n mod m = n - q * (m :: nat)"
proof -
  assume "q * m \<le> n" and "n < q * m + m"
  then obtain r where "n = q * m + r" "r < m" by (metis nat_add_left_cancel_less nat_le_iff_add)
  then show ?thesis by simp
qed

lemma lead_value:
  "unat b < 0x80 \<Longrightarrow> unat (snd (decode (0, c) b)) = unat b"
  "0xC2 \<le> unat b \<Longrightarrow> unat b < 0xE0 \<Longrightarrow> unat (snd (decode (0, c) b)) = unat b - 192"
  "0xE0 \<le> unat b \<Longrightarrow> unat b < 0xF0 \<Longrightarrow> unat (snd (decode (0, c) b)) = unat b - 224"
  "0xF0 \<le> unat b \<Longrightarrow> unat b < 0xF5 \<Longrightarrow> unat (snd (decode (0, c) b)) = unat b - 240"
proof -
  note cl = decode_next(2) utf8_class unat_byte_bound
  show "unat b < 0x80 \<Longrightarrow> unat (snd (decode (0, c) b)) = unat b"
    using unat_and_byte [of 8 b] by (simp add: cl)
  show "0xC2 \<le> unat b \<Longrightarrow> unat b < 0xE0 \<Longrightarrow> unat (snd (decode (0, c) b)) = unat b - 192"
    using unat_and_byte [of 6 b] mod_interval [of 3 64 "unat b"] by (simp add: cl)
  assume "0xE0 \<le> unat b" "unat b < 0xF0"
  then consider "unat b = 0xE0" | "unat b = 0xED" | "0xE1 \<le> unat b" "unat b < 0xF0" "unat b \<noteq> 0xED" by linarith
  then show "unat (snd (decode (0, c) b)) = unat b - 224"
    using unat_and_byte [of 4 b] unat_and_byte [of 5 b] mod_interval [of 7 32 "unat b"]
    by cases (simp_all add: cl)
next
  note cl = decode_next(2) utf8_class unat_byte_bound
  assume "0xF0 \<le> unat b" "unat b < 0xF5"
  then consider "unat b = 0xF0" | "unat b = 0xF4" | "0xF1 \<le> unat b" "unat b < 0xF4" by linarith
  then show "unat (snd (decode (0, c) b)) = unat b - 240"
    using unat_and_byte [of 3 b] unat_and_byte [of 2 b] mod_interval [of 60 4 "unat b"]
    by cases (simp_all add: cl)
qed

lemma next_value: "unat c < 2 ^ 26 \<Longrightarrow> unat (next_codepoint c b) = unat c * 64 + unat b mod 64"
  using unat_or [of "take_bit 6 (ucast b)" 6 c]
  by (simp add: next_codepoint_def and_0x3F or.commute unat_take_bit unat_ucast_up [where 'a = 8 and 'b = 32])

text \<open>The automaton accepts after the last byte of a sequence and not before.\<close>

fun decodes :: "byte \<times> int32 \<Rightarrow> bytes \<Rightarrow> int32 \<Rightarrow> bool" where
  "decodes st [] cp \<longleftrightarrow> False"
| "decodes st [b] cp \<longleftrightarrow> decode st b = (UTF8_ACCEPT, cp)"
| "decodes st (b # bs) cp \<longleftrightarrow> fst (decode st b) \<notin> {UTF8_ACCEPT, UTF8_REJECT} \<and> decodes (decode st b) bs cp"

lemma seq_value_codepoint:
  assumes "unat cp < 0x110000"
  shows "seq_value (codepoint_bytes cp) = unat cp"
proof -
  have m: "u div 64 * 64 + u mod 64 = u" for u :: nat by simp
  then show ?thesis
    using codepoint_bytes_unat [OF assms] by (auto simp: nat_utf8_def map_eq_Cons_conv m split: if_splits)
qed

lemma next_value_cont:
  "0x80 \<le> unat b \<Longrightarrow> unat b < 0xC0 \<Longrightarrow> unat c < 2 ^ 26 \<Longrightarrow>
     unat (next_codepoint c b) = unat c * 64 + (unat b - 128)"
  using mod_interval [of 2 64 "unat b"] by (simp add: next_value)

lemma cont_byte_unat: "cont_byte b \<longleftrightarrow> 0x80 \<le> unat b \<and> unat b < 0xC0"
  by (auto simp: cont_byte_def word_le_nat_alt)

text \<open>The rest of a sequence: one continuation byte, or one in a state that leads to the state for it.\<close>

lemma decodes_last:
  assumes "cont_byte b" and "unat c < 2 ^ 26"
  shows "decodes (2, c) [b] (next_codepoint c b) \<and> unat (next_codepoint c b) = unat c * 64 + (unat b - 128)"
  using assms by (simp add: cont_byte_unat decode_cont next_value_cont UTF8_ACCEPT_def)

lemma decodes_step:
  assumes "decode (s, c) b = (s', next_codepoint c b)" and "s' \<notin> {0, 1}" and "cont_byte b" and "unat c < 2 ^ 26"
    and "decodes (s', next_codepoint c b) (x # xs) cp"
  shows "decodes (s, c) (b # x # xs) cp \<and> unat (next_codepoint c b) = unat c * 64 + (unat b - 128)"
  using assms by (simp add: cont_byte_unat next_value_cont UTF8_ACCEPT_def UTF8_REJECT_def)

lemma decodes_two:
  assumes "decode (s, v) b = (2, next_codepoint v b)" and "cont_byte b" and "cont_byte d" and "unat v < 2 ^ 20"
  shows "\<exists>cp. decodes (s, v) [b, d] cp \<and> unat cp = (unat v * 64 + (unat b - 128)) * 64 + (unat d - 128)"
proof -
  have v: "unat v < 2 ^ 26" using assms(4) by simp
  have nv: "unat (next_codepoint v b) = unat v * 64 + (unat b - 128)" "unat b < 0xC0"
    using assms(2) v by (simp_all add: cont_byte_unat next_value_cont)
  then have "unat (next_codepoint v b) < 2 ^ 26" using assms(4) by simp
  from decodes_last [OF assms(3) this] decodes_step [OF assms(1) _ assms(2) v, of d "[]"] nv(1)
  show ?thesis by fastforce
qed

lemma decodes_three:
  assumes "decode (s, v) b = (3, next_codepoint v b)" and "cont_byte b" and "cont_byte d" and "cont_byte e"
    and "unat v < 2 ^ 14"
  shows "\<exists>cp. decodes (s, v) [b, d, e] cp \<and>
    unat cp = ((unat v * 64 + (unat b - 128)) * 64 + (unat d - 128)) * 64 + (unat e - 128)"
proof -
  have v: "unat v < 2 ^ 26" using assms(5) by simp
  have nv: "unat (next_codepoint v b) = unat v * 64 + (unat b - 128)" "unat b < 0xC0"
    using assms(2) v by (simp_all add: cont_byte_unat next_value_cont)
  then have v2: "unat (next_codepoint v b) < 2 ^ 20" using assms(5) by simp
  have "decode (3, next_codepoint v b) d = (2, next_codepoint (next_codepoint v b) d)"
    using assms(3) by (simp add: cont_byte_unat decode_cont)
  from decodes_two [OF this assms(3,4) v2] obtain cp where
    "decodes (3, next_codepoint v b) [d, e] cp"
    "unat cp = ((unat v * 64 + (unat b - 128)) * 64 + (unat d - 128)) * 64 + (unat e - 128)"
    unfolding nv(1) by blast
  then show ?thesis using decodes_step [OF assms(1) _ assms(2) v, of d "[e]" cp] by auto
qed

lemma decodes_seq:
  assumes "utf8_seq bs"
  shows "\<exists>cp. decodes (UTF8_ACCEPT, c) bs cp \<and> unat cp = seq_value bs"
proof -
  obtain a bs' where bs: "bs = a # bs'" using assms by (cases bs) auto
  obtain s v where d: "decode (0, c) a = (s, v)" by (cases "decode (0, c) a")
  note lead = decode_lead [of c a] lead_value [of a c]
  have start: "bs' \<noteq> [] \<Longrightarrow> s \<notin> {0, 1} \<Longrightarrow> decodes (UTF8_ACCEPT, c) bs cp \<longleftrightarrow> decodes (s, v) bs' cp" for cp
    using d bs by (cases bs') (auto simp: UTF8_ACCEPT_def UTF8_REJECT_def)
  consider "bs' = []" | b where "bs' = [b]" | b e where "bs' = [b, e]" | b e f where "bs' = [b, e, f]"
    using assms bs by (cases bs rule: utf8_seq.cases) auto
  then show ?thesis
  proof cases
    case 1
    then show ?thesis using assms bs d lead by (auto simp: word_less_nat_alt UTF8_ACCEPT_def)
  next
    case (2 b)
    then have "s = 2" "unat v = unat a - 192" "unat a < 0xE0" "cont_byte b"
      using assms bs d lead by (auto simp: word_less_nat_alt word_le_nat_alt)
    then show ?thesis using decodes_last [of b v] start bs 2 by auto
  next
    case (3 b e)
    then have r: "(unat a = 0xE0 \<and> 0xA0 \<le> unat b \<or> 0xE1 \<le> unat a \<and> unat a < 0xF0 \<and> unat a \<noteq> 0xED \<or>
        unat a = 0xED \<and> unat b < 0xA0)" "cont_byte b" "cont_byte e"
      using assms bs unfolding cont_byte_unat by (simp_all add: word_nat_simps cont_byte_unat) linarith+
    have "(s = 4 \<and> 0xA0 \<le> unat b \<or> s = 3 \<or> s = 5 \<and> unat b < 0xA0) \<and> unat v = unat a - 224 \<and> unat a < 0xF0"
      using r(1) d lead by (elim disjE conjE) simp_all
    then have "decode (s, v) b = (2, next_codepoint v b)" "s \<notin> {0, 1}" "unat v = unat a - 224" "unat a < 0xF0"
      using r(2) by (auto simp: cont_byte_unat decode_cont)
    then show ?thesis using decodes_two [of s v b e] start bs 3 r(2,3) by auto
  next
    case (4 b e f)
    then have r: "(unat a = 0xF0 \<and> 0x90 \<le> unat b \<or> 0xF1 \<le> unat a \<and> unat a < 0xF4 \<or>
        unat a = 0xF4 \<and> unat b < 0x90)" "cont_byte b" "cont_byte e" "cont_byte f"
      using assms bs unfolding cont_byte_unat by (simp_all add: word_nat_simps cont_byte_unat) linarith+
    have "(s = 6 \<and> 0x90 \<le> unat b \<or> s = 7 \<or> s = 8 \<and> unat b < 0x90) \<and> unat v = unat a - 240 \<and> unat a < 0xF5"
      using r(1) d lead by (elim disjE conjE) simp_all
    then have "decode (s, v) b = (3, next_codepoint v b)" "s \<notin> {0, 1}" "unat v = unat a - 240" "unat a < 0xF5"
      using r(2) by (auto simp: cont_byte_unat decode_cont)
    then show ?thesis using decodes_three [of s v b e f] start bs 4 r(2-4) by auto
  qed
qed

lemma decodes_codepoint:
  assumes "scalar_value cp"
  shows "decodes (UTF8_ACCEPT, c) (codepoint_bytes cp) cp"
proof -
  have "unat cp < 0x110000" using assms by (auto simp: scalar_value_unat)
  then have "seq_value (codepoint_bytes cp) = unat cp" by (rule seq_value_codepoint)
  then show ?thesis
    using decodes_seq [OF utf8_seq_codepoint [OF assms], of c] by (metis unsigned_word_eqI)
qed

lemma decodes_foldl: "decodes st bs cp \<Longrightarrow> foldl decode st bs = (UTF8_ACCEPT, cp)"
  by (induction st bs cp rule: decodes.induct) auto

text \<open>The state depends on the states only, and never leaves the reject state.\<close>

lemma state_only: "fst (foldl decode (s, c) xs) = fst (foldl decode (s, d) xs)"
proof (induction xs arbitrary: s c d)
  case (Cons x xs)
  have "fst (decode (s, c) x) = fst (decode (s, d) x)" by (simp add: decode_def Let_def)
  then show ?case using Cons by (metis foldl_Cons prod.collapse)
qed simp

definition runs_ok :: "byte \<Rightarrow> bytes \<Rightarrow> bool" where
  "runs_ok s xs \<longleftrightarrow> fst (foldl decode (s, 0) xs) = UTF8_ACCEPT"

lemma valid_utf8_runs: "valid_utf8 s = runs_ok 0 s"
  by (simp add: valid_utf8_def runs_ok_def UTF8_ACCEPT_def)

lemma runs_ok_Nil: "runs_ok s [] \<longleftrightarrow> s = 0"
  by (simp add: runs_ok_def UTF8_ACCEPT_def)

lemma runs_ok_Cons: "runs_ok s (x # xs) \<longleftrightarrow> runs_ok (fst (decode (s, 0) x)) xs"
  unfolding runs_ok_def by (metis foldl_Cons prod.collapse state_only)

lemma runs_ok_reject: "\<not> runs_ok 1 xs"
  by (induction xs) (simp_all add: runs_ok_Nil runs_ok_Cons decode_cont)

lemma runs_ok_step:
  assumes "\<And>b. decode (s, 0) b = (if P b then s' else 1, next_codepoint 0 b)" and "s \<noteq> 0"
  shows "runs_ok s xs \<longleftrightarrow> (\<exists>b ys. xs = b # ys \<and> P b \<and> runs_ok s' ys)"
  using assms by (cases xs) (auto simp: runs_ok_Nil runs_ok_Cons runs_ok_reject)

lemma state_nonzero: "(2 :: byte) \<noteq> 0" "(3 :: byte) \<noteq> 0" "(4 :: byte) \<noteq> 0" "(5 :: byte) \<noteq> 0" "(6 :: byte) \<noteq> 0"
  "(7 :: byte) \<noteq> 0" "(8 :: byte) \<noteq> 0"
  by simp_all

lemmas runs_ok_cont =
  runs_ok_step [OF decode_cont(2) state_nonzero(1)] runs_ok_step [OF decode_cont(3) state_nonzero(2)]
  runs_ok_step [OF decode_cont(4) state_nonzero(3)] runs_ok_step [OF decode_cont(5) state_nonzero(4)]
  runs_ok_step [OF decode_cont(6) state_nonzero(5)] runs_ok_step [OF decode_cont(7) state_nonzero(6)]
  runs_ok_step [OF decode_cont(8) state_nonzero(7)]

text \<open>A text the automaton accepts starts with an encoded scalar value, and so does the rest.\<close>

lemma accepted_head:
  assumes "runs_ok 0 (a # xs)"
  shows "\<exists>bs ys. a # xs = bs @ ys \<and> utf8_seq bs \<and> runs_ok 0 ys"
proof -
  let ?s = "fst (decode (0, 0) a)"
  have r: "runs_ok ?s xs" using assms by (simp add: runs_ok_Cons)
  have lead:
    "unat a < 0x80 \<Longrightarrow> ?s = 0" "0x80 \<le> unat a \<Longrightarrow> unat a < 0xC2 \<Longrightarrow> ?s = 1"
    "0xC2 \<le> unat a \<Longrightarrow> unat a < 0xE0 \<Longrightarrow> ?s = 2" "unat a = 0xE0 \<Longrightarrow> ?s = 4" "unat a = 0xED \<Longrightarrow> ?s = 5"
    "0xE1 \<le> unat a \<Longrightarrow> unat a < 0xF0 \<Longrightarrow> unat a \<noteq> 0xED \<Longrightarrow> ?s = 3" "unat a = 0xF0 \<Longrightarrow> ?s = 6"
    "0xF1 \<le> unat a \<Longrightarrow> unat a < 0xF4 \<Longrightarrow> ?s = 7" "unat a = 0xF4 \<Longrightarrow> ?s = 8" "0xF5 \<le> unat a \<Longrightarrow> ?s = 1"
    by (simp_all add: decode_lead)
  have three: "utf8_seq [a, b, d] \<Longrightarrow> xs = b # d # ys \<Longrightarrow> runs_ok 0 ys \<Longrightarrow> ?thesis" for b d ys
    by (rule exI [of _ "[a, b, d]"], rule exI [of _ ys]) simp
  have four: "utf8_seq [a, b, d, e] \<Longrightarrow> xs = b # d # e # ys \<Longrightarrow> runs_ok 0 ys \<Longrightarrow> ?thesis" for b d e ys
    by (rule exI [of _ "[a, b, d, e]"], rule exI [of _ ys]) simp
  consider "unat a < 0x80" | "0x80 \<le> unat a" "unat a < 0xC2" | "0xC2 \<le> unat a" "unat a < 0xE0"
    | "unat a = 0xE0" | "unat a = 0xED" | "0xE1 \<le> unat a" "unat a < 0xF0" "unat a \<noteq> 0xED"
    | "unat a = 0xF0" | "0xF1 \<le> unat a" "unat a < 0xF4" | "unat a = 0xF4" | "0xF5 \<le> unat a" by linarith
  then show ?thesis
  proof cases
    case 1
    then show ?thesis using r by (rule_tac exI [of _ "[a]"], rule_tac exI [of _ xs]) (simp add: lead word_less_nat_alt)
  next
    case 2
    then show ?thesis using r by (simp add: lead runs_ok_reject)
  next
    case 3
    then obtain b ys where "xs = b # ys" "cont_byte b" "runs_ok 0 ys" using r unfolding lead(3) [OF 3] cont_byte_unat runs_ok_cont by blast
    then show ?thesis using 3 by (rule_tac exI [of _ "[a, b]"], rule_tac exI [of _ ys]) (simp add: word_le_nat_alt)
  next
    case 4
    then show ?thesis
      using r unfolding lead(4) [OF 4] runs_ok_cont by (elim exE conjE) (rule three, simp_all add: word_nat_simps cont_byte_unat)
  next
    case 5
    then show ?thesis
      using r unfolding lead(5) [OF 5] runs_ok_cont by (elim exE conjE) (rule three, simp_all add: word_nat_simps cont_byte_unat)
  next
    case 6
    then show ?thesis
      using r unfolding lead(6) [OF 6] runs_ok_cont by (elim exE conjE) (rule three, simp_all add: word_nat_simps cont_byte_unat)
  next
    case 7
    then show ?thesis
      using r unfolding lead(7) [OF 7] runs_ok_cont by (elim exE conjE) (rule four, simp_all add: word_nat_simps cont_byte_unat)
  next
    case 8
    then show ?thesis
      using r unfolding lead(8) [OF 8] runs_ok_cont by (elim exE conjE) (rule four, simp_all add: word_nat_simps cont_byte_unat)
  next
    case 9
    then show ?thesis
      using r unfolding lead(9) [OF 9] runs_ok_cont by (elim exE conjE) (rule four, simp_all add: word_nat_simps cont_byte_unat)
  next
    case 10
    then show ?thesis using r by (simp add: lead runs_ok_reject)
  qed
qed

lemma valid_utf8_append: "runs_ok 0 (codepoint_bytes cp @ ys) \<longleftrightarrow> runs_ok 0 ys" if "scalar_value cp"
  using decodes_foldl [OF decodes_codepoint [OF that], of 0] state_only [of 0 cp ys 0]
  by (simp add: runs_ok_def UTF8_ACCEPT_def)

theorem valid_utf8_iff: "valid_utf8 s \<longleftrightarrow> (\<exists>cps. list_all scalar_value cps \<and> s = utf8_text cps)"
proof
  assume "valid_utf8 s"
  then have "runs_ok 0 s" by (simp add: valid_utf8_runs)
  then show "\<exists>cps. list_all scalar_value cps \<and> s = utf8_text cps"
  proof (induction s rule: length_induct)
    case (1 s)
    show ?case
    proof (cases s)
      case Nil
      then show ?thesis by (intro exI [of _ "[]"]) (simp add: utf8_text_def)
    next
      case (Cons a xs)
      then obtain bs ys where s: "s = bs @ ys" and bs: "utf8_seq bs" and ys: "runs_ok 0 ys"
        using accepted_head [of a xs] 1 by auto
      obtain cp where cp: "scalar_value cp" "codepoint_bytes cp = bs" using seq_is_codepoint [OF bs] by blast
      have "length ys < length s" using bs s by (cases bs) auto
      then obtain cps where "list_all scalar_value cps" "ys = utf8_text cps" using 1 ys by blast
      then show ?thesis using s cp by (intro exI [of _ "cp # cps"]) (simp add: utf8_text_def)
    qed
  qed
next
  assume "\<exists>cps. list_all scalar_value cps \<and> s = utf8_text cps"
  then obtain cps where "list_all scalar_value cps" "s = utf8_text cps" by blast
  then show "valid_utf8 s"
    unfolding valid_utf8_runs by (induction cps arbitrary: s) (auto simp: utf8_text_def valid_utf8_append runs_ok_Nil)
qed

text \<open>
  C35: the decoder with its table of 400 bytes, run from the start state over a string, ends in the accepting state
  exactly for the UTF-8 encodings of sequences of Unicode scalar values: no overlong forms, no surrogates, nothing
  above U+10FFFF, nothing cut off.
\<close>

theorem utf8_decoder:
  "fst (foldl decode (UTF8_ACCEPT, 0) s) = UTF8_ACCEPT \<longleftrightarrow> (\<exists>cps. list_all scalar_value cps \<and> s = concat (map codepoint_bytes cps))"
  using valid_utf8_iff [of s] by (simp add: valid_utf8_def utf8_text_def)

end
