(* ===== verification/Json_Serializer.thy ===== *)
theory Json_Serializer
  imports Json_Value Json_Utf8 Protocol_Stream
begin

text \<open>
  The class \<^verbatim>\<open>serializer\<close> of \<^verbatim>\<open>json/json.hpp\<close> and \<^verbatim>\<open>basic_json::dump\<close>: strings are checked and escaped through
  a buffer of 512 bytes, integers printed two digits at a time into a buffer of 64, arrays and objects
  recursively, with or without indentation.  The printing of floating-point numbers is the argument
  \<open>df\<close> here and modelled in \<^verbatim>\<open>Json_Float\<close>.  Output is the list of the characters written; an
  exception discards it.  The lemmas show that the buffers are never overrun, that a string is printed
  exactly when it is well-formed UTF-8, and what is printed.
\<close>

section \<open>Strings\<close>

datatype error_handler = Strict | Replace | Ignore

text \<open>
  \<^verbatim>\<open>type_error\<close> 316 in its two forms; a write past the end of \<open>string_buffer\<close>; a read past the
  end of \<open>indent_string\<close>.  The last two are not errors of the program but undefined behaviour.
\<close>

datatype dump_error = Invalid_byte nat byte | Incomplete_utf8 byte | Buffer_overflow | Indent_overread | Float_assert

definition string_buffer_size :: nat where
  "string_buffer_size = 512"

text \<open>
  The local variables of \<^verbatim>\<open>dump_escaped\<close>.  \<open>buf\<close> holds the first \<^verbatim>\<open>bytes\<close> bytes of \<^verbatim>\<open>string_buffer\<close>,
  \<open>out\<close> what has been written to the output.
\<close>

record escaper =
  utf8_state :: "byte \<times> int32"
  buf :: bytes
  bytes_after_last_accept :: nat
  undumped_chars :: nat
  out :: bytes

definition hex_digit :: "nat \<Rightarrow> byte" where
  "hex_digit d = (if d < 10 then 48 + word_of_nat d else 87 + word_of_nat d)"

text \<open>\<^verbatim>\<open>snprintf\<close> with \<^verbatim>\<open>"\\u%04x"\<close>.\<close>

definition u_escape :: "int16 \<Rightarrow> bytes" where
  "u_escape w =
     [92, 117, hex_digit (unat w div 4096), hex_digit (unat w div 256 mod 16), hex_digit (unat w div 16 mod 16),
      hex_digit (unat w mod 16)]"

text \<open>What an accepted code point adds to the buffer, and whether \<^verbatim>\<open>snprintf\<close> writes a null byte after it.\<close>

definition escape_char :: "bool \<Rightarrow> int32 \<Rightarrow> byte \<Rightarrow> bytes \<times> bool" where
  "escape_char ensure_ascii codepoint b =
     (if codepoint = 0x08 then ([92, 98], False)
      else if codepoint = 0x09 then ([92, 116], False)
      else if codepoint = 0x0A then ([92, 110], False)
      else if codepoint = 0x0C then ([92, 102], False)
      else if codepoint = 0x0D then ([92, 114], False)
      else if codepoint = 0x22 then ([92, 34], False)
      else if codepoint = 0x5C then ([92, 92], False)
      else if codepoint \<le> 0x1F \<or> ensure_ascii \<and> 0x7F \<le> codepoint then
        (if codepoint \<le> 0xFFFF then (u_escape (ucast codepoint), True)
         else (u_escape (ucast (0xD7C0 + drop_bit 10 codepoint)) @ u_escape (ucast (0xDC00 + (codepoint AND 0x3FF))), True))
      else ([b], False))"

definition put :: "bytes \<Rightarrow> bool \<Rightarrow> escaper \<Rightarrow> dump_error + escaper" where
  "put cs nul es =
     (if length (buf es) + length cs + (if nul then 1 else 0) \<le> string_buffer_size
      then Inr (es\<lparr>buf := buf es @ cs\<rparr>) else Inl Buffer_overflow)"

text \<open>Writes the buffer out when fewer than 13 bytes are left.\<close>

definition flush_full :: "escaper \<Rightarrow> escaper" where
  "flush_full es =
     (if string_buffer_size - length (buf es) < 13 then es\<lparr>out := out es @ buf es, buf := []\<rparr> else es)"

definition on_accept :: "bool \<Rightarrow> int32 \<Rightarrow> byte \<Rightarrow> escaper \<Rightarrow> dump_error + escaper" where
  "on_accept ensure_ascii codepoint b es =
     (let (cs, nul) = escape_char ensure_ascii codepoint b
      in case put cs nul es of
           Inl e \<Rightarrow> Inl e
         | Inr es1 \<Rightarrow>
             (let es2 = flush_full es1
              in Inr (es2\<lparr>bytes_after_last_accept := length (buf es2), undumped_chars := 0\<rparr>)))"

definition replacement :: "bool \<Rightarrow> bytes" where
  "replacement ensure_ascii = (if ensure_ascii then [92, 117, 102, 102, 102, 100] else [0xEF, 0xBF, 0xBD])"

text \<open>A rejected byte with the handlers \<^verbatim>\<open>ignore\<close> and \<^verbatim>\<open>replace\<close>.\<close>

definition on_reject :: "bool \<Rightarrow> error_handler \<Rightarrow> escaper \<Rightarrow> dump_error + escaper" where
  "on_reject ensure_ascii eh es =
     (let es1 = es\<lparr>buf := take (bytes_after_last_accept es) (buf es)\<rparr>;
          done = (\<lambda>e. e\<lparr>undumped_chars := 0, utf8_state := (UTF8_ACCEPT, snd (utf8_state e))\<rparr>)
      in if eh = Replace then
           (case put (replacement ensure_ascii) False es1 of
              Inl e \<Rightarrow> Inl e
            | Inr es2 \<Rightarrow> (let es3 = flush_full es2 in Inr (done (es3\<lparr>bytes_after_last_accept := length (buf es3)\<rparr>))))
         else Inr (done es1))"

definition on_incomplete :: "bool \<Rightarrow> byte \<Rightarrow> escaper \<Rightarrow> dump_error + escaper" where
  "on_incomplete ensure_ascii b es =
     (case (if ensure_ascii then Inr es else put [b] False es) of
        Inl e \<Rightarrow> Inl e
      | Inr es1 \<Rightarrow> Inr (es1\<lparr>undumped_chars := undumped_chars es1 + 1\<rparr>))"

text \<open>
  The loop over the bytes from index \<open>i\<close> on.  A rejected byte that followed an incomplete
  sequence is read again (\<^verbatim>\<open>--i\<close>).
\<close>

lemma on_reject_undumped: "on_reject ensure_ascii eh es = Inr es1 \<Longrightarrow> undumped_chars es1 = 0"
  by (auto simp: on_reject_def Let_def split: if_splits sum.splits)

function dump_loop :: "bool \<Rightarrow> error_handler \<Rightarrow> nat \<Rightarrow> bytes \<Rightarrow> escaper \<Rightarrow> dump_error + escaper" where
  "dump_loop ensure_ascii eh i [] es = Inr es"
| "dump_loop ensure_ascii eh i (b # s) es =
     (let st = decode (utf8_state es) b; es0 = es\<lparr>utf8_state := st\<rparr>
      in if fst st = UTF8_ACCEPT then
           (case on_accept ensure_ascii (snd st) b es0 of
              Inl e \<Rightarrow> Inl e
            | Inr es1 \<Rightarrow> dump_loop ensure_ascii eh (Suc i) s es1)
         else if fst st = UTF8_REJECT then
           (if eh = Strict then Inl (Invalid_byte i b)
            else (case on_reject ensure_ascii eh es0 of
                    Inl e \<Rightarrow> Inl e
                  | Inr es1 \<Rightarrow>
                      (if 0 < undumped_chars es then dump_loop ensure_ascii eh i (b # s) es1
                       else dump_loop ensure_ascii eh (Suc i) s es1)))
         else (case on_incomplete ensure_ascii b es0 of
                 Inl e \<Rightarrow> Inl e
               | Inr es1 \<Rightarrow> dump_loop ensure_ascii eh (Suc i) s es1))"
  by pat_completeness auto

termination
  by (relation "measure (\<lambda>(_, _, _, s, es). 2 * length s + (if 0 < undumped_chars es then 1 else 0))")
    (auto simp: on_reject_undumped)

definition dump_escaped :: "bool \<Rightarrow> error_handler \<Rightarrow> bytes \<Rightarrow> dump_error + bytes" where
  "dump_escaped ensure_ascii eh s =
     (case dump_loop ensure_ascii eh 0 s
             \<lparr>utf8_state = (UTF8_ACCEPT, 0), buf = [], bytes_after_last_accept = 0, undumped_chars = 0, out = []\<rparr> of
        Inl e \<Rightarrow> Inl e
      | Inr es \<Rightarrow>
          (if fst (utf8_state es) = UTF8_ACCEPT then Inr (out es @ buf es)
           else (case eh of
                   Strict \<Rightarrow> Inl (Incomplete_utf8 (last s))
                 | Ignore \<Rightarrow> Inr (out es @ take (bytes_after_last_accept es) (buf es))
                 | Replace \<Rightarrow> Inr (out es @ take (bytes_after_last_accept es) (buf es) @ replacement ensure_ascii))))"

section \<open>Integers\<close>

function count_digits :: "int64 \<Rightarrow> nat \<Rightarrow> nat" where
  "count_digits x n_digits =
     (if x < 10 then n_digits
      else if x < 100 then n_digits + 1
      else if x < 1000 then n_digits + 2
      else if x < 10000 then n_digits + 3
      else count_digits (x div 10000) (n_digits + 4))"
  by pat_completeness auto

termination
proof (relation "measure (\<lambda>(x, _). unat x)", simp, clarsimp)
  fix x :: int64
  assume "\<not> x < 10000"
  then show "unat (x div 10000) < unat x"
    by (simp add: unat_div_distrib word_less_nat_alt)
qed

declare count_digits.simps [simp del]

definition remove_sign :: "int64 \<Rightarrow> int64" where
  "remove_sign x = - (x + 1) + 1"

definition digits_to_99 :: "(byte \<times> byte) list" where
  "digits_to_99 = map (\<lambda>i. (48 + word_of_nat (i div 10), 48 + word_of_nat (i mod 10))) [0..<100]"

text \<open>The digits are written from the pointer backwards.\<close>

function fill_digits :: "int64 \<Rightarrow> nat \<Rightarrow> bytes \<Rightarrow> bytes" where
  "fill_digits abs_value ptr nb =
     (if 100 \<le> abs_value then
        (let digits_index = unat (abs_value mod 100)
         in fill_digits (abs_value div 100) (ptr - 2)
              (nb[ptr - 1 := snd (digits_to_99 ! digits_index), ptr - 2 := fst (digits_to_99 ! digits_index)]))
      else if 10 \<le> abs_value then
        nb[ptr - 1 := snd (digits_to_99 ! unat abs_value), ptr - 2 := fst (digits_to_99 ! unat abs_value)]
      else nb[ptr - 1 := 48 + ucast abs_value])"
  by pat_completeness auto

termination
proof (relation "measure (\<lambda>(x, _, _). unat x)", simp, clarsimp)
  fix x :: int64
  assume "100 \<le> x"
  then show "unat (x div 100) < unat x"
    by (simp add: unat_div_distrib word_le_nat_alt)
qed

declare fill_digits.simps [simp del]

text \<open>\<open>signed\<close>: the argument is a \<^verbatim>\<open>number_integer_t\<close>; \<open>nb\<close> is what the number buffer held before.\<close>

definition dump_integer :: "bool \<Rightarrow> bytes \<Rightarrow> int64 \<Rightarrow> bytes" where
  "dump_integer is_signed nb x =
     (if x = 0 then [48]
      else
        (let negative = (is_signed \<and> x <s 0);
             abs_value = (if negative then remove_sign x else x);
             nb1 = (if negative then nb[0 := 45] else nb);
             n_chars = (if negative then 1 + count_digits abs_value 1 else count_digits abs_value 1)
         in take n_chars (fill_digits abs_value n_chars nb1)))"

definition number_buffer :: bytes where
  "number_buffer = replicate 64 0"

section \<open>Values\<close>

record dump_config =
  ensure_ascii :: bool
  error_handler :: error_handler
  pretty_print :: bool
  indent_step :: int32

text \<open>Doubles the indentation string, once, when it is shorter than the new indentation.\<close>

definition grow_indent :: "int32 \<Rightarrow> bytes \<Rightarrow> bytes" where
  "grow_indent new_indent istr =
     (if length istr < unat new_indent then istr @ replicate (length istr) 32 else istr)"

definition write_indent :: "bool \<Rightarrow> int32 \<Rightarrow> bytes \<Rightarrow> dump_error + bytes" where
  "write_indent pretty n istr =
     (if \<not> pretty then Inr []
      else if unat n \<le> length istr then Inr (take (unat n) istr) else Inl Indent_overread)"

text \<open>
  \<open>cur\<close> is the current indentation, \<open>istr\<close> the indentation string, which is threaded
  through.  The members and the elements are each printed by a loop over all but the last and a
  statement for the last.
\<close>

fun dump :: "(int64 \<Rightarrow> bytes option) \<Rightarrow> dump_config \<Rightarrow> int32 \<Rightarrow> bytes \<Rightarrow> json \<Rightarrow> dump_error + bytes \<times> bytes"
  and dump_members :: "(int64 \<Rightarrow> bytes option) \<Rightarrow> dump_config \<Rightarrow> int32 \<Rightarrow> bytes \<Rightarrow> (bytes \<times> json) list \<Rightarrow> dump_error + bytes \<times> bytes"
  and dump_elements :: "(int64 \<Rightarrow> bytes option) \<Rightarrow> dump_config \<Rightarrow> int32 \<Rightarrow> bytes \<Rightarrow> json list \<Rightarrow> dump_error + bytes \<times> bytes"
where
  "dump df c cur istr (JObject ms) =
     (if ms = [] then Inr (lit ''{}'', istr)
      else
        (let pp = pretty_print c;
             new_indent = (if pp then cur + indent_step c else cur);
             istr1 = (if pp then grow_indent new_indent istr else istr)
         in case dump_members df c new_indent istr1 ms of
              Inl e \<Rightarrow> Inl e
            | Inr (text, istr2) \<Rightarrow>
                (case write_indent pp cur istr2 of
                   Inl e \<Rightarrow> Inl e
                 | Inr sp \<Rightarrow>
                     Inr ((if pp then [123, 10] else [123]) @ text @ (if pp then 10 # sp else []) @ [125], istr2))))"
| "dump df c cur istr (JArray js) =
     (if js = [] then Inr (lit ''[]'', istr)
      else
        (let pp = pretty_print c;
             new_indent = (if pp then cur + indent_step c else cur);
             istr1 = (if pp then grow_indent new_indent istr else istr)
         in case dump_elements df c new_indent istr1 js of
              Inl e \<Rightarrow> Inl e
            | Inr (text, istr2) \<Rightarrow>
                (case write_indent pp cur istr2 of
                   Inl e \<Rightarrow> Inl e
                 | Inr sp \<Rightarrow>
                     Inr ((if pp then [91, 10] else [91]) @ text @ (if pp then 10 # sp else []) @ [93], istr2))))"
| "dump df c cur istr (JString s) =
     (case dump_escaped (ensure_ascii c) (error_handler c) s of
        Inl e \<Rightarrow> Inl e
      | Inr es \<Rightarrow> Inr (34 # es @ [34], istr))"
| "dump df c cur istr (JBool v) = Inr (if v then lit ''true'' else lit ''false'', istr)"
| "dump df c cur istr (JInt x) = Inr (dump_integer True number_buffer x, istr)"
| "dump df c cur istr (JUnsigned x) = Inr (dump_integer False number_buffer x, istr)"
| "dump df c cur istr (JFloat x) = (case df x of None \<Rightarrow> Inl Float_assert | Some tx \<Rightarrow> Inr (tx, istr))"
| "dump df c cur istr JNull = Inr (lit ''null'', istr)"
| "dump_members df c ind istr [] = Inr ([], istr)"
| "dump_members df c ind istr ((key, v) # ms) =
     (case write_indent (pretty_print c) ind istr of
        Inl e \<Rightarrow> Inl e
      | Inr sp \<Rightarrow>
          (case dump_escaped (ensure_ascii c) (error_handler c) key of
             Inl e \<Rightarrow> Inl e
           | Inr ek \<Rightarrow>
               (case dump df c ind istr v of
                  Inl e \<Rightarrow> Inl e
                | Inr (text, istr1) \<Rightarrow>
                    (let member = sp @ 34 # ek @ (if pretty_print c then [34, 58, 32] else [34, 58]) @ text
                     in if ms = [] then Inr (member, istr1)
                        else (case dump_members df c ind istr1 ms of
                                Inl e \<Rightarrow> Inl e
                              | Inr (rest, istr2) \<Rightarrow>
                                  Inr (member @ (if pretty_print c then [44, 10] else [44]) @ rest, istr2))))))"
| "dump_elements df c ind istr [] = Inr ([], istr)"
| "dump_elements df c ind istr (j # js) =
     (case write_indent (pretty_print c) ind istr of
        Inl e \<Rightarrow> Inl e
      | Inr sp \<Rightarrow>
          (case dump df c ind istr j of
             Inl e \<Rightarrow> Inl e
           | Inr (text, istr1) \<Rightarrow>
               (if js = [] then Inr (sp @ text, istr1)
                else (case dump_elements df c ind istr1 js of
                        Inl e \<Rightarrow> Inl e
                      | Inr (rest, istr2) \<Rightarrow>
                          Inr (sp @ text @ (if pretty_print c then [44, 10] else [44]) @ rest, istr2)))))"

text \<open>\<^verbatim>\<open>basic_json::dump(indent, indent_char, ensure_ascii, error_handler)\<close>.\<close>

definition basic_json_dump ::
  "(int64 \<Rightarrow> bytes option) \<Rightarrow> int32 \<Rightarrow> byte \<Rightarrow> bool \<Rightarrow> error_handler \<Rightarrow> json \<Rightarrow> dump_error + bytes" where
  "basic_json_dump df indent indent_char ea eh j =
     (let c = \<lparr>ensure_ascii = ea, error_handler = eh, pretty_print = (0 \<le>s indent), indent_step = (if 0 \<le>s indent then indent else 0)\<rparr>
      in case dump df c 0 (replicate 512 indent_char) j of Inl e \<Rightarrow> Inl e | Inr (text, _) \<Rightarrow> Inr text)"

section \<open>Lemmas: strings\<close>

declare dump_loop.simps(2) [simp del]

text \<open>What a code point is printed as.\<close>

definition needs_escape :: "bool \<Rightarrow> int32 \<Rightarrow> bool" where
  "needs_escape ea cp \<longleftrightarrow> cp = 0x22 \<or> cp = 0x5C \<or> cp \<le> 0x1F \<or> ea \<and> 0x7F \<le> cp"

definition escaped :: "bool \<Rightarrow> int32 \<Rightarrow> bytes" where
  "escaped ea cp = (if needs_escape ea cp then fst (escape_char ea cp 0) else codepoint_bytes cp)"

text \<open>Room for one more code point in the buffer.\<close>

definition has_room :: "escaper \<Rightarrow> bool" where
  "has_room es \<longleftrightarrow> length (buf es) + 13 \<le> string_buffer_size"

lemma escape_char_needed:
  "needs_escape ea cp \<Longrightarrow> escape_char ea cp b = escape_char ea cp 0"
  "\<not> needs_escape ea cp \<Longrightarrow> escape_char ea cp b = ([b], False)"
  by (auto simp: escape_char_def needs_escape_def)

lemma escape_char_length:
  "length (fst (escape_char ea cp b)) + (if snd (escape_char ea cp b) then 1 else 0) \<le> 13"
  by (auto simp: escape_char_def u_escape_def)

lemma on_accept_eq:
  assumes "length (buf es) + length (fst (escape_char ea cp b)) + (if snd (escape_char ea cp b) then 1 else 0)
    \<le> string_buffer_size"
  shows "\<exists>es1. on_accept ea cp b es = Inr es1 \<and> out es1 @ buf es1 = out es @ buf es @ fst (escape_char ea cp b) \<and>
    utf8_state es1 = utf8_state es \<and> has_room es1 \<and> undumped_chars es1 = 0 \<and>
    bytes_after_last_accept es1 = length (buf es1)"
  using assms
  by (auto simp: on_accept_def put_def flush_full_def has_room_def string_buffer_size_def Let_def split: prod.splits)

lemma loop_decodes:
  assumes "decodes st bs cp" and "utf8_state es = st" and "length (buf es) + length bs \<le> string_buffer_size"
  shows "dump_loop ea eh i (bs @ s) es =
    (case on_accept ea cp (last bs)
        (es\<lparr>utf8_state := (UTF8_ACCEPT, cp), buf := buf es @ (if ea then [] else butlast bs),
           undumped_chars := undumped_chars es + (length bs - 1)\<rparr>) of
       Inl e \<Rightarrow> Inl e
     | Inr es1 \<Rightarrow> dump_loop ea eh (i + length bs) s es1)"
  using assms
proof (induction st bs cp arbitrary: es i rule: decodes.induct)
  case (2 st b cp)
  then show ?case by (simp add: dump_loop.simps(2) split: sum.split)
next
  case (3 st b b' bs cp)
  let ?st = "decode st b"
  let ?es = "es\<lparr>utf8_state := ?st, buf := buf es @ (if ea then [] else [b]), undumped_chars := undumped_chars es + 1\<rparr>"
  have step: "dump_loop ea eh i (b # (b' # bs) @ s) es = dump_loop ea eh (Suc i) ((b' # bs) @ s) ?es"
    using 3 by (cases ea) (simp_all add: dump_loop.simps(2) [of _ _ _ b] on_incomplete_def put_def Let_def)
  have "length (buf ?es) + length (b' # bs) \<le> string_buffer_size" using 3(4) by simp
  then show ?case using step 3(1) [of ?es "Suc i"] 3(2) by (simp add: Let_def split: sum.split)
qed simp

lemma loop_codepoint:
  assumes "scalar_value cp" and "fst (utf8_state es) = UTF8_ACCEPT" and "has_room es"
  shows "\<exists>es1. dump_loop ea eh i (codepoint_bytes cp @ s) es = dump_loop ea eh (i + length (codepoint_bytes cp)) s es1 \<and>
    out es1 @ buf es1 = out es @ buf es @ escaped ea cp \<and> fst (utf8_state es1) = UTF8_ACCEPT \<and> has_room es1"
proof -
  let ?bs = "codepoint_bytes cp"
  let ?es = "es\<lparr>utf8_state := (UTF8_ACCEPT, cp), buf := buf es @ (if ea then [] else butlast ?bs),
           undumped_chars := undumped_chars es + (length ?bs - 1)\<rparr>"
  have len: "length ?bs \<le> 4" "?bs \<noteq> []" by (simp_all add: codepoint_bytes_def)
  have d: "decodes (utf8_state es) ?bs cp"
    using decodes_codepoint [OF assms(1)] assms(2) by (metis prod.collapse)
  have single: "needs_escape ea cp \<or> ea \<Longrightarrow> \<not> ea \<Longrightarrow> length ?bs = 1" "\<not> needs_escape ea cp \<Longrightarrow> ea \<Longrightarrow> length ?bs = 1"
    by (auto simp: needs_escape_def codepoint_bytes_def word_nat_simps)
  have eq: "(if ea then [] else butlast ?bs) @ fst (escape_char ea cp (last ?bs)) = escaped ea cp"
    using len single escape_char_needed [of ea cp "last ?bs"]
    by (cases "needs_escape ea cp"; cases ea; cases "?bs") (auto simp: escaped_def length_Suc_conv)
  have room: "length (buf ?es) + length (fst (escape_char ea cp (last ?bs))) +
      (if snd (escape_char ea cp (last ?bs)) then 1 else 0) \<le> string_buffer_size"
    using assms(3) len single escape_char_length [of ea cp "last ?bs"] escape_char_needed(2) [of ea cp "last ?bs"]
    by (cases "needs_escape ea cp"; cases ea; cases "length ?bs = 1") (auto simp: has_room_def)
  obtain es1 where es1: "on_accept ea cp (last ?bs) ?es = Inr es1"
    "out es1 @ buf es1 = out ?es @ buf ?es @ fst (escape_char ea cp (last ?bs))"
    "utf8_state es1 = utf8_state ?es" "has_room es1"
    using on_accept_eq [OF room] by blast
  then have "out es1 @ buf es1 = out es @ buf es @ escaped ea cp" unfolding eq [symmetric] by simp
  moreover have "length (buf es) + length ?bs \<le> string_buffer_size"
    using assms(3) len by (simp add: has_room_def)
  ultimately show ?thesis
    using loop_decodes [OF d refl, of ea eh i s] es1 by (intro exI [of _ es1]) simp
qed

lemma loop_text:
  assumes "list_all scalar_value cps" and "fst (utf8_state es) = UTF8_ACCEPT" and "has_room es"
  shows "\<exists>es1. dump_loop ea eh i (utf8_text cps) es = Inr es1 \<and>
    out es1 @ buf es1 = out es @ buf es @ concat (map (escaped ea) cps) \<and> fst (utf8_state es1) = UTF8_ACCEPT"
  using assms
proof (induction cps arbitrary: es i)
  case (Cons cp cps)
  obtain es1 where es1: "dump_loop ea eh i (utf8_text (cp # cps)) es = dump_loop ea eh (i + length (codepoint_bytes cp)) (utf8_text cps) es1"
    "out es1 @ buf es1 = out es @ buf es @ escaped ea cp" "fst (utf8_state es1) = UTF8_ACCEPT" "has_room es1"
    using loop_codepoint [of cp es ea eh i "utf8_text cps"] Cons.prems by (auto simp: utf8_text_def)
  obtain es2 where "dump_loop ea eh (i + length (codepoint_bytes cp)) (utf8_text cps) es1 = Inr es2"
    "out es2 @ buf es2 = out es1 @ buf es1 @ concat (map (escaped ea) cps)" "fst (utf8_state es2) = UTF8_ACCEPT"
    using Cons.IH [OF _ es1(3,4)] Cons.prems(1) by auto
  then show ?case using es1 by (metis append_assoc concat.simps(2) list.map(2))
qed (simp add: utf8_text_def)

lemma dump_escaped_text:
  assumes "list_all scalar_value cps"
  shows "dump_escaped ea eh (utf8_text cps) = Inr (concat (map (escaped ea) cps))"
proof -
  let ?es = "\<lparr>utf8_state = (UTF8_ACCEPT, 0), buf = [], bytes_after_last_accept = 0, undumped_chars = 0, out = []\<rparr>"
  obtain es1 where "dump_loop ea eh 0 (utf8_text cps) ?es = Inr es1"
    "out es1 @ buf es1 = concat (map (escaped ea) cps)" "fst (utf8_state es1) = UTF8_ACCEPT"
    using loop_text [OF assms, of ?es ea eh 0] by (auto simp: has_room_def string_buffer_size_def)
  then show ?thesis by (simp add: dump_escaped_def)
qed

text \<open>With the strict handler the automaton runs over the whole string.\<close>

lemma on_accept_state: "on_accept ea cp b es = Inr es1 \<Longrightarrow> utf8_state es1 = utf8_state es"
  by (auto simp: on_accept_def put_def flush_full_def Let_def split: prod.splits if_splits)

lemma on_incomplete_state: "on_incomplete ea b es = Inr es1 \<Longrightarrow> utf8_state es1 = utf8_state es"
  by (auto simp: on_incomplete_def put_def split: if_splits)

lemma strict_loop_state:
  "dump_loop ea Strict i s es = Inr es1 \<Longrightarrow> utf8_state es1 = foldl decode (utf8_state es) s"
proof (induction s arbitrary: i es)
  case (Cons b s)
  then show ?case
    by (auto simp: dump_loop.simps(2) Let_def split: if_splits sum.splits
        dest!: on_accept_state on_incomplete_state)
qed simp

lemma dump_escaped_strict_valid: "dump_escaped ea Strict s = Inr t \<Longrightarrow> valid_utf8 s"
  by (auto simp: dump_escaped_def valid_utf8_def strict_loop_state split: sum.splits if_splits)

section \<open>Lemmas: the buffer\<close>

text \<open>How many bytes of a sequence may still come in a state of the automaton.\<close>

definition pending :: "byte \<Rightarrow> nat" where
  "pending s = (if s = 0 then 4 else if s = 2 then 1 else if s = 3 \<or> s = 4 \<or> s = 5 then 2 else 3)"

definition buffer_inv :: "bool \<Rightarrow> escaper \<Rightarrow> bool" where
  "buffer_inv ea es \<longleftrightarrow>
     bytes_after_last_accept es + 13 \<le> string_buffer_size \<and>
     length (buf es) \<le> bytes_after_last_accept es + (if ea then 0 else undumped_chars es) \<and>
     fst (utf8_state es) \<in> {0, 2, 3, 4, 5, 6, 7, 8} \<and>
     undumped_chars es + pending (fst (utf8_state es)) \<le> 4"

lemma decode_pending:
  assumes "fst st \<in> {0, 2, 3, 4, 5, 6, 7, 8}" and "fst (decode st b) \<notin> {0, 1}"
  shows "fst (decode st b) \<in> {2, 3, 4, 5, 6, 7, 8} \<and> pending (fst (decode st b)) + 1 \<le> pending (fst st)"
proof -
  obtain s c where st: "st = (s, c)" by (cases st)
  have "s \<in> {0, 2, 3, 4, 5, 6, 7, 8}" using assms(1) st by simp
  then show ?thesis
    using assms(2) unfolding st
    by (elim insertE emptyE) (simp_all add: decode_lead decode_cont pending_def split: if_splits)
qed

lemma escape_char_short: "length (fst (escape_char False cp b)) + (if snd (escape_char False cp b) then 1 else 0) \<le> 7"
  by (auto simp: escape_char_def u_escape_def word_le_nat_alt)

lemma pending_pos: "s \<in> {0, 2, 3, 4, 5, 6, 7, 8} \<Longrightarrow> 1 \<le> pending s"
  by (auto simp: pending_def)

lemma on_accept_inv:
  assumes "buffer_inv ea es"
  shows "\<exists>es1. on_accept ea cp b (es\<lparr>utf8_state := (UTF8_ACCEPT, cp)\<rparr>) = Inr es1 \<and> buffer_inv ea es1"
proof -
  let ?es = "es\<lparr>utf8_state := (UTF8_ACCEPT, cp)\<rparr>"
  have "undumped_chars es \<le> 3" using assms pending_pos [of "fst (utf8_state es)"] by (auto simp: buffer_inv_def)
  then have "length (buf ?es) + length (fst (escape_char ea cp b)) + (if snd (escape_char ea cp b) then 1 else 0)
    \<le> string_buffer_size"
    using assms escape_char_length [of ea cp b] escape_char_short [of cp b]
    by (cases ea) (auto simp: buffer_inv_def)
  from on_accept_eq [OF this] show ?thesis
    by (fastforce simp: buffer_inv_def has_room_def UTF8_ACCEPT_def pending_def)
qed

lemma on_incomplete_inv:
  assumes "buffer_inv ea es" and "fst st \<in> {2, 3, 4, 5, 6, 7, 8}" and "pending (fst st) + 1 \<le> pending (fst (utf8_state es))"
  shows "\<exists>es1. on_incomplete ea b (es\<lparr>utf8_state := st\<rparr>) = Inr es1 \<and> buffer_inv ea es1"
proof -
  have "undumped_chars es + 2 \<le> 4" using assms pending_pos [of "fst st"] by (auto simp: buffer_inv_def)
  then show ?thesis using assms by (cases ea) (auto simp: buffer_inv_def on_incomplete_def put_def)
qed

lemma on_reject_inv:
  assumes "buffer_inv ea es"
  shows "\<exists>es1. on_reject ea eh (es\<lparr>utf8_state := st\<rparr>) = Inr es1 \<and> buffer_inv ea es1"
  using assms
  by (auto simp: buffer_inv_def on_reject_def put_def flush_full_def replacement_def string_buffer_size_def
      UTF8_ACCEPT_def pending_def Let_def)

lemma dump_loop_inv:
  "buffer_inv ea es \<Longrightarrow>
   (case dump_loop ea eh i s es of Inl e \<Rightarrow> eh = Strict \<and> (\<exists>k b. e = Invalid_byte k b) | Inr es1 \<Rightarrow> buffer_inv ea es1)"
proof (induction ea eh i s es rule: dump_loop.induct)
  case (2 ea eh i b s es)
  let ?st = "decode (utf8_state es) b"
  have states: "fst (utf8_state es) \<in> {0, 2, 3, 4, 5, 6, 7, 8}" using "2.prems" by (simp add: buffer_inv_def)
  consider "fst ?st = UTF8_ACCEPT" | "fst ?st = UTF8_REJECT" "eh = Strict" | "fst ?st = UTF8_REJECT" "eh \<noteq> Strict"
    | "fst ?st \<noteq> UTF8_ACCEPT" "fst ?st \<noteq> UTF8_REJECT" by blast
  then show ?case
  proof cases
    case 1
    obtain es1 where es1: "on_accept ea (snd ?st) b (es\<lparr>utf8_state := ?st\<rparr>) = Inr es1" "buffer_inv ea es1"
      using on_accept_inv [OF "2.prems", of "snd ?st" b] 1 by (metis prod.collapse)
    then show ?thesis using 1 "2.IH"(1) [OF refl refl 1 es1(1)] by (simp add: dump_loop.simps(2) Let_def)
  next
    case 2
    then show ?thesis by (simp add: dump_loop.simps(2) Let_def UTF8_ACCEPT_def UTF8_REJECT_def)
  next
    case 3
    then have na: "fst ?st \<noteq> UTF8_ACCEPT" by (simp add: UTF8_ACCEPT_def UTF8_REJECT_def)
    obtain es1 where es1: "on_reject ea eh (es\<lparr>utf8_state := ?st\<rparr>) = Inr es1" "buffer_inv ea es1"
      using on_reject_inv [OF "2.prems"] by blast
    note IH = "2.IH"(2,3) [OF refl refl na 3 es1(1)]
    have "dump_loop ea eh i (b # s) es =
      (if 0 < undumped_chars es then dump_loop ea eh i (b # s) es1 else dump_loop ea eh (Suc i) s es1)"
      using 3 na es1(1) by (simp add: dump_loop.simps(2) [of _ _ _ _ _ es] Let_def)
    then show ?thesis using IH es1(2) by (cases "0 < undumped_chars es") simp_all
  next
    case 4
    then have "fst ?st \<notin> {0, 1}" by (simp add: UTF8_ACCEPT_def UTF8_REJECT_def)
    from decode_pending [OF states this]
    obtain es1 where es1: "on_incomplete ea b (es\<lparr>utf8_state := ?st\<rparr>) = Inr es1" "buffer_inv ea es1"
      using on_incomplete_inv [OF "2.prems", of ?st b] by blast
    then show ?thesis using 4 "2.IH"(4) [OF refl refl 4 es1(1)] by (simp add: dump_loop.simps(2) Let_def)
  qed
qed simp

lemma dump_escaped_errors:
  assumes "dump_escaped ea eh s = Inl e"
  shows "eh = Strict \<and> ((\<exists>k b. e = Invalid_byte k b) \<or> (\<exists>b. e = Incomplete_utf8 b))"
proof -
  let ?es = "\<lparr>utf8_state = (UTF8_ACCEPT, 0), buf = [], bytes_after_last_accept = 0, undumped_chars = 0, out = []\<rparr>"
  have "buffer_inv ea ?es" by (simp add: buffer_inv_def string_buffer_size_def UTF8_ACCEPT_def pending_def)
  from dump_loop_inv [OF this, of eh 0 s] assms show ?thesis
    by (auto simp: dump_escaped_def split: sum.splits if_splits error_handler.splits)
qed

text \<open>The strict handler accepts exactly the well-formed strings.\<close>

lemma dump_escaped_strict: "(\<exists>t. dump_escaped ea Strict s = Inr t) \<longleftrightarrow> valid_utf8 s"
  by (metis dump_escaped_strict_valid dump_escaped_text valid_utf8_iff)

text \<open>
  C36: printing a string stays in its buffer of 512 bytes.  Whatever the bytes of the string, the escaping and the error
  handler, no write goes past the end of the buffer; the handlers that replace or ignore always return, and the strict
  one throws exactly for a string that is not UTF-8.
\<close>

theorem dump_escaped_safe:
  "case dump_escaped ea eh s of
     Inl e \<Rightarrow> e \<noteq> Buffer_overflow \<and> eh = Strict \<and> \<not> valid_utf8 s
   | Inr t \<Rightarrow> if eh = Strict then valid_utf8 s else True"
proof (cases "dump_escaped ea eh s")
  case (Inl e)
  then show ?thesis using dump_escaped_errors [OF Inl] dump_escaped_strict [of ea s] by auto
next
  case (Inr t)
  then show ?thesis using dump_escaped_strict [of ea s] by auto
qed

section \<open>Lemmas: integers\<close>

lemma nat_digits_100:
  "100 \<le> n \<Longrightarrow> nat_digits n = nat_digits (n div 100) @ [48 + word_of_nat (n mod 100 div 10), 48 + word_of_nat (n mod 100 mod 10)]"
proof -
  assume n: "100 \<le> n"
  have "n div 10 div 10 = n div 100" "n div 10 mod 10 = n mod 100 div 10" "n mod 10 = n mod 100 mod 10"
    by (simp_all flip: div_mult2_eq add: mod_mult2_eq [of n 10 10, simplified] mod_mod_cancel)
  moreover have "\<not> n div 10 < 10" using n by (simp add: div_less_iff_less_mult)
  ultimately show ?thesis using n nat_digits.simps [of n] nat_digits.simps [of "n div 10"] by simp
qed

lemma nat_digits_two: "10 \<le> n \<Longrightarrow> n < 100 \<Longrightarrow> nat_digits n = [48 + word_of_nat (n div 10), 48 + word_of_nat (n mod 10)]"
  using nat_digits.simps [of n] nat_digits.simps [of "n div 10"] by (simp add: div_less_iff_less_mult)

lemma nat_digits_one: "n < 10 \<Longrightarrow> nat_digits n = [48 + word_of_nat n]"
  using nat_digits.simps [of n] by simp

lemma length_nat_digits_10000:
  assumes "10000 \<le> n"
  shows "length (nat_digits n) = 4 + length (nat_digits (n div 10000))"
proof -
  have "n div 100 div 100 = n div 10000" by (simp flip: div_mult2_eq)
  then show ?thesis using assms nat_digits_100 [of n] nat_digits_100 [of "n div 100"] by simp
qed

lemma count_digits_eq: "count_digits x n + 1 = n + length (nat_digits (unat x))"
proof (induction x n rule: count_digits.induct)
  case (1 x n)
  let ?u = "unat x"
  have small: "x < 10 \<longleftrightarrow> ?u < 10" "x < 100 \<longleftrightarrow> ?u < 100" "x < 1000 \<longleftrightarrow> ?u < 1000" "x < 10000 \<longleftrightarrow> ?u < 10000"
    by (simp_all add: word_less_nat_alt)
  consider "?u < 10" | "10 \<le> ?u" "?u < 100" | "100 \<le> ?u" "?u < 1000" | "1000 \<le> ?u" "?u < 10000" | "10000 \<le> ?u" by linarith
  then show ?case
  proof cases
    case 5
    then show ?thesis
      using 1 small length_nat_digits_10000 [OF 5] by (simp add: count_digits.simps [of x] unat_div_distrib)
  qed (simp_all add: count_digits.simps [of x] small nat_digits_one nat_digits_two nat_digits_100)
qed

lemma digits_to_99_nth:
  "i < 100 \<Longrightarrow> digits_to_99 ! i = (48 + word_of_nat (i div 10), 48 + word_of_nat (i mod 10))"
  by (simp add: digits_to_99_def)

lemma two_writes:
  assumes "2 \<le> ptr" and "ptr \<le> length nb"
  shows "nb[ptr - Suc 0 := d1, ptr - 2 := d0] = take (ptr - 2) nb @ d0 # d1 # drop ptr nb"
proof -
  obtain p where p: "ptr = p + 2" using assms(1) by (metis add.commute nat_le_iff_add)
  have "nb = take p nb @ nb ! p # nb ! (p + 1) # drop (p + 2) nb"
    using assms p by (simp add: Cons_nth_drop_Suc)
  then have "nb[Suc p := d1, p := d0] = (take p nb @ nb ! p # nb ! (p + 1) # drop (p + 2) nb)[Suc p := d1, p := d0]" by simp
  also have "\<dots> = take p nb @ d0 # d1 # drop (p + 2) nb"
    using assms p by (simp add: list_update_append)
  finally show ?thesis using p by simp
qed

lemma fill_digits_eq:
  assumes "length (nat_digits (unat x)) \<le> ptr" and "ptr \<le> length nb"
  shows "fill_digits x ptr nb = take (ptr - length (nat_digits (unat x))) nb @ nat_digits (unat x) @ drop ptr nb"
  using assms
proof (induction x ptr nb rule: fill_digits.induct)
  case (1 x ptr nb)
  let ?u = "unat x"
  consider "?u < 10" | "10 \<le> ?u" "?u < 100" | "100 \<le> ?u" by linarith
  then show ?case
  proof cases
    case 1
    then have "(48 + ucast x :: byte) = 48 + word_of_nat ?u" by simp
    moreover have "nb[ptr - 1 := v] = take (ptr - 1) nb @ v # drop ptr nb" for v
      using "1.prems" 1 by (simp add: upd_conv_take_nth_drop nat_digits_one)
    ultimately show ?thesis
      using 1 "1.prems" by (simp add: fill_digits.simps [of x] word_le_nat_alt nat_digits_one)
  next
    case 2
    then have "fill_digits x ptr nb = nb[ptr - 1 := 48 + word_of_nat (?u mod 10), ptr - 2 := 48 + word_of_nat (?u div 10)]"
      by (simp add: fill_digits.simps [of x] word_le_nat_alt digits_to_99_nth)
    then show ?thesis using 2 "1.prems" by (simp add: two_writes nat_digits_two flip: numeral_2_eq_2)
  next
    case 3
    then have ge: "100 \<le> x" by (simp add: word_le_nat_alt)
    let ?i = "unat (x mod 100)"
    let ?nb = "nb[ptr - 1 := snd (digits_to_99 ! ?i), ptr - 2 := fst (digits_to_99 ! ?i)]"
    have i: "?i = ?u mod 100" "unat (x div 100) = ?u div 100" by (simp_all add: unat_mod_distrib unat_div_distrib)
    then have i100: "?i < 100" by simp
    have len: "length (nat_digits ?u) = length (nat_digits (?u div 100)) + 2" using nat_digits_100 [OF 3] by simp
    have "fill_digits x ptr nb = fill_digits (x div 100) (ptr - 2) ?nb"
      using ge by (simp add: fill_digits.simps [of x] Let_def)
    also have "\<dots> = take (ptr - 2 - length (nat_digits (?u div 100))) ?nb @ nat_digits (?u div 100) @ drop (ptr - 2) ?nb"
      using "1.IH" [OF ge refl] "1.prems" len i by simp
    finally show ?thesis
      using "1.prems" len i100 nat_digits_100 [OF 3] by (simp add: two_writes digits_to_99_nth i)
  qed
qed

text \<open>\<^verbatim>\<open>dump_integer\<close> prints the decimal representation, whatever the number buffer held.\<close>

lemma unat_64: "unat (x :: int64) < 10 ^ 20"
  using unat_bound [of x] by simp

lemma remove_sign_unat: "x <s 0 \<Longrightarrow> int (unat (remove_sign x)) = - sint (x :: int64)"
proof -
  assume "x <s 0"
  then have "sint x < 0" by (simp add: word_sless_alt)
  moreover have "- (2 ^ 63) \<le> sint x" using sint_ge [of x] by simp
  ultimately have "uint (word_of_int (- sint x) :: int64) = - sint x"
    unfolding uint_word_of_int by (simp add: mod_pos_pos_trivial)
  moreover have "remove_sign x = word_of_int (- sint x)" by (simp add: remove_sign_def)
  ultimately show ?thesis by (metis uint_nat)
qed

lemma sint_nonneg: "0 \<le> sint x \<Longrightarrow> sint (x :: int64) = uint x"
proof -
  assume "0 \<le> sint x"
  moreover have "sint x < 2 ^ 63" using sint_lt [of x] by simp
  ultimately have "uint (word_of_int (sint x) :: int64) = sint x"
    unfolding uint_word_of_int by (simp add: mod_pos_pos_trivial)
  then show ?thesis by simp
qed

lemma dump_integer_eq:
  assumes "64 \<le> length nb"
  shows "dump_integer sg nb x = print_int (if sg then sint x else uint x)"
proof (cases "x = 0")
  case True
  then show ?thesis by (simp add: dump_integer_def print_int_def nat_digits_one)
next
  case False
  have len: "length (nat_digits (unat v)) \<le> 20" for v :: int64
    by (rule length_nat_digits) (simp_all add: unat_64 [simplified])
  have cnt: "count_digits v (Suc 0) = length (nat_digits (unat v))" for v :: int64
    using count_digits_eq [of v 1] by simp
  show ?thesis
  proof (cases "sg \<and> x <s 0")
    case True
    let ?v = "remove_sign x"
    have "fill_digits ?v (1 + length (nat_digits (unat ?v))) (nb[0 := 45]) =
        take 1 (nb[0 := 45]) @ nat_digits (unat ?v) @ drop (1 + length (nat_digits (unat ?v))) (nb[0 := 45])"
      using fill_digits_eq [of ?v "1 + length (nat_digits (unat ?v))" "nb[0 := 45]"] len [of ?v] assms by simp
    moreover have "take 1 (nb[0 := 45]) = [45]" using assms by (cases nb) auto
    moreover have "sint x < 0" using True by (simp add: word_sless_alt)
    moreover have "nat (- sint x) = unat ?v" using True remove_sign_unat [of x] by (metis nat_int)
    ultimately show ?thesis
      using True False by (simp add: dump_integer_def cnt print_int_def Let_def)
  next
    case F: False
    have "fill_digits x (length (nat_digits (unat x))) nb = nat_digits (unat x) @ drop (length (nat_digits (unat x))) nb"
      using fill_digits_eq [of x "length (nat_digits (unat x))" nb] len [of x] assms by simp
    moreover have "(if sg then sint x else uint x) = int (unat x)"
      using F sint_nonneg [of x] by (auto simp: word_sless_alt)
    moreover have "dump_integer sg nb x = take (length (nat_digits (unat x))) (fill_digits x (length (nat_digits (unat x))) nb)"
      unfolding dump_integer_def Let_def if_not_P [OF F] One_nat_def cnt using False by simp
    ultimately show ?thesis by (simp add: print_int_def)
  qed
qed

end
