(* ===== verification/Json_Float.thy ===== *)
theory Json_Float
  imports Json_Serializer "HOL-Library.Monad_Syntax" "HOL-Library.Signed_Division"
begin

text \<open>
  The printing of a \<^verbatim>\<open>double\<close> by \<^verbatim>\<open>json/json.hpp\<close>: \<^verbatim>\<open>dump_float\<close> and the namespace \<^verbatim>\<open>dtoa_impl\<close>, the algorithm Grisu2.  A
  \<^verbatim>\<open>double\<close> is its bit pattern.  \<open>None\<close> is a failed \<^verbatim>\<open>JSON_ASSERT\<close>, or a loop that does not end.  The part of a
  character buffer that has been written is a list.
\<close>

section \<open>Binary floating-point numbers with 64 bits\<close>

record diyfp =
  fp_f :: int64
  fp_e :: int

definition diyfp_sub :: "diyfp \<Rightarrow> diyfp \<Rightarrow> diyfp option" where
  "diyfp_sub x y =
     (if fp_e x = fp_e y \<and> fp_f y \<le> fp_f x then Some \<lparr>fp_f = fp_f x - fp_f y, fp_e = fp_e x\<rparr> else None)"

definition diyfp_mul :: "diyfp \<Rightarrow> diyfp \<Rightarrow> diyfp" where
  "diyfp_mul x y =
     (let u_lo = fp_f x AND 0xFFFFFFFF; u_hi = drop_bit 32 (fp_f x);
          v_lo = fp_f y AND 0xFFFFFFFF; v_hi = drop_bit 32 (fp_f y);
          p0 = u_lo * v_lo; p1 = u_lo * v_hi; p2 = u_hi * v_lo; p3 = u_hi * v_hi;
          p0_hi = drop_bit 32 p0;
          p1_lo = p1 AND 0xFFFFFFFF; p1_hi = drop_bit 32 p1;
          p2_lo = p2 AND 0xFFFFFFFF; p2_hi = drop_bit 32 p2;
          Q = p0_hi + p1_lo + p2_lo;
          Q' = Q + push_bit 31 1;
          h = p3 + p2_hi + p1_hi + drop_bit 32 Q'
      in \<lparr>fp_f = h, fp_e = fp_e x + fp_e y + 64\<rparr>)"

lemma normalize_step:
  assumes "drop_bit 63 (f :: int64) = 0"
  shows "unat f < 2 ^ 63" and "unat (push_bit 1 f) = 2 * unat f"
proof -
  have "unat (drop_bit 63 f) = unat f div 2 ^ 63" by (simp add: unat_drop_bit)
  then have "unat f div 2 ^ 63 = 0" using assms by simp
  then show f: "unat f < 2 ^ 63" by (simp add: div_eq_0_iff)
  have "push_bit 1 f = 2 * f" by (simp add: push_bit_eq_mult)
  then show "unat (push_bit 1 f) = 2 * unat f" using f by (simp add: unat_word_ariths)
qed

text \<open>The loop keeps the significand from being zero, so the assertion at its start may stand at every round.\<close>

function diyfp_normalize :: "diyfp \<Rightarrow> diyfp option" where
  "diyfp_normalize x =
     (if fp_f x = 0 then None
      else if drop_bit 63 (fp_f x) = 0 then diyfp_normalize (x\<lparr>fp_f := push_bit 1 (fp_f x), fp_e := fp_e x - 1\<rparr>)
      else Some x)"
  by pat_completeness auto

termination
proof (relation "measure (\<lambda>x. 2 ^ 64 - unat (fp_f x))", goal_cases)
  case (2 x)
  then have "0 < unat (fp_f x)" by (simp add: unat_gt_0)
  then show ?case using normalize_step [OF 2(2)] by simp
qed simp

declare diyfp_normalize.simps [simp del]

definition diyfp_normalize_to :: "diyfp \<Rightarrow> int \<Rightarrow> diyfp option" where
  "diyfp_normalize_to x target_exponent =
     (let delta = fp_e x - target_exponent
      in if 0 \<le> delta \<and> drop_bit (nat delta) (push_bit (nat delta) (fp_f x)) = fp_f x
         then Some \<lparr>fp_f = push_bit (nat delta) (fp_f x), fp_e = target_exponent\<rparr> else None)"

record boundaries =
  b_w :: diyfp
  b_minus :: diyfp
  b_plus :: diyfp

definition kBias :: int where
  "kBias = 1075"

definition kHiddenBit :: int64 where
  "kHiddenBit = push_bit 52 1"

definition compute_boundaries :: "int64 \<Rightarrow> boundaries option" where
  "compute_boundaries bits =
     (if \<not> is_finite bits \<or> bits = 0 \<or> drop_bit 63 bits \<noteq> 0 then None
      else
        (let E = drop_bit 52 bits; F = bits AND (kHiddenBit - 1);
             v = (if E = 0 then \<lparr>fp_f = F, fp_e = 1 - kBias\<rparr> else \<lparr>fp_f = F + kHiddenBit, fp_e = int (unat E) - kBias\<rparr>);
             lower_boundary_is_closer = (F = 0 \<and> 1 < E);
             m_plus = \<lparr>fp_f = 2 * fp_f v + 1, fp_e = fp_e v - 1\<rparr>;
             m_minus = (if lower_boundary_is_closer then \<lparr>fp_f = 4 * fp_f v - 1, fp_e = fp_e v - 2\<rparr>
                        else \<lparr>fp_f = 2 * fp_f v - 1, fp_e = fp_e v - 1\<rparr>)
         in do {
              w_plus \<leftarrow> diyfp_normalize m_plus;
              w_minus \<leftarrow> diyfp_normalize_to m_minus (fp_e w_plus);
              w \<leftarrow> diyfp_normalize v;
              Some \<lparr>b_w = w, b_minus = w_minus, b_plus = w_plus\<rparr>
            }))"

section \<open>Cached powers of ten\<close>

definition kAlpha :: int where
  "kAlpha = - 60"

definition kGamma :: int where
  "kGamma = - 32"

text \<open>The significand, the binary and the decimal exponent.\<close>

definition kCachedPowers :: "(int64 \<times> int \<times> int) list" where
  "kCachedPowers =
  [(0xAB70FE17C79AC6CA, - 1060, - 300),
   (0xFF77B1FCBEBCDC4F, - 1034, - 292),
   (0xBE5691EF416BD60C, - 1007, - 284),
   (0x8DD01FAD907FFC3C, - 980, - 276),
   (0xD3515C2831559A83, - 954, - 268),
   (0x9D71AC8FADA6C9B5, - 927, - 260),
   (0xEA9C227723EE8BCB, - 901, - 252),
   (0xAECC49914078536D, - 874, - 244),
   (0x823C12795DB6CE57, - 847, - 236),
   (0xC21094364DFB5637, - 821, - 228),
   (0x9096EA6F3848984F, - 794, - 220),
   (0xD77485CB25823AC7, - 768, - 212),
   (0xA086CFCD97BF97F4, - 741, - 204),
   (0xEF340A98172AACE5, - 715, - 196),
   (0xB23867FB2A35B28E, - 688, - 188),
   (0x84C8D4DFD2C63F3B, - 661, - 180),
   (0xC5DD44271AD3CDBA, - 635, - 172),
   (0x936B9FCEBB25C996, - 608, - 164),
   (0xDBAC6C247D62A584, - 582, - 156),
   (0xA3AB66580D5FDAF6, - 555, - 148),
   (0xF3E2F893DEC3F126, - 529, - 140),
   (0xB5B5ADA8AAFF80B8, - 502, - 132),
   (0x87625F056C7C4A8B, - 475, - 124),
   (0xC9BCFF6034C13053, - 449, - 116),
   (0x964E858C91BA2655, - 422, - 108),
   (0xDFF9772470297EBD, - 396, - 100),
   (0xA6DFBD9FB8E5B88F, - 369, - 92),
   (0xF8A95FCF88747D94, - 343, - 84),
   (0xB94470938FA89BCF, - 316, - 76),
   (0x8A08F0F8BF0F156B, - 289, - 68),
   (0xCDB02555653131B6, - 263, - 60),
   (0x993FE2C6D07B7FAC, - 236, - 52),
   (0xE45C10C42A2B3B06, - 210, - 44),
   (0xAA242499697392D3, - 183, - 36),
   (0xFD87B5F28300CA0E, - 157, - 28),
   (0xBCE5086492111AEB, - 130, - 20),
   (0x8CBCCC096F5088CC, - 103, - 12),
   (0xD1B71758E219652C, - 77, - 4),
   (0x9C40000000000000, - 50, 4),
   (0xE8D4A51000000000, - 24, 12),
   (0xAD78EBC5AC620000, 3, 20),
   (0x813F3978F8940984, 30, 28),
   (0xC097CE7BC90715B3, 56, 36),
   (0x8F7E32CE7BEA5C70, 83, 44),
   (0xD5D238A4ABE98068, 109, 52),
   (0x9F4F2726179A2245, 136, 60),
   (0xED63A231D4C4FB27, 162, 68),
   (0xB0DE65388CC8ADA8, 189, 76),
   (0x83C7088E1AAB65DB, 216, 84),
   (0xC45D1DF942711D9A, 242, 92),
   (0x924D692CA61BE758, 269, 100),
   (0xDA01EE641A708DEA, 295, 108),
   (0xA26DA3999AEF774A, 322, 116),
   (0xF209787BB47D6B85, 348, 124),
   (0xB454E4A179DD1877, 375, 132),
   (0x865B86925B9BC5C2, 402, 140),
   (0xC83553C5C8965D3D, 428, 148),
   (0x952AB45CFA97A0B3, 455, 156),
   (0xDE469FBD99A05FE3, 481, 164),
   (0xA59BC234DB398C25, 508, 172),
   (0xF6C69A72A3989F5C, 534, 180),
   (0xB7DCBF5354E9BECE, 561, 188),
   (0x88FCF317F22241E2, 588, 196),
   (0xCC20CE9BD35C78A5, 614, 204),
   (0x98165AF37B2153DF, 641, 212),
   (0xE2A0B5DC971F303A, 667, 220),
   (0xA8D9D1535CE3B396, 694, 228),
   (0xFB9B7CD9A4A7443C, 720, 236),
   (0xBB764C4CA7A44410, 747, 244),
   (0x8BAB8EEFB6409C1A, 774, 252),
   (0xD01FEF10A657842C, 800, 260),
   (0x9B10A4E5E9913129, 827, 268),
   (0xE7109BFBA19C0C9D, 853, 276),
   (0xAC2820D9623BF429, 880, 284),
   (0x80444B5E7AA7CF85, 907, 292),
   (0xBF21E44003ACDD2D, 933, 300),
   (0x8E679C2F5E44FF8F, 960, 308),
   (0xD433179D9C8CB841, 986, 316),
   (0x9E19DB92B4E31BA9, 1013, 324)]"

text \<open>Division of \<^verbatim>\<open>int\<close> rounds towards zero.\<close>

definition get_cached_power_for_binary_exponent :: "int \<Rightarrow> (int64 \<times> int \<times> int) option" where
  "get_cached_power_for_binary_exponent e =
     (if \<not> (- 1500 \<le> e \<and> e \<le> 1500) then None
      else
        (let f = kAlpha - e - 1;
             k = f * 78913 sdiv 2 ^ 18 + (if 0 < f then 1 else 0);
             index = (300 + k + (8 - 1)) sdiv 8
         in if \<not> (0 \<le> index \<and> index < int (length kCachedPowers)) then None
            else
              (let cached = kCachedPowers ! nat index
               in if kAlpha \<le> fst (snd cached) + e + 64 \<and> fst (snd cached) + e + 64 \<le> kGamma then Some cached else None)))"

section \<open>The digits\<close>

definition find_largest_pow10 :: "int32 \<Rightarrow> nat \<times> int32" where
  "find_largest_pow10 n =
     (if 1000000000 \<le> n then (10, 1000000000)
      else if 100000000 \<le> n then (9, 100000000)
      else if 10000000 \<le> n then (8, 10000000)
      else if 1000000 \<le> n then (7, 1000000)
      else if 100000 \<le> n then (6, 100000)
      else if 10000 \<le> n then (5, 10000)
      else if 1000 \<le> n then (4, 1000)
      else if 100 \<le> n then (3, 100)
      else if 10 \<le> n then (2, 10)
      else (1, 1))"

text \<open>The loop changes the last digit only.\<close>

function round_digit :: "byte \<Rightarrow> int64 \<Rightarrow> int64 \<Rightarrow> int64 \<Rightarrow> int64 \<Rightarrow> byte option" where
  "round_digit c dist delta rst ten_k =
     (if rst < dist \<and> ten_k \<le> delta - rst \<and> (rst + ten_k < dist \<or> rst + ten_k - dist < dist - rst)
      then (if c = 48 then None else round_digit (c - 1) dist delta (rst + ten_k) ten_k)
      else Some c)"
  by pat_completeness auto

termination
proof (relation "measure (\<lambda>(c, _, _, _, _). unat (c - 48))", simp, clarsimp)
  fix c :: byte
  assume "c \<noteq> 48"
  then have "c - 48 \<noteq> 0" by simp
  then show "unat (c - 49) < unat (c - 48)" using measure_unat [of "c - 48"] by (simp add: algebra_simps)
qed

declare round_digit.simps [simp del]

definition grisu2_round :: "bytes \<Rightarrow> int64 \<Rightarrow> int64 \<Rightarrow> int64 \<Rightarrow> int64 \<Rightarrow> bytes option" where
  "grisu2_round ds dist delta rst ten_k =
     (if ds \<noteq> [] \<and> dist \<le> delta \<and> rst \<le> delta \<and> 0 < ten_k
      then (case round_digit (last ds) dist delta rst ten_k of None \<Rightarrow> None | Some c \<Rightarrow> Some (butlast ds @ [c]))
      else None)"

text \<open>The loop over the fractional part; \<open>m\<close> counts its rounds.\<close>

partial_function (option) gen_fraction ::
  "nat \<Rightarrow> int64 \<Rightarrow> int64 \<Rightarrow> int64 \<Rightarrow> bytes \<Rightarrow> nat \<Rightarrow> (bytes \<times> nat) option" where
  "gen_fraction sh p2 delta dist buffer m =
     (if (- 1) div 10 < p2 then None
      else
        (let p2' = p2 * 10; d = drop_bit sh p2'; r = p2' AND (push_bit sh 1 - 1); delta' = delta * 10; dist' = dist * 10
         in if 9 < d then None
            else if r \<le> delta' then
              map_option (\<lambda>b. (b, m + 1)) (grisu2_round (buffer @ [48 + ucast d]) dist' delta' r (push_bit sh 1))
            else gen_fraction sh r delta' dist' (buffer @ [48 + ucast d]) (m + 1)))"

declare gen_fraction.simps [code]

text \<open>The loop over the integral part; it goes on with the fractional part when the digits do not suffice.\<close>

fun gen_integral ::
  "nat \<Rightarrow> nat \<Rightarrow> int32 \<Rightarrow> int32 \<Rightarrow> int64 \<Rightarrow> int64 \<Rightarrow> int64 \<Rightarrow> bytes \<Rightarrow> int \<Rightarrow> (bytes \<times> int) option" where
  "gen_integral 0 sh p1 pow10 p2 delta dist buffer dexp =
     (if \<not> delta < p2 then None
      else map_option (\<lambda>(b, m). (b, dexp - int m)) (gen_fraction sh p2 delta dist buffer 0))"
| "gen_integral (Suc n) sh p1 pow10 p2 delta dist buffer dexp =
     (let d = p1 div pow10; r = p1 mod pow10; rst = push_bit sh (ucast r) + p2
      in if 9 < d then None
         else if rst \<le> delta then
           map_option (\<lambda>b. (b, dexp + int n)) (grisu2_round (buffer @ [48 + ucast d]) dist delta rst (push_bit sh (ucast pow10)))
         else gen_integral n sh r (pow10 div 10) p2 delta dist (buffer @ [48 + ucast d]) dexp)"

definition grisu2_digit_gen :: "int \<Rightarrow> diyfp \<Rightarrow> diyfp \<Rightarrow> diyfp \<Rightarrow> (bytes \<times> int) option" where
  "grisu2_digit_gen dexp M_minus w M_plus =
     (if \<not> (kAlpha \<le> fp_e M_plus \<and> fp_e M_plus \<le> kGamma) then None
      else do {
        delta \<leftarrow> diyfp_sub M_plus M_minus;
        dist \<leftarrow> diyfp_sub M_plus w;
        let sh = nat (- fp_e M_plus);
        let p1 = (ucast (drop_bit sh (fp_f M_plus)) :: int32);
        let p2 = fp_f M_plus AND (push_bit sh 1 - 1);
        if p1 = 0 then None
        else (let (k, pow10) = find_largest_pow10 p1
              in gen_integral k sh p1 pow10 p2 (fp_f delta) (fp_f dist) [] dexp)
      })"

definition grisu2_scaled :: "diyfp \<Rightarrow> diyfp \<Rightarrow> diyfp \<Rightarrow> (bytes \<times> int) option" where
  "grisu2_scaled m_minus v m_plus =
     (if fp_e m_plus \<noteq> fp_e m_minus \<or> fp_e m_plus \<noteq> fp_e v then None
      else do {
        cached \<leftarrow> get_cached_power_for_binary_exponent (fp_e m_plus);
        let c_minus_k = \<lparr>fp_f = fst cached, fp_e = fst (snd cached)\<rparr>;
        let w = diyfp_mul v c_minus_k;
        let w_minus = diyfp_mul m_minus c_minus_k;
        let w_plus = diyfp_mul m_plus c_minus_k;
        grisu2_digit_gen (- snd (snd cached)) (w_minus\<lparr>fp_f := fp_f w_minus + 1\<rparr>) w (w_plus\<lparr>fp_f := fp_f w_plus - 1\<rparr>)
      })"

definition grisu2 :: "int64 \<Rightarrow> (bytes \<times> int) option" where
  "grisu2 bits =
     (if \<not> is_finite bits \<or> bits = 0 \<or> drop_bit 63 bits \<noteq> 0 then None
      else do {
        b \<leftarrow> compute_boundaries bits;
        grisu2_scaled (b_minus b) (b_w b) (b_plus b)
      })"

section \<open>The text\<close>

definition digit :: "nat \<Rightarrow> byte" where
  "digit k = 48 + word_of_nat k"

definition append_exponent :: "int \<Rightarrow> bytes option" where
  "append_exponent e =
     (if \<not> (- 1000 < e \<and> e < 1000) then None
      else
        (let k = nat \<bar>e\<bar>
         in Some ((if e < 0 then 45 else 43) #
              (if k < 10 then [48, digit k]
               else if k < 100 then [digit (k div 10), digit (k mod 10)]
               else [digit (k div 100), digit (k mod 100 div 10), digit (k mod 100 mod 10)]))))"

definition format_buffer :: "bytes \<Rightarrow> int \<Rightarrow> int \<Rightarrow> int \<Rightarrow> bytes option" where
  "format_buffer ds dexp min_exp max_exp =
     (let k = int (length ds); n = k + dexp
      in if \<not> (min_exp < 0 \<and> 0 < max_exp) then None
         else if k \<le> n \<and> n \<le> max_exp then Some (ds @ replicate (nat (n - k)) 48 @ [46, 48])
         else if 0 < n \<and> n \<le> max_exp then
           (if k > n then Some (take (nat n) ds @ 46 # drop (nat n) ds) else None)
         else if min_exp < n \<and> n \<le> 0 then Some (48 # 46 # replicate (nat (- n)) 48 @ ds)
         else
           map_option (\<lambda>ex. (if k = 1 then ds else take 1 ds @ 46 # drop 1 ds) @ 101 # ex) (append_exponent (n - 1)))"

text \<open>The last two arguments of \<^verbatim>\<open>to_chars\<close> are the buffer of 64 bytes; \<open>room\<close> is what is left of it.\<close>

definition to_chars :: "int64 \<Rightarrow> bytes option" where
  "to_chars x =
     (if \<not> is_finite x then None
      else
        (let neg = (drop_bit 63 x \<noteq> 0);
             sign = (if neg then [45] else []);
             x' = x AND 0x7FFFFFFFFFFFFFFF;
             room = 64 - length sign
         in if x' = 0 then Some (sign @ [48, 46, 48])
            else if room < 17 then None
            else do {
              (ds, dexp) \<leftarrow> grisu2 x';
              if 17 < length ds \<or> room < 15 + 2 \<or> room < 2 + 3 + 17 \<or> room < 17 + 6 then None
              else map_option (\<lambda>tx. sign @ tx) (format_buffer ds dexp (- 4) 15)
            }))"

definition dump_float :: "int64 \<Rightarrow> bytes option" where
  "dump_float x = (if \<not> is_finite x then Some (lit ''null'') else to_chars x)"

end
