(* ===== verification/Json_Powers.thy ===== *)
theory Json_Powers
  imports Complex_Main Json_Float
begin

text \<open>
  The table of powers of ten of Grisu2 in \<^verbatim>\<open>json/json.hpp\<close>: every entry is normalised and off its power of ten by at
  most half a unit in the last place, and the entry that is looked up for a binary exponent brings the product into
  the range the digit loops need, for every exponent a \<^verbatim>\<open>double\<close> can have.
\<close>

section \<open>The entries\<close>

definition accurate :: "int64 \<times> int \<times> int \<Rightarrow> bool" where
  "accurate c \<longleftrightarrow> (case c of (f, e, k) \<Rightarrow> 2 ^ 63 \<le> uint f \<and> \<bar>real_of_int (uint f) - 10 powi k / 2 powi e\<bar> \<le> 1 / 2)"

text \<open>An enclosure of a power of ten, from which the next one is computed by a multiplication with \<open>num / den\<close>.\<close>

definition encloses :: "int \<Rightarrow> int \<Rightarrow> int \<Rightarrow> int \<Rightarrow> bool" where
  "encloses a b s k \<longleftrightarrow> real_of_int a * 2 powi s \<le> 10 powi k \<and> 10 powi k \<le> real_of_int b * 2 powi s"

fun check_powers :: "int \<Rightarrow> int \<Rightarrow> int \<Rightarrow> int \<Rightarrow> int \<Rightarrow> int \<Rightarrow> int \<Rightarrow> int \<Rightarrow> (int64 \<times> int \<times> int) list \<Rightarrow> bool" where
  "check_powers num den ds dk a b s k [] \<longleftrightarrow> True"
| "check_powers num den ds dk a b s k ((f, e, k') # cs) \<longleftrightarrow>
     k' = k \<and> s \<le> e \<and> 2 ^ 63 \<le> uint f \<and> (2 * uint f - 1) * 2 ^ nat (e - s) \<le> 2 * a \<and> 2 * b \<le> (2 * uint f + 1) * 2 ^ nat (e - s) \<and>
     check_powers num den ds dk (a * num div den) (b * num div den + 1) (s + ds) (k + dk) cs"

lemma encloses_step:
  assumes "encloses a b s k" and "0 < den" and "0 < num" and "real_of_int num * 2 powi ds = real_of_int den * 10 powi dk"
  shows "encloses (a * num div den) (b * num div den + 1) (s + ds) (k + dk)"
proof -
  have ten: "10 powi (k + dk) = 10 powi k * (10 :: real) powi dk" and two: "2 powi (s + ds) = 2 powi s * (2 :: real) powi ds"
    by (simp_all add: power_int_add)
  have pos: "(0 :: real) < 2 powi s" "(0 :: real) < 2 powi ds" "(0 :: real) < 10 powi dk" by simp_all
  define t where "t = (2 :: real) powi ds / real_of_int den"
  have t: "0 < t" "2 powi ds = t * real_of_int den" "10 powi dk = t * real_of_int num"
    using assms(2-4) by (simp_all add: t_def field_simps)
  have fl: "x div den * den \<le> x" "x \<le> (x div den + 1) * den" for x
    using assms(2) by (simp_all add: minus_mod_eq_div_mult [symmetric] distrib_right pos_mod_bound less_imp_le)
  have lo: "real_of_int (a * num div den) * real_of_int den \<le> real_of_int a * real_of_int num"
    using fl(1) [of "a * num"] by (simp flip: of_int_mult)
  have up: "real_of_int b * real_of_int num \<le> real_of_int (b * num div den + 1) * real_of_int den"
    using fl(2) [of "b * num"] by (simp flip: of_int_mult del: of_int_add)
  have a: "real_of_int a * 2 powi s \<le> 10 powi k" and b: "10 powi k \<le> real_of_int b * 2 powi s" using assms(1) by (simp_all add: encloses_def)
  have "real_of_int (a * num div den) * (2 powi s * 2 powi ds) = real_of_int (a * num div den) * real_of_int den * (2 powi s * t)"
    unfolding t by simp
  also have "\<dots> \<le> real_of_int a * real_of_int num * (2 powi s * t)" using lo pos t(1) by (intro mult_right_mono) simp_all
  also have "\<dots> = real_of_int a * 2 powi s * (t * real_of_int num)" by simp
  also have "\<dots> \<le> 10 powi k * 10 powi dk" unfolding t(3) using a t(1) assms(3) by (intro mult_right_mono) simp_all
  finally have l: "real_of_int (a * num div den) * (2 powi s * 2 powi ds) \<le> 10 powi k * 10 powi dk" .
  have "10 powi k * 10 powi dk \<le> real_of_int b * 2 powi s * (t * real_of_int num)" unfolding t(3) using b t(1) assms(3) by (intro mult_right_mono) simp_all
  also have "\<dots> = real_of_int b * real_of_int num * (2 powi s * t)" by simp
  also have "\<dots> \<le> real_of_int (b * num div den + 1) * real_of_int den * (2 powi s * t)" using up pos t(1) by (intro mult_right_mono) simp_all
  also have "\<dots> = real_of_int (b * num div den + 1) * (2 powi s * 2 powi ds)" unfolding t by simp
  finally show ?thesis using l unfolding encloses_def ten two by simp
qed

lemma encloses_entry:
  assumes "encloses a b s k" and "s \<le> e" and "(2 * u - 1) * 2 ^ nat (e - s) \<le> 2 * a" and "2 * b \<le> (2 * u + 1) * 2 ^ nat (e - s)"
  shows "\<bar>real_of_int u - 10 powi k / 2 powi e\<bar> \<le> 1 / 2"
proof -
  let ?d = "(2 :: real) ^ nat (e - s)"
  have "(2 :: real) powi e = 2 powi (s + int (nat (e - s)))" using assms(2) by simp
  also have "\<dots> = 2 powi s * ?d" using power_int_add [of "2 :: real" s "int (nat (e - s))"] unfolding power_int_of_nat by (metis zero_neq_numeral)
  finally have e: "(2 :: real) powi e = 2 powi s * ?d" .
  have p: "(0 :: real) < 2 powi s" by simp
  have "real_of_int a / ?d \<le> 10 powi k / 2 powi e" "10 powi k / 2 powi e \<le> real_of_int b / ?d"
    using assms(1) p unfolding encloses_def e by (simp_all add: field_simps)
  moreover have "(2 * real_of_int u - 1) * ?d \<le> 2 * real_of_int a"
    using assms(3) [folded of_int_le_iff [where 'a = real]] by simp
  then have "real_of_int u - 1 / 2 \<le> real_of_int a / ?d" by (simp add: field_simps)
  moreover have "2 * real_of_int b \<le> (2 * real_of_int u + 1) * ?d"
    using assms(4) [folded of_int_le_iff [where 'a = real]] by simp
  then have "real_of_int b / ?d \<le> real_of_int u + 1 / 2" by (simp add: field_simps)
  ultimately show ?thesis by linarith
qed

lemma check_powers_accurate:
  assumes "0 < den" and "0 < num" and "real_of_int num * 2 powi ds = real_of_int den * 10 powi dk"
  shows "check_powers num den ds dk a b s k cs \<Longrightarrow> encloses a b s k \<Longrightarrow> c \<in> set cs \<Longrightarrow> accurate c"
proof (induction cs arbitrary: a b s k)
  case (Cons c' cs)
  obtain f e k' where c': "c' = (f, e, k')" by (cases c')
  have "accurate c'"
    using Cons.prems(1) encloses_entry [OF Cons.prems(2), of e "uint f"] unfolding c' by (simp add: accurate_def)
  moreover have "accurate c" if "c \<in> set cs"
    using Cons.IH [OF _ encloses_step [OF Cons.prems(2) assms] that] Cons.prems(1) unfolding c' by simp
  ultimately show ?case using Cons.prems(3) by auto
qed simp

lemma powers_up: "check_powers (10 ^ 8) (2 ^ 26) 26 8 (10 ^ 4 * 2 ^ 114) (10 ^ 4 * 2 ^ 114) (- 114) 4 (drop 38 kCachedPowers)"
  by code_simp

lemma powers_down: "check_powers (2 ^ 26) (10 ^ 8) (- 26) (- 8) (10 ^ 4 * 2 ^ 140) (10 ^ 4 * 2 ^ 140) (- 140) 4 (rev (take 39 kCachedPowers))"
  by code_simp

lemma table_accurate:
  assumes "c \<in> set kCachedPowers"
  shows "accurate c"
proof -
  have start: "encloses (10 ^ 4 * 2 ^ 114) (10 ^ 4 * 2 ^ 114) (- 114) 4" "encloses (10 ^ 4 * 2 ^ 140) (10 ^ 4 * 2 ^ 140) (- 140) 4"
    by (simp_all add: encloses_def power_int_minus)
  have "set kCachedPowers = set (take 39 kCachedPowers) \<union> set (drop 39 kCachedPowers)" by (metis append_take_drop_id set_append)
  then have "c \<in> set (take 39 kCachedPowers) \<or> c \<in> set (drop 38 kCachedPowers)"
    using assms set_drop_subset_set_drop [of 38 39 kCachedPowers] by auto
  then show ?thesis
  proof (elim disjE)
    assume "c \<in> set (drop 38 kCachedPowers)"
    then show ?thesis by (rule check_powers_accurate [OF _ _ _ powers_up start(1), rotated 3]) simp_all
  next
    assume "c \<in> set (take 39 kCachedPowers)"
    then have "c \<in> set (rev (take 39 kCachedPowers))" by simp
    then show ?thesis by (rule check_powers_accurate [OF _ _ _ powers_down start(2), rotated 3]) (simp_all add: power_int_minus)
  qed
qed

section \<open>The entry for an exponent\<close>

lemma table_range:
  "list_all (\<lambda>(i, f, e, k). k = 8 * int i - 300 \<and> (e + 34) * 78913 < (8 * int i - 308) * 262144 \<and> (8 * int i - 300) * 262144 < (e + 64) * 78913)
     (enumerate 0 kCachedPowers)"
  by code_simp

lemma index_bounds:
  fixes f :: int
  defines "k \<equiv> f * 78913 sdiv 2 ^ 18 + (if 0 < f then 1 else 0)"
  shows "(k - 1) * 262144 \<le> f * 78913" and "f * 78913 \<le> k * 262144"
proof -
  let ?q = "\<bar>f\<bar> * 78913 div 262144"
  have q: "?q * 262144 \<le> \<bar>f\<bar> * 78913" "\<bar>f\<bar> * 78913 < (?q + 1) * 262144"
    using div_mult_mod_eq [of "\<bar>f\<bar> * 78913" "262144"] pos_mod_bound [of "262144" "\<bar>f\<bar> * 78913"] pos_mod_sign [of "262144" "\<bar>f\<bar> * 78913"]
    unfolding distrib_right by linarith+
  have s: "f * 78913 sdiv 262144 = sgn f * ?q" by (simp add: signed_divide_int_def abs_mult sgn_mult)
  have "k = (if 0 < f then ?q + 1 else - ?q)" by (cases "0 < f"; cases "f = 0") (simp_all add: k_def s)
  then show "(k - 1) * 262144 \<le> f * 78913" and "f * 78913 \<le> k * 262144" using q by (auto split: if_splits)
qed

lemma cached_power_found:
  assumes "- 1137 \<le> e" and "e \<le> 960"
  shows "\<exists>f ec k. get_cached_power_for_binary_exponent e = Some (f, ec, k) \<and> accurate (f, ec, k) \<and> - 60 \<le> ec + e + 64 \<and> ec + e + 64 \<le> - 32 \<and>
    - 300 \<le> k \<and> k \<le> 324"
proof -
  define f where "f = - 61 - e"
  define k where "k = f * 78913 sdiv 2 ^ 18 + (if 0 < f then 1 else 0)"
  note b = index_bounds [of f, folded k_def]
  have "- 307 \<le> k" "k \<le> 324" using b assms by (auto simp: f_def)
  define i where "i = (307 + k) div 8"
  have sd: "(300 + k + (8 - 1)) sdiv 8 = i" using \<open>- 307 \<le> k\<close> by (simp add: signed_divide_int_def i_def sgn_if)
  have i: "0 \<le> i" "i < 79" "8 * i - 307 \<le> k" "k \<le> 8 * i - 300" using \<open>- 307 \<le> k\<close> \<open>k \<le> 324\<close> by (auto simp: i_def)
  have len: "length kCachedPowers = 79" by (simp add: kCachedPowers_def)
  obtain c ec k' where c: "kCachedPowers ! nat i = (c, ec, k')" by (metis prod_cases3)
  have nth: "enumerate 0 kCachedPowers ! nat i = (nat i, c, ec, k')" using i(1,2) len c by (simp add: nth_enumerate_eq)
  have "nat i < length (enumerate 0 kCachedPowers)" using i(1,2) len by simp
  from table_range [unfolded list_all_length, rule_format, OF this] i(1)
  have t: "k' = 8 * i - 300" "(ec + 34) * 78913 < (8 * i - 308) * 262144" "(8 * i - 300) * 262144 < (ec + 64) * 78913"
    unfolding nth by simp_all
  have "(ec + 34) * 78913 < f * 78913" "f * 78913 < (ec + 64) * 78913" using t(2,3) b i(3,4) by (simp_all add: algebra_simps)
  then have r: "- 60 \<le> ec + e + 64" "ec + e + 64 \<le> - 32" by (auto simp: f_def)
  have "kCachedPowers ! nat i \<in> set kCachedPowers" using i(1,2) len by (intro nth_mem) simp
  then have "accurate (c, ec, k')" using table_accurate c by metis
  moreover have "get_cached_power_for_binary_exponent e = Some (c, ec, k')"
    using assms r sd i(1,2) c len unfolding get_cached_power_for_binary_exponent_def Let_def kAlpha_def kGamma_def
    by (simp add: f_def k_def)
  ultimately show ?thesis using r t(1) i(1,2) by auto
qed

end
