(* ===== verification/Json_Diyfp.thy ===== *)
theory Json_Diyfp
  imports Json_Float
begin

text \<open>
  The operations of \<^verbatim>\<open>diyfp\<close> in \<^verbatim>\<open>json/json.hpp\<close> as operations on numbers: the product in four parts is the rounded
  product, normalisation is a multiplication by a power of two.
\<close>

section \<open>Arithmetic on 64-bit words\<close>

lemma unat64_less: "unat (x :: int64) < 2 ^ 64"
  using unat_bound [of x] by simp

lemma unat_mult64: "unat x * unat y < 2 ^ 64 \<Longrightarrow> unat (x * y :: int64) = unat x * unat y"
  by (simp add: unat_word_ariths)

lemma unat_add64: "unat x + unat y < 2 ^ 64 \<Longrightarrow> unat (x + y :: int64) = unat x + unat y"
  by (simp add: unat_word_ariths)

lemma unat_add3: "unat x + unat y + unat z < 2 ^ 64 \<Longrightarrow> unat (x + y + z :: int64) = unat x + unat y + unat z"
  using unat_add64 [of x y] unat_add64 [of "x + y" z] by linarith

lemma unat_add4:
  "unat w + unat x + unat y + unat z < 2 ^ 64 \<Longrightarrow> unat (w + x + y + z :: int64) = unat w + unat x + unat y + unat z"
  using unat_add3 [of w x y] unat_add64 [of "w + x + y" z] by linarith

lemma unat_mask32: "unat (x AND 0xFFFFFFFF :: int64) = unat x mod 2 ^ 32"
  using unat_take_bit [of 32 x] by (simp add: take_bit_eq_mask mask_eq_exp_minus_1)

lemma unat_one_shl: "sh < 64 \<Longrightarrow> unat (push_bit sh 1 :: int64) = 2 ^ sh"
proof -
  assume "sh < 64"
  then have "(2 :: nat) ^ sh < 2 ^ 64" by (intro power_strict_increasing) simp_all
  moreover have eq: "(push_bit sh 1 :: int64) = word_of_nat (2 ^ sh)" by (simp add: push_bit_eq_mult)
  ultimately show ?thesis unfolding eq by (intro unat_word_of_nat_small) simp
qed

lemma unat_shl64: "unat x * 2 ^ sh < 2 ^ 64 \<Longrightarrow> unat (push_bit sh x :: int64) = unat x * 2 ^ sh"
proof -
  assume h: "unat x * 2 ^ sh < 2 ^ 64"
  have eq: "push_bit sh x = word_of_nat (unat x * 2 ^ sh)" by (simp add: push_bit_eq_mult)
  show ?thesis unfolding eq using h by (intro unat_word_of_nat_small) simp
qed

lemma unat_low_bits: "sh < 64 \<Longrightarrow> unat (x AND (push_bit sh 1 - 1) :: int64) = unat x mod 2 ^ sh"
proof -
  assume "sh < 64"
  have "push_bit sh 1 - 1 = (mask sh :: int64)" by (simp add: mask_eq_exp_minus_1 push_bit_eq_mult)
  then have "x AND (push_bit sh 1 - 1) = take_bit sh x" by (simp add: take_bit_eq_mask)
  then show ?thesis by (simp add: unat_take_bit)
qed

text \<open>The product is that of the numbers, with the lower half rounded off.\<close>

lemma product_halves:
  fixes a b c d :: nat
  shows "(a + 2 ^ 32 * b) * (c + 2 ^ 32 * d) = a * c + 2 ^ 32 * (a * d + b * c) + 2 ^ 64 * (b * d)"
  by (simp add: algebra_simps)

lemma rounded_product:
  fixes p0 p1 p2 p3 :: nat
  shows "(p0 + 2 ^ 32 * (p1 + p2) + 2 ^ 64 * p3 + 2 ^ 63) div 2 ^ 64 =
    p3 + p2 div 2 ^ 32 + p1 div 2 ^ 32 + (p0 div 2 ^ 32 + p1 mod 2 ^ 32 + p2 mod 2 ^ 32 + 2 ^ 31) div 2 ^ 32"
proof -
  let ?Q = "p0 div 2 ^ 32 + p1 mod 2 ^ 32 + p2 mod 2 ^ 32 + 2 ^ 31"
  have high: "(A + 2 ^ 64 * H) div 2 ^ 64 = A div 2 ^ 64 + H" for A H :: nat by simp
  have split: "(a0 * 2 ^ 32 + b0) + 2 ^ 32 * ((a1 * 2 ^ 32 + b1) + (a2 * 2 ^ 32 + b2)) + 2 ^ 64 * p3 + 2 ^ 63 =
      b0 + 2 ^ 32 * (a0 + b1 + b2 + 2 ^ 31) + 2 ^ 64 * (p3 + a2 + a1)" for a0 b0 a1 b1 a2 b2 :: nat
    by simp
  have whole: "p0 + 2 ^ 32 * (p1 + p2) + 2 ^ 64 * p3 + 2 ^ 63 =
      (p0 mod 2 ^ 32 + 2 ^ 32 * ?Q) + 2 ^ 64 * (p3 + p2 div 2 ^ 32 + p1 div 2 ^ 32)"
    using split [of "p0 div 2 ^ 32" "p0 mod 2 ^ 32" "p1 div 2 ^ 32" "p1 mod 2 ^ 32" "p2 div 2 ^ 32" "p2 mod 2 ^ 32"]
    unfolding div_mult_mod_eq .
  have low: "(a mod 2 ^ 32 + 2 ^ 32 * b) div 2 ^ 64 = b div 2 ^ 32" for a b :: nat
  proof -
    have "(a mod 2 ^ 32 + 2 ^ 32 * b) div (2 ^ 32 * 2 ^ 32) = (a mod 2 ^ 32 + 2 ^ 32 * b) div 2 ^ 32 div 2 ^ 32"
      by (rule div_mult2_eq)
    then show ?thesis by simp
  qed
  show ?thesis unfolding whole high low by (rule add.commute)
qed

lemma diyfp_mul_eq:
  "unat (fp_f (diyfp_mul x y)) = (unat (fp_f x) * unat (fp_f y) + 2 ^ 63) div 2 ^ 64"
  "fp_e (diyfp_mul x y) = fp_e x + fp_e y + 64"
proof -
  define u v where "u = unat (fp_f x)" and "v = unat (fp_f y)"
  let ?a = "u mod 2 ^ 32" and ?b = "u div 2 ^ 32" and ?c = "v mod 2 ^ 32" and ?d = "v div 2 ^ 32"
  have "u < 2 ^ 64" "v < 2 ^ 64" by (simp_all only: u_def v_def unat64_less)
  then have hb: "?a < 2 ^ 32" "?b < 2 ^ 32" "?c < 2 ^ 32" "?d < 2 ^ 32" by (simp_all add: div_less_iff_less_mult)
  have pb: "s * t < 2 ^ 64 \<and> s * t \<le> (2 ^ 32 - 1) * (2 ^ 32 - 1)" if "s < 2 ^ 32" "t < 2 ^ 32" for s t :: nat
  proof -
    have "s * t \<le> (2 ^ 32 - 1) * (2 ^ 32 - 1)" using that by (intro mult_le_mono) auto
    then show ?thesis by simp
  qed
  note pbs = pb [OF hb(1,3)] pb [OF hb(1,4)] pb [OF hb(2,3)] pb [OF hb(2,4)]
  have w: "unat (fp_f x AND 0xFFFFFFFF) = ?a" "unat (drop_bit 32 (fp_f x)) = ?b" "unat (fp_f y AND 0xFFFFFFFF) = ?c"
    "unat (drop_bit 32 (fp_f y)) = ?d"
    by (simp_all add: unat_mask32 unat_drop_bit u_def v_def)
  let ?p0 = "(fp_f x AND 0xFFFFFFFF) * (fp_f y AND 0xFFFFFFFF)" and ?p1 = "(fp_f x AND 0xFFFFFFFF) * drop_bit 32 (fp_f y)"
    and ?p2 = "drop_bit 32 (fp_f x) * (fp_f y AND 0xFFFFFFFF)" and ?p3 = "drop_bit 32 (fp_f x) * drop_bit 32 (fp_f y)"
  have p: "unat ?p0 = ?a * ?c" "unat ?p1 = ?a * ?d" "unat ?p2 = ?b * ?c" "unat ?p3 = ?b * ?d"
    using pbs by (simp_all add: unat_mult64 w)
  let ?q = "drop_bit 32 ?p0 + (?p1 AND 0xFFFFFFFF) + (?p2 AND 0xFFFFFFFF)"
  let ?Q = "(?a * ?c) div 2 ^ 32 + (?a * ?d) mod 2 ^ 32 + (?b * ?c) mod 2 ^ 32"
  have Qb: "?Q < 2 ^ 34"
  proof -
    have "(?a * ?c) div 2 ^ 32 < 2 ^ 32" using pbs(1) by (simp add: div_less_iff_less_mult)
    moreover have "(?a * ?d) mod 2 ^ 32 < 2 ^ 32" "(?b * ?c) mod 2 ^ 32 < 2 ^ 32" by (rule mod_less_divisor, simp)+
    ultimately have "?Q < 2 ^ 32 + 2 ^ 32 + 2 ^ 32" by (intro add_strict_mono)
    then show ?thesis by simp
  qed
  have parts: "unat (drop_bit 32 ?p0) = (?a * ?c) div 2 ^ 32" "unat (?p1 AND 0xFFFFFFFF) = (?a * ?d) mod 2 ^ 32"
    "unat (?p2 AND 0xFFFFFFFF) = (?b * ?c) mod 2 ^ 32" "unat (drop_bit 32 ?p2) = ?b * ?c div 2 ^ 32"
    "unat (drop_bit 32 ?p1) = ?a * ?d div 2 ^ 32"
    by (simp_all only: unat_drop_bit unat_mask32 p)
  have "unat (drop_bit 32 ?p0) + unat (?p1 AND 0xFFFFFFFF) + unat (?p2 AND 0xFFFFFFFF) < 2 ^ 64"
    unfolding parts using Qb by (rule less_trans) simp
  from unat_add3 [OF this] have q: "unat ?q = ?Q" unfolding parts .
  have "unat ?q + unat (push_bit 31 1 :: int64) < 2 ^ 64"
    unfolding q unat_one_shl [of 31, simplified] using Qb by simp
  from unat_add64 [OF this] have q': "unat (?q + push_bit 31 1) = ?Q + 2 ^ 31"
    unfolding q using unat_one_shl [of 31] by simp
  have uv: "u * v = ?a * ?c + 2 ^ 32 * (?a * ?d + ?b * ?c) + 2 ^ 64 * (?b * ?d)"
    using product_halves [of ?a ?b ?c ?d] by simp
  have h: "?b * ?d + ?b * ?c div 2 ^ 32 + ?a * ?d div 2 ^ 32 + (?Q + 2 ^ 31) div 2 ^ 32 = (u * v + 2 ^ 63) div 2 ^ 64"
    unfolding uv rounded_product [of "?a * ?c" "?a * ?d" "?b * ?c" "?b * ?d"] by simp
  have "(u * v + 2 ^ 63) div 2 ^ 64 < 2 ^ 64"
  proof -
    have "u * v \<le> (2 ^ 64 - 1) * (2 ^ 64 - 1)" using \<open>u < 2 ^ 64\<close> \<open>v < 2 ^ 64\<close> by (intro mult_le_mono) auto
    then show ?thesis by (simp add: div_less_iff_less_mult)
  qed
  then have b: "?b * ?d + ?b * ?c div 2 ^ 32 + ?a * ?d div 2 ^ 32 + (?Q + 2 ^ 31) div 2 ^ 32 < 2 ^ 64" using h by simp
  have d: "unat (drop_bit 32 (?q + push_bit 31 1)) = (?Q + 2 ^ 31) div 2 ^ 32" by (simp only: unat_drop_bit q')
  have "unat ?p3 + unat (drop_bit 32 ?p2) + unat (drop_bit 32 ?p1) + unat (drop_bit 32 (?q + push_bit 31 1)) < 2 ^ 64"
    unfolding parts p d by (rule b)
  from unat_add4 [OF this]
  have "unat (?p3 + drop_bit 32 ?p2 + drop_bit 32 ?p1 + drop_bit 32 (?q + push_bit 31 1)) = (u * v + 2 ^ 63) div 2 ^ 64"
    unfolding parts p d h .
  then show "unat (fp_f (diyfp_mul x y)) = (unat (fp_f x) * unat (fp_f y) + 2 ^ 63) div 2 ^ 64"
    unfolding u_def v_def diyfp_mul_def Let_def by simp
qed (simp add: diyfp_mul_def Let_def)

section \<open>Normalised numbers\<close>

lemma normalize_eq:
  assumes "2 ^ 63 \<le> unat f * 2 ^ t" and "unat f * 2 ^ t < 2 ^ 64"
  shows "diyfp_normalize \<lparr>fp_f = f, fp_e = e\<rparr> = Some \<lparr>fp_f = word_of_nat (unat f * 2 ^ t), fp_e = e - int t\<rparr>"
  using assms
proof (induction t arbitrary: f e)
  case 0
  then have "f \<noteq> 0" by auto
  moreover have "drop_bit 63 f \<noteq> 0"
  proof
    assume "drop_bit 63 f = 0"
    then show False using normalize_step(1) [of f] 0 by simp
  qed
  ultimately show ?case by (simp add: diyfp_normalize.simps)
next
  case (Suc t)
  have "unat f * 2 * 2 ^ t < 2 ^ 64" using Suc.prems(2) by (simp add: mult.assoc)
  then have "unat f * 2 < 2 ^ 64" by (rule le_less_trans [rotated]) simp
  then have small: "unat f < 2 ^ 63" by simp
  then have top: "drop_bit 63 f = 0"
    by (simp add: word_unat_eq_iff unat_drop_bit)
  have nz: "f \<noteq> 0" using Suc.prems(1) by auto
  have dbl: "unat (push_bit 1 f) = unat f * 2" using normalize_step(2) [OF top] by simp
  have "diyfp_normalize \<lparr>fp_f = f, fp_e = e\<rparr> = diyfp_normalize \<lparr>fp_f = push_bit 1 f, fp_e = e - 1\<rparr>"
    using nz top by (subst diyfp_normalize.simps) simp
  also have "\<dots> = Some \<lparr>fp_f = word_of_nat (unat (push_bit 1 f) * 2 ^ t), fp_e = e - 1 - int t\<rparr>"
    using Suc.prems by (intro Suc.IH) (simp_all only: dbl power_Suc mult.assoc)
  finally show ?case unfolding dbl by (simp add: mult.assoc algebra_simps)
qed

lemma normalize_to_eq:
  assumes "unat f * 2 ^ t < 2 ^ 64"
  shows "diyfp_normalize_to \<lparr>fp_f = f, fp_e = e\<rparr> (e - int t) = Some \<lparr>fp_f = word_of_nat (unat f * 2 ^ t), fp_e = e - int t\<rparr>"
proof -
  have u: "unat (push_bit t f) = unat f * 2 ^ t" using assms by (rule unat_shl64)
  then have "unat (drop_bit t (push_bit t f)) = unat f" by (simp add: unat_drop_bit)
  then have "drop_bit t (push_bit t f) = f" by (simp add: word_unat_eq_iff)
  moreover have "push_bit t f = word_of_nat (unat f * 2 ^ t)" unfolding u [symmetric] by simp
  ultimately show ?thesis by (simp add: diyfp_normalize_to_def Let_def)
qed

end
