(* ===== verification/Json_Digits.thy ===== *)
theory Json_Digits
  imports Complex_Main Json_Diyfp
begin

text \<open>
  The digit loops of Grisu2, \<^verbatim>\<open>grisu2_digit_gen\<close> and \<^verbatim>\<open>grisu2_round\<close> in \<^verbatim>\<open>json/json.hpp\<close>: they return, without a failed
  assertion and without overflow, and the digits stand for a number between the two bounds.
\<close>

section \<open>The last digit\<close>

lemma round_digit_ok:
  assumes "unat c = 48 + d" and "unat rst \<le> unat delta" and "unat delta < unat rst + d * unat ten"
  shows "\<exists>c' d'. round_digit c dst delta rst ten = Some c' \<and> unat c' = 48 + d' \<and> 1 \<le> d' \<and> d' \<le> d \<and>
    unat rst + (d - d') * unat ten \<le> unat delta"
  using assms
proof (induction d arbitrary: c rst)
  case (Suc d)
  show ?case
  proof (cases "rst < dst \<and> ten \<le> delta - rst \<and> (rst + ten < dst \<or> rst + ten - dst < dst - rst)")
    case False
    then have "round_digit c dst delta rst ten = Some c" by (subst round_digit.simps) (rule if_not_P)
    then show ?thesis using Suc.prems by (intro exI [of _ c] exI [of _ "Suc d"]) simp
  next
    case True
    have "unat (delta - rst) = unat delta - unat rst" using Suc.prems(2) by (intro unat_sub) (simp add: word_le_nat_alt)
    moreover have "unat ten \<le> unat (delta - rst)" using True by (simp add: word_le_nat_alt)
    ultimately have le: "unat rst + unat ten \<le> unat delta" using Suc.prems(2) by linarith
    then have sum: "unat (rst + ten) = unat rst + unat ten" using unat64_less [of delta] by (intro unat_add64) simp
    have c: "c \<noteq> 48" "c \<noteq> 0" using Suc.prems(1) by auto
    have c1: "unat (c - 1) = 48 + d" using Suc.prems(1) c(2) by (simp add: unat_minus_one)
    have "unat delta < unat (rst + ten) + d * unat ten" using Suc.prems(3) sum by simp
    from Suc.IH [OF c1 _ this] le sum obtain c' d' where ih: "round_digit (c - 1) dst delta (rst + ten) ten = Some c'"
      "unat c' = 48 + d'" "1 \<le> d'" "d' \<le> d" "unat (rst + ten) + (d - d') * unat ten \<le> unat delta" by auto
    have "round_digit c dst delta rst ten = round_digit (c - 1) dst delta (rst + ten) ten"
      using True c by (subst round_digit.simps) simp
    moreover have "unat rst + (Suc d - d') * unat ten \<le> unat delta" using ih(4,5) sum by (simp add: Suc_diff_le)
    ultimately show ?thesis using ih by auto
  qed
qed simp

lemma grisu2_round_ok:
  assumes "unat c = 48 + d" and "unat dst \<le> unat delta" and "unat rst \<le> unat delta" and "unat delta < unat rst + d * unat ten"
  shows "\<exists>c' d'. grisu2_round (buffer @ [c]) dst delta rst ten = Some (buffer @ [c']) \<and> unat c' = 48 + d' \<and> 1 \<le> d' \<and> d' \<le> d \<and>
    unat rst + (d - d') * unat ten \<le> unat delta"
proof -
  have "0 < ten" using assms(3,4) by (cases "ten = 0") (auto simp: word_neq_0_conv)
  then show ?thesis
    using round_digit_ok [OF assms(1,3,4), of dst] assms(2,3) by (auto simp: grisu2_round_def word_le_nat_alt)
qed

lemma digit_word: "unat d \<le> 9 \<Longrightarrow> unat (48 + ucast d :: byte) = 48 + unat (d :: 'a::len word)"
proof -
  assume d: "unat d \<le> 9"
  have "unat (ucast d :: byte) = unat d" using d by (simp add: unsigned_ucast_eq take_bit_nat_eq_self)
  then show ?thesis using d by (simp add: unat_word_ariths)
qed

lemma digit_is_digit: "unat c = 48 + d \<Longrightarrow> d \<le> 9 \<Longrightarrow> is_digit c"
  by (simp add: is_digit_def word_le_nat_alt)

lemma value_snoc: "unat c = 48 + d \<Longrightarrow> digits_value (ds @ [c]) = 10 * digits_value ds + int d"
  using uint_nat [of c] by (simp add: digits_value_snoc)

section \<open>The fractional part\<close>

lemma gen_fraction_ok:
  assumes "sh \<le> 60" and "unat p2 < 2 ^ sh" and "0 < unat delta" and "unat delta < unat p2" and "unat dst \<le> unat delta"
    and "buffer \<noteq> []" and "\<forall>c\<in>set buffer. is_digit c"
  shows "\<exists>ds k. gen_fraction sh p2 delta dst buffer m = Some (ds, m + Suc k) \<and> length ds = length buffer + Suc k \<and>
    (\<forall>c\<in>set ds. is_digit c) \<and> hd ds = hd buffer \<and>
    digits_value ds * 2 ^ sh \<le> 10 ^ Suc k * (digits_value buffer * 2 ^ sh + int (unat p2)) \<and>
    10 ^ Suc k * (digits_value buffer * 2 ^ sh + int (unat p2)) \<le> digits_value ds * 2 ^ sh + 10 ^ Suc k * int (unat delta) \<and>
    10 ^ k * unat delta < 2 ^ sh"
  using assms
proof (induction "2 ^ sh - unat delta" arbitrary: p2 delta dst buffer m rule: less_induct)
  case less
  have sh: "(2 :: nat) ^ sh \<le> 2 ^ 60" using less.prems(1) by (intro power_increasing) simp_all
  have p2: "unat (p2 * 10) = unat p2 * 10" using less.prems(2) sh by (intro unat_mult64 [of _ 10, simplified]) simp
  have de: "unat (delta * 10) = unat delta * 10" using less.prems(2,4) sh by (intro unat_mult64 [of _ 10, simplified]) simp
  have di: "unat (dst * 10) = unat dst * 10" using less.prems(2,4,5) sh by (intro unat_mult64 [of _ 10, simplified]) simp
  define d where "d = drop_bit sh (p2 * 10)"
  define r where "r = (p2 * 10) AND (push_bit sh 1 - 1)"
  define c :: byte where "c = 48 + ucast d"
  have d: "unat d = unat p2 * 10 div 2 ^ sh" by (simp add: d_def unat_drop_bit p2)
  have r: "unat r = unat p2 * 10 mod 2 ^ sh" unfolding r_def p2 [symmetric] using less.prems(1) by (intro unat_low_bits) simp
  have d9: "unat d \<le> 9"
  proof -
    have "unat p2 * 10 < 10 * 2 ^ sh" using less.prems(2) by simp
    then have "unat d < 10" by (simp add: d div_less_iff_less_mult)
    then show ?thesis by simp
  qed
  have nine: "\<not> 9 < d" using d9 by (simp add: word_less_nat_alt)
  have c: "unat c = 48 + unat d" using digit_word [OF d9] by (simp add: c_def)
  have one: "unat (push_bit sh 1 :: int64) = 2 ^ sh" using less.prems(1) by (intro unat_one_shl) simp
  have dr: "unat d * 2 ^ sh + unat r = unat p2 * 10" unfolding d r by (rule div_mult_mod_eq)
  have guard: "\<not> (- 1) div 10 < p2"
  proof -
    have "unat ((- 1 :: int64) div 10) = 1844674407370955161" by simp
    then show ?thesis using less.prems(2) sh by (simp add: word_less_nat_alt)
  qed
  have step: "gen_fraction sh p2 delta dst buffer m =
      (if r \<le> delta * 10 then map_option (\<lambda>b. (b, m + 1)) (grisu2_round (buffer @ [c]) (dst * 10) (delta * 10) r (push_bit sh 1))
       else gen_fraction sh r (delta * 10) (dst * 10) (buffer @ [c]) (m + 1))"
    by (subst gen_fraction.simps) (simp only: guard nine if_False Let_def flip: d_def r_def c_def)
  let ?B = "digits_value buffer"
  have whole: "10 * (?B * 2 ^ sh + int (unat p2)) = (10 * ?B + int (unat d)) * 2 ^ sh + int (unat r)"
  proof -
    have "int (unat d) * 2 ^ sh + int (unat r) = int (unat p2) * 10" using arg_cong [OF dr, of int] by simp
    then show ?thesis by (simp add: algebra_simps)
  qed
  show ?case
  proof (cases "r \<le> delta * 10")
    case True
    have le: "unat r \<le> unat (delta * 10)" using True by (simp add: word_le_nat_alt)
    have "unat (delta * 10) < unat r + unat d * unat (push_bit sh 1 :: int64)"
      unfolding one de using dr less.prems(4) by simp
    from grisu2_round_ok [OF c _ le this, of "dst * 10" buffer] less.prems(5) obtain c' d' where rd:
      "grisu2_round (buffer @ [c]) (dst * 10) (delta * 10) r (push_bit sh 1) = Some (buffer @ [c'])" "unat c' = 48 + d'" "1 \<le> d'"
      "d' \<le> unat d" "unat r + (unat d - d') * 2 ^ sh \<le> unat delta * 10"
      unfolding de di one by auto
    have v: "digits_value (buffer @ [c']) = 10 * ?B + int d'" using value_snoc [OF rd(2)] .
    have "int (unat r + (unat d - d') * 2 ^ sh) \<le> int (unat delta * 10)" using rd(5) by (simp only: of_nat_le_iff)
    then have up: "int (unat r) + (int (unat d) - int d') * 2 ^ sh \<le> int (unat delta) * 10" using rd(4) by (simp add: of_nat_diff)
    have lo: "int d' * 2 ^ sh \<le> int (unat d) * 2 ^ sh"
      using rd(4) by (intro mult_right_mono) (simp_all only: of_nat_le_iff zero_le_power zero_le_numeral)
    have b: "digits_value (buffer @ [c']) * 2 ^ sh \<le> 10 * (?B * 2 ^ sh + int (unat p2))"
      "10 * (?B * 2 ^ sh + int (unat p2)) \<le> digits_value (buffer @ [c']) * 2 ^ sh + 10 * int (unat delta)"
      unfolding v whole distrib_right using lo up [unfolded left_diff_distrib] by linarith+
    have "is_digit c'" by (rule digit_is_digit [OF rd(2)]) (use rd(4) d9 in linarith)
    then show ?thesis
      using step True rd(1) less.prems(2,4,6,7) b by (intro exI [of _ "buffer @ [c']"] exI [of _ 0]) auto
  next
    case False
    have gt: "unat delta * 10 < unat r" using False by (simp add: word_le_nat_alt de)
    have rl: "unat r < 2 ^ sh" by (simp add: r)
    have "is_digit c" by (rule digit_is_digit [OF c d9])
    moreover have "2 ^ sh - unat (delta * 10) < 2 ^ sh - unat delta" using less.prems(2,3,4) by (simp add: de)
    ultimately obtain ds k where ih: "gen_fraction sh r (delta * 10) (dst * 10) (buffer @ [c]) (m + 1) = Some (ds, m + 1 + Suc k)"
      "length ds = length (buffer @ [c]) + Suc k" "\<forall>c\<in>set ds. is_digit c" "hd ds = hd (buffer @ [c])"
      "digits_value ds * 2 ^ sh \<le> 10 ^ Suc k * (digits_value (buffer @ [c]) * 2 ^ sh + int (unat r))"
      "10 ^ Suc k * (digits_value (buffer @ [c]) * 2 ^ sh + int (unat r)) \<le> digits_value ds * 2 ^ sh + 10 ^ Suc k * int (unat (delta * 10))"
      "10 ^ k * unat (delta * 10) < 2 ^ sh"
      using less.hyps [of "delta * 10" r "dst * 10" "buffer @ [c]" "m + 1"] less.prems rl gt unfolding de di by auto
    have w: "10 ^ Suc k * (digits_value (buffer @ [c]) * 2 ^ sh + int (unat r)) = 10 ^ Suc (Suc k) * (?B * 2 ^ sh + int (unat p2))"
      unfolding value_snoc [OF c] whole [symmetric] by simp
    show ?thesis
      using step False ih(1-4,7) ih(5,6) [unfolded w] less.prems(6)
      by (intro exI [of _ ds] exI [of _ "Suc k"]) (simp add: de algebra_simps)
  qed
qed

section \<open>The integral part\<close>

lemma unat_shl_ucast:
  assumes "unat r * 2 ^ sh < 2 ^ 64"
  shows "unat (push_bit sh (ucast (r :: int32) :: int64)) = unat r * 2 ^ sh"
proof -
  have "unat (ucast r :: int64) = unat r" using unat_bound [of r] by (simp add: unsigned_ucast_eq take_bit_nat_eq_self)
  then show ?thesis using unat_shl64 [of "ucast r" sh] assms by simp
qed

text \<open>
  The digits printed for the number \<open>x\<close> in units of \<open>2 ^ sh\<close>, with \<open>pos\<close> digits before the point: they are below it
  by at most \<open>delta\<close>, and one digit less would not have been enough.
\<close>

definition digits_near :: "nat \<Rightarrow> int \<Rightarrow> real \<Rightarrow> real \<Rightarrow> bytes \<Rightarrow> bool" where
  "digits_near sh pos x delta ds \<longleftrightarrow>
     (let v = real_of_int (digits_value ds) * 10 powi (pos - int (length ds)) * 2 ^ sh
      in ds \<noteq> [] \<and> (\<forall>c\<in>set ds. is_digit c) \<and> hd ds \<noteq> 48 \<and> v \<le> x \<and> x \<le> v + delta \<and>
         delta < 10 powi (pos - int (length ds) + 1) * 2 ^ sh)"

lemma gen_integral_ok:
  assumes "sh \<le> 60" and "unat p1 < 10 ^ n" and "n \<noteq> 0 \<Longrightarrow> unat pow10 = 10 ^ (n - 1) \<and> 10 ^ (n - 1) * 2 ^ sh < (2 :: nat) ^ 64"
    and "unat p1 * 2 ^ sh + unat p2 < 2 ^ 64" and "unat p2 < 2 ^ sh" and "0 < unat delta"
    and "unat delta < unat p1 * 2 ^ sh + unat p2" and "unat dst \<le> unat delta" and "\<forall>c\<in>set buffer. is_digit c"
    and "buffer = [] \<and> n \<noteq> 0 \<and> 10 ^ (n - 1) \<le> unat p1 \<or> buffer \<noteq> [] \<and> hd buffer \<noteq> 48"
  shows "\<exists>ds. gen_integral n sh p1 pow10 p2 delta dst buffer dexp = Some (ds, dexp + int n + int (length buffer) - int (length ds)) \<and>
    digits_near sh (int n + int (length buffer))
      ((real_of_int (digits_value buffer) * 10 ^ n + real (unat p1)) * 2 ^ sh + real (unat p2)) (real (unat delta)) ds"
  using assms
proof (induction n arbitrary: p1 pow10 buffer)
  case 0
  let ?B = "digits_value buffer"
  have p1: "unat p1 = 0" using "0.prems"(2) by simp
  have lt: "unat delta < unat p2" using "0.prems"(7) p1 by simp
  obtain ds k where f: "gen_fraction sh p2 delta dst buffer 0 = Some (ds, 0 + Suc k)" "length ds = length buffer + Suc k"
    "\<forall>c\<in>set ds. is_digit c" "hd ds = hd buffer"
    "digits_value ds * 2 ^ sh \<le> 10 ^ Suc k * (?B * 2 ^ sh + int (unat p2))"
    "10 ^ Suc k * (?B * 2 ^ sh + int (unat p2)) \<le> digits_value ds * 2 ^ sh + 10 ^ Suc k * int (unat delta)"
    "10 ^ k * unat delta < 2 ^ sh"
    using gen_fraction_ok [OF "0.prems"(1,5,6) lt "0.prems"(8) _ "0.prems"(9), of 0] "0.prems"(10) by auto
  have top: "int 0 + int (length buffer) - int (length ds) = - int (Suc k)" using f(2) by simp
  have "- int (Suc k) + 1 = - int k" by simp
  then have pw: "(10 :: real) powi (- int (Suc k)) = 1 / 10 ^ Suc k" "(10 :: real) powi (- int (Suc k) + 1) = 1 / 10 ^ k"
    by (simp_all only: power_int_minus power_int_of_nat inverse_eq_divide)
  have r5: "real_of_int (digits_value ds) * 2 ^ sh \<le> 10 ^ Suc k * (real_of_int ?B * 2 ^ sh + real (unat p2))"
    using f(5) [folded of_int_le_iff [where 'a = real]] by simp
  have r6: "10 ^ Suc k * (real_of_int ?B * 2 ^ sh + real (unat p2)) \<le> real_of_int (digits_value ds) * 2 ^ sh + 10 ^ Suc k * real (unat delta)"
    using f(6) [folded of_int_le_iff [where 'a = real]] by simp
  have r7: "10 ^ k * real (unat delta) < 2 ^ sh" using f(7) [folded of_nat_less_iff [where 'a = real]] by simp
  have "delta < p2" using lt by (simp add: word_less_nat_alt)
  then have "gen_integral 0 sh p1 pow10 p2 delta dst buffer dexp = Some (ds, dexp + int 0 + int (length buffer) - int (length ds))"
    using f(1,2) by simp
  moreover have "digits_near sh (int 0 + int (length buffer)) ((real_of_int ?B * 10 ^ 0 + real (unat p1)) * 2 ^ sh + real (unat p2)) (real (unat delta)) ds"
    unfolding digits_near_def top pw Let_def p1 using f(2-4) "0.prems"(10) r5 r6 r7 by (auto simp: field_simps)
  ultimately show ?case by blast
next
  case (Suc n)
  let ?B = "digits_value buffer"
  have pow: "unat pow10 = 10 ^ n" "10 ^ n * 2 ^ sh < (2 :: nat) ^ 64" using Suc.prems(3) by simp_all
  define d r where "d = p1 div pow10" and "r = p1 mod pow10"
  define rst where "rst = push_bit sh (ucast r) + p2"
  define c :: byte where "c = 48 + ucast d"
  have d: "unat d = unat p1 div 10 ^ n" and r: "unat r = unat p1 mod 10 ^ n" by (simp_all add: d_def r_def unat_div unat_mod pow)
  have dr: "unat d * 10 ^ n + unat r = unat p1" unfolding d r by (rule div_mult_mod_eq)
  have d9: "unat d \<le> 9"
  proof -
    have "unat d < 10" unfolding d using Suc.prems(2) by (simp add: div_less_iff_less_mult)
    then show ?thesis by simp
  qed
  have c: "unat c = 48 + unat d" using digit_word [OF d9] by (simp add: c_def)
  have "unat r * 2 ^ sh \<le> unat p1 * 2 ^ sh" using dr by (intro mult_le_mono1) simp
  then have rs: "unat r * 2 ^ sh + unat p2 < 2 ^ 64" using Suc.prems(4) by linarith
  then have shl: "unat (push_bit sh (ucast r) :: int64) = unat r * 2 ^ sh" by (intro unat_shl_ucast) simp
  have rst: "unat rst = unat r * 2 ^ sh + unat p2" unfolding rst_def using unat_add64 [of "push_bit sh (ucast r)" p2] rs shl by simp
  have ten: "unat (push_bit sh (ucast pow10) :: int64) = 10 ^ n * 2 ^ sh" using unat_shl_ucast [of pow10 sh] pow by simp
  have nine: "\<not> 9 < d" using d9 by (simp add: word_less_nat_alt)
  have step: "gen_integral (Suc n) sh p1 pow10 p2 delta dst buffer dexp =
      (if rst \<le> delta then map_option (\<lambda>b. (b, dexp + int n)) (grisu2_round (buffer @ [c]) dst delta rst (push_bit sh (ucast pow10)))
       else gen_integral n sh r (pow10 div 10) p2 delta dst (buffer @ [c]) dexp)"
    by (simp only: gen_integral.simps nine if_False Let_def flip: d_def r_def rst_def c_def)
  have whole: "(real_of_int ?B * 10 ^ Suc n + real (unat p1)) * 2 ^ sh + real (unat p2) =
      (real_of_int (10 * ?B + int (unat d)) * 10 ^ n + real (unat r)) * 2 ^ sh + real (unat p2)"
  proof -
    have "real (unat p1) = real (unat d) * 10 ^ n + real (unat r)" using arg_cong [OF dr, of real] by simp
    then show ?thesis unfolding \<open>real (unat p1) = _\<close> by (simp add: algebra_simps)
  qed
  show ?case
  proof (cases "rst \<le> delta")
    case True
    then have le: "unat rst \<le> unat delta" by (simp add: word_le_nat_alt)
    have "unat rst + unat d * unat (push_bit sh (ucast pow10) :: int64) = unat p1 * 2 ^ sh + unat p2"
      unfolding rst ten dr [symmetric] by (simp add: algebra_simps)
    then have "unat delta < unat rst + unat d * unat (push_bit sh (ucast pow10) :: int64)" using Suc.prems(7) by simp
    from grisu2_round_ok [OF c Suc.prems(8) le this, of buffer] obtain c' d' where rd:
      "grisu2_round (buffer @ [c]) dst delta rst (push_bit sh (ucast pow10)) = Some (buffer @ [c'])" "unat c' = 48 + d'" "1 \<le> d'"
      "d' \<le> unat d" "unat rst + (unat d - d') * (10 ^ n * 2 ^ sh) \<le> unat delta"
      unfolding ten by blast
    have v: "digits_value (buffer @ [c']) = 10 * ?B + int d'" using value_snoc [OF rd(2)] .
    have up: "real (unat r) * 2 ^ sh + real (unat p2) + (real (unat d) - real d') * (10 ^ n * 2 ^ sh) \<le> real (unat delta)"
      using rd(5) [folded of_nat_le_iff [where 'a = real]] rd(4) by (simp add: rst of_nat_diff)
    have "real d' \<le> real (unat d)" using rd(4) by (simp only: of_nat_le_iff)
    then have lo: "real d' * (10 ^ n * 2 ^ sh) \<le> real (unat d) * (10 ^ n * 2 ^ sh)" by (intro mult_right_mono) simp_all
    have dl: "real (unat delta) < 10 ^ Suc n * 2 ^ sh"
    proof -
      have "(unat p1 + 1) * 2 ^ sh \<le> 10 ^ Suc n * 2 ^ sh" using Suc.prems(2) by (intro mult_le_mono1) simp
      then have "unat delta < 10 ^ Suc n * 2 ^ sh" using Suc.prems(5,7) by simp
      then show ?thesis by (simp only: of_nat_less_iff [where 'a = real, symmetric] of_nat_mult of_nat_power of_nat_numeral)
    qed
    have dg: "is_digit c'" by (rule digit_is_digit [OF rd(2)]) (use rd(4) d9 in linarith)
    have hd: "hd (buffer @ [c']) \<noteq> 48"
    proof (cases "buffer = []")
      case True
      then show ?thesis using rd(2,3) by auto
    qed (use Suc.prems(10) in simp)
    have top: "int (Suc n) + int (length buffer) - int (length (buffer @ [c'])) = int n" by simp
    have pw: "(10 :: real) powi int n = 10 ^ n" "(10 :: real) powi (int n + 1) = 10 ^ Suc n"
      using power_int_of_nat [of "10 :: real" n] power_int_of_nat [of "10 :: real" "Suc n"] by (simp_all add: add.commute)
    have x: "(real_of_int (10 * ?B + int (unat d)) * 10 ^ n + real (unat r)) * 2 ^ sh + real (unat p2) =
        10 * real_of_int ?B * (10 ^ n * 2 ^ sh) + real (unat d) * (10 ^ n * 2 ^ sh) + real (unat r) * 2 ^ sh + real (unat p2)"
      by (simp add: algebra_simps)
    have y: "real_of_int (10 * ?B + int d') * 10 ^ n * 2 ^ sh = 10 * real_of_int ?B * (10 ^ n * 2 ^ sh) + real d' * (10 ^ n * 2 ^ sh)"
      by (simp add: algebra_simps)
    have b: "real_of_int (10 * ?B + int d') * 10 ^ n * 2 ^ sh \<le> (real_of_int (10 * ?B + int (unat d)) * 10 ^ n + real (unat r)) * 2 ^ sh + real (unat p2)"
      "(real_of_int (10 * ?B + int (unat d)) * 10 ^ n + real (unat r)) * 2 ^ sh + real (unat p2) \<le>
        real_of_int (10 * ?B + int d') * 10 ^ n * 2 ^ sh + real (unat delta)"
      unfolding x y using lo up [unfolded left_diff_distrib] of_nat_0_le_iff [of "unat p2", where 'a = real]
        mult_nonneg_nonneg [of "real (unat r)" "2 ^ sh"] by (simp_all only: of_nat_0_le_iff zero_le_power zero_le_numeral simp_thms) linarith+
    have "digits_near sh (int (Suc n) + int (length buffer)) ((real_of_int ?B * 10 ^ Suc n + real (unat p1)) * 2 ^ sh + real (unat p2))
        (real (unat delta)) (buffer @ [c'])"
      unfolding digits_near_def whole top v Let_def pw using b dl dg hd Suc.prems(9) by simp
    then show ?thesis using step True rd(1) top by (intro exI [of _ "buffer @ [c']"]) simp
  next
    case False
    have gt: "unat delta < unat r * 2 ^ sh + unat p2" using False rst by (simp add: word_le_nat_alt)
    have dg: "is_digit c" by (rule digit_is_digit [OF c d9])
    have ne: "hd (buffer @ [c]) \<noteq> 48"
    proof (cases "buffer = []")
      case True
      then have "10 ^ n \<le> unat p1" using Suc.prems(10) by simp
      then have "1 \<le> unat d" unfolding d by (simp add: Suc_le_eq div_greater_zero_iff)
      then show ?thesis using True c by auto
    qed (use Suc.prems(10) in simp)
    have pow': "n \<noteq> 0 \<Longrightarrow> unat (pow10 div 10) = 10 ^ (n - 1) \<and> 10 ^ (n - 1) * 2 ^ sh < (2 :: nat) ^ 64"
    proof -
      assume "n \<noteq> 0"
      then obtain k where k: "n = Suc k" by (cases n) auto
      have "unat (pow10 div 10) = 10 ^ n div 10" by (simp add: unat_div pow)
      moreover have "(10 :: nat) ^ k * 2 ^ sh \<le> 10 ^ n * 2 ^ sh" unfolding k by (intro mult_le_mono1) simp
      then have "(10 :: nat) ^ k * 2 ^ sh < 2 ^ 64" using pow(2) by (rule le_less_trans)
      ultimately show ?thesis by (simp add: k)
    qed
    have rl: "unat r < 10 ^ n" by (simp add: r)
    from Suc.IH [OF Suc.prems(1) rl pow' rs Suc.prems(5,6) gt Suc.prems(8), of "buffer @ [c]"] Suc.prems(9) dg ne
    obtain ds where ih: "gen_integral n sh r (pow10 div 10) p2 delta dst (buffer @ [c]) dexp =
        Some (ds, dexp + int n + int (length (buffer @ [c])) - int (length ds))"
      "digits_near sh (int n + int (length (buffer @ [c]))) ((real_of_int (digits_value (buffer @ [c])) * 10 ^ n + real (unat r)) * 2 ^ sh + real (unat p2))
        (real (unat delta)) ds" by auto
    have "int n + int (length (buffer @ [c])) = int (Suc n) + int (length buffer)" by simp
    then show ?thesis using step False ih unfolding whole value_snoc [OF c] by (intro exI [of _ ds]) (simp add: algebra_simps)
  qed
qed

section \<open>All digits\<close>

lemma find_largest_pow10_ok:
  assumes "n \<noteq> 0"
  shows "\<exists>k pow10. find_largest_pow10 n = (Suc k, pow10) \<and> unat pow10 = 10 ^ k \<and> 10 ^ k \<le> unat n \<and> unat n < 10 ^ Suc k \<and> k < 10"
proof -
  have n: "0 < unat n" "unat n < 2 ^ 32" using assms unat_bound [of n] by (simp_all add: unat_gt_0)
  consider "1000000000 \<le> unat n" | "100000000 \<le> unat n" "unat n < 1000000000" | "10000000 \<le> unat n" "unat n < 100000000"
    | "1000000 \<le> unat n" "unat n < 10000000" | "100000 \<le> unat n" "unat n < 1000000" | "10000 \<le> unat n" "unat n < 100000"
    | "1000 \<le> unat n" "unat n < 10000" | "100 \<le> unat n" "unat n < 1000" | "10 \<le> unat n" "unat n < 100" | "unat n < 10" by linarith
  then show ?thesis using n by cases (simp_all add: find_largest_pow10_def word_le_nat_alt)
qed

lemma digits_near_length:
  assumes "digits_near sh pos x delta ds" and "10 powi (pos - 1) * 2 ^ sh \<le> x" and "x < 10 ^ 16 * delta"
  shows "length ds \<le> 17"
proof -
  have "delta < 10 powi (pos - int (length ds) + 1) * 2 ^ sh" using assms(1) by (auto simp: digits_near_def Let_def)
  then have "10 ^ 16 * delta < 10 ^ 16 * (10 powi (pos - int (length ds) + 1) * 2 ^ sh)" by (intro mult_strict_left_mono) simp_all
  with assms(2,3) have "10 powi (pos - 1) * 2 ^ sh < 10 ^ 16 * (10 powi (pos - int (length ds) + 1) * (2 :: real) ^ sh)"
    by (meson le_less_trans less_trans)
  then have "(10 :: real) powi (pos - 1) < 10 powi 16 * 10 powi (pos - int (length ds) + 1)" by simp
  also have "\<dots> = 10 powi (16 + (pos - int (length ds) + 1))" by (rule power_int_add [symmetric]) simp
  finally have "pos - 1 < 16 + (pos - int (length ds) + 1)"
    using power_int_increasing [of "16 + (pos - int (length ds) + 1)" "pos - 1" "10 :: real"] by linarith
  then show ?thesis by simp
qed

lemma grisu2_digit_gen_ok:
  assumes "- 60 \<le> e" and "e \<le> - 32" and "0 < unat fm" and "unat fm \<le> unat fw" and "unat fw \<le> unat fp" and "unat fm < unat fp"
    and "2 ^ nat (- e) \<le> unat fp"
  shows "\<exists>ds pos. grisu2_digit_gen dexp \<lparr>fp_f = fm, fp_e = e\<rparr> \<lparr>fp_f = fw, fp_e = e\<rparr> \<lparr>fp_f = fp, fp_e = e\<rparr> =
      Some (ds, dexp + pos - int (length ds)) \<and>
    digits_near (nat (- e)) pos (real (unat fp)) (real (unat fp - unat fm)) ds \<and>
    10 powi (pos - 1) * 2 ^ nat (- e) \<le> real (unat fp) \<and> 1 \<le> pos \<and> pos \<le> 10"
proof -
  define sh where "sh = nat (- e)"
  have sh: "32 \<le> sh" "sh \<le> 60" using assms(1,2) by (auto simp: sh_def)
  define p1 :: int32 where "p1 = ucast (drop_bit sh fp)"
  define p2 where "p2 = fp AND (push_bit sh 1 - 1)"
  have p2: "unat p2 = unat fp mod 2 ^ sh" unfolding p2_def using sh(2) by (intro unat_low_bits) simp
  have p2': "fp AND (2 ^ sh - 1) = p2" by (simp add: p2_def)
  have "unat fp div 2 ^ sh < 2 ^ 32"
  proof -
    have "(2 :: nat) ^ 64 = 2 ^ 32 * 2 ^ 32" by simp
    also have "\<dots> \<le> 2 ^ 32 * 2 ^ sh" using sh(1) by (intro mult_le_mono2 power_increasing) simp_all
    finally show ?thesis using unat64_less [of fp] by (simp add: div_less_iff_less_mult)
  qed
  then have p1: "unat p1 = unat fp div 2 ^ sh" by (simp add: p1_def unsigned_ucast_eq unat_drop_bit take_bit_nat_eq_self)
  have whole: "unat p1 * 2 ^ sh + unat p2 = unat fp" unfolding p1 p2 by (rule div_mult_mod_eq)
  have "0 < unat p1" unfolding p1 using assms(7) by (simp add: div_greater_zero_iff sh_def)
  then have nz: "p1 \<noteq> 0" by auto
  obtain k pow10 where k: "find_largest_pow10 p1 = (Suc k, pow10)" "unat pow10 = 10 ^ k" "10 ^ k \<le> unat p1" "unat p1 < 10 ^ Suc k" "k < 10"
    using find_largest_pow10_ok [OF nz] by blast
  have de: "unat (fp - fm) = unat fp - unat fm" and di: "unat (fp - fw) = unat fp - unat fw"
    using assms(5,6) by (auto intro!: unat_sub simp: word_le_nat_alt)
  have "10 ^ k * 2 ^ sh \<le> unat p1 * 2 ^ sh" using k(3) by (intro mult_le_mono1)
  then have lead: "10 ^ k * 2 ^ sh \<le> unat fp" using whole by linarith
  have small: "10 ^ k * 2 ^ sh < (2 :: nat) ^ 64" using lead unat64_less [of fp] by (rule le_less_trans)
  have "\<exists>ds. gen_integral (Suc k) sh p1 pow10 p2 (fp - fm) (fp - fw) [] dexp =
        Some (ds, dexp + int (Suc k) + int (length ([] :: bytes)) - int (length ds)) \<and>
      digits_near sh (int (Suc k) + int (length ([] :: bytes)))
        ((real_of_int (digits_value []) * 10 ^ Suc k + real (unat p1)) * 2 ^ sh + real (unat p2)) (real (unat (fp - fm))) ds"
    by (rule gen_integral_ok) (use sh(2) k small whole unat64_less [of fp] assms(3-6) p2 de di in simp_all)
  then obtain ds where ds: "gen_integral (Suc k) sh p1 pow10 p2 (fp - fm) (fp - fw) [] dexp = Some (ds, dexp + int (Suc k) - int (length ds))"
    "digits_near sh (int (Suc k)) (real (unat p1) * 2 ^ sh + real (unat p2)) (real (unat (fp - fm))) ds"
    by (auto simp: digits_value_def)
  have x: "real (unat p1) * 2 ^ sh + real (unat p2) = real (unat fp)" using arg_cong [OF whole, of real] by simp
  have "grisu2_digit_gen dexp \<lparr>fp_f = fm, fp_e = e\<rparr> \<lparr>fp_f = fw, fp_e = e\<rparr> \<lparr>fp_f = fp, fp_e = e\<rparr> =
      Some (ds, dexp + int (Suc k) - int (length ds))"
    using assms(1,2,5,6) nz k(1) ds(1) p2'
    by (simp add: grisu2_digit_gen_def kAlpha_def kGamma_def diyfp_sub_def word_le_nat_alt Let_def del: gen_integral.simps flip: sh_def p1_def)
  moreover have "10 powi (int (Suc k) - 1) * 2 ^ sh \<le> real (unat fp)"
    using of_nat_mono [OF lead, where 'a = real] by simp
  ultimately show ?thesis using ds(2) [unfolded x de] k(5) unfolding sh_def by (intro exI [of _ ds] exI [of _ "int (Suc k)"]) simp
qed

end
