(* ===== verification/Json_Lexer.thy ===== *)
theory Json_Lexer
  imports Json_Value Json_Utf8 Protocol_Stream
begin

text \<open>
  The class \<^verbatim>\<open>lexer\<close> of \<^verbatim>\<open>json/json.hpp\<close> over an input that is a byte string: the character source with one
  character of look-back, white space and comments, literals, strings with escapes and UTF-8 checks, and
  the state machine for numbers.  The conversion of a decimal text to a \<^verbatim>\<open>double\<close> by \<^verbatim>\<open>strtod\<close> of the C
  library is the argument \<open>strtod\<close>.  A character is \<open>None\<close> at the end of the input.  The position counters
  count bytes of a string in memory and cannot wrap.
\<close>

section \<open>Tokens and state\<close>

datatype token_type =
  uninitialized | literal_true | literal_false | literal_null | value_string | value_unsigned | value_integer
| value_float | begin_array | begin_object | end_array | end_object | name_separator | value_separator
| parse_error | end_of_input | literal_or_value

record lexer =
  ia :: bytes
  ignore_comments :: bool
  current :: "byte option"
  next_unget :: bool
  chars_read_total :: nat
  chars_read_current_line :: nat
  lines_read :: nat
  token_string :: bytes
  token_buffer :: bytes
  error_message :: bytes
  value_int :: int64
  value_uint :: int64
  value_double :: int64
  decimal_point_char :: byte

text \<open>
  The constructor.  The program never calls \<^verbatim>\<open>setlocale\<close>, so \<^verbatim>\<open>localeconv\<close> yields the decimal point of
  the locale C.
\<close>

definition new_lexer :: "bytes \<Rightarrow> bool \<Rightarrow> lexer" where
  "new_lexer input ignore_comm =
     \<lparr>ia = input, ignore_comments = ignore_comm, current = None, next_unget = False, chars_read_total = 0,
      chars_read_current_line = 0, lines_read = 0, token_string = [], token_buffer = [], error_message = [],
      value_int = 0, value_uint = 0, value_double = 0, decimal_point_char = 46\<rparr>"

section \<open>Input management\<close>

text \<open>\<^verbatim>\<open>iterator_input_adapter::get_character\<close>.\<close>

definition get_character :: "lexer \<Rightarrow> lexer" where
  "get_character lx =
     (case ia lx of [] \<Rightarrow> lx\<lparr>current := None\<rparr> | c # cs \<Rightarrow> lx\<lparr>current := Some c, ia := cs\<rparr>)"

definition get :: "lexer \<Rightarrow> lexer" where
  "get lx =
     (let lx1 = lx\<lparr>chars_read_total := chars_read_total lx + 1,
                   chars_read_current_line := chars_read_current_line lx + 1\<rparr>;
          lx2 = (if next_unget lx1 then lx1\<lparr>next_unget := False\<rparr> else get_character lx1);
          lx3 = (case current lx2 of None \<Rightarrow> lx2 | Some c \<Rightarrow> lx2\<lparr>token_string := token_string lx2 @ [c]\<rparr>)
      in if current lx3 = Some 10
         then lx3\<lparr>lines_read := lines_read lx3 + 1, chars_read_current_line := 0\<rparr> else lx3)"

definition unget :: "lexer \<Rightarrow> lexer" where
  "unget lx =
     (let lx1 = lx\<lparr>next_unget := True, chars_read_total := chars_read_total lx - 1\<rparr>;
          lx2 = (if chars_read_current_line lx1 = 0
                 then (if 0 < lines_read lx1 then lx1\<lparr>lines_read := lines_read lx1 - 1\<rparr> else lx1)
                 else lx1\<lparr>chars_read_current_line := chars_read_current_line lx1 - 1\<rparr>)
      in if current lx2 \<noteq> None then lx2\<lparr>token_string := butlast (token_string lx2)\<rparr> else lx2)"

definition add :: "byte \<Rightarrow> lexer \<Rightarrow> lexer" where
  "add c lx = lx\<lparr>token_buffer := token_buffer lx @ [c]\<rparr>"

definition add_all :: "bytes \<Rightarrow> lexer \<Rightarrow> lexer" where
  "add_all cs lx = fold add cs lx"

text \<open>\<^verbatim>\<open>eof()\<close> as a character is \<^verbatim>\<open>'\xFF'\<close>.\<close>

definition reset :: "lexer \<Rightarrow> lexer" where
  "reset lx = lx\<lparr>token_buffer := [], token_string := [case current lx of None \<Rightarrow> 0xFF | Some c \<Rightarrow> c]\<rparr>"

definition fail_with :: "bytes \<Rightarrow> lexer \<Rightarrow> lexer" where
  "fail_with msg lx = lx\<lparr>error_message := msg\<rparr>"

text \<open>What the lexer has still to read.\<close>

definition rest :: "lexer \<Rightarrow> bytes" where
  "rest lx = (if next_unget lx then (case current lx of None \<Rightarrow> [] | Some c \<Rightarrow> [c]) else []) @ ia lx"

definition lexer_ok :: "lexer \<Rightarrow> bool" where
  "lexer_ok lx \<longleftrightarrow> (next_unget lx \<and> current lx = None \<longrightarrow> ia lx = [])"

named_theorems lexer_simps \<open>how the operations on the input change the fields of the lexer\<close>

lemma get_Some: "current (get lx) = Some c \<Longrightarrow> rest lx = c # rest (get lx)"
  by (auto simp: get_def get_character_def rest_def Let_def split: if_splits list.splits option.splits)

lemma get_None: "lexer_ok lx \<Longrightarrow> current (get lx) = None \<Longrightarrow> rest lx = [] \<and> rest (get lx) = []"
  by (auto simp: get_def get_character_def rest_def lexer_ok_def Let_def split: if_splits list.splits option.splits)

lemma get_None_ia: "lexer_ok lx \<Longrightarrow> current (get lx) = None \<Longrightarrow> ia (get lx) = []"
  using get_None [of lx] by (simp add: rest_def)

lemma get_shorter: "current (get lx) = Some c \<Longrightarrow> length (rest (get lx)) < length (rest lx)"
  by (simp add: get_Some)

lemma get_no_longer: "length (rest (get lx)) \<le> length (rest lx)"
  by (auto simp: get_def get_character_def rest_def Let_def split: if_splits list.splits option.splits)

lemma get_fields [lexer_simps]:
  "next_unget (get lx) = False" "token_buffer (get lx) = token_buffer lx"
  "ignore_comments (get lx) = ignore_comments lx" "decimal_point_char (get lx) = decimal_point_char lx"
  "chars_read_total (get lx) = chars_read_total lx + 1"
  by (auto simp: get_def get_character_def Let_def split: list.splits option.splits)

lemma unget_fields [lexer_simps]:
  "token_buffer (unget lx) = token_buffer lx" "ignore_comments (unget lx) = ignore_comments lx"
  "decimal_point_char (unget lx) = decimal_point_char lx" "current (unget lx) = current lx"
  "chars_read_total (unget lx) = chars_read_total lx - 1" "ia (unget lx) = ia lx" "next_unget (unget lx) = True"
  by (simp_all add: unget_def Let_def)

lemma rest_unget: "rest (unget lx) = (case current lx of None \<Rightarrow> [] | Some c \<Rightarrow> [c]) @ ia lx"
  by (auto simp: unget_def rest_def Let_def)

lemma rest_fields [lexer_simps]:
  "rest (add c lx) = rest lx" "rest (reset lx) = rest lx" "rest (fail_with m lx) = rest lx"
  "lexer_ok (add c lx) = lexer_ok lx" "lexer_ok (reset lx) = lexer_ok lx" "lexer_ok (fail_with m lx) = lexer_ok lx"
  "current (add c lx) = current lx" "current (reset lx) = current lx" "current (fail_with m lx) = current lx"
  "next_unget (add c lx) = next_unget lx" "next_unget (reset lx) = next_unget lx"
  "chars_read_total (add c lx) = chars_read_total lx" "chars_read_total (reset lx) = chars_read_total lx"
  "token_buffer (add c lx) = token_buffer lx @ [c]" "token_buffer (reset lx) = []"
  "ignore_comments (add c lx) = ignore_comments lx" "ignore_comments (reset lx) = ignore_comments lx"
  "decimal_point_char (add c lx) = decimal_point_char lx" "decimal_point_char (reset lx) = decimal_point_char lx"
  by (auto simp: add_def reset_def fail_with_def rest_def lexer_ok_def)

section \<open>Strings\<close>

definition hex_value :: "byte \<Rightarrow> int32 option" where
  "hex_value c =
     (if 0x30 \<le> c \<and> c \<le> 0x39 then Some (ucast c - 0x30)
      else if 0x41 \<le> c \<and> c \<le> 0x46 then Some (ucast c - 0x37)
      else if 0x61 \<le> c \<and> c \<le> 0x66 then Some (ucast c - 0x57)
      else None)"

fun get_hex :: "nat list \<Rightarrow> int32 \<Rightarrow> lexer \<Rightarrow> int32 option \<times> lexer" where
  "get_hex [] codepoint lx = (Some codepoint, lx)"
| "get_hex (factor # factors) codepoint lx =
     (let lx1 = get lx
      in case Option.bind (current lx1) hex_value of
           None \<Rightarrow> (None, lx1)
         | Some d \<Rightarrow> get_hex factors (codepoint + push_bit factor d) lx1)"

text \<open>\<open>None\<close>: \<^verbatim>\<open>-1\<close>, no hexadecimal digit.\<close>

definition get_codepoint :: "lexer \<Rightarrow> int32 option \<times> lexer" where
  "get_codepoint lx = get_hex [12, 8, 4, 0] 0 lx"

fun read_ranges :: "(byte \<times> byte) list \<Rightarrow> lexer \<Rightarrow> bool \<times> lexer" where
  "read_ranges [] lx = (True, lx)"
| "read_ranges ((lo, hi) # ranges) lx =
     (let lx1 = get lx
      in case current lx1 of
           None \<Rightarrow> (False, fail_with (lit ''invalid string: ill-formed UTF-8 byte'') lx1)
         | Some c \<Rightarrow>
             (if lo \<le> c \<and> c \<le> hi then read_ranges ranges (add c lx1)
              else (False, fail_with (lit ''invalid string: ill-formed UTF-8 byte'') lx1)))"

definition next_byte_in_range :: "byte \<Rightarrow> (byte \<times> byte) list \<Rightarrow> lexer \<Rightarrow> bool \<times> lexer" where
  "next_byte_in_range c ranges lx = read_ranges ranges (add c lx)"

definition hex_message :: bytes where
  "hex_message = lit ''invalid string: '' @ [39, 92, 117, 39] @ lit '' must be followed by 4 hex digits''"

text \<open>The case \<^verbatim>\<open>'u'\<close> of an escape.\<close>

definition scan_unicode :: "lexer \<Rightarrow> bool \<times> lexer" where
  "scan_unicode lx =
     (case get_codepoint lx of
        (None, lx1) \<Rightarrow> (False, fail_with hex_message lx1)
      | (Some codepoint1, lx1) \<Rightarrow>
          (if 0xD800 \<le> codepoint1 \<and> codepoint1 \<le> 0xDBFF then
             (let bad = fail_with (lit ''invalid string: surrogate U+D800..U+DBFF must be followed by U+DC00..U+DFFF'');
                  lx2 = get lx1
              in if current lx2 \<noteq> Some 92 then (False, bad lx2)
                 else
                   (let lx3 = get lx2
                    in if current lx3 \<noteq> Some 117 then (False, bad lx3)
                       else
                         (case get_codepoint lx3 of
                            (None, lx4) \<Rightarrow> (False, fail_with hex_message lx4)
                          | (Some codepoint2, lx4) \<Rightarrow>
                              (if 0xDC00 \<le> codepoint2 \<and> codepoint2 \<le> 0xDFFF
                               then (True, add_all (codepoint_bytes (push_bit 10 codepoint1 + codepoint2 - 0x35FDC00)) lx4)
                               else (False, bad lx4)))))
           else if 0xDC00 \<le> codepoint1 \<and> codepoint1 \<le> 0xDFFF
           then (False, fail_with (lit ''invalid string: surrogate U+DC00..U+DFFF must follow U+D800..U+DBFF'') lx1)
           else (True, add_all (codepoint_bytes codepoint1) lx1)))"

text \<open>The switch after a backslash.\<close>

definition scan_escape :: "lexer \<Rightarrow> bool \<times> lexer" where
  "scan_escape lx =
     (let lx1 = get lx; bad = (False, fail_with (lit ''invalid string: forbidden character after backslash'') lx1)
      in case current lx1 of
           None \<Rightarrow> bad
         | Some c \<Rightarrow>
             (if c = 34 then (True, add 34 lx1)
              else if c = 92 then (True, add 92 lx1)
              else if c = 47 then (True, add 47 lx1)
              else if c = 98 then (True, add 8 lx1)
              else if c = 102 then (True, add 12 lx1)
              else if c = 110 then (True, add 10 lx1)
              else if c = 114 then (True, add 13 lx1)
              else if c = 116 then (True, add 9 lx1)
              else if c = 117 then scan_unicode lx1
              else bad))"

definition control_names :: "string list" where
  "control_names =
     [''NUL'', ''SOH'', ''STX'', ''ETX'', ''EOT'', ''ENQ'', ''ACK'', ''BEL'', ''BS'', ''HT'', ''LF'', ''VT'', ''FF'', ''CR'', ''SO'',
      ''SI'', ''DLE'', ''DC1'', ''DC2'', ''DC3'', ''DC4'', ''NAK'', ''SYN'', ''ETB'', ''CAN'', ''EM'', ''SUB'', ''ESC'', ''FS'', ''GS'',
      ''RS'', ''US'']"

text \<open>The message for a control character in a string.\<close>

definition control_message :: "byte \<Rightarrow> bytes" where
  "control_message c =
     (let hex = lit [''0123456789ABCDEF'' ! (unat c div 16), ''0123456789ABCDEF'' ! (unat c mod 16)]
      in lit ''invalid string: control character U+00'' @ hex @ lit '' ('' @ lit (control_names ! unat c) @
         lit '') must be escaped to '' @ [92, 117, 48, 48] @ hex @
         (if c = 8 then lit '' or '' @ [92, 98] else if c = 9 then lit '' or '' @ [92, 116]
          else if c = 10 then lit '' or '' @ [92, 110] else if c = 12 then lit '' or '' @ [92, 102]
          else if c = 13 then lit '' or '' @ [92, 114] else []))"

text \<open>The byte ranges that must follow the first byte of a multi-byte character.\<close>

definition utf8_ranges :: "byte \<Rightarrow> (byte \<times> byte) list option" where
  "utf8_ranges c =
     (if 0xC2 \<le> c \<and> c \<le> 0xDF then Some [(0x80, 0xBF)]
      else if c = 0xE0 then Some [(0xA0, 0xBF), (0x80, 0xBF)]
      else if c = 0xED then Some [(0x80, 0x9F), (0x80, 0xBF)]
      else if 0xE1 \<le> c \<and> c \<le> 0xEF then Some [(0x80, 0xBF), (0x80, 0xBF)]
      else if c = 0xF0 then Some [(0x90, 0xBF), (0x80, 0xBF), (0x80, 0xBF)]
      else if 0xF1 \<le> c \<and> c \<le> 0xF3 then Some [(0x80, 0xBF), (0x80, 0xBF), (0x80, 0xBF)]
      else if c = 0xF4 then Some [(0x80, 0x8F), (0x80, 0xBF), (0x80, 0xBF)]
      else None)"

lemma add_all_fields [lexer_simps]:
  "rest (add_all cs lx) = rest lx" "lexer_ok (add_all cs lx) = lexer_ok lx" "current (add_all cs lx) = current lx"
  "token_buffer (add_all cs lx) = token_buffer lx @ cs" "chars_read_total (add_all cs lx) = chars_read_total lx"
  "next_unget (add_all cs lx) = next_unget lx" "ignore_comments (add_all cs lx) = ignore_comments lx"
  "decimal_point_char (add_all cs lx) = decimal_point_char lx"
  unfolding add_all_def by (induction cs arbitrary: lx) (simp_all add: lexer_simps)

text \<open>The lexer only ever reads on: what is left gets no longer, and the settings stay.\<close>

definition reads :: "lexer \<Rightarrow> lexer \<Rightarrow> bool" where
  "reads lx lx' \<longleftrightarrow>
     length (rest lx') \<le> length (rest lx) \<and> (lexer_ok lx \<longrightarrow> lexer_ok lx') \<and>
     ignore_comments lx' = ignore_comments lx \<and> decimal_point_char lx' = decimal_point_char lx"

lemma reads_refl [intro, simp]: "reads lx lx"
  by (simp add: reads_def)

lemma reads_steps [intro!]:
  "reads lx lx1 \<Longrightarrow> reads lx (get lx1)" "reads lx lx1 \<Longrightarrow> reads lx (add c lx1)"
  "reads lx lx1 \<Longrightarrow> reads lx (reset lx1)" "reads lx lx1 \<Longrightarrow> reads lx (fail_with m lx1)"
  "reads lx lx1 \<Longrightarrow> reads lx (add_all cs lx1)"
  using get_no_longer [of lx1] by (auto simp: reads_def lexer_simps lexer_ok_def [of "get lx1"]) (simp add: fail_with_def)+

lemma reads_trans: "reads lx lx1 \<Longrightarrow> reads lx1 lx2 \<Longrightarrow> reads lx lx2"
  by (auto simp: reads_def)

lemma reads_hex: "get_hex fs cp lx1 = (r, lx2) \<Longrightarrow> reads lx lx1 \<Longrightarrow> reads lx lx2"
  by (induction fs arbitrary: cp lx1) (auto simp: Let_def split: option.splits)

lemma reads_ranges: "read_ranges rs lx1 = (r, lx2) \<Longrightarrow> reads lx lx1 \<Longrightarrow> reads lx lx2"
  by (induction rs lx1 rule: read_ranges.induct) (auto simp: Let_def split: option.splits if_splits)

lemma reads_codepoint: "get_codepoint lx1 = (r, lx2) \<Longrightarrow> reads lx lx1 \<Longrightarrow> reads lx lx2"
  unfolding get_codepoint_def by (rule reads_hex)

lemma reads_unicode: "scan_unicode lx1 = (r, lx2) \<Longrightarrow> reads lx lx1 \<Longrightarrow> reads lx lx2"
  by (auto simp: scan_unicode_def Let_def split: prod.splits option.splits if_splits intro: reads_codepoint)

lemma reads_escape: "scan_escape lx1 = (r, lx2) \<Longrightarrow> reads lx lx1 \<Longrightarrow> reads lx lx2"
  by (auto simp: scan_escape_def Let_def split: option.splits if_splits intro: reads_unicode)

lemma reads_get_less: "current (get lx) = Some c \<Longrightarrow> reads (get lx) lx2 \<Longrightarrow> length (rest lx2) < length (rest lx)"
  using get_shorter [of lx c] by (auto simp: reads_def)

function scan_string_loop :: "lexer \<Rightarrow> token_type \<times> lexer" where
  "scan_string_loop lx =
     (let lx1 = get lx
      in case current lx1 of
           None \<Rightarrow> (parse_error, fail_with (lit ''invalid string: missing closing quote'') lx1)
         | Some c \<Rightarrow>
             (if c = 34 then (value_string, lx1)
              else if c = 92 then
                (let (ok, lx2) = scan_escape lx1 in if ok then scan_string_loop lx2 else (parse_error, lx2))
              else if c < 0x20 then (parse_error, fail_with (control_message c) lx1)
              else if c \<le> 0x7F then scan_string_loop (add c lx1)
              else
                (case utf8_ranges c of
                   None \<Rightarrow> (parse_error, fail_with (lit ''invalid string: ill-formed UTF-8 byte'') lx1)
                 | Some ranges \<Rightarrow>
                     (let (ok, lx2) = next_byte_in_range c ranges lx1
                      in if ok then scan_string_loop lx2 else (parse_error, lx2)))))"
  by pat_completeness auto

termination
proof (relation "measure (\<lambda>lx. length (rest lx))", goal_cases)
  case (2 lx lx1 c p ok lx2)
  then have "reads (get lx) lx2" using reads_escape [of lx1 ok lx2 "get lx"] by auto
  then show ?case using 2 reads_get_less [of lx c lx2] by simp
next
  case (3 lx lx1 c)
  then show ?case by (auto simp: lexer_simps get_shorter)
next
  case (4 lx lx1 c ranges p ok lx2)
  have "reads (get lx) (add c (get lx))" by (rule reads_steps(2)) simp
  then have "reads (get lx) lx2"
    using 4 reads_ranges [of ranges "add c lx1" ok lx2 "get lx"] by (simp add: next_byte_in_range_def)
  then show ?case using 4 reads_get_less [of lx c lx2] by simp
qed simp

declare scan_string_loop.simps [simp del]

definition scan_string :: "lexer \<Rightarrow> token_type \<times> lexer" where
  "scan_string lx = scan_string_loop (reset lx)"

section \<open>Comments\<close>

text \<open>A single-line comment ends at a line end, a null byte or the end of the input.\<close>

function skip_line_comment :: "lexer \<Rightarrow> lexer" where
  "skip_line_comment lx =
     (let lx1 = get lx
      in case current lx1 of
           None \<Rightarrow> lx1
         | Some c \<Rightarrow> (if c = 10 \<or> c = 13 \<or> c = 0 then lx1 else skip_line_comment lx1))"
  by pat_completeness auto

termination
  by (relation "measure (\<lambda>lx. length (rest lx))") (auto simp: get_shorter)

lemma unget_get_less:
  "current (get lx) = Some c \<Longrightarrow> length (rest (unget (get (get lx)))) < length (rest lx)"
proof -
  assume "current (get lx) = Some c"
  then have "length (rest (get lx)) < length (rest lx)" by (rule get_shorter)
  moreover have "length (rest (unget (get (get lx)))) \<le> length (rest (get lx))"
  proof (cases "current (get (get lx))")
    case None
    then show ?thesis using get_no_longer [of "get lx"] by (simp add: rest_unget rest_def [of "get (get lx)"] lexer_simps)
  next
    case (Some d)
    then show ?thesis using get_Some [OF Some] by (simp add: rest_unget rest_def [of "get (get lx)"] lexer_simps)
  qed
  ultimately show ?thesis by simp
qed

function skip_block_comment :: "lexer \<Rightarrow> bool \<times> lexer" where
  "skip_block_comment lx =
     (let lx1 = get lx
      in case current lx1 of
           None \<Rightarrow> (False, fail_with (lit ''invalid comment; missing closing '' @ [39, 42, 47, 39]) lx1)
         | Some c \<Rightarrow>
             (if c = 0 then (False, fail_with (lit ''invalid comment; missing closing '' @ [39, 42, 47, 39]) lx1)
              else if c = 42 then
                (let lx2 = get lx1 in if current lx2 = Some 47 then (True, lx2) else skip_block_comment (unget lx2))
              else skip_block_comment lx1))"
  by pat_completeness auto

termination
  by (relation "measure (\<lambda>lx. length (rest lx))") (auto simp: get_shorter unget_get_less)

definition scan_comment :: "lexer \<Rightarrow> bool \<times> lexer" where
  "scan_comment lx =
     (let lx1 = get lx
      in if current lx1 = Some 47 then (True, skip_line_comment lx1)
         else if current lx1 = Some 42 then skip_block_comment lx1
         else (False, fail_with (lit ''invalid comment; expecting '' @ [39, 47, 39] @ lit '' or '' @ [39, 42, 39] @
                 lit '' after '' @ [39, 47, 39]) lx1))"

declare skip_line_comment.simps [simp del] skip_block_comment.simps [simp del]

section \<open>Numbers\<close>

text \<open>The labels of the state machine.\<close>

datatype number_label = Minus | Zero | Any1 | Decimal1 | Decimal2 | Exponent | Sign | Any2

definition is_digit19 :: "byte \<Rightarrow> bool" where
  "is_digit19 c \<longleftrightarrow> 49 \<le> c \<and> c \<le> 57"

text \<open>
  \<open>scan_number_done\<close>: \<^verbatim>\<open>strtoull\<close> and \<^verbatim>\<open>strtoll\<close> set \<^verbatim>\<open>errno\<close> exactly when the value is out of
  range; then, and for a number with a point or an exponent, \<^verbatim>\<open>strtod\<close> converts the text.
\<close>

definition number_done :: "(bytes \<Rightarrow> int64) \<Rightarrow> token_type \<Rightarrow> lexer \<Rightarrow> token_type \<times> lexer" where
  "number_done strtod number_type lx0 =
     (let lx = unget lx0; x = digits_value (token_buffer lx); y = - digits_value (tl (token_buffer lx))
      in if number_type = value_unsigned \<and> x < 2 ^ 64 then (value_unsigned, lx\<lparr>value_uint := word_of_int x\<rparr>)
         else if number_type = value_integer \<and> - (2 ^ 63) \<le> y then (value_integer, lx\<lparr>value_int := word_of_int y\<rparr>)
         else (value_float, lx\<lparr>value_double := strtod (token_buffer lx)\<rparr>))"

function number_at :: "(bytes \<Rightarrow> int64) \<Rightarrow> number_label \<Rightarrow> token_type \<Rightarrow> lexer \<Rightarrow> token_type \<times> lexer" where
  "number_at strtod l number_type lx =
     (let lx1 = get lx; finish = number_done strtod
      in case l of
           Minus \<Rightarrow>
             (case current lx1 of
                None \<Rightarrow> (parse_error, fail_with (lit ''invalid number; expected digit after '' @ [39, 45, 39]) lx1)
              | Some c \<Rightarrow>
                  (if c = 48 then number_at strtod Zero value_integer (add c lx1)
                   else if is_digit19 c then number_at strtod Any1 value_integer (add c lx1)
                   else (parse_error, fail_with (lit ''invalid number; expected digit after '' @ [39, 45, 39]) lx1)))
         | Zero \<Rightarrow>
             (case current lx1 of
                None \<Rightarrow> finish number_type lx1
              | Some c \<Rightarrow>
                  (if c = 46 then number_at strtod Decimal1 number_type (add (decimal_point_char lx1) lx1)
                   else if c = 101 \<or> c = 69 then number_at strtod Exponent number_type (add c lx1)
                   else finish number_type lx1))
         | Any1 \<Rightarrow>
             (case current lx1 of
                None \<Rightarrow> finish number_type lx1
              | Some c \<Rightarrow>
                  (if is_digit c then number_at strtod Any1 number_type (add c lx1)
                   else if c = 46 then number_at strtod Decimal1 number_type (add (decimal_point_char lx1) lx1)
                   else if c = 101 \<or> c = 69 then number_at strtod Exponent number_type (add c lx1)
                   else finish number_type lx1))
         | Decimal1 \<Rightarrow>
             (case current lx1 of
                None \<Rightarrow> (parse_error, fail_with (lit ''invalid number; expected digit after '' @ [39, 46, 39]) lx1)
              | Some c \<Rightarrow>
                  (if is_digit c then number_at strtod Decimal2 value_float (add c lx1)
                   else (parse_error, fail_with (lit ''invalid number; expected digit after '' @ [39, 46, 39]) lx1)))
         | Decimal2 \<Rightarrow>
             (case current lx1 of
                None \<Rightarrow> finish number_type lx1
              | Some c \<Rightarrow>
                  (if is_digit c then number_at strtod Decimal2 number_type (add c lx1)
                   else if c = 101 \<or> c = 69 then number_at strtod Exponent number_type (add c lx1)
                   else finish number_type lx1))
         | Exponent \<Rightarrow>
             (let bad = (parse_error, fail_with (lit ''invalid number; expected '' @ [39, 43, 39] @ lit '', '' @ [39, 45, 39] @
                           lit '', or digit after exponent'') lx1)
              in case current lx1 of
                   None \<Rightarrow> bad
                 | Some c \<Rightarrow>
                     (if c = 43 \<or> c = 45 then number_at strtod Sign value_float (add c lx1)
                      else if is_digit c then number_at strtod Any2 value_float (add c lx1)
                      else bad))
         | Sign \<Rightarrow>
             (let bad = (parse_error, fail_with (lit ''invalid number; expected digit after exponent sign'') lx1)
              in case current lx1 of
                   None \<Rightarrow> bad
                 | Some c \<Rightarrow> (if is_digit c then number_at strtod Any2 number_type (add c lx1) else bad))
         | Any2 \<Rightarrow>
             (case current lx1 of
                None \<Rightarrow> finish number_type lx1
              | Some c \<Rightarrow>
                  (if is_digit c then number_at strtod Any2 number_type (add c lx1) else finish number_type lx1)))"
  by pat_completeness auto

termination
  by (relation "measure (\<lambda>(_, _, _, lx). length (rest lx))") (auto simp: lexer_simps get_shorter)

declare number_at.simps [simp del]

text \<open>Called on a minus sign or a digit only.\<close>

definition scan_number :: "(bytes \<Rightarrow> int64) \<Rightarrow> byte \<Rightarrow> lexer \<Rightarrow> token_type \<times> lexer" where
  "scan_number strtod c lx =
     (let lx1 = add c (reset lx)
      in if c = 45 then number_at strtod Minus value_unsigned lx1
         else if c = 48 then number_at strtod Zero value_unsigned lx1
         else number_at strtod Any1 value_unsigned lx1)"

section \<open>Tokens\<close>

fun scan_literal :: "bytes \<Rightarrow> token_type \<Rightarrow> lexer \<Rightarrow> token_type \<times> lexer" where
  "scan_literal [] return_type lx = (return_type, lx)"
| "scan_literal (c # cs) return_type lx =
     (let lx1 = get lx
      in if current lx1 = Some c then scan_literal cs return_type lx1
         else (parse_error, fail_with (lit ''invalid literal'') lx1))"

definition skip_bom :: "lexer \<Rightarrow> bool \<times> lexer" where
  "skip_bom lx =
     (let lx1 = get lx
      in if current lx1 = Some 0xEF then
           (let lx2 = get lx1
            in if current lx2 \<noteq> Some 0xBB then (False, lx2)
               else (let lx3 = get lx2 in (current lx3 = Some 0xBF, lx3)))
         else (True, unget lx1))"

definition is_ws :: "byte \<Rightarrow> bool" where
  "is_ws c \<longleftrightarrow> c = 32 \<or> c = 9 \<or> c = 10 \<or> c = 13"

function skip_whitespace :: "lexer \<Rightarrow> lexer" where
  "skip_whitespace lx =
     (let lx1 = get lx
      in case current lx1 of None \<Rightarrow> lx1 | Some c \<Rightarrow> (if is_ws c then skip_whitespace lx1 else lx1))"
  by pat_completeness auto

termination
  by (relation "measure (\<lambda>lx. length (rest lx))") (auto simp: get_shorter)

declare skip_whitespace.simps [simp del]

lemma reads_whitespace: "reads lx lx1 \<Longrightarrow> reads lx (skip_whitespace lx1)"
  by (induction lx1 rule: skip_whitespace.induct) (subst skip_whitespace.simps, auto simp: Let_def split: option.split)

lemma reads_line_comment: "reads lx lx1 \<Longrightarrow> reads lx (skip_line_comment lx1)"
  by (induction lx1 rule: skip_line_comment.induct) (subst skip_line_comment.simps, auto simp: Let_def split: option.split)

lemma reads_unget_get: "reads lx lx1 \<Longrightarrow> reads lx (unget (get lx1))"
proof -
  assume lx1: "reads lx lx1"
  then have "reads lx (get lx1)" by auto
  then show ?thesis
    using lx1 get_Some [of lx1] get_None_ia [of lx1]
    by (cases "current (get lx1)")
      (auto simp: reads_def lexer_simps rest_unget rest_def [of "get lx1"] lexer_ok_def [of "unget (get lx1)"])
qed

lemma reads_block_comment: "skip_block_comment lx1 = (r, lx2) \<Longrightarrow> reads lx lx1 \<Longrightarrow> reads lx lx2"
proof (induction lx1 rule: skip_block_comment.induct)
  case (1 lx1)
  have "reads lx (unget (get (get lx1)))" using 1(4) by (intro reads_unget_get) auto
  then show ?case
    using 1 by (subst (asm) skip_block_comment.simps) (auto simp: Let_def split: option.splits if_splits)
qed

lemma reads_comment: "scan_comment lx1 = (r, lx2) \<Longrightarrow> reads lx lx1 \<Longrightarrow> reads lx lx2"
  by (auto simp: scan_comment_def Let_def split: if_splits intro: reads_line_comment reads_block_comment)

lemma comment_less: "scan_comment lx = (True, lx2) \<Longrightarrow> length (rest lx2) < length (rest lx)"
proof -
  assume c: "scan_comment lx = (True, lx2)"
  then obtain d where d: "current (get lx) = Some d" by (auto simp: scan_comment_def Let_def split: if_splits)
  have "reads (get lx) lx2"
    using c reads_line_comment [of "get lx" "get lx"] reads_block_comment [of "get lx" True lx2 "get lx"]
    by (auto simp: scan_comment_def Let_def split: if_splits)
  then show ?thesis using reads_get_less [OF d] by simp
qed

text \<open>\<^verbatim>\<open>while (ignore_comments && current == '/')\<close>.\<close>

function skip_comments :: "lexer \<Rightarrow> bool \<times> lexer" where
  "skip_comments lx =
     (if ignore_comments lx \<and> current lx = Some 47 then
        (let (ok, lx1) = scan_comment lx in if ok then skip_comments (skip_whitespace lx1) else (False, lx1))
      else (True, lx))"
  by pat_completeness auto

termination
proof (relation "measure (\<lambda>lx. length (rest lx))", simp, clarsimp)
  fix lx lx1
  assume "(True, lx1) = scan_comment lx"
  then have "length (rest lx1) < length (rest lx)" by (simp add: comment_less)
  moreover have "reads lx1 (skip_whitespace lx1)" by (rule reads_whitespace) simp
  ultimately show "length (rest (skip_whitespace lx1)) < length (rest lx)" by (simp add: reads_def)
qed

declare skip_comments.simps [simp del]

text \<open>The switch on the first character of a token.\<close>

definition scan_token :: "(bytes \<Rightarrow> int64) \<Rightarrow> lexer \<Rightarrow> token_type \<times> lexer" where
  "scan_token strtod lx =
     (case current lx of
        None \<Rightarrow> (end_of_input, lx)
      | Some c \<Rightarrow>
          (if c = 91 then (begin_array, lx)
           else if c = 93 then (end_array, lx)
           else if c = 123 then (begin_object, lx)
           else if c = 125 then (end_object, lx)
           else if c = 58 then (name_separator, lx)
           else if c = 44 then (value_separator, lx)
           else if c = 116 then scan_literal (lit ''rue'') literal_true lx
           else if c = 102 then scan_literal (lit ''alse'') literal_false lx
           else if c = 110 then scan_literal (lit ''ull'') literal_null lx
           else if c = 34 then scan_string lx
           else if c = 45 \<or> is_digit c then scan_number strtod c lx
           else if c = 0 then (end_of_input, lx)
           else (parse_error, fail_with (lit ''invalid literal'') lx)))"

definition scan :: "(bytes \<Rightarrow> int64) \<Rightarrow> lexer \<Rightarrow> token_type \<times> lexer" where
  "scan strtod lx =
     (let (bom_ok, lx1) = (if chars_read_total lx = 0 then skip_bom lx else (True, lx))
      in if \<not> bom_ok then (parse_error, fail_with (lit ''invalid BOM; must be 0xEF 0xBB 0xBF if given'') lx1)
         else
           (let (comments_ok, lx2) = skip_comments (skip_whitespace lx1)
            in if \<not> comments_ok then (parse_error, lx2) else scan_token strtod lx2))"

section \<open>Lemmas: every token consumes input\<close>

lemma reads_string: "scan_string_loop lx1 = (r, lx2) \<Longrightarrow> reads lx lx1 \<Longrightarrow> reads lx lx2"
proof (induction lx1 rule: scan_string_loop.induct)
  case (1 lx1)
  have g: "reads lx (get lx1)" using 1(5) by auto
  show ?case
  proof (cases "current (get lx1)")
    case None
    then show ?thesis using 1(4) g by (subst (asm) scan_string_loop.simps) auto
  next
    case (Some c)
    have "\<And>ok l. scan_escape (get lx1) = (ok, l) \<Longrightarrow> reads lx l"
      and "\<And>rs ok l. next_byte_in_range c rs (get lx1) = (ok, l) \<Longrightarrow> reads lx l"
      and "reads lx (add c (get lx1))"
      using g by (auto simp: next_byte_in_range_def intro: reads_escape reads_ranges)
    then show ?thesis
      using 1 Some g by (subst (asm) (4) scan_string_loop.simps) (auto simp: Let_def split: if_splits option.splits prod.splits)
  qed
qed

lemma value_fields [lexer_simps]:
  "rest (lx\<lparr>value_uint := v\<rparr>) = rest lx" "rest (lx\<lparr>value_int := v\<rparr>) = rest lx" "rest (lx\<lparr>value_double := v\<rparr>) = rest lx"
  "lexer_ok (lx\<lparr>value_uint := v\<rparr>) = lexer_ok lx" "lexer_ok (lx\<lparr>value_int := v\<rparr>) = lexer_ok lx"
  "lexer_ok (lx\<lparr>value_double := v\<rparr>) = lexer_ok lx"
  by (simp_all add: rest_def lexer_ok_def)

lemma reads_values:
  "reads lx lx1 \<Longrightarrow> reads lx (lx1\<lparr>value_uint := v\<rparr>)" "reads lx lx1 \<Longrightarrow> reads lx (lx1\<lparr>value_int := v\<rparr>)"
  "reads lx lx1 \<Longrightarrow> reads lx (lx1\<lparr>value_double := v\<rparr>)"
  by (simp_all add: reads_def lexer_simps)

lemma reads_number_done: "number_done st nt (get lx1) = (r, lx2) \<Longrightarrow> reads lx lx1 \<Longrightarrow> reads lx lx2"
  using reads_values [OF reads_unget_get] by (auto simp: number_done_def Let_def split: if_splits)

lemma number_step:
  "number_at st l nt lx = (r, lx2) \<Longrightarrow>
   (\<exists>m. lx2 = fail_with m (get lx)) \<or> (\<exists>nt. number_done st nt (get lx) = (r, lx2)) \<or>
   (\<exists>l nt c d. current (get lx) = Some c \<and> number_at st l nt (add d (get lx)) = (r, lx2))"
  by (subst (asm) number_at.simps, cases l) (auto simp: Let_def split: option.splits if_splits)

lemma reads_number: "number_at st l nt lx1 = (r, lx2) \<Longrightarrow> reads lx lx1 \<Longrightarrow> reads lx lx2"
proof (induction "length (rest lx1)" arbitrary: l nt lx1 rule: less_induct)
  case less
  from number_step [OF less.prems(1)] show ?case
  proof (elim disjE exE conjE)
    fix l nt c d
    assume "current (get lx1) = Some c" and n: "number_at st l nt (add d (get lx1)) = (r, lx2)"
    then have "length (rest (add d (get lx1))) < length (rest lx1)" by (simp add: lexer_simps get_shorter)
    moreover have "reads lx (add d (get lx1))" using less.prems(2) by auto
    ultimately show ?thesis using less.hyps n by blast
  qed (use less.prems(2) reads_number_done in auto)
qed

lemma reads_literal: "scan_literal cs t lx1 = (r, lx2) \<Longrightarrow> reads lx lx1 \<Longrightarrow> reads lx lx2"
  by (induction cs t lx1 rule: scan_literal.induct) (auto simp: Let_def split: if_splits)

lemma reads_token: "scan_token st lx1 = (r, lx2) \<Longrightarrow> reads lx lx1 \<Longrightarrow> reads lx lx2"
  by (auto simp: scan_token_def scan_string_def scan_number_def Let_def split: option.splits if_splits
      intro: reads_literal reads_string reads_number)

lemma reads_comments: "skip_comments lx1 = (r, lx2) \<Longrightarrow> reads lx lx1 \<Longrightarrow> reads lx lx2"
proof (induction lx1 rule: skip_comments.induct)
  case (1 lx1)
  show ?case
  proof (cases "ignore_comments lx1 \<and> current lx1 = Some 47")
    case True
    obtain ok lx3 where c: "scan_comment lx1 = (ok, lx3)" by (cases "scan_comment lx1")
    then have "reads lx lx3" "reads lx (skip_whitespace lx3)" using reads_comment 1(3) reads_whitespace by blast+
    then show ?thesis using 1 True c by (subst (asm) (2) skip_comments.simps) (auto split: if_splits)
  qed (use 1 in \<open>auto simp: skip_comments.simps [of lx1]\<close>)
qed

lemma reads_bom: "skip_bom lx1 = (r, lx2) \<Longrightarrow> reads lx lx1 \<Longrightarrow> reads lx lx2"
  using reads_unget_get [of lx lx1] by (auto simp: skip_bom_def Let_def split: if_splits)

lemma reads_scan: "scan st lx1 = (t, lx2) \<Longrightarrow> reads lx lx1 \<Longrightarrow> reads lx lx2"
proof -
  assume s: "scan st lx1 = (t, lx2)" and r: "reads lx lx1"
  obtain ok lx3 where b: "(if chars_read_total lx1 = 0 then skip_bom lx1 else (True, lx1)) = (ok, lx3)"
    by (cases "if chars_read_total lx1 = 0 then skip_bom lx1 else (True, lx1)") blast
  then have lx3: "reads lx lx3" using r by (auto split: if_splits intro: reads_bom)
  obtain ok2 lx4 where c: "skip_comments (skip_whitespace lx3) = (ok2, lx4)" by fastforce
  then have "reads lx lx4" using lx3 by (blast intro: reads_comments reads_whitespace)
  then show ?thesis using s b c lx3 by (auto simp: scan_def split: if_splits intro: reads_token)
qed

text \<open>The first character of a token has been consumed when the token is scanned.\<close>

lemma whitespace_less: "current (skip_whitespace lx) = Some c \<Longrightarrow> length (rest (skip_whitespace lx)) < length (rest lx)"
proof (induction lx rule: skip_whitespace.induct)
  case (1 lx)
  show ?case
  proof (cases "current (get lx)")
    case (Some d)
    then have l: "length (rest (get lx)) < length (rest lx)" by (rule get_shorter)
    have eq: "skip_whitespace lx = (if is_ws d then skip_whitespace (get lx) else get lx)"
      using Some by (simp add: skip_whitespace.simps [of lx])
    then show ?thesis using 1(1) [OF refl Some] 1(2) l by (cases "is_ws d") auto
  qed (use 1 in \<open>auto simp: skip_whitespace.simps [of lx]\<close>)
qed

lemma comments_less:
  assumes "skip_comments lx1 = (True, lx2)" and "current lx2 = Some c"
    and "current lx1 \<noteq> None \<longrightarrow> length (rest lx1) < n" and "length (rest lx1) \<le> n"
  shows "length (rest lx2) < n"
  using assms
proof (induction lx1 rule: skip_comments.induct)
  case (1 lx1)
  show ?case
  proof (cases "ignore_comments lx1 \<and> current lx1 = Some 47")
    case True
    obtain ok lx3 where c: "scan_comment lx1 = (ok, lx3)" by (cases "scan_comment lx1")
    then have ok: ok and nx: "skip_comments (skip_whitespace lx3) = (True, lx2)"
      using 1(2) True by (auto simp: skip_comments.simps [of lx1] split: if_splits)
    then have l: "length (rest lx3) < length (rest lx1)" using comment_less c by auto
    have "reads lx3 (skip_whitespace lx3)" "reads (skip_whitespace lx3) lx2"
      using reads_whitespace [of lx3 lx3] reads_comments [OF nx] by auto
    then show ?thesis using l 1(5) by (auto simp: reads_def)
  next
    case False
    then have "lx2 = lx1" using 1(2) by (auto simp: skip_comments.simps [of lx1])
    then show ?thesis using 1 by auto
  qed
qed

lemma scan_less:
  assumes "scan st lx = (t, lx')" and "t \<noteq> end_of_input" and "t \<noteq> parse_error"
  shows "length (rest lx') < length (rest lx)"
proof -
  obtain ok lx3 where b: "(if chars_read_total lx = 0 then skip_bom lx else (True, lx)) = (ok, lx3)"
    by (cases "if chars_read_total lx = 0 then skip_bom lx else (True, lx)") blast
  then have lx3: "reads lx lx3" by (auto split: if_splits intro: reads_bom)
  obtain ok2 lx4 where c: "skip_comments (skip_whitespace lx3) = (ok2, lx4)" by fastforce
  have tok: "ok2" "scan_token st lx4 = (t, lx')" using assms b c by (auto simp: scan_def split: if_splits)
  then obtain d where d: "current lx4 = Some d" using assms(2) by (cases "current lx4") (auto simp: scan_token_def)
  have "length (rest (skip_whitespace lx3)) \<le> length (rest lx3)"
    using reads_whitespace [of lx3 lx3] by (auto simp: reads_def)
  then have "length (rest lx4) < length (rest lx3)"
    using comments_less [of "skip_whitespace lx3" lx4 d] whitespace_less [of lx3] c tok(1) d by auto
  moreover have "reads lx4 lx'" using reads_token [OF tok(2)] by simp
  ultimately show ?thesis using lx3 by (auto simp: reads_def)
qed

end
