(* ===== verification/Json_Parser.thy ===== *)
theory Json_Parser
  imports Json_Lexer
begin

text \<open>
  The classes \<^verbatim>\<open>parser\<close> and \<^verbatim>\<open>json_sax_dom_parser\<close> of \<^verbatim>\<open>json/json.hpp\<close> and \<^verbatim>\<open>basic_json::parse\<close>, as the server calls it:
  without a callback, with exceptions allowed.  The document is built in place; the pointers of the builder into
  the unfinished document are paths from its root.  A failed assertion of the source is the error
  \<open>Assert_failed\<close>; that none ever fails is shown below.
\<close>

section \<open>Pointers into a document\<close>

datatype step = At nat | Member bytes

type_synonym path = "step list"

fun json_at :: "json \<Rightarrow> path \<Rightarrow> json option" where
  "json_at j [] = Some j"
| "json_at (JArray js) (At i # p) = (if i < length js then json_at (js ! i) p else None)"
| "json_at (JObject ms) (Member k # p) = (case map_find k ms of None \<Rightarrow> None | Some v \<Rightarrow> json_at v p)"
| "json_at _ _ = None"

fun json_modify :: "(json \<Rightarrow> json) \<Rightarrow> path \<Rightarrow> json \<Rightarrow> json" where
  "json_modify f [] j = f j"
| "json_modify f (At i # p) (JArray js) = JArray (if i < length js then js[i := json_modify f p (js ! i)] else js)"
| "json_modify f (Member k # p) (JObject ms) =
     JObject (case map_find k ms of None \<Rightarrow> ms | Some v \<Rightarrow> map_assign k (json_modify f p v) ms)"
| "json_modify f _ j = j"

section \<open>Errors\<close>

datatype json_error = Parse_error nat bytes | Out_of_range bytes | Assert_failed

definition token_type_name :: "token_type \<Rightarrow> bytes" where
  "token_type_name t =
     (case t of
        uninitialized \<Rightarrow> lit ''<uninitialized>''
      | literal_true \<Rightarrow> lit ''true literal''
      | literal_false \<Rightarrow> lit ''false literal''
      | literal_null \<Rightarrow> lit ''null literal''
      | value_string \<Rightarrow> lit ''string literal''
      | value_unsigned \<Rightarrow> lit ''number literal''
      | value_integer \<Rightarrow> lit ''number literal''
      | value_float \<Rightarrow> lit ''number literal''
      | begin_array \<Rightarrow> [39, 91, 39]
      | begin_object \<Rightarrow> [39, 123, 39]
      | end_array \<Rightarrow> [39, 93, 39]
      | end_object \<Rightarrow> [39, 125, 39]
      | name_separator \<Rightarrow> [39, 58, 39]
      | value_separator \<Rightarrow> [39, 44, 39]
      | parse_error \<Rightarrow> lit ''<parse error>''
      | end_of_input \<Rightarrow> lit ''end of input''
      | literal_or_value \<Rightarrow> [39, 91, 39] @ lit '', '' @ [39, 123, 39] @ lit '', or a literal'')"

text \<open>\<^verbatim>\<open>get_token_string\<close>: control characters appear as \<^verbatim>\<open><U+XXXX>\<close>.\<close>

definition get_token_string :: "lexer \<Rightarrow> bytes" where
  "get_token_string lx =
     concat (map (\<lambda>c. if c \<le> 0x1F
                      then lit ''<U+00'' @ lit [''0123456789ABCDEF'' ! (unat c div 16), ''0123456789ABCDEF'' ! (unat c mod 16)] @ lit ''>''
                      else [c]) (token_string lx))"

section \<open>The document builder\<close>

record sax_dom =
  root :: json
  ref_stack :: "path list"
  object_element :: "path option"

text \<open>The back of the stack is the head of the list.\<close>

definition handle_value :: "json \<Rightarrow> sax_dom \<Rightarrow> json_error + path \<times> sax_dom" where
  "handle_value v sd =
     (case ref_stack sd of
        [] \<Rightarrow> Inr ([], sd\<lparr>root := v\<rparr>)
      | p # _ \<Rightarrow>
          (case json_at (root sd) p of
             Some (JArray js) \<Rightarrow>
               Inr (p @ [At (length js)], sd\<lparr>root := json_modify (\<lambda>_. JArray (js @ [v])) p (root sd)\<rparr>)
           | Some (JObject ms) \<Rightarrow>
               (case object_element sd of
                  None \<Rightarrow> Inl Assert_failed
                | Some e \<Rightarrow> Inr (e, sd\<lparr>root := json_modify (\<lambda>_. v) e (root sd)\<rparr>))
           | _ \<Rightarrow> Inl Assert_failed))"

definition sax_value :: "json \<Rightarrow> sax_dom \<Rightarrow> json_error + sax_dom" where
  "sax_value v sd = (case handle_value v sd of Inl e \<Rightarrow> Inl e | Inr (_, sd1) \<Rightarrow> Inr sd1)"

definition sax_start :: "json \<Rightarrow> sax_dom \<Rightarrow> json_error + sax_dom" where
  "sax_start v sd =
     (case handle_value v sd of Inl e \<Rightarrow> Inl e | Inr (p, sd1) \<Rightarrow> Inr (sd1\<lparr>ref_stack := p # ref_stack sd1\<rparr>))"

definition start_object :: "sax_dom \<Rightarrow> json_error + sax_dom" where
  "start_object = sax_start (JObject [])"

definition start_array :: "sax_dom \<Rightarrow> json_error + sax_dom" where
  "start_array = sax_start (JArray [])"

text \<open>Adds a null member where there is none and remembers where it is.\<close>

definition key :: "bytes \<Rightarrow> sax_dom \<Rightarrow> json_error + sax_dom" where
  "key val sd =
     (case ref_stack sd of
        [] \<Rightarrow> Inl Assert_failed
      | p # _ \<Rightarrow>
          (case json_at (root sd) p of
             Some (JObject ms) \<Rightarrow>
               Inr (sd\<lparr>root := json_modify (\<lambda>_. JObject (map_insert val JNull ms)) p (root sd),
                       object_element := Some (p @ [Member val])\<rparr>)
           | _ \<Rightarrow> Inl Assert_failed))"

definition end_object_event :: "sax_dom \<Rightarrow> json_error + sax_dom" where
  "end_object_event sd =
     (case ref_stack sd of
        [] \<Rightarrow> Inl Assert_failed
      | p # ps \<Rightarrow>
          (case json_at (root sd) p of
             Some (JObject ms) \<Rightarrow> Inr (sd\<lparr>ref_stack := ps\<rparr>) | _ \<Rightarrow> Inl Assert_failed))"

definition end_array_event :: "sax_dom \<Rightarrow> json_error + sax_dom" where
  "end_array_event sd =
     (case ref_stack sd of
        [] \<Rightarrow> Inl Assert_failed
      | p # ps \<Rightarrow>
          (case json_at (root sd) p of
             Some (JArray js) \<Rightarrow> Inr (sd\<lparr>ref_stack := ps\<rparr>) | _ \<Rightarrow> Inl Assert_failed))"

section \<open>The parser\<close>

record parser =
  last_token :: token_type
  m_lexer :: lexer

definition get_token :: "(bytes \<Rightarrow> int64) \<Rightarrow> parser \<Rightarrow> parser" where
  "get_token strtod p = (let (t, lx) = scan strtod (m_lexer p) in p\<lparr>last_token := t, m_lexer := lx\<rparr>)"

definition exception_message :: "parser \<Rightarrow> token_type \<Rightarrow> bytes \<Rightarrow> bytes" where
  "exception_message p expected context =
     lit ''syntax error '' @ (if context \<noteq> [] then lit ''while parsing '' @ context @ lit '' '' else []) @ lit ''- '' @
     (if last_token p = parse_error
      then error_message (m_lexer p) @ lit ''; last read: '' @ [39] @ get_token_string (m_lexer p) @ [39]
      else lit ''unexpected '' @ token_type_name (last_token p)) @
     (if expected \<noteq> uninitialized then lit ''; expected '' @ token_type_name expected else [])"

text \<open>\<^verbatim>\<open>parse_error::create(101, position, what)\<close>.\<close>

definition create_101 :: "parser \<Rightarrow> bytes \<Rightarrow> json_error" where
  "create_101 p what =
     Parse_error (chars_read_total (m_lexer p))
       (lit ''[json.exception.parse_error.101] parse error at line '' @ nat_digits (lines_read (m_lexer p) + 1) @
        lit '', column '' @ nat_digits (chars_read_current_line (m_lexer p)) @ lit '': '' @ what)"

text \<open>
  What an iteration of the loop does next: throw, go round again (with the stack of states and
  \<^verbatim>\<open>skip_to_state_evaluation\<close>), or leave the part of the body it is in.
\<close>

datatype sax_outcome = Throw json_error | Again "bool list" bool parser sax_dom | Leave parser sax_dom

definition sax_event :: "parser \<Rightarrow> json_error + sax_dom \<Rightarrow> sax_outcome" where
  "sax_event p r = (case r of Inl e \<Rightarrow> Throw e | Inr sd \<Rightarrow> Leave p sd)"

definition parse_key :: "(bytes \<Rightarrow> int64) \<Rightarrow> bool list \<Rightarrow> parser \<Rightarrow> sax_dom \<Rightarrow> sax_outcome" where
  "parse_key strtod states p sd =
     (if last_token p \<noteq> value_string then Throw (create_101 p (exception_message p value_string (lit ''object key'')))
      else
        (case key (token_buffer (m_lexer p)) sd of
           Inl e \<Rightarrow> Throw e
         | Inr sd1 \<Rightarrow>
             (let p1 = get_token strtod p
              in if last_token p1 \<noteq> name_separator
                 then Throw (create_101 p1 (exception_message p1 name_separator (lit ''object separator'')))
                 else Again states False (get_token strtod p1) sd1)))"

text \<open>The switch on the last token.\<close>

definition parse_switch :: "(bytes \<Rightarrow> int64) \<Rightarrow> bool list \<Rightarrow> parser \<Rightarrow> sax_dom \<Rightarrow> sax_outcome" where
  "parse_switch strtod states p sd =
     (case last_token p of
        begin_object \<Rightarrow>
          (case start_object sd of
             Inl e \<Rightarrow> Throw e
           | Inr sd1 \<Rightarrow>
               (let p1 = get_token strtod p
                in if last_token p1 = end_object then sax_event p1 (end_object_event sd1)
                   else parse_key strtod (False # states) p1 sd1))
      | begin_array \<Rightarrow>
          (case start_array sd of
             Inl e \<Rightarrow> Throw e
           | Inr sd1 \<Rightarrow>
               (let p1 = get_token strtod p
                in if last_token p1 = end_array then sax_event p1 (end_array_event sd1)
                   else Again (True # states) False p1 sd1))
      | value_float \<Rightarrow>
          (if \<not> is_finite (value_double (m_lexer p))
           then Throw (Out_of_range (lit ''[json.exception.out_of_range.406] number overflow parsing '' @ [39] @
                  get_token_string (m_lexer p) @ [39]))
           else sax_event p (sax_value (JFloat (value_double (m_lexer p))) sd))
      | literal_false \<Rightarrow> sax_event p (sax_value (JBool False) sd)
      | literal_null \<Rightarrow> sax_event p (sax_value JNull sd)
      | literal_true \<Rightarrow> sax_event p (sax_value (JBool True) sd)
      | value_integer \<Rightarrow> sax_event p (sax_value (JInt (value_int (m_lexer p))) sd)
      | value_string \<Rightarrow> sax_event p (sax_value (JString (token_buffer (m_lexer p))) sd)
      | value_unsigned \<Rightarrow> sax_event p (sax_value (JUnsigned (value_uint (m_lexer p))) sd)
      | parse_error \<Rightarrow> Throw (create_101 p (exception_message p uninitialized (lit ''value'')))
      | end_of_input \<Rightarrow>
          (if chars_read_total (m_lexer p) = 1
           then Throw (create_101 p (lit ''attempting to parse an empty input; check that your input string or stream contains the expected JSON''))
           else Throw (create_101 p (exception_message p literal_or_value (lit ''value''))))
      | _ \<Rightarrow> Throw (create_101 p (exception_message p literal_or_value (lit ''value''))))"

text \<open>The second half of the body, after a value; to leave it is to return true.\<close>

definition evaluate_state :: "(bytes \<Rightarrow> int64) \<Rightarrow> bool list \<Rightarrow> parser \<Rightarrow> sax_dom \<Rightarrow> sax_outcome" where
  "evaluate_state strtod states p sd =
     (case states of
        [] \<Rightarrow> Leave p sd
      | is_array # up \<Rightarrow>
          (let p1 = get_token strtod p
           in if is_array then
                (if last_token p1 = value_separator then Again states False (get_token strtod p1) sd
                 else if last_token p1 = end_array then
                   (case end_array_event sd of Inl e \<Rightarrow> Throw e | Inr sd1 \<Rightarrow> Again up True p1 sd1)
                 else Throw (create_101 p1 (exception_message p1 end_array (lit ''array''))))
              else
                (if last_token p1 = value_separator then parse_key strtod states (get_token strtod p1) sd
                 else if last_token p1 = end_object then
                   (case end_object_event sd of Inl e \<Rightarrow> Throw e | Inr sd1 \<Rightarrow> Again up True p1 sd1)
                 else Throw (create_101 p1 (exception_message p1 end_object (lit ''object''))))))"

definition left :: "parser \<Rightarrow> nat" where
  "left p = length (rest (m_lexer p))"

lemma get_token_left: "left (get_token st p) \<le> left p"
  using reads_scan [of st "m_lexer p" _ _ "m_lexer p"]
  by (auto simp: get_token_def left_def reads_def split: prod.split)

lemma get_token_less:
  "last_token (get_token st p) \<noteq> end_of_input \<Longrightarrow> last_token (get_token st p) \<noteq> parse_error \<Longrightarrow> left (get_token st p) < left p"
  using scan_less [of st "m_lexer p"] by (auto simp: get_token_def left_def split: prod.splits)

lemma parse_key_left: "parse_key st states p sd = Again s' k p' sd' \<Longrightarrow> left p' \<le> left p \<and> \<not> k \<and> last_token p = value_string"
  using get_token_left [of st p] get_token_left [of st "get_token st p"]
  by (auto simp: parse_key_def Let_def split: if_splits sum.splits)

lemma parse_switch_left:
  "parse_switch st states p sd = Again s' k p' sd' \<Longrightarrow>
   \<not> k \<and> (last_token p = begin_object \<and> left p' < left p \<or>
    last_token p = begin_array \<and> left p' \<le> left p \<and> (last_token p' = begin_array \<longrightarrow> left p' < left p))"
  using get_token_left [of st p] get_token_less [of st p]
  by (auto simp: parse_switch_def sax_event_def Let_def split: token_type.splits if_splits sum.splits
      dest!: parse_key_left)

lemma evaluate_left: "evaluate_state st states p sd = Again s' k p' sd' \<Longrightarrow> left p' < left p"
  using get_token_left [of st "get_token st p"] get_token_less [of st p]
    parse_key_left [of st states "get_token st (get_token st p)" sd s' k p' sd']
  by (auto simp: evaluate_state_def Let_def split: list.splits if_splits sum.splits)

lemma parse_switch_leave: "parse_switch st states p sd = Leave p' sd' \<Longrightarrow> left p' \<le> left p"
  using get_token_left [of st p]
  by (auto simp: parse_switch_def sax_event_def parse_key_def Let_def split: token_type.splits if_splits sum.splits)

function sax_parse_internal ::
  "(bytes \<Rightarrow> int64) \<Rightarrow> bool list \<Rightarrow> bool \<Rightarrow> parser \<Rightarrow> sax_dom \<Rightarrow> json_error + parser \<times> sax_dom" where
  "sax_parse_internal strtod states skip_to_state_evaluation p sd =
     (case (if skip_to_state_evaluation then Leave p sd else parse_switch strtod states p sd) of
        Throw e \<Rightarrow> Inl e
      | Again states1 skip1 p1 sd1 \<Rightarrow> sax_parse_internal strtod states1 skip1 p1 sd1
      | Leave p1 sd1 \<Rightarrow>
          (case evaluate_state strtod states p1 sd1 of
             Throw e \<Rightarrow> Inl e
           | Again states2 skip2 p2 sd2 \<Rightarrow> sax_parse_internal strtod states2 skip2 p2 sd2
           | Leave p2 sd2 \<Rightarrow> Inr (p2, sd2)))"
  by pat_completeness auto

termination
proof (relation "measure (\<lambda>(_, _, skip, p, _). 2 * left p + (if \<not> skip \<and> last_token p = begin_array then 1 else 0))",
    goal_cases)
  case (2 st states skip p sd s1 k1 p1 sd1)
  then have "\<not> skip" "parse_switch st states p sd = Again s1 k1 p1 sd1" by (auto split: if_splits)
  then show ?case using parse_switch_left [of st states p sd s1 k1 p1 sd1] by auto
next
  case (3 st states skip p sd p1 sd1 s2 k2 p2 sd2)
  then have "left p1 \<le> left p" using parse_switch_leave by (auto split: if_splits)
  then show ?case using evaluate_left [OF 3(2)] by auto
qed simp

declare sax_parse_internal.simps [simp del]

text \<open>
  The constructor reads the first token; \<^verbatim>\<open>parse(true, result)\<close> runs the loop and then expects the end
  of the input.
\<close>

definition new_parser :: "(bytes \<Rightarrow> int64) \<Rightarrow> bytes \<Rightarrow> bool \<Rightarrow> parser" where
  "new_parser strtod input ignore_comm =
     get_token strtod \<lparr>last_token = uninitialized, m_lexer = new_lexer input ignore_comm\<rparr>"

definition parser_parse :: "(bytes \<Rightarrow> int64) \<Rightarrow> parser \<Rightarrow> json_error + json" where
  "parser_parse strtod p =
     (case sax_parse_internal strtod [] False p \<lparr>root = JNull, ref_stack = [], object_element = None\<rparr> of
        Inl e \<Rightarrow> Inl e
      | Inr (p1, sd) \<Rightarrow>
          (let p2 = get_token strtod p1
           in if last_token p2 \<noteq> end_of_input
              then Inl (create_101 p2 (exception_message p2 end_of_input (lit ''value'')))
              else Inr (root sd)))"

definition basic_json_parse :: "(bytes \<Rightarrow> int64) \<Rightarrow> bytes \<Rightarrow> bool \<Rightarrow> json_error + json" where
  "basic_json_parse strtod input ignore_comm = parser_parse strtod (new_parser strtod input ignore_comm)"

end
