(* ===== verification/Json_Grammar.thy ===== *)
theory Json_Grammar
  imports Json_Parser
begin

text \<open>
  JSON texts and the values they stand for, as RFC 8259 defines them and without reference to the lexer or the
  parser: strings with escapes, numbers, and values with white space around every token.  The relation
  \<open>json_text\<close> is the specification of \<^verbatim>\<open>basic_json::parse\<close>; where the RFC leaves a choice it fixes the one the
  library documents (the last of several members with the same name counts, an integer that fits 64 bits is an
  integer, any other number a \<^verbatim>\<open>double\<close>).
\<close>

section \<open>Strings\<close>

definition hex_nat :: "byte \<Rightarrow> nat option" where
  "hex_nat c =
     (if 48 \<le> c \<and> c \<le> 57 then Some (unat c - 48)
      else if 65 \<le> c \<and> c \<le> 70 then Some (unat c - 55)
      else if 97 \<le> c \<and> c \<le> 102 then Some (unat c - 87)
      else None)"

definition hex4 :: "bytes \<Rightarrow> nat \<Rightarrow> bool" where
  "hex4 cs n \<longleftrightarrow>
     (\<exists>a b c d. map hex_nat cs = [Some a, Some b, Some c, Some d] \<and> n = 4096 * a + 256 * b + 16 * c + d)"

definition short_escapes :: "(byte \<times> byte) list" where
  "short_escapes = [(34, 34), (92, 92), (47, 47), (98, 8), (102, 12), (110, 10), (114, 13), (116, 9)]"

text \<open>One character of a string: as itself, as a short escape, or in hexadecimal, as a surrogate pair if need be.\<close>

inductive string_chunk :: "bytes \<Rightarrow> bytes \<Rightarrow> bool" where
  chunk_plain: "scalar_value cp \<Longrightarrow> 0x20 \<le> cp \<Longrightarrow> cp \<noteq> 0x22 \<Longrightarrow> cp \<noteq> 0x5C \<Longrightarrow>
    string_chunk (codepoint_bytes cp) (codepoint_bytes cp)"
| chunk_short: "map_of short_escapes e = Some b \<Longrightarrow> string_chunk [92, e] [b]"
| chunk_hex: "hex4 cs n \<Longrightarrow> \<not> (0xD800 \<le> n \<and> n \<le> 0xDFFF) \<Longrightarrow>
    string_chunk (92 # 117 # cs) (codepoint_bytes (word_of_nat n))"
| chunk_pair: "hex4 cs hi \<Longrightarrow> hex4 ds lo \<Longrightarrow> 0xD800 \<le> hi \<Longrightarrow> hi \<le> 0xDBFF \<Longrightarrow> 0xDC00 \<le> lo \<Longrightarrow> lo \<le> 0xDFFF \<Longrightarrow>
    string_chunk (92 # 117 # cs @ 92 # 117 # ds)
      (codepoint_bytes (word_of_nat (0x10000 + (hi - 0xD800) * 0x400 + (lo - 0xDC00))))"

inductive string_body :: "bytes \<Rightarrow> bytes \<Rightarrow> bool" where
  body_nil: "string_body [] []"
| body_chunk: "string_chunk t b \<Longrightarrow> string_body tx s \<Longrightarrow> string_body (t @ tx) (b @ s)"

definition quoted :: "bytes \<Rightarrow> bytes" where
  "quoted tx = 34 # tx @ [34]"

section \<open>Numbers\<close>

definition digits :: "bytes \<Rightarrow> bool" where
  "digits ds \<longleftrightarrow> (\<forall>c\<in>set ds. is_digit c)"

definition int_text :: "bytes \<Rightarrow> bool" where
  "int_text t \<longleftrightarrow> t = [48] \<or> (\<exists>c cs. t = c # cs \<and> is_digit19 c \<and> digits cs)"

definition frac_text :: "bytes \<Rightarrow> bool" where
  "frac_text t \<longleftrightarrow> t = [] \<or> (\<exists>ds. t = 46 # ds \<and> ds \<noteq> [] \<and> digits ds)"

definition exp_text :: "bytes \<Rightarrow> bool" where
  "exp_text t \<longleftrightarrow> t = [] \<or> (\<exists>e s ds. t = e # s @ ds \<and> e \<in> {101, 69} \<and> s \<in> {[], [43], [45]} \<and> ds \<noteq> [] \<and> digits ds)"

text \<open>\<open>tail\<close> is the fraction and the exponent.\<close>

definition number_value :: "(bytes \<Rightarrow> int64) \<Rightarrow> bool \<Rightarrow> bytes \<Rightarrow> bytes \<Rightarrow> json" where
  "number_value strtod neg ip tail =
     (let n = digits_value ip
      in if tail = [] \<and> \<not> neg \<and> n < 2 ^ 64 then JUnsigned (word_of_int n)
         else if tail = [] \<and> neg \<and> n \<le> 2 ^ 63 then JInt (word_of_int (- n))
         else JFloat (strtod ((if neg then [45] else []) @ ip @ tail)))"

definition number_text :: "(bytes \<Rightarrow> int64) \<Rightarrow> bytes \<Rightarrow> json \<Rightarrow> bool" where
  "number_text strtod t v \<longleftrightarrow>
     (\<exists>neg ip fr ex. int_text ip \<and> frac_text fr \<and> exp_text ex \<and> t = (if neg then [45] else []) @ ip @ fr @ ex \<and>
        v = number_value strtod neg ip (fr @ ex))"

section \<open>Values\<close>

text \<open>The values of one token.\<close>

inductive scalar_text :: "(bytes \<Rightarrow> int64) \<Rightarrow> json \<Rightarrow> bytes \<Rightarrow> bool" for strtod where
  scalar_null: "scalar_text strtod JNull (lit ''null'')"
| scalar_true: "scalar_text strtod (JBool True) (lit ''true'')"
| scalar_false: "scalar_text strtod (JBool False) (lit ''false'')"
| scalar_string: "string_body tx s \<Longrightarrow> scalar_text strtod (JString s) (quoted tx)"
| scalar_number: "number_text strtod t v \<Longrightarrow> scalar_text strtod v t"

fun finite_number :: "json \<Rightarrow> bool" where
  "finite_number (JFloat x) = is_finite x"
| "finite_number _ = True"

definition padded :: "bytes \<Rightarrow> bytes \<Rightarrow> bool" where
  "padded t p \<longleftrightarrow> (\<exists>ws ws'. list_all is_ws ws \<and> list_all is_ws ws' \<and> p = ws @ t @ ws')"

definition object_of :: "(bytes \<times> json) list \<Rightarrow> json" where
  "object_of ms = JObject (fold (\<lambda>(k, v). map_set k v) ms [])"

inductive json_text :: "(bytes \<Rightarrow> int64) \<Rightarrow> json \<Rightarrow> bytes \<Rightarrow> bool"
  and elements_text :: "(bytes \<Rightarrow> int64) \<Rightarrow> json list \<Rightarrow> bytes \<Rightarrow> bool"
  and members_text :: "(bytes \<Rightarrow> int64) \<Rightarrow> (bytes \<times> json) list \<Rightarrow> bytes \<Rightarrow> bool"
  for strtod where
  text_scalar: "scalar_text strtod v t \<Longrightarrow> finite_number v \<Longrightarrow> json_text strtod v t"
| text_no_elements: "list_all is_ws ws \<Longrightarrow> json_text strtod (JArray []) (91 # ws @ [93])"
| text_array: "elements_text strtod js t \<Longrightarrow> json_text strtod (JArray js) (91 # t @ [93])"
| text_no_members: "list_all is_ws ws \<Longrightarrow> json_text strtod (JObject []) (123 # ws @ [125])"
| text_object: "members_text strtod ms t \<Longrightarrow> json_text strtod (object_of ms) (123 # t @ [125])"
| element_last: "json_text strtod j t \<Longrightarrow> padded t p \<Longrightarrow> elements_text strtod [j] p"
| element_more: "json_text strtod j t \<Longrightarrow> padded t p \<Longrightarrow> elements_text strtod js ts \<Longrightarrow>
    elements_text strtod (j # js) (p @ 44 # ts)"
| member_last: "string_body kt k \<Longrightarrow> padded (quoted kt) kp \<Longrightarrow> json_text strtod v t \<Longrightarrow> padded t p \<Longrightarrow>
    members_text strtod [(k, v)] (kp @ 58 # p)"
| member_more: "string_body kt k \<Longrightarrow> padded (quoted kt) kp \<Longrightarrow> json_text strtod v t \<Longrightarrow> padded t p \<Longrightarrow>
    members_text strtod ms ts \<Longrightarrow> members_text strtod ((k, v) # ms) (kp @ 58 # p @ 44 # ts)"

section \<open>Documents\<close>

text \<open>What comes before a token: white space, and at the start of the text perhaps the byte order mark.\<close>

definition bom :: bytes where
  "bom = [0xEF, 0xBB, 0xBF]"

definition bom_text :: "bool \<Rightarrow> bytes \<Rightarrow> bool" where
  "bom_text at_start b \<longleftrightarrow> b = [] \<or> at_start \<and> b = bom"

definition blank :: "bool \<Rightarrow> bytes \<Rightarrow> bool" where
  "blank at_start u \<longleftrightarrow> (\<exists>b ws. u = b @ ws \<and> bom_text at_start b \<and> list_all is_ws ws)"

text \<open>
  The input of \<^verbatim>\<open>parse\<close>: one value, and nothing after it but white space.  The lexer takes a null byte for the
  end of the input, whatever follows it.
\<close>

definition json_document :: "(bytes \<Rightarrow> int64) \<Rightarrow> json \<Rightarrow> bytes \<Rightarrow> bool" where
  "json_document strtod j input \<longleftrightarrow>
     (\<exists>u t ws z. input = u @ t @ ws @ z \<and> blank True u \<and> json_text strtod j t \<and> list_all is_ws ws \<and> (z = [] \<or> hd z = 0))"

section \<open>Lemmas\<close>

text \<open>What a text stands for is a well-formed value: sorted members, strings in UTF-8, finite numbers.\<close>

fun json_wf :: "json \<Rightarrow> bool" where
  "json_wf (JArray js) = list_all json_wf js"
| "json_wf (JObject ms) = (map_ok ms \<and> list_all (\<lambda>m. valid_utf8 (fst m) \<and> json_wf (snd m)) ms)"
| "json_wf (JString s) = valid_utf8 s"
| "json_wf (JFloat x) = is_finite x"
| "json_wf _ = True"

lemma hex_nat_less: "hex_nat c = Some d \<Longrightarrow> d < 16"
  by (auto simp: hex_nat_def word_le_nat_alt split: if_splits)

lemma hex4_less: "hex4 cs n \<Longrightarrow> n < 0x10000"
  by (auto simp: hex4_def map_eq_Cons_conv dest!: hex_nat_less)

lemma scalar_value_of_nat: "n < 0xD800 \<or> 0xDFFF < n \<and> n < 0x110000 \<Longrightarrow> scalar_value (word_of_nat n)"
  by (auto simp: scalar_value_unat unat_of_nat)

lemma chunk_valid: "string_chunk t b \<Longrightarrow> \<exists>cp. scalar_value cp \<and> b = codepoint_bytes cp"
proof (induction rule: string_chunk.induct)
  case (chunk_short e b)
  then have "[b] = codepoint_bytes (ucast b)" "scalar_value (ucast b)"
    by (auto simp: short_escapes_def codepoint_bytes_def scalar_value_unat split: if_splits)
  then show ?case by metis
next
  case (chunk_hex cs n)
  then show ?case using hex4_less [OF chunk_hex(1)] scalar_value_of_nat [of n] by force
next
  case (chunk_pair cs hi ds lo)
  then have "0xDFFF < 0x10000 + (hi - 0xD800) * 0x400 + (lo - 0xDC00)" "0x10000 + (hi - 0xD800) * 0x400 + (lo - 0xDC00) < 0x110000"
    by auto
  then show ?case using scalar_value_of_nat [of "0x10000 + (hi - 0xD800) * 0x400 + (lo - 0xDC00)"] by blast
qed blast

lemma body_valid: "string_body tx s \<Longrightarrow> valid_utf8 s"
proof (induction rule: string_body.induct)
  case (body_chunk t b tx s)
  then obtain cp cps where "scalar_value cp" "b = codepoint_bytes cp" "list_all scalar_value cps" "s = utf8_text cps"
    using chunk_valid [OF body_chunk(1)] by (auto simp: valid_utf8_iff)
  then show ?case unfolding valid_utf8_iff by (intro exI [of _ "cp # cps"]) (simp add: utf8_text_def)
qed (auto simp: valid_utf8_iff intro: exI [of _ "[]"] simp: utf8_text_def)

lemma map_set_wf:
  "map_ok ms \<Longrightarrow> list_all (\<lambda>m. P (fst m) \<and> Q (snd m)) ms \<Longrightarrow> P k \<Longrightarrow> Q v \<Longrightarrow>
   map_ok (map_set k v ms) \<and> list_all (\<lambda>m. P (fst m) \<and> Q (snd m)) (map_set k v ms)"
  using map_set_post(1,3) [of ms k v] by (fastforce simp: list_all_iff)

lemma object_of_wf:
  assumes "list_all (\<lambda>m. valid_utf8 (fst m) \<and> json_wf (snd m)) ms"
  shows "json_wf (object_of ms)"
proof -
  have "map_ok acc \<Longrightarrow> list_all (\<lambda>m. valid_utf8 (fst m) \<and> json_wf (snd m)) acc \<Longrightarrow>
      json_wf (JObject (fold (\<lambda>(k, v). map_set k v) ms acc))" for acc
    using assms
  proof (induction ms arbitrary: acc)
    case (Cons m ms)
    then show ?case using map_set_wf [of acc valid_utf8 json_wf "fst m" "snd m"] by (cases m) simp
  qed simp
  from this [of "[]"] show ?thesis by (simp add: object_of_def map_ok_def)
qed

lemma scalar_wf: "scalar_text st v t \<Longrightarrow> finite_number v \<Longrightarrow> json_wf v"
  by (cases rule: scalar_text.cases) (auto simp: body_valid number_text_def number_value_def Let_def split: if_splits)

lemma text_wf:
  "json_text st j t \<Longrightarrow> json_wf j"
  "elements_text st js t \<Longrightarrow> list_all json_wf js"
  "members_text st ms t \<Longrightarrow> list_all (\<lambda>m. valid_utf8 (fst m) \<and> json_wf (snd m)) ms"
  by (induction rule: json_text_elements_text_members_text.inducts)
    (auto simp: scalar_wf body_valid object_of_wf map_ok_def)

end
