(* ===== verification/Json_Tokens.thy ===== *)
theory Json_Tokens
  imports Json_Grammar
begin

text \<open>
  The lexer of \<^verbatim>\<open>json/json.hpp\<close> reads exactly the tokens of the grammar: every token text, with white space before it
  or without, is read as that token with its value, and every token the lexer returns is the text of one.
\<close>

section \<open>Reading ahead\<close>

text \<open>
  \<open>came lx bs lx'\<close>: the lexer has read exactly the bytes \<open>bs\<close>.
\<close>

definition came :: "lexer \<Rightarrow> bytes \<Rightarrow> lexer \<Rightarrow> bool" where
  "came lx bs lx' \<longleftrightarrow>
     rest lx = bs @ rest lx' \<and> (lexer_ok lx \<longrightarrow> lexer_ok lx') \<and> ignore_comments lx' = ignore_comments lx \<and>
     decimal_point_char lx' = decimal_point_char lx \<and> (chars_read_total lx' = 0 \<longrightarrow> chars_read_total lx = 0 \<and> bs = [])"

lemma came_refl [simp]: "came lx [] lx"
  by (simp add: came_def)

lemma came_trans: "came lx as lx1 \<Longrightarrow> came lx1 bs lx2 \<Longrightarrow> came lx (as @ bs) lx2"
  by (auto simp: came_def)

lemma came_fields [simp]:
  "came lx bs (add c lx1) = came lx bs lx1" "came lx bs (reset lx1) = came lx bs lx1"
  "came lx bs (add_all cs lx1) = came lx bs lx1"
  "came (add c lx) bs lx1 = came lx bs lx1" "came (reset lx) bs lx1 = came lx bs lx1"
  by (auto simp: came_def lexer_simps)

lemma get_Cons:
  assumes "lexer_ok lx" and "rest lx = c # cs"
  shows "current (get lx) = Some c" and "rest (get lx) = cs" and "lexer_ok (get lx)"
    and "came lx [c] (get lx)"
proof -
  obtain d where d: "current (get lx) = Some d" using get_None [OF assms(1)] assms(2) by (cases "current (get lx)") auto
  then have "rest lx = d # rest (get lx)" by (rule get_Some)
  then show "current (get lx) = Some c" "rest (get lx) = cs" "lexer_ok (get lx)" "came lx [c] (get lx)"
    using d assms by (auto simp: lexer_ok_def came_def lexer_simps)
qed

lemma get_Nil: "lexer_ok lx \<Longrightarrow> rest lx = [] \<Longrightarrow> current (get lx) = None"
  using get_Some [of lx] by (cases "current (get lx)") auto

lemma get_came: "current (get lx) = Some c \<Longrightarrow> came lx [c] (get lx)"
  using get_Some [of lx c] by (auto simp: came_def lexer_simps lexer_ok_def)

section \<open>Hexadecimal digits\<close>

lemma hex_value_nat: "hex_value c = map_option word_of_nat (hex_nat c)"
proof -
  have uc: "unat (ucast c :: int32) = unat c" by (rule unat_ucast_up) simp
  then have "ucast c - k = (word_of_nat (unat c - unat k) :: int32)" if "unat k \<le> unat c" for k :: int32
    using that by (simp add: word_unat_eq_iff unat_sub word_le_nat_alt unat_of_nat)
  then show ?thesis by (auto simp: hex_value_def hex_nat_def word_le_nat_alt)
qed

lemma get_hex_step:
  assumes "lexer_ok lx" and "rest lx = c # cs" and "hex_nat c = Some d"
  shows "get_hex (f # fs) cp lx = get_hex fs (cp + push_bit f (word_of_nat d)) (get lx)"
  using get_Cons(1) [OF assms(1,2)] assms(3) by (simp add: hex_value_nat)

lemma hex4_word: "push_bit 12 (word_of_nat a) + push_bit 8 (word_of_nat b) + push_bit 4 (word_of_nat c) + push_bit 0 (word_of_nat d) =
    (word_of_nat (4096 * a + 256 * b + 16 * c + d) :: int32)"
  by (simp add: push_bit_eq_mult)

lemma get_codepoint_complete:
  assumes "hex4 cs n" and "lexer_ok lx" and "rest lx = cs @ tail"
  shows "\<exists>lx'. get_codepoint lx = (Some (word_of_nat n), lx') \<and> came lx cs lx' \<and> token_buffer lx' = token_buffer lx"
proof -
  obtain p q r t a b c d where cs: "cs = [p, q, r, t]" and n: "n = 4096 * a + 256 * b + 16 * c + d"
    and h: "hex_nat p = Some a" "hex_nat q = Some b" "hex_nat r = Some c" "hex_nat t = Some d"
    using assms(1) by (auto simp: hex4_def map_eq_Cons_conv)
  have r: "rest lx = p # q # r # t # tail" using assms(3) cs by simp
  note g1 = get_Cons [OF assms(2) r]
  note g2 = get_Cons [OF g1(3,2)]
  note g3 = get_Cons [OF g2(3,2)]
  note g4 = get_Cons [OF g3(3,2)]
  have "came lx cs (get (get (get (get lx))))"
    using came_trans [OF g1(4) came_trans [OF g2(4) came_trans [OF g3(4) g4(4)]]] cs by simp
  moreover have "get_codepoint lx = (Some (word_of_nat n), get (get (get (get lx))))"
    unfolding get_codepoint_def get_hex_step [OF assms(2) r h(1)] get_hex_step [OF g1(3,2) h(2)]
      get_hex_step [OF g2(3,2) h(3)] get_hex_step [OF g3(3,2) h(4)] n using hex4_word [of a b c d] by simp
  ultimately show ?thesis by (simp add: lexer_simps)
qed

lemma get_hex_sound:
  assumes "get_hex (f # fs) cp lx = (Some w, lx')"
  obtains c d where "hex_nat c = Some d" and "came lx [c] (get lx)" and "get_hex fs (cp + push_bit f (word_of_nat d)) (get lx) = (Some w, lx')"
  using assms that get_came [of lx] by (auto simp: Let_def hex_value_nat split: option.splits bind_splits)

lemma get_codepoint_sound:
  assumes "get_codepoint lx = (Some w, lx')"
  obtains cs n where "hex4 cs n" and "w = word_of_nat n" and "came lx cs lx'" and "token_buffer lx' = token_buffer lx"
proof -
  obtain p a where p: "hex_nat p = Some a" "came lx [p] (get lx)" "get_hex [8, 4, 0] (0 + push_bit 12 (word_of_nat a)) (get lx) = (Some w, lx')"
    using assms unfolding get_codepoint_def by (rule get_hex_sound)
  from p(3) obtain q b where q: "hex_nat q = Some b" "came (get lx) [q] (get (get lx))"
    "get_hex [4, 0] (0 + push_bit 12 (word_of_nat a) + push_bit 8 (word_of_nat b)) (get (get lx)) = (Some w, lx')"
    by (rule get_hex_sound)
  from q(3) obtain r c where r: "hex_nat r = Some c" "came (get (get lx)) [r] (get (get (get lx)))"
    "get_hex [0] (0 + push_bit 12 (word_of_nat a) + push_bit 8 (word_of_nat b) + push_bit 4 (word_of_nat c)) (get (get (get lx))) = (Some w, lx')"
    by (rule get_hex_sound)
  from r(3) obtain t d where t: "hex_nat t = Some d" "came (get (get (get lx))) [t] (get (get (get (get lx))))"
    "get_hex [] (0 + push_bit 12 (word_of_nat a) + push_bit 8 (word_of_nat b) + push_bit 4 (word_of_nat c) + push_bit 0 (word_of_nat d))
      (get (get (get (get lx)))) = (Some w, lx')"
    by (rule get_hex_sound)
  show ?thesis
  proof (rule that [of "[p, q, r, t]" "4096 * a + 256 * b + 16 * c + d"])
    show "w = word_of_nat (4096 * a + 256 * b + 16 * c + d)" using t(3) hex4_word [of a b c d] by simp
    show "came lx [p, q, r, t] lx'" using came_trans [OF p(2) came_trans [OF q(2) came_trans [OF r(2) t(2)]]] t(3) by simp
  qed (use p q r t in \<open>auto simp: hex4_def lexer_simps\<close>)
qed

section \<open>Strings\<close>

definition in_range :: "byte \<Rightarrow> byte \<times> byte \<Rightarrow> bool" where
  "in_range b r \<longleftrightarrow> fst r \<le> b \<and> b \<le> snd r"

lemma read_ranges_ok:
  assumes "list_all2 in_range bs rs" and "lexer_ok lx" and "rest lx = bs @ tail"
  shows "\<exists>lx'. read_ranges rs lx = (True, lx') \<and> rest lx' = tail \<and> came lx bs lx' \<and> token_buffer lx' = token_buffer lx @ bs"
  using assms
proof (induction bs rs arbitrary: lx rule: list_all2_induct)
  case (Cons b bs r rs)
  note g = get_Cons [OF Cons.prems(1), of b "bs @ tail"]
  have "rest lx = b # (bs @ tail)" using Cons.prems(2) by simp
  note g = g [OF this]
  obtain lx' where lx': "read_ranges rs (add b (get lx)) = (True, lx')" "rest lx' = tail" "came (add b (get lx)) bs lx'"
    "token_buffer lx' = token_buffer lx @ [b] @ bs"
    using Cons.IH [of "add b (get lx)"] g by (auto simp: lexer_simps)
  then show ?case
    using g(1) Cons.hyps(1) came_trans [OF g(4), of bs lx'] by (cases r) (simp add: in_range_def)
qed simp

text \<open>The ranges the lexer checks are those of the encoding.\<close>

lemma utf8_ranges_seq:
  "utf8_seq (c # bs) \<and> bs \<noteq> [] \<longleftrightarrow> (\<exists>rs. utf8_ranges c = Some rs \<and> list_all2 in_range bs rs)"
proof -
  have two: "list_all2 in_range bs [r] \<longleftrightarrow> (\<exists>b. bs = [b] \<and> in_range b r)" for r
    by (auto simp: list_all2_Cons2)
  have three: "list_all2 in_range bs [r, q] \<longleftrightarrow> (\<exists>b d. bs = [b, d] \<and> in_range b r \<and> in_range d q)" for r q
    by (auto simp: list_all2_Cons2)
  have four: "list_all2 in_range bs [r, q, t] \<longleftrightarrow> (\<exists>b d e. bs = [b, d, e] \<and> in_range b r \<and> in_range d q \<and> in_range e t)" for r q t
    by (auto simp: list_all2_Cons2)
  note rules = two three four in_range_def cont_byte_def
  show ?thesis
  proof (cases "c # bs" rule: utf8_seq.cases)
    case (2 a b)
    then show ?thesis by (auto simp: utf8_ranges_def rules word_nat_simps)
  next
    case (3 a b d)
    then show ?thesis by (auto simp: utf8_ranges_def rules word_nat_simps)
  next
    case (4 a b d e)
    then show ?thesis by (auto simp: utf8_ranges_def rules word_nat_simps)
  qed (auto simp: utf8_ranges_def rules)
qed

text \<open>One code point: the lexer is back at the head of its loop, with the bytes of the code point added.\<close>

definition string_step :: "lexer \<Rightarrow> bytes \<Rightarrow> bytes \<Rightarrow> lexer \<Rightarrow> bool" where
  "string_step lx tx bs lx' \<longleftrightarrow>
     scan_string_loop lx = scan_string_loop lx' \<and> came lx tx lx' \<and> token_buffer lx' = token_buffer lx @ bs"

lemma loop_get:
  assumes "lexer_ok lx" and "rest lx = c # cs"
  shows "scan_string_loop lx =
    (if c = 34 then (value_string, get lx)
     else if c = 92 then (let (ok, lx2) = scan_escape (get lx) in if ok then scan_string_loop lx2 else (parse_error, lx2))
     else if c < 0x20 then (parse_error, fail_with (control_message c) (get lx))
     else if c \<le> 0x7F then scan_string_loop (add c (get lx))
     else
       (case utf8_ranges c of
          None \<Rightarrow> (parse_error, fail_with (lit ''invalid string: ill-formed UTF-8 byte'') (get lx))
        | Some ranges \<Rightarrow>
            (let (ok, lx2) = next_byte_in_range c ranges (get lx)
             in if ok then scan_string_loop lx2 else (parse_error, lx2))))"
  using get_Cons(1) [OF assms] by (subst scan_string_loop.simps) (simp add: Let_def)

lemma step_escape:
  assumes "lexer_ok lx" and "rest lx = 92 # cs" and "scan_escape (get lx) = (True, lx')" and "came (get lx) tx lx'"
    and "token_buffer lx' = token_buffer lx @ bs"
  shows "string_step lx (92 # tx) bs lx'"
  using loop_get [OF assms(1,2)] get_Cons(4) [OF assms(1,2)] assms(3,5) came_trans [of lx "[92]" "get lx" tx lx'] assms(4)
  by (simp add: string_step_def)

lemma step_plain:
  assumes "lexer_ok lx" and "rest lx = c # cs" and "0x20 \<le> c" and "c \<le> 0x7F" and "c \<noteq> 34" and "c \<noteq> 92"
  shows "string_step lx [c] [c] (add c (get lx))"
proof -
  have "\<not> c < 0x20" using assms(3) by simp
  then show ?thesis
    using loop_get [OF assms(1,2)] get_Cons(4) [OF assms(1,2)] assms(4-6) by (simp add: string_step_def lexer_simps)
qed

lemma step_multi:
  assumes "lexer_ok lx" and "rest lx = (c # bs) @ tail" and "utf8_seq (c # bs)" and "bs \<noteq> []"
  shows "\<exists>lx'. string_step lx (c # bs) (c # bs) lx'"
proof -
  have r: "rest lx = c # (bs @ tail)" using assms(2) by simp
  obtain rs where rs: "utf8_ranges c = Some rs" "list_all2 in_range bs rs" using utf8_ranges_seq assms(3,4) by blast
  then have big: "\<not> c \<le> 0x7F" by (auto simp: utf8_ranges_def word_nat_simps split: if_splits)
  obtain lx' where "read_ranges rs (add c (get lx)) = (True, lx')" "came (add c (get lx)) bs lx'"
    "token_buffer lx' = token_buffer lx @ [c] @ bs"
    using read_ranges_ok [OF rs(2), of "add c (get lx)" tail] get_Cons(2,3) [OF assms(1) r] by (auto simp: lexer_simps)
  moreover have "c \<noteq> 34" "c \<noteq> 92" "\<not> c < 0x20" using big by (auto simp: word_nat_simps)
  ultimately show ?thesis
    using loop_get [OF assms(1) r] get_Cons(4) [OF assms(1) r] rs(1) big came_trans [of lx "[c]" "get lx" bs lx']
    by (intro exI [of _ lx']) (simp add: string_step_def next_byte_in_range_def)
qed

lemma step_short:
  assumes "lexer_ok lx" and "rest lx = 92 # e # tail" and "map_of short_escapes e = Some b"
  shows "\<exists>lx'. string_step lx [92, e] [b] lx'"
proof -
  note g = get_Cons [OF assms(1,2)]
  note h = get_Cons [OF g(3) g(2)]
  have "scan_escape (get lx) = (True, add b (get (get lx)))"
    using h(1) assms(3) by (auto simp: scan_escape_def short_escapes_def split: if_splits)
  then show ?thesis
    using step_escape [OF assms(1,2), of "add b (get (get lx))" "[e]" "[b]"] h(4) by (auto simp: lexer_simps)
qed

text \<open>The escapes with hexadecimal digits.\<close>

lemma unat_word32: "n < 0x10000 \<Longrightarrow> unat (word_of_nat n :: int32) = n"
  by (simp add: unat_of_nat)

lemma step_hex:
  assumes "lexer_ok lx" and "rest lx = (92 # 117 # cs) @ tail" and "hex4 cs n" and "\<not> (0xD800 \<le> n \<and> n \<le> 0xDFFF)"
  shows "\<exists>lx'. string_step lx (92 # 117 # cs) (codepoint_bytes (word_of_nat n)) lx'"
proof -
  have r: "rest lx = 92 # 117 # cs @ tail" using assms(2) by simp
  note g = get_Cons [OF assms(1) r]
  note h = get_Cons [OF g(3) g(2)]
  obtain lx1 where lx1: "get_codepoint (get (get lx)) = (Some (word_of_nat n), lx1)" "came (get (get lx)) cs lx1"
    "token_buffer lx1 = token_buffer lx"
    using get_codepoint_complete [OF assms(3) h(3) h(2)] by (auto simp: lexer_simps)
  then have "scan_unicode (get (get lx)) = (True, add_all (codepoint_bytes (word_of_nat n)) lx1)"
    using assms(4) unat_word32 [OF hex4_less [OF assms(3)]] by (auto simp: scan_unicode_def word_nat_simps)
  then have "scan_escape (get lx) = (True, add_all (codepoint_bytes (word_of_nat n)) lx1)"
    using h(1) by (simp add: scan_escape_def)
  moreover have "came (get lx) (117 # cs) (add_all (codepoint_bytes (word_of_nat n)) lx1)"
    using came_trans [OF h(4) lx1(2)] by simp
  ultimately have "string_step lx (92 # 117 # cs) (codepoint_bytes (word_of_nat n)) (add_all (codepoint_bytes (word_of_nat n)) lx1)"
    using lx1(3) by (intro step_escape [OF assms(1) r]) (simp_all add: lexer_simps)
  then show ?thesis by blast
qed

lemma surrogates:
  assumes "0xD800 \<le> hi" and "0xDC00 \<le> lo"
  shows "push_bit 10 (word_of_nat hi) + word_of_nat lo - 0x35FDC00 = (word_of_nat (0x10000 + (hi - 0xD800) * 0x400 + (lo - 0xDC00)) :: int32)"
proof -
  obtain a b where h: "hi = 0xD800 + a" "lo = 0xDC00 + b" using assms le_Suc_ex by metis
  show ?thesis unfolding h by (simp add: push_bit_eq_mult algebra_simps)
qed

lemma step_pair:
  assumes "lexer_ok lx" and "rest lx = (92 # 117 # cs @ 92 # 117 # ds) @ tail" and "hex4 cs hi" and "hex4 ds lo"
    and "0xD800 \<le> hi" and "hi \<le> 0xDBFF" and "0xDC00 \<le> lo" and "lo \<le> 0xDFFF"
  defines "cp \<equiv> word_of_nat (0x10000 + (hi - 0xD800) * 0x400 + (lo - 0xDC00))"
  shows "\<exists>lx'. string_step lx (92 # 117 # cs @ 92 # 117 # ds) (codepoint_bytes cp) lx'"
proof -
  have r: "rest lx = 92 # 117 # cs @ 92 # 117 # ds @ tail" using assms(2) by simp
  note g = get_Cons [OF assms(1) r]
  note h = get_Cons [OF g(3) g(2)]
  obtain lx1 where lx1: "get_codepoint (get (get lx)) = (Some (word_of_nat hi), lx1)" "came (get (get lx)) cs lx1"
    "token_buffer lx1 = token_buffer lx"
    using get_codepoint_complete [OF assms(3) h(3) h(2)] by (auto simp: lexer_simps)
  have ok1: "lexer_ok lx1" "rest lx1 = 92 # 117 # ds @ tail" using lx1(2) h(2,3) by (auto simp: came_def)
  note g1 = get_Cons [OF ok1]
  note h1 = get_Cons [OF g1(3) g1(2)]
  obtain lx2 where lx2: "get_codepoint (get (get lx1)) = (Some (word_of_nat lo), lx2)"
    "came (get (get lx1)) ds lx2" "token_buffer lx2 = token_buffer lx"
    using get_codepoint_complete [OF assms(4) h1(3) h1(2)] lx1(3) by (auto simp: lexer_simps)
  have "scan_unicode (get (get lx)) = (True, add_all (codepoint_bytes cp) lx2)"
    using lx1(1) lx2(1) g1(1) h1(1) surrogates [OF assms(5,7)] assms(5-8) unat_word32 [of hi] unat_word32 [of lo]
    by (simp add: scan_unicode_def word_le_nat_alt cp_def)
  then have "scan_escape (get lx) = (True, add_all (codepoint_bytes cp) lx2)"
    using h(1) by (simp add: scan_escape_def)
  moreover have "came (get lx) (117 # cs @ 92 # 117 # ds) (add_all (codepoint_bytes cp) lx2)"
    using came_trans [OF came_trans [OF h(4) lx1(2)] came_trans [OF came_trans [OF g1(4) h1(4)] lx2(2)]] by simp
  ultimately have "string_step lx (92 # 117 # cs @ 92 # 117 # ds) (codepoint_bytes cp) (add_all (codepoint_bytes cp) lx2)"
    using lx2(3) by (intro step_escape [OF assms(1) r]) (simp_all add: lexer_simps)
  then show ?thesis by blast
qed

lemma step_codepoint:
  assumes "lexer_ok lx" and "rest lx = codepoint_bytes cp @ tail" and "scalar_value cp" and "0x20 \<le> cp" and "cp \<noteq> 0x22" and "cp \<noteq> 0x5C"
  shows "\<exists>lx'. string_step lx (codepoint_bytes cp) (codepoint_bytes cp) lx'"
proof -
  obtain c bs where cb: "codepoint_bytes cp = c # bs" by (cases "codepoint_bytes cp") (auto simp: codepoint_bytes_def split: if_splits)
  show ?thesis
  proof (cases "bs = []")
    case True
    then have "unat cp < 0x80" "c = ucast cp"
      using cb by (auto simp: codepoint_bytes_def word_less_nat_alt split: if_splits)
    then have "unat c = unat cp" using unat_byte [of cp] by simp
    then have "0x20 \<le> c" "c \<le> 0x7F" "c \<noteq> 34" "c \<noteq> 92"
      using assms(4-6) \<open>unat cp < 0x80\<close> by (auto simp: word_nat_simps)
    then show ?thesis using step_plain [OF assms(1), of c tail] assms(2) cb True by auto
  next
    case F: False
    then show ?thesis
      using step_multi [OF assms(1), of c bs tail] utf8_seq_codepoint [OF assms(3)] assms(2) cb by simp
  qed
qed

lemma step_complete:
  assumes "string_chunk t b" and "lexer_ok lx" and "rest lx = t @ tail"
  shows "\<exists>lx'. string_step lx t b lx'"
  using assms(1)
proof cases
  case (chunk_plain cp)
  then show ?thesis using step_codepoint assms(2,3) by simp
next
  case (chunk_short e b)
  then show ?thesis using step_short [OF assms(2), of e tail] assms(3) by simp
next
  case (chunk_hex cs n)
  then show ?thesis using step_hex [OF assms(2)] assms(3) by simp
next
  case (chunk_pair cs hi ds lo)
  then show ?thesis using step_pair [OF assms(2)] assms(3) by simp
qed

lemma scan_string_complete:
  assumes "string_body tx s" and "lexer_ok lx" and "rest lx = tx @ 34 # tail"
  shows "\<exists>lx'. scan_string_loop lx = (value_string, lx') \<and> came lx (tx @ [34]) lx' \<and> token_buffer lx' = token_buffer lx @ s"
  using assms
proof (induction arbitrary: lx rule: string_body.induct)
  case body_nil
  then have "rest lx = 34 # tail" by simp
  then show ?case
    using loop_get [OF body_nil(1), of 34 tail] get_Cons(4) [OF body_nil(1)] by (simp add: lexer_simps)
next
  case (body_chunk t b tx s)
  obtain lx1 where lx1: "string_step lx t b lx1"
    using step_complete [OF body_chunk(1,4), of "tx @ 34 # tail"] body_chunk.prems(2) by auto
  then have "rest lx1 = tx @ 34 # tail" "lexer_ok lx1"
    using body_chunk.prems by (auto simp: string_step_def came_def)
  then obtain lx2 where "scan_string_loop lx1 = (value_string, lx2)" "came lx1 (tx @ [34]) lx2"
    "token_buffer lx2 = token_buffer lx1 @ s"
    using body_chunk.IH [of lx1] by auto
  then show ?case using lx1 came_trans [of lx t lx1 _ lx2] by (auto simp: string_step_def)
qed

text \<open>Conversely, what the loop accepts is a character of the grammar.\<close>

lemma scan_unicode_sound:
  assumes "scan_unicode lx = (True, lx')"
  shows "\<exists>t b. string_chunk (92 # 117 # t) b \<and> came lx t lx' \<and> token_buffer lx' = token_buffer lx @ b"
proof -
  obtain w lx1 where w: "get_codepoint lx = (Some w, lx1)"
    using assms by (auto simp: scan_unicode_def split: prod.splits option.splits)
  then obtain cs n where cs: "hex4 cs n" "w = word_of_nat n" "came lx cs lx1" "token_buffer lx1 = token_buffer lx"
    by (rule get_codepoint_sound)
  have u: "unat w = n" using cs(2) hex4_less [OF cs(1)] by (simp add: unat_word32)
  show ?thesis
  proof (cases "0xD800 \<le> n \<and> n \<le> 0xDBFF")
    case True
    then have hi: "0xD800 \<le> w \<and> w \<le> 0xDBFF" using u by (simp add: word_le_nat_alt)
    then obtain v lx2 where c: "current (get lx1) = Some 92" "current (get (get lx1)) = Some 117"
      and v: "get_codepoint (get (get lx1)) = (Some v, lx2)" "0xDC00 \<le> v" "v \<le> 0xDFFF"
        "lx' = add_all (codepoint_bytes (push_bit 10 w + v - 0x35FDC00)) lx2"
      using assms w by (auto simp: scan_unicode_def Let_def split: if_splits prod.splits option.splits)
    obtain ds m where ds: "hex4 ds m" "v = word_of_nat m" "came (get (get lx1)) ds lx2" "token_buffer lx2 = token_buffer (get (get lx1))"
      using v(1) by (rule get_codepoint_sound)
    have m: "0xDC00 \<le> m" "m \<le> 0xDFFF" using v(2,3) ds(2) hex4_less [OF ds(1)] by (simp_all add: word_le_nat_alt unat_word32)
    have "came lx (cs @ [92] @ [117] @ ds) lx2"
      using came_trans [OF cs(3) came_trans [OF get_came [OF c(1)] came_trans [OF get_came [OF c(2)] ds(3)]]] .
    then show ?thesis
      using chunk_pair [OF cs(1) ds(1)] True m v(4) cs(2,4) ds(2,4) surrogates [of n m] by (auto simp: lexer_simps)
  next
    case False
    then have "\<not> (0xD800 \<le> w \<and> w \<le> 0xDBFF)" using u by (auto simp: word_le_nat_alt)
    then have "\<not> (0xDC00 \<le> w \<and> w \<le> 0xDFFF)" "lx' = add_all (codepoint_bytes w) lx1"
      using assms w by (auto simp: scan_unicode_def split: if_splits)
    moreover have "\<not> (0xD800 \<le> n \<and> n \<le> 0xDFFF)" using False calculation(1) u by (auto simp: word_le_nat_alt)
    ultimately show ?thesis using chunk_hex [OF cs(1)] cs by (auto simp: lexer_simps)
  qed
qed

lemma scan_escape_sound:
  assumes "scan_escape lx = (True, lx')"
  shows "\<exists>t b. string_chunk (92 # t) b \<and> came lx t lx' \<and> token_buffer lx' = token_buffer lx @ b"
proof -
  obtain c where c: "current (get lx) = Some c" using assms by (cases "current (get lx)") (auto simp: scan_escape_def)
  note g = get_came [OF c]
  show ?thesis
  proof (cases "map_of short_escapes c")
    case None
    then have "scan_unicode (get lx) = (True, lx')" "c = 117"
      using assms c by (auto simp: scan_escape_def short_escapes_def Let_def split: if_splits)
    then obtain t b where "string_chunk (92 # 117 # t) b" "came (get lx) t lx'" "token_buffer lx' = token_buffer lx @ b"
      using scan_unicode_sound [of "get lx" lx'] by (auto simp: lexer_simps)
    then show ?thesis using came_trans [OF g] \<open>c = 117\<close> by (intro exI [of _ "117 # t"] exI [of _ b]) fastforce
  next
    case (Some b)
    then have "lx' = add b (get lx)" using assms c by (auto simp: scan_escape_def short_escapes_def split: if_splits)
    then show ?thesis using chunk_short [OF Some] g by (intro exI [of _ "[c]"] exI [of _ "[b]"]) (simp add: lexer_simps)
  qed
qed

lemma read_ranges_sound:
  "read_ranges rs lx = (True, lx') \<Longrightarrow> \<exists>bs. list_all2 in_range bs rs \<and> came lx bs lx' \<and> token_buffer lx' = token_buffer lx @ bs"
proof (induction rs lx rule: read_ranges.induct)
  case (1 lx)
  then show ?case by auto
next
  case (2 lo hi rs lx)
  then obtain c where c: "current (get lx) = Some c" "lo \<le> c" "c \<le> hi" "read_ranges rs (add c (get lx)) = (True, lx')"
    by (auto simp: Let_def split: option.splits if_splits)
  then obtain bs where "list_all2 in_range bs rs" "came (add c (get lx)) bs lx'" "token_buffer lx' = token_buffer (add c (get lx)) @ bs"
    using 2(1) [OF refl c(1)] by auto
  then show ?case
    using c(2,3) came_trans [OF get_came [OF c(1)]] by (intro exI [of _ "c # bs"]) (simp add: in_range_def [of c] lexer_simps)
qed

lemma codepoint_ascii: "c < 0x80 \<Longrightarrow> codepoint_bytes (ucast c) = [c]"
proof -
  assume "c < 0x80"
  moreover have "unat (ucast c :: int32) = unat c" by (rule unat_ucast_up) simp
  moreover have "(ucast (ucast c :: int32) :: byte) = c"
    using calculation unat_byte [of "ucast c"] unat_bound [of c] by (simp add: word_unat_eq_iff)
  ultimately show ?thesis by (simp add: codepoint_bytes_def word_less_nat_alt)
qed

lemma step_sound:
  assumes "scan_string_loop lx = (value_string, lx2)" and "lexer_ok lx"
  shows "current (get lx) = Some 34 \<and> lx2 = get lx \<or> (\<exists>t b lx'. string_chunk t b \<and> string_step lx t b lx' \<and> t \<noteq> [])"
proof -
  obtain c where c: "current (get lx) = Some c"
    using assms by (cases "current (get lx)") (auto simp: scan_string_loop.simps [of lx])
  note g = get_came [OF c]
  have eq: "rest lx = c # rest (get lx)" using c by (rule get_Some)
  note loop = loop_get [OF assms(2) eq]
  consider "c = 34" | "c = 92" | "c \<noteq> 34" "c \<noteq> 92" "0x20 \<le> c" "c \<le> 0x7F" | "c \<noteq> 34" "c \<noteq> 92" "0x20 \<le> c" "\<not> c \<le> 0x7F" | "c < 0x20"
    by fastforce
  then show ?thesis
  proof cases
    case 2
    then obtain lx1 where lx1: "scan_escape (get lx) = (True, lx1)" "scan_string_loop lx = scan_string_loop lx1"
      using loop assms(1) by (auto split: if_splits prod.splits)
    then obtain t b where "string_chunk (92 # t) b" "came (get lx) t lx1" "token_buffer lx1 = token_buffer lx @ b"
      using scan_escape_sound [of "get lx" lx1] by (auto simp: lexer_simps)
    then show ?thesis using lx1(2) came_trans [OF g, of t lx1] 2 by (auto simp: string_step_def)
  next
    case 3
    then have a: "c < 0x80" by (simp add: word_le_nat_alt word_less_nat_alt)
    have u: "unat (ucast c :: int32) = unat c" by (rule unat_ucast_up) simp
    then have "scalar_value (ucast c)" "0x20 \<le> (ucast c :: int32)" "(ucast c :: int32) \<noteq> 0x22" "(ucast c :: int32) \<noteq> 0x5C"
      using 3 a by (auto simp: scalar_value_unat word_nat_simps)
    from chunk_plain [OF this] have "string_chunk [c] [c]" using codepoint_ascii [OF a] by simp
    then show ?thesis using step_plain [OF assms(2) eq 3(3,4,1,2)] by blast
  next
    case 4
    then have "\<not> c < 0x20" by simp
    then obtain rs lx1 where rs: "utf8_ranges c = Some rs" and lx1: "read_ranges rs (add c (get lx)) = (True, lx1)"
        "scan_string_loop lx = scan_string_loop lx1"
      using loop assms(1) 4 by (auto simp: next_byte_in_range_def split: if_splits prod.splits option.splits)
    obtain bs where bs: "list_all2 in_range bs rs" "came (get lx) bs lx1" "token_buffer lx1 = token_buffer lx @ c # bs"
      using read_ranges_sound [OF lx1(1)] by (auto simp: lexer_simps)
    then have seq: "utf8_seq (c # bs)" "bs \<noteq> []" using utf8_ranges_seq rs by blast+
    then obtain cp where cp: "scalar_value cp" "codepoint_bytes cp = c # bs" using seq_is_codepoint by blast
    then have "\<not> cp < 0x80" using seq(2) by (auto simp: codepoint_bytes_def)
    then have "0x20 \<le> cp" "cp \<noteq> 0x22" "cp \<noteq> 0x5C" by (auto simp: word_nat_simps)
    from chunk_plain [OF cp(1) this] have "string_chunk (c # bs) (c # bs)" using cp(2) by simp
    moreover have "string_step lx (c # bs) (c # bs) lx1" using lx1(2) bs came_trans [OF g bs(2)] by (simp add: string_step_def)
    ultimately show ?thesis by blast
  next
    case 5
    then have "c \<noteq> 34" "c \<noteq> 92" by (auto simp: word_nat_simps)
    then show ?thesis using 5 loop assms(1) by simp
  qed (use loop c assms(1) in simp)
qed

lemma scan_string_sound:
  assumes "scan_string_loop lx = (value_string, lx')" and "lexer_ok lx"
  shows "\<exists>tx s. string_body tx s \<and> came lx (tx @ [34]) lx' \<and> token_buffer lx' = token_buffer lx @ s"
  using assms
proof (induction "length (rest lx)" arbitrary: lx rule: less_induct)
  case less
  from step_sound [OF less.prems] show ?case
  proof (elim disjE exE conjE)
    assume "current (get lx) = Some 34" and "lx' = get lx"
    then show ?thesis using body_nil get_came [of lx 34] by (intro exI [of _ "[]"]) (simp add: lexer_simps)
  next
    fix t b lx1
    assume *: "string_chunk t b" "string_step lx t b lx1" "t \<noteq> []"
    then have "length (rest lx1) < length (rest lx)" "lexer_ok lx1" "scan_string_loop lx1 = (value_string, lx')"
      using less.prems by (auto simp: string_step_def came_def)
    then obtain tx s where "string_body tx s" "came lx1 (tx @ [34]) lx'" "token_buffer lx' = token_buffer lx1 @ s"
      using less.hyps by blast
    then show ?thesis
      using * body_chunk [OF *(1), of tx s] came_trans [of lx t lx1 "tx @ [34]" lx']
      by (intro exI [of _ "t @ tx"] exI [of _ "b @ s"]) (simp add: string_step_def)
  qed
qed

section \<open>Numbers\<close>

text \<open>The state machine of \<^verbatim>\<open>scan_number\<close>, without the input.\<close>

definition is_exp :: "byte \<Rightarrow> bool" where
  "is_exp c \<longleftrightarrow> c = 101 \<or> c = 69"

fun number_next :: "number_label \<Rightarrow> byte \<Rightarrow> number_label option" where
  "number_next Minus c = (if c = 48 then Some Zero else if is_digit19 c then Some Any1 else None)"
| "number_next Zero c = (if c = 46 then Some Decimal1 else if is_exp c then Some Exponent else None)"
| "number_next Any1 c =
     (if is_digit c then Some Any1 else if c = 46 then Some Decimal1 else if is_exp c then Some Exponent else None)"
| "number_next Decimal1 c = (if is_digit c then Some Decimal2 else None)"
| "number_next Decimal2 c = (if is_digit c then Some Decimal2 else if is_exp c then Some Exponent else None)"
| "number_next Exponent c = (if c = 43 \<or> c = 45 then Some Sign else if is_digit c then Some Any2 else None)"
| "number_next Sign c = (if is_digit c then Some Any2 else None)"
| "number_next Any2 c = (if is_digit c then Some Any2 else None)"

definition number_final :: "number_label \<Rightarrow> bool" where
  "number_final l \<longleftrightarrow> l \<in> {Zero, Any1, Decimal2, Any2}"

definition next_type :: "number_label \<Rightarrow> token_type \<Rightarrow> token_type" where
  "next_type l nt = (if l = Minus then value_integer else if l \<in> {Decimal1, Exponent} then value_float else nt)"

fun number_run :: "number_label \<Rightarrow> token_type \<Rightarrow> bytes \<Rightarrow> token_type \<Rightarrow> bool" where
  "number_run l nt [] nt' = (number_final l \<and> nt' = nt)"
| "number_run l nt (c # t) nt' = (case number_next l c of None \<Rightarrow> False | Some l' \<Rightarrow> number_run l' (next_type l nt) t nt')"

lemma number_at_next:
  assumes "current (get lx) = Some c" and "number_next l c = Some l'" and "decimal_point_char lx = 46"
  shows "number_at st l nt lx = number_at st l' (next_type l nt) (add c (get lx))"
  using assms by (subst number_at.simps, cases l) (auto simp: next_type_def is_exp_def lexer_simps split: if_splits)

lemma number_at_stop:
  assumes "case current (get lx) of None \<Rightarrow> True | Some c \<Rightarrow> number_next l c = None"
  shows "number_final l \<Longrightarrow> number_at st l nt lx = number_done st nt (get lx)"
    and "\<not> number_final l \<Longrightarrow> fst (number_at st l nt lx) = parse_error"
  using assms by (subst number_at.simps, cases l; auto simp: number_final_def is_exp_def split: option.splits if_splits)+

text \<open>What may follow a number.\<close>

definition stops :: "bytes \<Rightarrow> bool" where
  "stops tail \<longleftrightarrow> (case tail of [] \<Rightarrow> True | c # _ \<Rightarrow> \<not> is_digit c \<and> c \<noteq> 46 \<and> \<not> is_exp c)"

lemma number_at_complete:
  assumes "number_run l nt t nt'" and "lexer_ok lx" and "rest lx = t @ tail" and "stops tail" and "decimal_point_char lx = 46"
  shows "\<exists>lx'. number_at st l nt lx = number_done st nt' (get lx') \<and> came lx t lx' \<and> token_buffer lx' = token_buffer lx @ t"
  using assms
proof (induction t arbitrary: l nt lx)
  case Nil
  then have "case current (get lx) of None \<Rightarrow> True | Some c \<Rightarrow> number_next l c = None"
    using get_Some [of lx] by (cases l) (auto simp: stops_def number_final_def split: option.splits)
  then show ?case using number_at_stop(1) Nil by fastforce
next
  case (Cons c t)
  have r: "rest lx = c # (t @ tail)" using Cons.prems(3) by simp
  note g = get_Cons [OF Cons.prems(2) r]
  obtain l' where l': "number_next l c = Some l'" "number_run l' (next_type l nt) t nt'"
    using Cons.prems(1) by (auto split: option.splits)
  from number_at_next [OF g(1) l'(1) Cons.prems(5)]
  have eq: "number_at st l nt lx = number_at st l' (next_type l nt) (add c (get lx))" .
  obtain lx' where "number_at st l' (next_type l nt) (add c (get lx)) = number_done st nt' (get lx')"
    "came (add c (get lx)) t lx'" "token_buffer lx' = token_buffer lx @ c # t"
    using Cons.IH [OF l'(2), of "add c (get lx)"] Cons.prems g by (auto simp: lexer_simps)
  then show ?case using eq came_trans [OF g(4), of t lx'] by auto
qed

lemma number_at_sound:
  assumes "fst (number_at st l nt lx) \<noteq> parse_error" and "lexer_ok lx" and "decimal_point_char lx = 46"
  shows "\<exists>t nt' lx'. number_run l nt t nt' \<and> number_at st l nt lx = number_done st nt' (get lx') \<and> came lx t lx' \<and>
    token_buffer lx' = token_buffer lx @ t"
  using assms
proof (induction "length (rest lx)" arbitrary: l nt lx rule: less_induct)
  case less
  show ?case
  proof (cases "case current (get lx) of None \<Rightarrow> True | Some c \<Rightarrow> number_next l c = None")
    case True
    from number_at_stop [OF this] have "number_final l" "number_at st l nt lx = number_done st nt (get lx)"
      using less.prems(1) by blast+
    then show ?thesis by (intro exI [of _ "[]"] exI [of _ nt] exI [of _ lx]) simp
  next
    case False
    then obtain c l' where c: "current (get lx) = Some c" "number_next l c = Some l'" by (auto split: option.splits)
    from number_at_next [OF c less.prems(3)]
    have eq: "number_at st l nt lx = number_at st l' (next_type l nt) (add c (get lx))" .
    note g = get_came [OF c(1)]
    have "length (rest (add c (get lx))) < length (rest lx)" "lexer_ok (add c (get lx))" "decimal_point_char (add c (get lx)) = 46"
      using get_shorter [OF c(1)] less.prems g by (simp_all add: lexer_simps came_def)
    then obtain t nt' lx' where "number_run l' (next_type l nt) t nt'"
      "number_at st l' (next_type l nt) (add c (get lx)) = number_done st nt' (get lx')" "came (add c (get lx)) t lx'"
      "token_buffer lx' = token_buffer (add c (get lx)) @ t"
      using less.hyps [of "add c (get lx)" l' "next_type l nt"] less.prems(1) eq by auto
    then show ?thesis
      using eq c(2) came_trans [OF g, of t lx'] by (intro exI [of _ "c # t"] exI [of _ nt'] exI [of _ lx']) (simp add: lexer_simps)
  qed
qed

text \<open>The machine accepts the numbers of the grammar.\<close>

definition digits_then :: "(bytes \<Rightarrow> bool) \<Rightarrow> bytes \<Rightarrow> bool" where
  "digits_then Q t \<longleftrightarrow> (\<exists>ds tl. t = ds @ tl \<and> digits ds \<and> Q tl)"

lemma digits_thenI: "digits ds \<Longrightarrow> Q u \<Longrightarrow> digits_then Q (ds @ u)"
  by (auto simp: digits_then_def)

lemma digits_then_simps [simp]:
  "digits_then Q [] = Q []" "digits_then Q (c # t) \<longleftrightarrow> Q (c # t) \<or> is_digit c \<and> digits_then Q t"
proof -
  show "digits_then Q (c # t) \<longleftrightarrow> Q (c # t) \<or> is_digit c \<and> digits_then Q t"
  proof
    assume "digits_then Q (c # t)"
    then obtain ds tl where "c # t = ds @ tl" "digits ds" "Q tl" by (auto simp: digits_then_def)
    then show "Q (c # t) \<or> is_digit c \<and> digits_then Q t"
      using digits_thenI [of "List.tl ds" Q tl] by (cases ds) (auto simp: digits_def)
  next
    assume "Q (c # t) \<or> is_digit c \<and> digits_then Q t"
    then show "digits_then Q (c # t)"
    proof
      assume "is_digit c \<and> digits_then Q t"
      then obtain ds tl where "t = ds @ tl" "digits (c # ds)" "Q tl" by (auto simp: digits_then_def digits_def)
      then show ?thesis using digits_thenI [of "c # ds" Q tl] by simp
    qed (use digits_thenI [of "[]" Q "c # t"] in \<open>simp add: digits_def\<close>)
  qed
qed (simp add: digits_then_def digits_def)

lemma run_Any2: "number_run Any2 nt t nt' \<longleftrightarrow> digits t \<and> nt' = nt"
  by (induction t) (auto simp: digits_def next_type_def number_final_def)

lemma run_Sign: "number_run Sign nt t nt' \<longleftrightarrow> t \<noteq> [] \<and> digits t \<and> nt' = nt"
  by (cases t) (auto simp: digits_def next_type_def number_final_def run_Any2)

lemma signed_split:
  "(\<exists>s ds. t = s @ ds \<and> s \<in> {[], [43], [45 :: byte]} \<and> P ds) \<longleftrightarrow> P t \<or> (\<exists>c ds. t = c # ds \<and> (c = 43 \<or> c = 45) \<and> P ds)"
  by (simp add: ex_disj_distrib conj_disj_distribL conj_disj_distribR)

lemma run_Exponent:
  "number_run Exponent nt t nt' \<longleftrightarrow> (\<exists>s ds. t = s @ ds \<and> s \<in> {[], [43], [45]} \<and> ds \<noteq> [] \<and> digits ds) \<and> nt' = value_float"
proof -
  have "is_digit 43 = False" "is_digit 45 = False" by (simp_all add: is_digit_def)
  then have "number_run Exponent nt t nt' \<longleftrightarrow>
      nt' = value_float \<and> (t \<noteq> [] \<and> digits t \<or> (\<exists>c ds. t = c # ds \<and> (c = 43 \<or> c = 45) \<and> ds \<noteq> [] \<and> digits ds))"
    by (cases t) (auto simp: run_Any2 run_Sign next_type_def digits_def number_final_def)
  then show ?thesis unfolding signed_split by auto
qed

lemma run_Exponent_type: "number_run Exponent nt t nt' \<longleftrightarrow> number_run Exponent value_float t value_float \<and> nt' = value_float"
  by (auto simp: run_Exponent)

lemma exp_Cons: "exp_text (c # t) \<longleftrightarrow> is_exp c \<and> number_run Exponent value_float t value_float"
  unfolding run_Exponent exp_text_def is_exp_def by auto

lemma exp_Nil [simp]: "exp_text []"
  by (simp add: exp_text_def)

lemma exp_no_digit: "is_digit c \<Longrightarrow> \<not> exp_text (c # t)" "is_exp c \<Longrightarrow> \<not> is_digit c" "\<not> is_exp 46" "\<not> is_digit 46"
  by (auto simp: exp_text_def is_digit_def is_exp_def)

lemma run_Decimal2: "number_run Decimal2 value_float t nt' \<longleftrightarrow> digits_then exp_text t \<and> nt' = value_float"
proof (induction t)
  case (Cons c t)
  then show ?case
    using run_Exponent_type [of value_float t nt'] exp_Cons [of c t] exp_no_digit(1,2) [of c]
    by (auto simp: next_type_def)
qed (auto simp: number_final_def)

lemma run_Decimal1:
  "number_run Decimal1 nt t nt' \<longleftrightarrow> (\<exists>c t'. t = c # t' \<and> is_digit c \<and> digits_then exp_text t') \<and> nt' = value_float"
  by (cases t) (auto simp: number_final_def next_type_def run_Decimal2)

lemma frac_then:
  "(\<exists>fr ex. t = fr @ ex \<and> frac_text fr \<and> exp_text ex) \<longleftrightarrow>
   exp_text t \<or> (\<exists>c t'. t = 46 # c # t' \<and> is_digit c \<and> digits_then exp_text t')" (is "?l \<longleftrightarrow> ?r")
proof
  assume ?l
  then obtain fr ex where t: "t = fr @ ex" "frac_text fr" "exp_text ex" by blast
  then show ?r by (cases fr) (auto simp: frac_text_def neq_Nil_conv digits_def intro!: digits_thenI)
next
  assume ?r
  then show ?l
  proof (elim disjE exE conjE)
    fix c t'
    assume "t = 46 # c # t'" "is_digit c" "digits_then exp_text t'"
    then obtain ds ex where "t = (46 # c # ds) @ ex" "frac_text (46 # c # ds)" "exp_text ex"
      by (auto simp: frac_text_def digits_then_def digits_def)
    then show ?l by blast
  qed (auto simp: frac_text_def)
qed

lemma run_Zero:
  "number_run Zero nt t nt' \<longleftrightarrow>
   (\<exists>fr ex. t = fr @ ex \<and> frac_text fr \<and> exp_text ex) \<and> nt' = (if t = [] then nt else value_float)"
proof (cases t)
  case (Cons c t')
  then show ?thesis
    unfolding frac_then using run_Exponent_type [of nt t' nt'] exp_Cons [of c t'] exp_no_digit(3)
    by (auto simp: next_type_def run_Decimal1)
qed (auto simp: number_final_def frac_text_def)

lemma run_Any1: "number_run Any1 nt t nt' \<longleftrightarrow> digits_then (\<lambda>tl. number_run Zero nt tl nt') t"
  using exp_no_digit by (induction t) (auto simp: next_type_def number_final_def)

lemma run_int:
  assumes "is_digit c" and "l = (if c = 48 then Zero else Any1)"
  shows "number_run l nt cs nt' \<longleftrightarrow>
    (\<exists>ip fr ex. c # cs = ip @ fr @ ex \<and> int_text ip \<and> frac_text fr \<and> exp_text ex \<and> nt' = (if fr @ ex = [] then nt else value_float))"
proof -
  have hd: "\<not> is_digit19 48" "is_digit19 c \<longleftrightarrow> c \<noteq> 48" using assms(1) by (auto simp: is_digit19_def is_digit_def word_nat_simps)
  have split: "(\<exists>ip tl. c # cs = ip @ tl \<and> int_text ip \<and> Q tl) \<longleftrightarrow> (if c = 48 then Q cs else digits_then Q cs)" for Q
    using hd by (auto simp: int_text_def digits_then_def Cons_eq_append_conv; blast)
  have "number_run l nt cs nt' \<longleftrightarrow> (\<exists>ip tl. c # cs = ip @ tl \<and> int_text ip \<and> number_run Zero nt tl nt')"
    unfolding split assms(2) by (simp add: run_Any1)
  then show ?thesis unfolding run_Zero by fast
qed

definition number_start :: "byte \<Rightarrow> number_label" where
  "number_start c = (if c = 45 then Minus else if c = 48 then Zero else Any1)"

lemma scan_number_start: "scan_number st c lx = number_at st (number_start c) value_unsigned (add c (reset lx))"
  by (simp add: scan_number_def number_start_def)

lemma int_text_head: "int_text ip \<Longrightarrow> \<exists>c cs. ip = c # cs \<and> is_digit c"
  by (auto simp: int_text_def is_digit19_def is_digit_def word_le_nat_alt)

definition number_kind :: "bool \<Rightarrow> bytes \<Rightarrow> token_type" where
  "number_kind neg tail = (if tail \<noteq> [] then value_float else if neg then value_integer else value_unsigned)"

lemma sign_split:
  "c # cs = (if neg then [45] else []) @ ip @ u \<and> int_text ip \<longleftrightarrow>
   (if c = 45 then neg \<and> cs = ip @ u \<and> int_text ip else \<not> neg \<and> c # cs = ip @ u \<and> int_text ip)"
  using int_text_head [of ip] by (cases neg) (auto simp: is_digit_def)

lemma number_parts:
  assumes "c = 45 \<or> is_digit c"
  shows "number_run (number_start c) value_unsigned cs nt' \<longleftrightarrow>
    (\<exists>neg ip fr ex. c # cs = (if neg then [45] else []) @ ip @ fr @ ex \<and> int_text ip \<and> frac_text fr \<and> exp_text ex \<and>
       nt' = number_kind neg (fr @ ex))"
proof -
  have sp: "(c # cs = (if neg then [45] else []) @ ip @ fr @ ex \<and> int_text ip \<and> Q) =
      ((if c = 45 then neg \<and> cs = ip @ fr @ ex \<and> int_text ip else \<not> neg \<and> c # cs = ip @ fr @ ex \<and> int_text ip) \<and> Q)" for neg ip fr ex Q
    using sign_split [of c cs neg ip "fr @ ex"] by auto
  show ?thesis
  proof (cases "c = 45")
    case True
    have "number_run Minus value_unsigned cs nt' \<longleftrightarrow> (\<exists>ip fr ex. cs = ip @ fr @ ex \<and> int_text ip \<and> frac_text fr \<and> exp_text ex \<and>
        nt' = number_kind True (fr @ ex))"
    proof (cases cs)
      case Nil
      then show ?thesis by (auto simp: number_final_def int_text_def)
    next
      case (Cons d ds)
      have k: "number_kind True u = (if u = [] then value_integer else value_float)" for u by (simp add: number_kind_def)
      have nx: "number_next Minus d = (if is_digit d then Some (if d = 48 then Zero else Any1) else None)"
        by (auto simp: is_digit_def is_digit19_def word_nat_simps)
      show ?thesis
      proof (cases "is_digit d")
        case True
        then show ?thesis using Cons nx run_int [OF True refl, of value_integer ds nt'] by (simp add: next_type_def k)
      next
        case False
        then show ?thesis using Cons nx int_text_head by fastforce
      qed
    qed
    then have "number_run Minus value_unsigned cs nt' \<longleftrightarrow> (\<exists>neg ip fr ex. (neg \<and> cs = ip @ fr @ ex \<and> int_text ip) \<and> frac_text fr \<and> exp_text ex \<and>
        nt' = number_kind neg (fr @ ex))"
      by (simp only: ex_bool_eq simp_thms conj_assoc)
    then show ?thesis
      unfolding sp number_start_def if_P [OF True] .
  next
    case False
    then have "is_digit c" "number_start c = (if c = 48 then Zero else Any1)" using assms by (auto simp: number_start_def)
    have k: "number_kind False u = (if u = [] then value_unsigned else value_float)" for u by (simp add: number_kind_def)
    from \<open>is_digit c\<close> \<open>number_start c = (if c = 48 then Zero else Any1)\<close> run_int [of c "number_start c", of value_unsigned cs nt'] show ?thesis
      unfolding sp if_not_P [OF False] k [symmetric] by (simp only: ex_bool_eq simp_thms conj_assoc not_True_eq_False not_False_eq_True)
  qed
qed

text \<open>The value of a token, where it has one.\<close>

definition token_json :: "token_type \<Rightarrow> lexer \<Rightarrow> json option" where
  "token_json t lx =
     (case t of
        literal_true \<Rightarrow> Some (JBool True) | literal_false \<Rightarrow> Some (JBool False) | literal_null \<Rightarrow> Some JNull
      | value_string \<Rightarrow> Some (JString (token_buffer lx)) | value_unsigned \<Rightarrow> Some (JUnsigned (value_uint lx))
      | value_integer \<Rightarrow> Some (JInt (value_int lx)) | value_float \<Rightarrow> Some (JFloat (value_double lx)) | _ \<Rightarrow> None)"

lemma number_done_value:
  assumes "token_buffer lx = (if neg then [45] else []) @ ip @ tail"
    and "nt = number_kind neg tail"
    and "number_done st nt (get lx) = (t, lx')"
  shows "token_json t lx' = Some (number_value st neg ip tail)"
  using assms
  by (cases neg; cases "tail = []")
    (auto simp: number_done_def number_value_def token_json_def number_kind_def Let_def lexer_simps split: if_splits)

lemma unget_get:
  assumes "lexer_ok lx"
  shows "came lx [] (unget (get lx))"
proof -
  have "lexer_ok (unget (get lx))" using get_None_ia [OF assms] by (auto simp: lexer_ok_def lexer_simps)
  moreover have "rest (unget (get lx)) = rest lx"
  proof (cases "current (get lx)")
    case None
    then show ?thesis using get_None [OF assms] get_None_ia [OF assms] by (simp add: rest_unget)
  next
    case (Some c)
    have "rest (get lx) = ia (get lx)" by (simp add: rest_def lexer_simps)
    then show ?thesis using get_Some [OF Some] Some by (simp add: rest_unget)
  qed
  ultimately show ?thesis by (simp add: came_def lexer_simps)
qed

lemma number_done_came:
  assumes "lexer_ok lx" and "number_done st nt (get lx) = (t, lx')"
  shows "came lx [] lx'"
proof -
  have v: "came lx [] (lx1\<lparr>value_uint := v\<rparr>) = came lx [] lx1" "came lx [] (lx1\<lparr>value_int := v\<rparr>) = came lx [] lx1"
    "came lx [] (lx1\<lparr>value_double := v\<rparr>) = came lx [] lx1" for lx1 v
    by (simp_all add: came_def lexer_simps)
  show ?thesis using assms(2) unget_get [OF assms(1)] by (auto simp: number_done_def Let_def v split: if_splits)
qed

lemma number_done_ok:
  assumes "c # cs = (if neg then [45] else []) @ ip @ fr @ ex"
    and "nt' = number_kind neg (fr @ ex)"
    and "came lx cs lx1" and "token_buffer lx1 = c # cs" and "lexer_ok lx" and "number_done st nt' (get lx1) = (t, lx')"
  shows "token_json t lx' = Some (number_value st neg ip (fr @ ex)) \<and> came lx cs lx'"
proof
  show "token_json t lx' = Some (number_value st neg ip (fr @ ex))"
    using number_done_value [OF _ assms(2,6), of ip] assms(1,4) by simp
  have "lexer_ok lx1" using assms(3,5) by (simp add: came_def)
  then show "came lx cs lx'" using came_trans [OF assms(3) number_done_came [OF _ assms(6)]] by simp
qed

lemma scan_number_complete:
  assumes "number_text st (c # cs) v" and "lexer_ok lx" and "rest lx = cs @ tail" and "stops tail" and "decimal_point_char lx = 46"
  shows "\<exists>t lx'. scan_number st c lx = (t, lx') \<and> token_json t lx' = Some v \<and> came lx cs lx'"
proof -
  obtain neg ip fr ex where p: "c # cs = (if neg then [45] else []) @ ip @ fr @ ex" "int_text ip" "frac_text fr" "exp_text ex"
    "v = number_value st neg ip (fr @ ex)"
    using assms(1) unfolding number_text_def by blast
  define nt where "nt = number_kind neg (fr @ ex)"
  have c: "c = 45 \<or> is_digit c" using p(1) int_text_head [OF p(2)] by (auto split: if_splits)
  have "number_run (number_start c) value_unsigned cs nt" unfolding number_parts [OF c] nt_def using p by blast
  from number_at_complete [OF this, of "add c (reset lx)" tail st]
  obtain lx1 where lx1: "scan_number st c lx = number_done st nt (get lx1)" "came lx cs lx1" "token_buffer lx1 = c # cs"
    using assms(2-5) by (auto simp: scan_number_start lexer_simps)
  obtain t lx' where dn: "number_done st nt (get lx1) = (t, lx')" by fastforce
  from number_done_ok [OF p(1) nt_def lx1(2,3) assms(2) dn] show ?thesis using lx1(1) dn p(5) by auto
qed

lemma scan_number_sound:
  assumes "scan_number st c lx = (t, lx')" and "t \<noteq> parse_error" and "c = 45 \<or> is_digit c"
    and "lexer_ok lx" and "decimal_point_char lx = 46"
  shows "\<exists>cs v. number_text st (c # cs) v \<and> token_json t lx' = Some v \<and> came lx cs lx'"
proof -
  let ?lx = "add c (reset lx)"
  obtain cs nt lx1 where run: "number_run (number_start c) value_unsigned cs nt"
    and lx1: "number_done st nt (get lx1) = (t, lx')" "came lx cs lx1" "token_buffer lx1 = c # cs"
    using number_at_sound [of st "number_start c" value_unsigned ?lx] assms by (auto simp: scan_number_start lexer_simps)
  obtain neg ip fr ex where p: "c # cs = (if neg then [45] else []) @ ip @ fr @ ex" "int_text ip" "frac_text fr" "exp_text ex"
    "nt = number_kind neg (fr @ ex)"
    using run unfolding number_parts [OF assms(3)] by blast
  from number_done_ok [OF p(1,5) lx1(2,3) assms(4) lx1(1)] show ?thesis
    using p unfolding number_text_def by blast
qed

section \<open>White space and tokens\<close>

lemma skip_whitespace_to:
  assumes "list_all is_ws ws" and "lexer_ok lx" and "rest lx = ws @ c # tail" and "\<not> is_ws c"
  shows "current (skip_whitespace lx) = Some c \<and> came lx (ws @ [c]) (skip_whitespace lx)"
  using assms
proof (induction ws arbitrary: lx)
  case Nil
  then have r: "rest lx = c # tail" by simp
  show ?case
    using Nil get_Cons(1,4) [OF Nil.prems(2) r] by (simp add: skip_whitespace.simps [of lx])
next
  case (Cons w ws)
  then have r: "rest lx = w # (ws @ c # tail)" by simp
  note g = get_Cons [OF Cons.prems(2) r]
  have "skip_whitespace lx = skip_whitespace (get lx)"
    using Cons.prems(1) g(1) by (simp add: skip_whitespace.simps [of lx])
  then show ?case
    using Cons.IH [of "get lx"] Cons.prems(1,4) g came_trans [OF g(4), of "ws @ [c]"] by simp
qed

lemma skip_whitespace_sound:
  assumes "lexer_ok lx"
  shows "\<exists>ws. list_all is_ws ws \<and>
    (case current (skip_whitespace lx) of
       None \<Rightarrow> rest lx = ws
     | Some c \<Rightarrow> \<not> is_ws c \<and> came lx (ws @ [c]) (skip_whitespace lx))"
  using assms
proof (induction "length (rest lx)" arbitrary: lx rule: less_induct)
  case less
  show ?case
  proof (cases "current (get lx)")
    case None
    then show ?thesis using get_None [OF less.prems None] by (simp add: skip_whitespace.simps [of lx])
  next
    case (Some c)
    note g = get_came [OF Some]
    show ?thesis
    proof (cases "is_ws c")
      case True
      then have eq: "skip_whitespace lx = skip_whitespace (get lx)" using Some by (simp add: skip_whitespace.simps [of lx])
      have "lexer_ok (get lx)" using g less.prems by (simp add: came_def)
      from less.hyps [OF get_shorter [OF Some] this] obtain ws where ws: "list_all is_ws ws"
        "case current (skip_whitespace (get lx)) of None \<Rightarrow> rest (get lx) = ws
         | Some c \<Rightarrow> \<not> is_ws c \<and> came (get lx) (ws @ [c]) (skip_whitespace (get lx))" by blast
      then show ?thesis
        using True eq get_Some [OF Some] came_trans [OF g] by (intro exI [of _ "c # ws"]) (fastforce split: option.splits)
    next
      case False
      then show ?thesis using g Some by (intro exI [of _ "[]"]) (simp add: skip_whitespace.simps [of lx])
    qed
  qed
qed

lemma skip_whitespace_end:
  assumes "list_all is_ws ws" and "lexer_ok lx" and "rest lx = ws"
  shows "current (skip_whitespace lx) = None"
proof (rule ccontr)
  assume "current (skip_whitespace lx) \<noteq> None"
  then obtain c us where "\<not> is_ws c" "came lx (us @ [c]) (skip_whitespace lx)"
    using skip_whitespace_sound [OF assms(2)] by auto
  then show False using assms(1,3) by (auto simp: came_def)
qed

text \<open>The byte order mark, before the first token only.\<close>

lemma skip_bom_none:
  assumes "lexer_ok lx" and "case rest lx of [] \<Rightarrow> True | c # _ \<Rightarrow> c \<noteq> 0xEF"
  shows "\<exists>lx1. skip_bom lx = (True, lx1) \<and> came lx [] lx1"
proof -
  have "current (get lx) \<noteq> Some 0xEF" using assms(2) get_Some [of lx] by (auto split: list.splits)
  then show ?thesis using unget_get [OF assms(1)] by (auto simp: skip_bom_def Let_def)
qed

lemma skip_bom_some:
  assumes "lexer_ok lx" and "rest lx = bom @ tail"
  shows "\<exists>lx1. skip_bom lx = (True, lx1) \<and> came lx bom lx1"
proof -
  have r: "rest lx = 0xEF # 0xBB # 0xBF # tail" using assms(2) by (simp add: bom_def)
  note g1 = get_Cons [OF assms(1) r]
  note g2 = get_Cons [OF g1(3,2)]
  note g3 = get_Cons [OF g2(3,2)]
  show ?thesis
    using g1(1) g2(1) g3(1) came_trans [OF g1(4) came_trans [OF g2(4) g3(4)]] by (simp add: skip_bom_def bom_def)
qed

lemma skip_bom_sound:
  assumes "skip_bom lx = (True, lx1)" and "lexer_ok lx"
  shows "\<exists>b. bom_text True b \<and> came lx b lx1"
proof (cases "current (get lx) = Some 0xEF")
  case True
  then have c: "current (get (get lx)) = Some 0xBB" "current (get (get (get lx))) = Some 0xBF" "lx1 = get (get (get lx))"
    using assms(1) by (auto simp: skip_bom_def Let_def split: if_splits)
  have "came lx ([0xEF] @ [0xBB] @ [0xBF]) lx1"
    using came_trans [OF get_came [OF True] came_trans [OF get_came [OF c(1)] get_came [OF c(2)]]] c(3) by simp
  then show ?thesis by (intro exI [of _ bom]) (simp add: bom_text_def bom_def)
next
  case False
  then show ?thesis
    using assms(1) unget_get [OF assms(2)] by (intro exI [of _ "[]"]) (auto simp: bom_text_def skip_bom_def Let_def)
qed

lemma blank_ws: "list_all is_ws ws \<Longrightarrow> blank at_start ws"
  by (auto simp: blank_def bom_text_def)

lemma blank_later: "blank False u \<longleftrightarrow> list_all is_ws u"
  by (auto simp: blank_def bom_text_def)

text \<open>The text that starts with \<open>u\<close> and goes on with \<open>v\<close>.\<close>

definition before_token :: "lexer \<Rightarrow> bool \<times> lexer" where
  "before_token lx = (if chars_read_total lx = 0 then skip_bom lx else (True, lx))"

lemma scan_before_token:
  assumes "\<not> ignore_comments lx" and "before_token lx = (True, lx1)" and "ignore_comments lx1 = ignore_comments lx"
  shows "scan st lx = scan_token st (skip_whitespace lx1)"
proof -
  have "reads lx1 (skip_whitespace lx1)" by (rule reads_whitespace) simp
  then have "skip_comments (skip_whitespace lx1) = (True, skip_whitespace lx1)"
    using assms(1,3) by (simp add: skip_comments.simps [of "skip_whitespace lx1"] reads_def)
  then show ?thesis using assms(2) by (simp add: scan_def before_token_def)
qed

lemma before_token_blank:
  assumes "blank (chars_read_total lx = 0) u" and "lexer_ok lx" and "rest lx = u @ tail"
    and "case tail of [] \<Rightarrow> True | c # _ \<Rightarrow> c \<noteq> 0xEF"
  shows "\<exists>lx1 b ws. before_token lx = (True, lx1) \<and> came lx b lx1 \<and> u = b @ ws \<and> list_all is_ws ws"
proof -
  obtain b ws where u: "u = b @ ws" "bom_text (chars_read_total lx = 0) b" "list_all is_ws ws" using assms(1) by (auto simp: blank_def)
  consider "chars_read_total lx \<noteq> 0" "b = []" | "chars_read_total lx = 0" "b = bom" | "chars_read_total lx = 0" "b = []"
    using u(2) by (auto simp: bom_text_def)
  then show ?thesis
  proof cases
    case 2
    then show ?thesis using skip_bom_some [OF assms(2), of "ws @ tail"] assms(3) u by (auto simp: before_token_def)
  next
    case 3
    then have "case rest lx of [] \<Rightarrow> True | c # _ \<Rightarrow> c \<noteq> 0xEF"
      using assms(3,4) u(1,3) by (cases ws) (auto simp: is_ws_def)
    then obtain lx1 where "before_token lx = (True, lx1)" "came lx [] lx1"
      using skip_bom_none [OF assms(2)] 3(1) by (auto simp: before_token_def)
    then show ?thesis using 3(2) u by auto
  next
    case 1
    then show ?thesis using u by (intro exI [of _ lx] exI [of _ "[]"] exI [of _ ws]) (simp add: before_token_def)
  qed
qed

lemma scan_first:
  assumes "blank (chars_read_total lx = 0) u" and "lexer_ok lx" and "\<not> ignore_comments lx" and "rest lx = u @ c # tail"
    and "\<not> is_ws c" and "c \<noteq> 0xEF"
  shows "\<exists>lx1. scan st lx = scan_token st lx1 \<and> current lx1 = Some c \<and> came lx (u @ [c]) lx1"
proof -
  obtain lx0 b ws where lx0: "before_token lx = (True, lx0)" "came lx b lx0" "u = b @ ws" "list_all is_ws ws"
    using before_token_blank [OF assms(1,2,4)] assms(6) by auto
  then have "lexer_ok lx0" "rest lx0 = ws @ c # tail" "ignore_comments lx0 = ignore_comments lx" using assms(2,4) by (auto simp: came_def)
  then show ?thesis
    using skip_whitespace_to [OF lx0(4) _ _ assms(5), of lx0 tail] scan_before_token [OF assms(3) lx0(1)]
      came_trans [OF lx0(2), of "ws @ [c]"] lx0(3) by auto
qed

lemma scan_end:
  assumes "blank (chars_read_total lx = 0) u" and "lexer_ok lx" and "\<not> ignore_comments lx" and "rest lx = u @ z" and "z = [] \<or> hd z = 0"
  shows "\<exists>lx1. scan st lx = (end_of_input, lx1)"
proof (cases z)
  case Nil
  then obtain lx0 b ws where lx0: "before_token lx = (True, lx0)" "came lx b lx0" "u = b @ ws" "list_all is_ws ws"
    using before_token_blank [OF assms(1,2,4)] by auto
  then have "lexer_ok lx0" "rest lx0 = ws" "ignore_comments lx0 = ignore_comments lx" using assms(2,4) Nil by (auto simp: came_def)
  then show ?thesis
    using skip_whitespace_end [OF lx0(4)] scan_before_token [OF assms(3) lx0(1)] by (simp add: scan_token_def)
next
  case (Cons c t)
  then have "c = 0" using assms(5) by simp
  then show ?thesis
    using scan_first [OF assms(1,2,3), of 0 t st] assms(4) Cons by (auto simp: is_ws_def scan_token_def is_digit_def)
qed

definition punctuation :: "(byte \<times> token_type) list" where
  "punctuation =
     [(91, begin_array), (93, end_array), (123, begin_object), (125, end_object), (58, name_separator), (44, value_separator)]"

lemma scan_punctuation:
  assumes "blank (chars_read_total lx = 0) u" and "lexer_ok lx" and "\<not> ignore_comments lx" and "rest lx = u @ c # tail"
    and "map_of punctuation c = Some t"
  shows "\<exists>lx'. scan st lx = (t, lx') \<and> came lx (u @ [c]) lx'"
proof -
  have c: "\<not> is_ws c" "c \<noteq> 0xEF" using assms(5) by (auto simp: punctuation_def is_ws_def split: if_splits)
  obtain lx1 where "scan st lx = scan_token st lx1" "current lx1 = Some c" "came lx (u @ [c]) lx1"
    using scan_first [OF assms(1-4) c] by blast
  then show ?thesis using assms(5) by (auto simp: scan_token_def punctuation_def split: if_splits)
qed

lemma scan_literal_complete:
  assumes "lexer_ok lx" and "rest lx = cs @ tail"
  shows "\<exists>lx'. scan_literal cs t lx = (t, lx') \<and> came lx cs lx'"
  using assms
proof (induction cs arbitrary: lx)
  case (Cons c cs)
  then have r: "rest lx = c # (cs @ tail)" by simp
  note g = get_Cons [OF Cons.prems(1) r]
  obtain lx' where "scan_literal cs t (get lx) = (t, lx')" "came (get lx) cs lx'" using Cons.IH [of "get lx"] g by auto
  then show ?case using g came_trans [OF g(4), of cs lx'] by simp
qed auto

lemma scan_literal_sound:
  "scan_literal cs t lx = (r, lx') \<Longrightarrow> r \<noteq> parse_error \<Longrightarrow> r = t \<and> came lx cs lx'"
proof (induction cs t lx rule: scan_literal.induct)
  case (2 c cs t lx)
  then have c: "current (get lx) = Some c" "scan_literal cs t (get lx) = (r, lx')" by (auto simp: Let_def split: if_splits)
  then show ?case using 2(1) [OF refl c(1) c(2) 2(3)] came_trans [OF get_came [OF c(1)], of cs lx'] by simp
qed simp

text \<open>How the first character of a scalar tells what it is.\<close>

lemma token_complete:
  assumes "scalar_text st v (c # cs)" and "current lx = Some c" and "lexer_ok lx" and "decimal_point_char lx = 46"
    and "rest lx = cs @ tail" and "stops tail"
  shows "\<not> is_ws c \<and> c \<noteq> 0xEF \<and> (\<exists>t lx'. scan_token st lx = (t, lx') \<and> token_json t lx' = Some v \<and> came lx cs lx')"
  using assms(1)
proof cases
  case scalar_null
  then show ?thesis using scan_literal_complete [OF assms(3,5), of literal_null] assms(2)
    by (auto simp: lit_def scan_token_def is_ws_def token_json_def)
next
  case scalar_true
  then show ?thesis using scan_literal_complete [OF assms(3,5), of literal_true] assms(2)
    by (auto simp: lit_def scan_token_def is_ws_def token_json_def)
next
  case scalar_false
  then show ?thesis using scan_literal_complete [OF assms(3,5), of literal_false] assms(2)
    by (auto simp: lit_def scan_token_def is_ws_def token_json_def)
next
  case (scalar_string tx s)
  then have "c = 34" "cs = tx @ [34]" by (simp_all add: quoted_def)
  then show ?thesis using scan_string_complete [OF scalar_string(3), of "reset lx" tail] assms(2,3,5) scalar_string(1)
    by (auto simp: scan_token_def scan_string_def is_ws_def token_json_def lexer_simps)
next
  case scalar_number
  then have c: "c = 45 \<or> is_digit c" using int_text_head by (fastforce simp: number_text_def split: if_splits)
  then have "scan_token st lx = scan_number st c lx" using assms(2)
    by (auto simp: scan_token_def is_digit_def word_le_nat_alt)
  then show ?thesis using scan_number_complete [OF scalar_number assms(3,5,6,4)] c
    by (auto simp: is_ws_def is_digit_def word_le_nat_alt)
qed

lemma scalar_not_Nil:
  assumes "scalar_text st v tx"
  shows "\<exists>c cs. tx = c # cs"
  using assms
proof cases
  case scalar_number
  then show ?thesis using int_text_head by (fastforce simp: number_text_def)
qed (auto simp: lit_def quoted_def)

lemma scan_scalar:
  assumes "blank (chars_read_total lx = 0) u" and "lexer_ok lx" and "\<not> ignore_comments lx" and "decimal_point_char lx = 46"
    and "scalar_text st v tx" and "rest lx = u @ tx @ tail" and "stops tail"
  shows "\<exists>t lx'. scan st lx = (t, lx') \<and> token_json t lx' = Some v \<and> came lx (u @ tx) lx'"
proof -
  obtain c cs where tx: "tx = c # cs" using scalar_not_Nil [OF assms(5)] by blast
  have "lexer_ok (lx\<lparr>ia := cs @ tail, current := Some c, next_unget := False\<rparr>)" by (simp add: lexer_ok_def)
  then have c: "\<not> is_ws c" "c \<noteq> 0xEF"
    using token_complete [of st v c cs "lx\<lparr>ia := cs @ tail, current := Some c, next_unget := False\<rparr>" tail] assms(4,5,7) tx
    by (auto simp: rest_def)
  have r: "rest lx = u @ c # (cs @ tail)" using assms(6) tx by simp
  obtain lx1 where lx1: "scan st lx = scan_token st lx1" "current lx1 = Some c" "came lx (u @ [c]) lx1"
    using scan_first [OF assms(1-3) r c] by blast
  then have "lexer_ok lx1" "decimal_point_char lx1 = 46" "rest lx1 = cs @ tail" using assms(2,4) r by (auto simp: came_def)
  then obtain t lx' where "scan_token st lx1 = (t, lx')" "token_json t lx' = Some v" "came lx1 cs lx'"
    using token_complete [OF assms(5) [unfolded tx] lx1(2) _ _ _ assms(7)] by blast
  then show ?thesis using lx1(1) came_trans [OF lx1(3), of cs lx'] tx by auto
qed

text \<open>Conversely, what a scan returns.\<close>

lemma string_token: "scan_string_loop lx = (t, lx') \<Longrightarrow> t = value_string \<or> t = parse_error"
proof (induction lx rule: scan_string_loop.induct)
  case (1 lx)
  then show ?case
    by (subst (asm) (4) scan_string_loop.simps) (auto simp: Let_def split: option.splits if_splits prod.splits)
qed

lemma token_end:
  assumes "scan_token st lx = (end_of_input, lx')" and "current lx = Some c" and "lexer_ok lx" and "decimal_point_char lx = 46"
  shows "c = 0"
proof -
  have "scan_number st c lx = (end_of_input, lx') \<Longrightarrow> \<not> (c = 45 \<or> is_digit c)"
    using scan_number_sound [OF _ _ _ assms(3,4)] by (fastforce simp: token_json_def)
  then show ?thesis
    using assms(1,2) string_token [of "reset lx" end_of_input lx'] scan_literal_sound [of _ _ lx end_of_input lx']
    by (auto simp: scan_token_def scan_string_def split: if_splits)
qed

lemma token_sound:
  assumes "scan_token st lx = (t, lx')" and "t \<noteq> parse_error" and "t \<noteq> end_of_input" and "current lx = Some c"
    and "lexer_ok lx" and "decimal_point_char lx = 46"
  shows "map_of punctuation c = Some t \<and> lx' = lx \<or>
    (\<exists>cs v. scalar_text st v (c # cs) \<and> token_json t lx' = Some v \<and> came lx cs lx')"
proof -
  consider "c \<in> fst ` set punctuation" | "c = 116" "scan_literal (lit ''rue'') literal_true lx = (t, lx')"
    | "c = 102" "scan_literal (lit ''alse'') literal_false lx = (t, lx')" | "c = 110" "scan_literal (lit ''ull'') literal_null lx = (t, lx')"
    | "c = 34" "scan_string lx = (t, lx')" | "c = 45 \<or> is_digit c" "scan_number st c lx = (t, lx')"
    using assms(1-4) by (auto simp: scan_token_def punctuation_def split: if_splits)
  then show ?thesis
  proof cases
    case 1
    then show ?thesis using assms(1,4) by (auto simp: scan_token_def punctuation_def)
  next
    case 2
    then show ?thesis using scan_literal_sound [OF 2(2) assms(2)] scalar_true [of st] by (auto simp: lit_def token_json_def)
  next
    case 3
    then show ?thesis using scan_literal_sound [OF 3(2) assms(2)] scalar_false [of st] by (auto simp: lit_def token_json_def)
  next
    case 4
    then show ?thesis using scan_literal_sound [OF 4(2) assms(2)] scalar_null [of st] by (auto simp: lit_def token_json_def)
  next
    case 5
    have "t = value_string" using 5(2) assms(2) string_token [of "reset lx"] by (auto simp: scan_string_def)
    then obtain tx s where "string_body tx s" "came lx (tx @ [34]) lx'" "token_buffer lx' = s"
      using scan_string_sound [of "reset lx" lx'] 5(2) assms(5) by (auto simp: scan_string_def lexer_simps)
    then show ?thesis
      using scalar_string [of tx s st] 5(1) \<open>t = value_string\<close> by (auto simp: quoted_def token_json_def)
  next
    case 6
    then show ?thesis using scan_number_sound [OF 6(2) assms(2) 6(1) assms(5,6)] scalar_number by blast
  qed
qed

definition token_text :: "(bytes \<Rightarrow> int64) \<Rightarrow> bytes \<Rightarrow> token_type \<Rightarrow> lexer \<Rightarrow> bool" where
  "token_text st tx t lx \<longleftrightarrow>
     (\<exists>c. tx = [c] \<and> map_of punctuation c = Some t) \<or> (\<exists>v. scalar_text st v tx \<and> token_json t lx = Some v)"

lemma scan_sound:
  assumes "scan st lx = (t, lx')" and "t \<noteq> parse_error" and "lexer_ok lx" and "\<not> ignore_comments lx" and "decimal_point_char lx = 46"
  shows "\<exists>u. blank (chars_read_total lx = 0) u \<and>
    (if t = end_of_input then \<exists>z. rest lx = u @ z \<and> (z = [] \<or> hd z = 0) else \<exists>tx. came lx (u @ tx) lx' \<and> token_text st tx t lx')"
proof -
  obtain lx1 where lx1: "before_token lx = (True, lx1)"
    using assms(1,2) by (cases "before_token lx") (auto simp: scan_def before_token_def split: if_splits prod.splits)
  obtain b where b: "bom_text (chars_read_total lx = 0) b" "came lx b lx1"
    using lx1 skip_bom_sound [of lx lx1] assms(3) by (auto simp: before_token_def bom_text_def split: if_splits)
  then have l1: "lexer_ok lx1" "ignore_comments lx1 = ignore_comments lx" using assms(3) by (auto simp: came_def)
  define lx2 where "lx2 = skip_whitespace lx1"
  have tok: "scan_token st lx2 = (t, lx')" using assms(1) scan_before_token [OF assms(4) lx1 l1(2)] lx2_def by simp
  obtain ws where ws: "list_all is_ws ws"
    "case current lx2 of None \<Rightarrow> rest lx1 = ws | Some c \<Rightarrow> \<not> is_ws c \<and> came lx1 (ws @ [c]) lx2"
    using skip_whitespace_sound [OF l1(1)] unfolding lx2_def by blast
  have u: "blank (chars_read_total lx = 0) (b @ ws)" using b(1) ws(1) by (auto simp: blank_def)
  have r: "rest lx = b @ rest lx1" using b(2) by (simp add: came_def)
  show ?thesis
  proof (cases "current lx2")
    case None
    then show ?thesis using tok ws(2) r u by (intro exI [of _ "b @ ws"]) (auto simp: scan_token_def)
  next
    case (Some c)
    then have c: "came lx ((b @ ws) @ [c]) lx2" using ws(2) came_trans [OF b(2), of "ws @ [c]" lx2] by simp
    then have l2: "lexer_ok lx2" "decimal_point_char lx2 = 46" "rest lx = (b @ ws) @ c # rest lx2" using assms(3,5) by (auto simp: came_def)
    show ?thesis
    proof (cases "t = end_of_input")
      case True
      then have "c = 0" using token_end [OF _ Some l2(1,2)] tok by simp
      then show ?thesis using True u l2(3) by (intro exI [of _ "b @ ws"]) auto
    next
      case False
      from token_sound [OF tok assms(2) False Some l2(1,2)]
      show ?thesis
      proof (elim disjE exE conjE)
        assume "map_of punctuation c = Some t" "lx' = lx2"
        then show ?thesis using False u c by (intro exI [of _ "b @ ws"]) (auto simp: token_text_def)
      next
        fix cs v
        assume "scalar_text st v (c # cs)" "token_json t lx' = Some v" "came lx2 cs lx'"
        then show ?thesis
          using False u came_trans [OF c, of cs lx'] by (intro exI [of _ "b @ ws"]) (auto simp: token_text_def)
      qed
    qed
  qed
qed

end
