(* ===== verification/Json_Correct.thy ===== *)
theory Json_Correct
  imports Json_Tokens
begin

text \<open>
  The parser of \<^verbatim>\<open>json/json.hpp\<close> against the grammar: every text of the grammar is accepted with its value, and
  whatever is accepted is a text of the grammar.  The builder's pointers into the unfinished document are always valid, so
  no assertion of it fails.
\<close>

section \<open>Places in an unfinished document\<close>

lemma json_at_append:
  "json_at j (p @ q) = (case json_at j p of None \<Rightarrow> None | Some v \<Rightarrow> json_at v q)"
  by (induction j p rule: json_at.induct) (auto split: option.splits)

lemma map_assign_same: "map_assign k v (map_assign k w m) = map_assign k v m"
  by (induction m) auto

lemma json_modify_append:
  "json_at j p = Some v \<Longrightarrow> json_modify f (p @ q) j = json_modify (\<lambda>_. json_modify f q v) p j"
  by (induction j p rule: json_at.induct) (auto split: option.splits if_splits)

text \<open>\<open>R\<close> is the document with a hole, and \<open>q\<close> points to the hole.\<close>

definition place :: "path \<Rightarrow> (json \<Rightarrow> json) \<Rightarrow> bool" where
  "place q R \<longleftrightarrow> (\<forall>v. json_at (R v) q = Some v) \<and> (\<forall>f v. json_modify f q (R v) = R (f v))"

definition storable :: "sax_dom \<Rightarrow> path \<Rightarrow> (json \<Rightarrow> json) \<Rightarrow> bool" where
  "storable sd q R \<longleftrightarrow> place q R \<and> (\<forall>v. handle_value v sd = Inr (q, sd\<lparr>root := R v\<rparr>))"

text \<open>The builder is at work on the container at \<open>q\<close>, which now is \<open>v\<close>.\<close>

definition inside :: "sax_dom \<Rightarrow> path \<Rightarrow> (json \<Rightarrow> json) \<Rightarrow> path list \<Rightarrow> json \<Rightarrow> bool" where
  "inside sd q R rs v \<longleftrightarrow> place q R \<and> root sd = R v \<and> ref_stack sd = q # rs"

lemma place_modify: "place q R \<Longrightarrow> json_modify f (q @ p) (R v) = R (json_modify f p v)"
  by (simp add: place_def json_modify_append)

lemma place_inner:
  assumes "place q R" and "\<And>v. json_at (S v) p = Some v" and "\<And>f v. json_modify f p (S v) = S (f v)"
  shows "place (q @ p) (\<lambda>v. R (S v))"
  using assms place_modify [OF assms(1)] by (simp add: place_def json_at_append)

lemma storable_root: "ref_stack sd = [] \<Longrightarrow> storable sd [] (\<lambda>v. v)"
  by (simp add: storable_def place_def handle_value_def)

lemma storable_element:
  assumes "inside sd q R rs (JArray js)"
  shows "storable sd (q @ [At (length js)]) (\<lambda>v. R (JArray (js @ [v])))"
  using assms place_inner [of q R "\<lambda>v. JArray (js @ [v])" "[At (length js)]"] place_modify [of q R _ "[]"]
  by (auto simp: inside_def storable_def place_def handle_value_def)

lemma storable_member:
  assumes "inside sd q R rs (JObject ms)" and "map_ok ms"
  shows "\<exists>sd1. key k sd = Inr sd1 \<and> storable sd1 (q @ [Member k]) (\<lambda>v. R (JObject (map_set k v ms))) \<and> ref_stack sd1 = q # rs"
proof -
  let ?ms = "map_insert k JNull ms"
  have at: "map_find k (map_assign k v ?ms) = Some v" for v
  proof -
    have "map_find k ?ms \<noteq> None"
      using map_insert_present [OF assms(2), of k] map_find_insert [of k ms k] by (cases "map_find k ms") auto
    then show ?thesis using map_find_assign [of k ?ms] by simp
  qed
  have set: "map_assign k v ?ms = map_set k v ms" for v using map_assign_insert [OF assms(2)] .
  have S: "json_at (JObject (map_assign k v ?ms)) [Member k] = Some v"
    "json_modify f [Member k] (JObject (map_assign k v ?ms)) = JObject (map_assign k (f v) ?ms)" for v f
    by (simp_all add: at map_assign_same)
  have pl: "place (q @ [Member k]) (\<lambda>v. R (JObject (map_assign k v ?ms)))"
    using assms(1) by (intro place_inner S) (simp add: inside_def)
  define sd1 where "sd1 = sd\<lparr>root := R (JObject ?ms), object_element := Some (q @ [Member k])\<rparr>"
  have "key k sd = Inr sd1"
    using assms(1) place_modify [of q R _ "[]"] by (simp add: key_def inside_def place_def sd1_def)
  moreover have "handle_value v sd1 = Inr (q @ [Member k], sd1\<lparr>root := R (JObject (map_assign k v ?ms))\<rparr>)" for v
  proof -
    have "json_modify (\<lambda>_. v) (q @ [Member k]) (R (JObject ?ms)) = R (JObject (map_assign k v ?ms))"
    proof -
      obtain w where "map_find k ?ms = Some w"
        using map_insert_present [OF assms(2), of k] map_find_insert [of k ms k] by (cases "map_find k ms") auto
      then show ?thesis using assms(1) by (simp add: place_modify inside_def)
    qed
    then show ?thesis using assms(1) by (simp add: handle_value_def sd1_def inside_def place_def)
  qed
  moreover have "ref_stack sd1 = q # rs" using assms(1) by (simp add: sd1_def inside_def)
  ultimately show ?thesis using pl by (intro exI [of _ sd1]) (simp add: storable_def set)
qed

lemma value_stored: "storable sd q R \<Longrightarrow> sax_value v sd = Inr (sd\<lparr>root := R v\<rparr>)"
  by (simp add: sax_value_def storable_def)

lemma container_started:
  assumes "storable sd q R"
  shows "\<exists>sd1. sax_start v sd = Inr sd1 \<and> inside sd1 q R (ref_stack sd) v"
  using assms by (simp add: sax_start_def storable_def inside_def)

lemma container_ended:
  assumes "inside sd q R rs v"
  shows "v = JArray js \<Longrightarrow> end_array_event sd = Inr (sd\<lparr>ref_stack := rs\<rparr>)"
    and "v = JObject ms \<Longrightarrow> end_object_event sd = Inr (sd\<lparr>ref_stack := rs\<rparr>)"
  using assms by (simp_all add: end_array_event_def end_object_event_def inside_def place_def)

section \<open>The loop\<close>

text \<open>How the loop goes on after a part of its body.\<close>

definition resume :: "(bytes \<Rightarrow> int64) \<Rightarrow> sax_outcome \<Rightarrow> json_error + parser \<times> sax_dom" where
  "resume st oc =
     (case oc of
        Throw e \<Rightarrow> Inl e | Again states skip p sd \<Rightarrow> sax_parse_internal st states skip p sd | Leave p sd \<Rightarrow> Inr (p, sd))"

lemma resume_simps [simp]:
  "resume st (Throw e) = Inl e" "resume st (Again states skip p sd) = sax_parse_internal st states skip p sd"
  "resume st (Leave p sd) = Inr (p, sd)"
  by (simp_all add: resume_def)

lemma loop_skip: "sax_parse_internal st states True p sd = resume st (evaluate_state st states p sd)"
  by (simp add: sax_parse_internal.simps [of st states] resume_def)

lemma loop_value:
  "sax_parse_internal st states False p sd =
     (case parse_switch st states p sd of
        Leave p1 sd1 \<Rightarrow> sax_parse_internal st states True p1 sd1 | oc \<Rightarrow> resume st oc)"
  by (simp add: sax_parse_internal.simps [of st states False] loop_skip resume_def split: sax_outcome.split)

definition parser_ok :: "parser \<Rightarrow> bool" where
  "parser_ok p \<longleftrightarrow> lexer_ok (m_lexer p) \<and> \<not> ignore_comments (m_lexer p) \<and> decimal_point_char (m_lexer p) = 46"

definition moved :: "parser \<Rightarrow> bytes \<Rightarrow> parser \<Rightarrow> bool" where
  "moved p t p' \<longleftrightarrow> came (m_lexer p) t (m_lexer p')"

definition at_start :: "parser \<Rightarrow> bool" where
  "at_start p \<longleftrightarrow> chars_read_total (m_lexer p) = 0"

abbreviation todo :: "parser \<Rightarrow> bytes" where
  "todo p \<equiv> rest (m_lexer p)"

lemma moved_trans: "moved p t p1 \<Longrightarrow> moved p1 u p2 \<Longrightarrow> moved p (t @ u) p2"
  by (simp add: moved_def came_trans)

lemma moved_ok: "moved p t p1 \<Longrightarrow> parser_ok p \<Longrightarrow> parser_ok p1"
  by (auto simp: moved_def came_def parser_ok_def)

lemma moved_todo: "moved p t p1 \<Longrightarrow> todo p = t @ todo p1"
  by (simp add: moved_def came_def)

lemma moved_on: "moved p t p1 \<Longrightarrow> t \<noteq> [] \<Longrightarrow> \<not> at_start p1"
  by (auto simp: moved_def came_def at_start_def)

lemma moved_left: "moved p t p1 \<Longrightarrow> left p = length t + left p1"
  by (simp add: moved_def came_def left_def)

lemma get_token_scan: "scan st (m_lexer p) = (t, lx) \<Longrightarrow> get_token st p = p\<lparr>last_token := t, m_lexer := lx\<rparr>"
  by (simp add: get_token_def)

lemma token_punctuation:
  assumes "parser_ok p" and "blank (at_start p) u" and "todo p = u @ c # tail" and "map_of punctuation c = Some t"
  shows "last_token (get_token st p) = t \<and> moved p (u @ [c]) (get_token st p)"
  using scan_punctuation [of "m_lexer p" u c tail t st] assms get_token_scan [of st p t]
  by (auto simp: parser_ok_def at_start_def moved_def)

lemma token_scalar:
  assumes "parser_ok p" and "blank (at_start p) u" and "scalar_text st v tx" and "todo p = u @ tx @ tail" and "stops tail"
  shows "token_json (last_token (get_token st p)) (m_lexer (get_token st p)) = Some v \<and> moved p (u @ tx) (get_token st p)"
  using scan_scalar [of "m_lexer p" u st v tx tail] assms get_token_scan [of st p]
  by (auto simp: parser_ok_def at_start_def moved_def)

text \<open>A scalar is stored, unless it is a number that is not finite.\<close>

lemma switch_scalar:
  assumes "token_json (last_token p) (m_lexer p) = Some v" and "storable sd q R"
  shows "if finite_number v then parse_switch st states p sd = Leave p (sd\<lparr>root := R v\<rparr>)
    else \<exists>m. parse_switch st states p sd = Throw (Out_of_range m)"
  using assms value_stored [OF assms(2)]
  by (cases "last_token p") (auto simp: token_json_def parse_switch_def sax_event_def)

section \<open>Every text of the grammar is accepted\<close>

lemma stops_ws: "list_all is_ws ws \<Longrightarrow> stops (c # tail) \<Longrightarrow> stops (ws @ c # tail)"
  by (cases ws) (auto simp: stops_def is_ws_def is_digit_def is_exp_def)

lemma stops_punctuation [simp]: "stops (93 # t)" "stops (125 # t)" "stops (44 # t)"
  by (simp_all add: stops_def is_digit_def is_exp_def)

text \<open>What the loop does on the text of a value, and of the elements or members of a container.\<close>

definition reads_value :: "(bytes \<Rightarrow> int64) \<Rightarrow> json \<Rightarrow> bytes \<Rightarrow> bool" where
  "reads_value st j t \<longleftrightarrow>
     (\<forall>states p sd u tail q R. parser_ok p \<longrightarrow> blank (at_start p) u \<longrightarrow> todo p = u @ t @ tail \<longrightarrow> stops tail \<longrightarrow> storable sd q R \<longrightarrow>
        last_token (get_token st p) \<noteq> end_array \<and>
        (\<exists>p2 sd2. sax_parse_internal st states False (get_token st p) sd = sax_parse_internal st states True p2 sd2 \<and>
           moved p (u @ t) p2 \<and> root sd2 = R j \<and> ref_stack sd2 = ref_stack sd))"

definition reads_elements :: "(bytes \<Rightarrow> int64) \<Rightarrow> json list \<Rightarrow> bytes \<Rightarrow> bool" where
  "reads_elements st js t \<longleftrightarrow>
     (\<forall>states p sd js0 tail q R rs. parser_ok p \<longrightarrow> todo p = t @ 93 # tail \<longrightarrow> inside sd q R rs (JArray js0) \<longrightarrow>
        last_token (get_token st p) \<noteq> end_array \<and>
        (\<exists>p2 sd2. sax_parse_internal st (True # states) False (get_token st p) sd = sax_parse_internal st states True p2 sd2 \<and>
           moved p (t @ [93]) p2 \<and> root sd2 = R (JArray (js0 @ js)) \<and> ref_stack sd2 = rs))"

definition reads_members :: "(bytes \<Rightarrow> int64) \<Rightarrow> (bytes \<times> json) list \<Rightarrow> bytes \<Rightarrow> bool" where
  "reads_members st ms t \<longleftrightarrow>
     (\<forall>states p sd ms0 tail q R rs. parser_ok p \<longrightarrow> todo p = t @ 125 # tail \<longrightarrow> inside sd q R rs (JObject ms0) \<longrightarrow> map_ok ms0 \<longrightarrow>
        last_token (get_token st p) \<noteq> end_object \<and>
        (\<exists>p2 sd2. resume st (parse_key st (False # states) (get_token st p) sd) = sax_parse_internal st states True p2 sd2 \<and>
           moved p (t @ [125]) p2 \<and> root sd2 = R (JObject (fold (\<lambda>(k, v). map_set k v) ms ms0)) \<and> ref_stack sd2 = rs))"

lemma reads_scalar:
  assumes "scalar_text st v t" and "finite_number v"
  shows "reads_value st v t"
  unfolding reads_value_def
proof (intro allI impI)
  fix states p sd u tail q R
  assume *: "parser_ok p" "blank (at_start p) u" "todo p = u @ t @ tail" "stops tail" "storable sd q R"
  let ?p = "get_token st p"
  have tk: "token_json (last_token ?p) (m_lexer ?p) = Some v" "moved p (u @ t) ?p"
    using token_scalar [OF *(1,2) assms(1) *(3,4)] by blast+
  then have "last_token ?p \<noteq> end_array" by (auto simp: token_json_def)
  moreover have "sax_parse_internal st states False ?p sd = sax_parse_internal st states True ?p (sd\<lparr>root := R v\<rparr>)"
    using switch_scalar [OF tk(1) *(5), of st states] assms(2) by (simp add: loop_value)
  ultimately show "last_token ?p \<noteq> end_array \<and>
      (\<exists>p2 sd2. sax_parse_internal st states False ?p sd = sax_parse_internal st states True p2 sd2 \<and>
         moved p (u @ t) p2 \<and> root sd2 = R v \<and> ref_stack sd2 = ref_stack sd)"
    using tk(2) by (metis sax_dom.select_convs(1,2) sax_dom.surjective sax_dom.update_convs(1))
qed

text \<open>A container that opens: the loop with the new state on top.\<close>

lemma opens_array:
  assumes "last_token p = begin_array" and "storable sd q R"
  obtains sd1 where "inside sd1 q R (ref_stack sd) (JArray [])"
    and "last_token (get_token st p) \<noteq> end_array \<Longrightarrow>
      sax_parse_internal st states False p sd = sax_parse_internal st (True # states) False (get_token st p) sd1"
    and "last_token (get_token st p) = end_array \<Longrightarrow>
      sax_parse_internal st states False p sd = sax_parse_internal st states True (get_token st p) (sd1\<lparr>ref_stack := ref_stack sd\<rparr>)"
proof -
  obtain sd1 where sd1: "sax_start (JArray []) sd = Inr sd1" "inside sd1 q R (ref_stack sd) (JArray [])"
    using container_started [OF assms(2)] by blast
  show ?thesis
    using that [OF sd1(2)] sd1 assms(1) container_ended(1) [OF sd1(2) refl]
    by (simp add: loop_value parse_switch_def start_array_def sax_event_def Let_def)
qed

lemma opens_object:
  assumes "last_token p = begin_object" and "storable sd q R"
  obtains sd1 where "inside sd1 q R (ref_stack sd) (JObject [])"
    and "last_token (get_token st p) \<noteq> end_object \<Longrightarrow>
      sax_parse_internal st states False p sd = resume st (parse_key st (False # states) (get_token st p) sd1)"
    and "last_token (get_token st p) = end_object \<Longrightarrow>
      sax_parse_internal st states False p sd = sax_parse_internal st states True (get_token st p) (sd1\<lparr>ref_stack := ref_stack sd\<rparr>)"
proof -
  obtain sd1 where sd1: "sax_start (JObject []) sd = Inr sd1" "inside sd1 q R (ref_stack sd) (JObject [])"
    using container_started [OF assms(2)] by blast
  have "parse_key st s p1 sd1 \<noteq> Leave p2 sd2" for s p1 p2 sd2
    by (auto simp: parse_key_def Let_def split: sum.splits)
  then show ?thesis
    using that [OF sd1(2)] sd1 assms(1) container_ended(2) [OF sd1(2) refl]
    by (auto simp: loop_value parse_switch_def start_object_def sax_event_def Let_def split: sax_outcome.split)
qed

text \<open>A value in a container is followed by a comma or the end of the container.\<close>

lemma after_element:
  assumes "inside sd q R rs (JArray js)"
  shows "last_token (get_token st p) = value_separator \<Longrightarrow> sax_parse_internal st (True # states) True p sd =
      sax_parse_internal st (True # states) False (get_token st (get_token st p)) sd"
    and "last_token (get_token st p) = end_array \<Longrightarrow> sax_parse_internal st (True # states) True p sd =
      sax_parse_internal st states True (get_token st p) (sd\<lparr>ref_stack := rs\<rparr>)"
    and "last_token (get_token st p) \<notin> {value_separator, end_array} \<Longrightarrow>
      \<exists>n m. sax_parse_internal st (True # states) True p sd = Inl (Parse_error n m)"
  using container_ended(1) [OF assms refl]
  by (simp_all add: loop_skip evaluate_state_def Let_def create_101_def)

lemma after_member:
  assumes "inside sd q R rs (JObject ms)"
  shows "last_token (get_token st p) = value_separator \<Longrightarrow> sax_parse_internal st (False # states) True p sd =
      resume st (parse_key st (False # states) (get_token st (get_token st p)) sd)"
    and "last_token (get_token st p) = end_object \<Longrightarrow> sax_parse_internal st (False # states) True p sd =
      sax_parse_internal st states True (get_token st p) (sd\<lparr>ref_stack := rs\<rparr>)"
    and "last_token (get_token st p) \<notin> {value_separator, end_object} \<Longrightarrow>
      \<exists>n m. sax_parse_internal st (False # states) True p sd = Inl (Parse_error n m)"
  using container_ended(2) [OF assms refl]
  by (simp_all add: loop_skip evaluate_state_def Let_def create_101_def)

text \<open>The name of a member and the colon.\<close>

lemma key_resumes:
  assumes "last_token p = value_string" and "inside sd q R rs (JObject ms)" and "map_ok ms"
  obtains sd1 where "storable sd1 (q @ [Member (token_buffer (m_lexer p))]) (\<lambda>v. R (JObject (map_set (token_buffer (m_lexer p)) v ms)))"
    and "ref_stack sd1 = q # rs"
    and "last_token (get_token st p) = name_separator \<Longrightarrow>
      resume st (parse_key st states p sd) = sax_parse_internal st states False (get_token st (get_token st p)) sd1"
    and "last_token (get_token st p) \<noteq> name_separator \<Longrightarrow> \<exists>n m. resume st (parse_key st states p sd) = Inl (Parse_error n m)"
proof -
  obtain sd1 where sd1: "key (token_buffer (m_lexer p)) sd = Inr sd1"
    "storable sd1 (q @ [Member (token_buffer (m_lexer p))]) (\<lambda>v. R (JObject (map_set (token_buffer (m_lexer p)) v ms)))" "ref_stack sd1 = q # rs"
    using storable_member [OF assms(2,3)] by blast
  show ?thesis using that [OF sd1(2,3)] sd1(1) assms(1) by (simp add: parse_key_def Let_def create_101_def)
qed

lemma inside_next:
  assumes "inside sd q R rs v" and "root sd2 = R w" and "ref_stack sd2 = ref_stack sd"
  shows "inside sd2 q R rs w"
  using assms by (simp add: inside_def)

lemma stored_place: "storable sd q (\<lambda>v. R (S v)) \<Longrightarrow> place q (\<lambda>v. R (S v))"
  by (simp add: storable_def)

lemma punctuation_marks:
  "map_of punctuation 91 = Some begin_array" "map_of punctuation 93 = Some end_array"
  "map_of punctuation 123 = Some begin_object" "map_of punctuation 125 = Some end_object"
  "map_of punctuation 58 = Some name_separator" "map_of punctuation 44 = Some value_separator"
  by (simp_all add: punctuation_def)

lemma reads_no_elements:
  assumes "list_all is_ws ws"
  shows "reads_value st (JArray []) (91 # ws @ [93])"
  unfolding reads_value_def
proof (intro allI impI)
  fix states p sd u tail q R
  assume *: "parser_ok p" "blank (at_start p) u" "todo p = u @ (91 # ws @ [93]) @ tail" "stops tail" "storable sd q R"
  let ?p = "get_token st p" and ?p1 = "get_token st (get_token st p)"
  have 1: "last_token ?p = begin_array" "moved p (u @ [91]) ?p"
    using token_punctuation [OF *(1,2), of 91 "ws @ 93 # tail"] *(3) by (simp_all add: punctuation_def)
  have "todo ?p = ws @ 93 # tail" using moved_todo [OF 1(2)] *(3) by simp
  then have 2: "last_token ?p1 = end_array" "moved ?p (ws @ [93]) ?p1"
    using token_punctuation [OF moved_ok [OF 1(2) *(1)] blank_ws [OF assms], of 93 tail] by (simp_all add: punctuation_def)
  obtain sd1 where sd1: "inside sd1 q R (ref_stack sd) (JArray [])"
    "sax_parse_internal st states False ?p sd = sax_parse_internal st states True ?p1 (sd1\<lparr>ref_stack := ref_stack sd\<rparr>)"
    using opens_array [OF 1(1) *(5), of st states] 2(1) by metis
  show "last_token ?p \<noteq> end_array \<and>
      (\<exists>p2 sd2. sax_parse_internal st states False ?p sd = sax_parse_internal st states True p2 sd2 \<and>
         moved p (u @ 91 # ws @ [93]) p2 \<and> root sd2 = R (JArray []) \<and> ref_stack sd2 = ref_stack sd)"
    using 1(1) sd1 moved_trans [OF 1(2) 2(2)]
    by (intro conjI exI [of _ ?p1] exI [of _ "sd1\<lparr>ref_stack := ref_stack sd\<rparr>"]) (simp_all add: inside_def)
qed

lemma reads_no_members:
  assumes "list_all is_ws ws"
  shows "reads_value st (JObject []) (123 # ws @ [125])"
  unfolding reads_value_def
proof (intro allI impI)
  fix states p sd u tail q R
  assume *: "parser_ok p" "blank (at_start p) u" "todo p = u @ (123 # ws @ [125]) @ tail" "stops tail" "storable sd q R"
  let ?p = "get_token st p" and ?p1 = "get_token st (get_token st p)"
  have 1: "last_token ?p = begin_object" "moved p (u @ [123]) ?p"
    using token_punctuation [OF *(1,2), of 123 "ws @ 125 # tail"] *(3) by (simp_all add: punctuation_def)
  have "todo ?p = ws @ 125 # tail" using moved_todo [OF 1(2)] *(3) by simp
  then have 2: "last_token ?p1 = end_object" "moved ?p (ws @ [125]) ?p1"
    using token_punctuation [OF moved_ok [OF 1(2) *(1)] blank_ws [OF assms], of 125 tail] by (simp_all add: punctuation_def)
  obtain sd1 where sd1: "inside sd1 q R (ref_stack sd) (JObject [])"
    "sax_parse_internal st states False ?p sd = sax_parse_internal st states True ?p1 (sd1\<lparr>ref_stack := ref_stack sd\<rparr>)"
    using opens_object [OF 1(1) *(5), of st states] 2(1) by metis
  show "last_token ?p \<noteq> end_array \<and>
      (\<exists>p2 sd2. sax_parse_internal st states False ?p sd = sax_parse_internal st states True p2 sd2 \<and>
         moved p (u @ 123 # ws @ [125]) p2 \<and> root sd2 = R (JObject []) \<and> ref_stack sd2 = ref_stack sd)"
    using 1(1) sd1 moved_trans [OF 1(2) 2(2)]
    by (intro conjI exI [of _ ?p1] exI [of _ "sd1\<lparr>ref_stack := ref_stack sd\<rparr>"]) (simp_all add: inside_def)
qed

lemma reads_array:
  assumes "reads_elements st js t"
  shows "reads_value st (JArray js) (91 # t @ [93])"
  unfolding reads_value_def
proof (intro allI impI)
  fix states p sd u tail q R
  assume *: "parser_ok p" "blank (at_start p) u" "todo p = u @ (91 # t @ [93]) @ tail" "stops tail" "storable sd q R"
  let ?p = "get_token st p" and ?p1 = "get_token st (get_token st p)"
  have 1: "last_token ?p = begin_array" "moved p (u @ [91]) ?p"
    using token_punctuation [OF *(1,2), of 91 "t @ 93 # tail"] *(3) by (simp_all add: punctuation_def)
  obtain sd1 where sd1: "inside sd1 q R (ref_stack sd) (JArray [])"
    "last_token ?p1 \<noteq> end_array \<Longrightarrow> sax_parse_internal st states False ?p sd = sax_parse_internal st (True # states) False ?p1 sd1"
    using opens_array [OF 1(1) *(5), of st states] by metis
  have "todo ?p = t @ 93 # tail" using moved_todo [OF 1(2)] *(3) by simp
  then obtain p2 sd2 where "last_token ?p1 \<noteq> end_array"
    "sax_parse_internal st (True # states) False ?p1 sd1 = sax_parse_internal st states True p2 sd2"
    "moved ?p (t @ [93]) p2" "root sd2 = R (JArray js)" "ref_stack sd2 = ref_stack sd"
    using assms moved_ok [OF 1(2) *(1)] sd1(1) unfolding reads_elements_def by (metis append_Nil)
  then show "last_token ?p \<noteq> end_array \<and>
      (\<exists>p2 sd2. sax_parse_internal st states False ?p sd = sax_parse_internal st states True p2 sd2 \<and>
         moved p (u @ 91 # t @ [93]) p2 \<and> root sd2 = R (JArray js) \<and> ref_stack sd2 = ref_stack sd)"
    using 1(1) sd1(2) moved_trans [OF 1(2), of "t @ [93]" p2] by auto
qed

lemma reads_object:
  assumes "reads_members st ms t"
  shows "reads_value st (object_of ms) (123 # t @ [125])"
  unfolding reads_value_def
proof (intro allI impI)
  fix states p sd u tail q R
  assume *: "parser_ok p" "blank (at_start p) u" "todo p = u @ (123 # t @ [125]) @ tail" "stops tail" "storable sd q R"
  let ?p = "get_token st p" and ?p1 = "get_token st (get_token st p)"
  have 1: "last_token ?p = begin_object" "moved p (u @ [123]) ?p"
    using token_punctuation [OF *(1,2), of 123 "t @ 125 # tail"] *(3) by (simp_all add: punctuation_def)
  obtain sd1 where sd1: "inside sd1 q R (ref_stack sd) (JObject [])"
    "last_token ?p1 \<noteq> end_object \<Longrightarrow> sax_parse_internal st states False ?p sd = resume st (parse_key st (False # states) ?p1 sd1)"
    using opens_object [OF 1(1) *(5), of st states] by metis
  have "todo ?p = t @ 125 # tail" using moved_todo [OF 1(2)] *(3) by simp
  moreover have "map_ok ([] :: (bytes \<times> json) list)" by (simp add: map_ok_def)
  ultimately obtain p2 sd2 where "last_token ?p1 \<noteq> end_object"
    "resume st (parse_key st (False # states) ?p1 sd1) = sax_parse_internal st states True p2 sd2"
    "moved ?p (t @ [125]) p2" "root sd2 = R (object_of ms)" "ref_stack sd2 = ref_stack sd"
    using assms moved_ok [OF 1(2) *(1)] sd1(1) unfolding reads_members_def object_of_def by metis
  then show "last_token ?p \<noteq> end_array \<and>
      (\<exists>p2 sd2. sax_parse_internal st states False ?p sd = sax_parse_internal st states True p2 sd2 \<and>
         moved p (u @ 123 # t @ [125]) p2 \<and> root sd2 = R (object_of ms) \<and> ref_stack sd2 = ref_stack sd)"
    using 1(1) sd1(2) moved_trans [OF 1(2), of "t @ [125]" p2] by auto
qed

text \<open>An element with what is around it, up to the byte \<open>c\<close> after it.\<close>

lemma element_read:
  assumes "reads_value st j t" and "padded t tp" and "parser_ok p" and "todo p = tp @ c # tail" and "stops (c # tail)"
    and "map_of punctuation c = Some tk" and "storable sd q R"
  obtains p2 sd2 where "last_token (get_token st p) \<noteq> end_array"
    and "sax_parse_internal st states False (get_token st p) sd = sax_parse_internal st states True p2 sd2"
    and "root sd2 = R j" and "ref_stack sd2 = ref_stack sd" and "last_token (get_token st p2) = tk"
    and "moved p (tp @ [c]) (get_token st p2)" and "todo (get_token st p2) = tail" and "parser_ok (get_token st p2)"
proof -
  obtain ws ws' where w: "list_all is_ws ws" "list_all is_ws ws'" "tp = ws @ t @ ws'" using assms(2) by (auto simp: padded_def)
  have "todo p = ws @ t @ (ws' @ c # tail)" "stops (ws' @ c # tail)" using assms(4,5) w stops_ws by auto
  then obtain p2 sd2 where 1: "last_token (get_token st p) \<noteq> end_array"
    "sax_parse_internal st states False (get_token st p) sd = sax_parse_internal st states True p2 sd2"
    "moved p (ws @ t) p2" "root sd2 = R j" "ref_stack sd2 = ref_stack sd"
    using assms(1,3,7) blank_ws [OF w(1), of "at_start p"] unfolding reads_value_def by metis
  have "todo p2 = ws' @ c # tail" using moved_todo [OF 1(3)] assms(4) w(3) by simp
  from token_punctuation [OF moved_ok [OF 1(3) assms(3)] blank_ws [OF w(2)] this assms(6), of st]
  have 2: "last_token (get_token st p2) = tk" "moved p2 (ws' @ [c]) (get_token st p2)" by simp_all
  have m: "moved p (tp @ [c]) (get_token st p2)" using moved_trans [OF 1(3) 2(2)] w(3) by simp
  show ?thesis
    using that [OF 1(1,2,4,5) 2(1) m] moved_todo [OF m] assms(4) moved_ok [OF m assms(3)] by simp
qed

lemma reads_element_last:
  assumes "reads_value st j t" and "padded t tp"
  shows "reads_elements st [j] tp"
  unfolding reads_elements_def
proof (intro allI impI)
  fix states p sd js0 tail q R rs
  assume *: "parser_ok p" "todo p = tp @ 93 # tail" "inside sd q R rs (JArray js0)"
  obtain p2 sd2 where e: "last_token (get_token st p) \<noteq> end_array"
    "sax_parse_internal st (True # states) False (get_token st p) sd = sax_parse_internal st (True # states) True p2 sd2"
    "root sd2 = R (JArray (js0 @ [j]))" "ref_stack sd2 = ref_stack sd" "last_token (get_token st p2) = end_array"
    "moved p (tp @ [93]) (get_token st p2)"
    by (rule element_read [OF assms *(1,2) stops_punctuation(1) punctuation_marks(2) storable_element [OF *(3)]]) (rule that)
  have "inside sd2 q R rs (JArray (js0 @ [j]))" using inside_next [OF *(3) e(3,4)] .
  from after_element(2) [OF this e(5), of states]
  show "last_token (get_token st p) \<noteq> end_array \<and>
      (\<exists>p2 sd2. sax_parse_internal st (True # states) False (get_token st p) sd = sax_parse_internal st states True p2 sd2 \<and>
         moved p (tp @ [93]) p2 \<and> root sd2 = R (JArray (js0 @ [j])) \<and> ref_stack sd2 = rs)"
    using e by (intro conjI exI [of _ "get_token st p2"] exI [of _ "sd2\<lparr>ref_stack := rs\<rparr>"]) simp_all
qed

lemma reads_element_more:
  assumes "reads_value st j t" and "padded t tp" and "reads_elements st js ts"
  shows "reads_elements st (j # js) (tp @ 44 # ts)"
  unfolding reads_elements_def
proof (intro allI impI)
  fix states p sd js0 tail q R rs
  assume *: "parser_ok p" "todo p = (tp @ 44 # ts) @ 93 # tail" "inside sd q R rs (JArray js0)"
  have "todo p = tp @ 44 # (ts @ 93 # tail)" using *(2) by simp
  then obtain p2 sd2 where e: "last_token (get_token st p) \<noteq> end_array"
    "sax_parse_internal st (True # states) False (get_token st p) sd = sax_parse_internal st (True # states) True p2 sd2"
    "root sd2 = R (JArray (js0 @ [j]))" "ref_stack sd2 = ref_stack sd" "last_token (get_token st p2) = value_separator"
    "moved p (tp @ [44]) (get_token st p2)" "todo (get_token st p2) = ts @ 93 # tail" "parser_ok (get_token st p2)"
    by (rule element_read [OF assms(1,2) *(1) _ stops_punctuation(3) punctuation_marks(6) storable_element [OF *(3)]]) (rule that)
  have ins: "inside sd2 q R rs (JArray (js0 @ [j]))" using inside_next [OF *(3) e(3,4)] .
  then obtain p3 sd3 where "sax_parse_internal st (True # states) False (get_token st (get_token st p2)) sd2 = sax_parse_internal st states True p3 sd3"
    "moved (get_token st p2) (ts @ [93]) p3" "root sd3 = R (JArray ((js0 @ [j]) @ js))" "ref_stack sd3 = rs"
    using assms(3) e(7,8) unfolding reads_elements_def by metis
  then show "last_token (get_token st p) \<noteq> end_array \<and>
      (\<exists>p2 sd2. sax_parse_internal st (True # states) False (get_token st p) sd = sax_parse_internal st states True p2 sd2 \<and>
         moved p ((tp @ 44 # ts) @ [93]) p2 \<and> root sd2 = R (JArray (js0 @ j # js)) \<and> ref_stack sd2 = rs)"
    using e(1,2) after_element(1) [OF ins e(5), of states] moved_trans [OF e(6), of "ts @ [93]" p3] by auto
qed

text \<open>The same for a member, whose name and colon come first.\<close>

lemma member_read:
  assumes "string_body kt k" and "padded (quoted kt) kp" and "reads_value st v t" and "padded t tp"
    and "parser_ok p" and "todo p = (kp @ 58 # tp) @ c # tail" and "stops (c # tail)" and "map_of punctuation c = Some tk"
    and "inside sd q R rs (JObject ms)" and "map_ok ms"
  obtains p2 sd2 where "last_token (get_token st p) = value_string"
    and "resume st (parse_key st states (get_token st p) sd) = sax_parse_internal st states True p2 sd2"
    and "inside sd2 q R rs (JObject (map_set k v ms))" and "last_token (get_token st p2) = tk"
    and "moved p ((kp @ 58 # tp) @ [c]) (get_token st p2)" and "todo (get_token st p2) = tail" and "parser_ok (get_token st p2)"
proof -
  obtain ws ws' where w: "list_all is_ws ws" "list_all is_ws ws'" "kp = ws @ quoted kt @ ws'" using assms(2) by (auto simp: padded_def)
  let ?p = "get_token st p" and ?p1 = "get_token st (get_token st p)"
  have "stops (ws' @ 58 # tp @ c # tail)" by (rule stops_ws [OF w(2)]) (simp add: stops_def is_digit_def is_exp_def)
  then have 1: "token_json (last_token ?p) (m_lexer ?p) = Some (JString k)" "moved p (ws @ quoted kt) ?p"
    using token_scalar [OF assms(5) blank_ws [OF w(1)] scalar_string [OF assms(1)], of "ws' @ 58 # tp @ c # tail" st] assms(6) w(3) by simp_all
  then have k: "last_token ?p = value_string" "token_buffer (m_lexer ?p) = k"
    by (auto simp: token_json_def split: token_type.splits)
  have "todo ?p = ws' @ 58 # tp @ c # tail" using moved_todo [OF 1(2)] assms(6) w(3) by simp
  from token_punctuation [OF moved_ok [OF 1(2) assms(5)] blank_ws [OF w(2)] this, of name_separator st]
  have 2: "last_token ?p1 = name_separator" "moved ?p (ws' @ [58]) ?p1" by (simp_all add: punctuation_def)
  have m: "moved p (kp @ [58]) ?p1" using moved_trans [OF 1(2) 2(2)] w(3) by simp
  obtain sd1 where sd1: "storable sd1 (q @ [Member k]) (\<lambda>v. R (JObject (map_set k v ms)))" "ref_stack sd1 = q # rs"
    "resume st (parse_key st states ?p sd) = sax_parse_internal st states False (get_token st ?p1) sd1"
    using key_resumes [OF k(1) assms(9,10), of st states] 2(1) k(2) by metis
  have "todo ?p1 = tp @ c # tail" using moved_todo [OF m] assms(6) by simp
  from element_read [OF assms(3,4) moved_ok [OF m assms(5)] this assms(7,8) sd1(1), of states]
  obtain p2 sd2 where e: "sax_parse_internal st states False (get_token st ?p1) sd1 = sax_parse_internal st states True p2 sd2"
    "root sd2 = R (JObject (map_set k v ms))" "ref_stack sd2 = ref_stack sd1" "last_token (get_token st p2) = tk"
    "moved ?p1 (tp @ [c]) (get_token st p2)" "todo (get_token st p2) = tail" "parser_ok (get_token st p2)"
    by metis
  have "inside sd2 q R rs (JObject (map_set k v ms))" using assms(9) e(2,3) sd1(2) by (simp add: inside_def)
  then show ?thesis using that [OF k(1) _ _ e(4) _ e(6,7)] sd1(3) e(1) moved_trans [OF m e(5)] by simp
qed

lemma reads_member_last:
  assumes "string_body kt k" and "padded (quoted kt) kp" and "reads_value st v t" and "padded t tp"
  shows "reads_members st [(k, v)] (kp @ 58 # tp)"
  unfolding reads_members_def
proof (intro allI impI)
  fix states p sd ms0 tail q R rs
  assume *: "parser_ok p" "todo p = (kp @ 58 # tp) @ 125 # tail" "inside sd q R rs (JObject ms0)" "map_ok ms0"
  obtain p2 sd2 where e: "last_token (get_token st p) = value_string"
    "resume st (parse_key st (False # states) (get_token st p) sd) = sax_parse_internal st (False # states) True p2 sd2"
    "inside sd2 q R rs (JObject (map_set k v ms0))" "last_token (get_token st p2) = end_object"
    "moved p ((kp @ 58 # tp) @ [125]) (get_token st p2)"
    by (rule member_read [OF assms *(1,2) stops_punctuation(2) punctuation_marks(4) *(3,4)]) (rule that)
  show "last_token (get_token st p) \<noteq> end_object \<and>
      (\<exists>p2 sd2. resume st (parse_key st (False # states) (get_token st p) sd) = sax_parse_internal st states True p2 sd2 \<and>
         moved p ((kp @ 58 # tp) @ [125]) p2 \<and> root sd2 = R (JObject (fold (\<lambda>(k, v). map_set k v) [(k, v)] ms0)) \<and> ref_stack sd2 = rs)"
    using e after_member(2) [OF e(3,4), of states]
    by (intro conjI exI [of _ "get_token st p2"] exI [of _ "sd2\<lparr>ref_stack := rs\<rparr>"]) (simp_all add: inside_def)
qed

lemma reads_member_more:
  assumes "string_body kt k" and "padded (quoted kt) kp" and "reads_value st v t" and "padded t tp" and "reads_members st ms ts"
  shows "reads_members st ((k, v) # ms) (kp @ 58 # tp @ 44 # ts)"
  unfolding reads_members_def
proof (intro allI impI)
  fix states p sd ms0 tail q R rs
  assume *: "parser_ok p" "todo p = (kp @ 58 # tp @ 44 # ts) @ 125 # tail" "inside sd q R rs (JObject ms0)" "map_ok ms0"
  have "todo p = (kp @ 58 # tp) @ 44 # (ts @ 125 # tail)" using *(2) by simp
  then obtain p2 sd2 where e: "last_token (get_token st p) = value_string"
    "resume st (parse_key st (False # states) (get_token st p) sd) = sax_parse_internal st (False # states) True p2 sd2"
    "inside sd2 q R rs (JObject (map_set k v ms0))" "last_token (get_token st p2) = value_separator"
    "moved p ((kp @ 58 # tp) @ [44]) (get_token st p2)" "todo (get_token st p2) = ts @ 125 # tail" "parser_ok (get_token st p2)"
    by (rule member_read [OF assms(1-4) *(1) _ stops_punctuation(3) punctuation_marks(6) *(3,4)]) (rule that)
  have "map_ok (map_set k v ms0)" using *(4) by (rule map_set_post(1))
  then obtain p3 sd3 where "resume st (parse_key st (False # states) (get_token st (get_token st p2)) sd2) = sax_parse_internal st states True p3 sd3"
    "moved (get_token st p2) (ts @ [125]) p3" "root sd3 = R (JObject (fold (\<lambda>(k, v). map_set k v) ms (map_set k v ms0)))" "ref_stack sd3 = rs"
    using assms(5) e(3,6,7) unfolding reads_members_def by metis
  then show "last_token (get_token st p) \<noteq> end_object \<and>
      (\<exists>p2 sd2. resume st (parse_key st (False # states) (get_token st p) sd) = sax_parse_internal st states True p2 sd2 \<and>
         moved p ((kp @ 58 # tp @ 44 # ts) @ [125]) p2 \<and> root sd2 = R (JObject (fold (\<lambda>(k, v). map_set k v) ((k, v) # ms) ms0)) \<and> ref_stack sd2 = rs)"
    using e(1,2) after_member(1) [OF e(3,4), of states] moved_trans [OF e(5), of "ts @ [125]" p3] by auto
qed

lemma text_read:
  "json_text st j t \<Longrightarrow> reads_value st j t"
  "elements_text st js t \<Longrightarrow> reads_elements st js t"
  "members_text st ms t \<Longrightarrow> reads_members st ms t"
  by (induction rule: json_text_elements_text_members_text.inducts)
    (blast intro: reads_scalar reads_no_elements reads_no_members reads_array reads_object reads_element_last
      reads_element_more reads_member_last reads_member_more)+

section \<open>Only texts of the grammar are accepted\<close>

text \<open>The parser gives up, but not for a failed assertion.\<close>

definition gives_up :: "json_error + 'a \<Rightarrow> bool" where
  "gives_up r \<longleftrightarrow> (\<exists>e. r = Inl e \<and> e \<noteq> Assert_failed)"

lemma gives_up_errors [simp]:
  "gives_up (Inl (create_101 p m))" "gives_up (Inl (Parse_error n m))" "gives_up (Inl (Out_of_range m))"
  by (simp_all add: gives_up_def create_101_def)

lemma punctuation_unique: "map_of punctuation c = Some t \<Longrightarrow> map_of punctuation d = Some t \<Longrightarrow> c = d"
  by (auto simp: punctuation_def split: if_splits)

lemma punctuation_no_value: "map_of punctuation c = Some t \<Longrightarrow> token_json t lx = None"
  by (auto simp: punctuation_def token_json_def split: if_splits)

lemma got_token:
  assumes "parser_ok p" and "last_token (get_token st p) \<notin> {parse_error, end_of_input}"
  shows "\<exists>u tx. blank (at_start p) u \<and> moved p (u @ tx) (get_token st p) \<and>
    token_text st tx (last_token (get_token st p)) (m_lexer (get_token st p))"
proof -
  obtain t lx where s: "scan st (m_lexer p) = (t, lx)" by fastforce
  then have g: "get_token st p = p\<lparr>last_token := t, m_lexer := lx\<rparr>" by (rule get_token_scan)
  then show ?thesis
    using scan_sound [OF s] assms by (auto simp: parser_ok_def at_start_def moved_def)
qed

lemma got_mark:
  assumes "parser_ok p" and "map_of punctuation c = Some (last_token (get_token st p))"
  obtains u where "blank (at_start p) u" and "moved p (u @ [c]) (get_token st p)"
proof -
  have "last_token (get_token st p) \<notin> {parse_error, end_of_input}" using assms(2) by (auto simp: punctuation_def split: if_splits)
  from got_token [OF assms(1) this] obtain u tx where u: "blank (at_start p) u" "moved p (u @ tx) (get_token st p)"
    and tx: "token_text st tx (last_token (get_token st p)) (m_lexer (get_token st p))" by blast
  have "tx = [c]" using tx punctuation_unique [OF assms(2)] punctuation_no_value [OF assms(2)] by (auto simp: token_text_def)
  then show ?thesis using that u by blast
qed

lemma got_scalar:
  assumes "parser_ok p" and "token_json (last_token (get_token st p)) (m_lexer (get_token st p)) = Some v"
  obtains u tx where "blank (at_start p) u" and "moved p (u @ tx) (get_token st p)" and "scalar_text st v tx"
proof -
  have "last_token (get_token st p) \<notin> {parse_error, end_of_input}" using assms(2) by (auto simp: token_json_def)
  from got_token [OF assms(1) this] obtain u tx where u: "blank (at_start p) u" "moved p (u @ tx) (get_token st p)"
    and tx: "token_text st tx (last_token (get_token st p)) (m_lexer (get_token st p))" by blast
  have "scalar_text st v tx" using tx assms(2) punctuation_no_value by (auto simp: token_text_def)
  then show ?thesis using that u by blast
qed

definition sound_value :: "(bytes \<Rightarrow> int64) \<Rightarrow> parser \<Rightarrow> bool" where
  "sound_value st p \<longleftrightarrow>
     (\<forall>states sd q R. parser_ok p \<longrightarrow> storable sd q R \<longrightarrow>
        gives_up (sax_parse_internal st states False (get_token st p) sd) \<or>
        (\<exists>u t j p2 sd2. blank (at_start p) u \<and> json_text st j t \<and> moved p (u @ t) p2 \<and>
           sax_parse_internal st states False (get_token st p) sd = sax_parse_internal st states True p2 sd2 \<and>
           root sd2 = R j \<and> ref_stack sd2 = ref_stack sd))"

definition sound_elements :: "(bytes \<Rightarrow> int64) \<Rightarrow> parser \<Rightarrow> bool" where
  "sound_elements st p \<longleftrightarrow>
     (\<forall>states sd js0 q R rs. parser_ok p \<longrightarrow> \<not> at_start p \<longrightarrow> inside sd q R rs (JArray js0) \<longrightarrow>
        gives_up (sax_parse_internal st (True # states) False (get_token st p) sd) \<or>
        (\<exists>t js p2 sd2. elements_text st js t \<and> moved p (t @ [93]) p2 \<and>
           sax_parse_internal st (True # states) False (get_token st p) sd = sax_parse_internal st states True p2 sd2 \<and>
           root sd2 = R (JArray (js0 @ js)) \<and> ref_stack sd2 = rs))"

definition sound_members :: "(bytes \<Rightarrow> int64) \<Rightarrow> parser \<Rightarrow> bool" where
  "sound_members st p \<longleftrightarrow>
     (\<forall>states sd ms0 q R rs. parser_ok p \<longrightarrow> \<not> at_start p \<longrightarrow> inside sd q R rs (JObject ms0) \<longrightarrow> map_ok ms0 \<longrightarrow>
        gives_up (resume st (parse_key st (False # states) (get_token st p) sd)) \<or>
        (\<exists>t ms p2 sd2. members_text st ms t \<and> moved p (t @ [125]) p2 \<and>
           resume st (parse_key st (False # states) (get_token st p) sd) = sax_parse_internal st states True p2 sd2 \<and>
           root sd2 = R (JObject (fold (\<lambda>(k, v). map_set k v) ms ms0)) \<and> ref_stack sd2 = rs))"

lemma sound_valueE:
  assumes "sound_value st p" and "parser_ok p" and "storable sd q R"
    and "\<not> gives_up (sax_parse_internal st states False (get_token st p) sd)"
  obtains u t j p2 sd2 where "blank (at_start p) u" and "json_text st j t" and "moved p (u @ t) p2"
    and "sax_parse_internal st states False (get_token st p) sd = sax_parse_internal st states True p2 sd2"
    and "root sd2 = R j" and "ref_stack sd2 = ref_stack sd"
  using assms(1) [unfolded sound_value_def, rule_format, OF assms(2,3), of states] assms(4) that by blast

lemma sound_elementsE:
  assumes "sound_elements st p" and "parser_ok p" and "\<not> at_start p" and "inside sd q R rs (JArray js0)"
    and "\<not> gives_up (sax_parse_internal st (True # states) False (get_token st p) sd)"
  obtains t js p2 sd2 where "elements_text st js t" and "moved p (t @ [93]) p2"
    and "sax_parse_internal st (True # states) False (get_token st p) sd = sax_parse_internal st states True p2 sd2"
    and "root sd2 = R (JArray (js0 @ js))" and "ref_stack sd2 = rs"
  using assms(1) [unfolded sound_elements_def, rule_format, OF assms(2-4), of states] assms(5) that by blast

lemma sound_membersE:
  assumes "sound_members st p" and "parser_ok p" and "\<not> at_start p" and "inside sd q R rs (JObject ms0)" and "map_ok ms0"
    and "\<not> gives_up (resume st (parse_key st (False # states) (get_token st p) sd))"
  obtains t ms p2 sd2 where "members_text st ms t" and "moved p (t @ [125]) p2"
    and "resume st (parse_key st (False # states) (get_token st p) sd) = sax_parse_internal st states True p2 sd2"
    and "root sd2 = R (JObject (fold (\<lambda>(k, v). map_set k v) ms ms0))" and "ref_stack sd2 = rs"
  using assms(1) [unfolded sound_members_def, rule_format, OF assms(2-5), of states] assms(6) that by blast

lemma array_sound:
  assumes "\<And>p'. left p' < left p \<Longrightarrow> sound_elements st p'" and "parser_ok p" and "storable sd q R"
    and "last_token (get_token st p) = begin_array"
  shows "gives_up (sax_parse_internal st states False (get_token st p) sd) \<or>
    (\<exists>u t j p2 sd2. blank (at_start p) u \<and> json_text st j t \<and> moved p (u @ t) p2 \<and>
       sax_parse_internal st states False (get_token st p) sd = sax_parse_internal st states True p2 sd2 \<and>
       root sd2 = R j \<and> ref_stack sd2 = ref_stack sd)" (is "?up \<or> ?read")
proof -
  let ?p = "get_token st p" and ?p1 = "get_token st (get_token st p)"
  obtain u where u: "blank (at_start p) u" "moved p (u @ [91]) ?p"
    using got_mark [OF assms(2), of 91 st] assms(4) by (auto simp: punctuation_def)
  have ok: "parser_ok ?p" "\<not> at_start ?p" "left ?p < left p"
    using moved_ok [OF u(2) assms(2)] moved_on [OF u(2)] moved_left [OF u(2)] by auto
  obtain sd1 where sd1: "inside sd1 q R (ref_stack sd) (JArray [])"
    "last_token ?p1 \<noteq> end_array \<Longrightarrow> sax_parse_internal st states False ?p sd = sax_parse_internal st (True # states) False ?p1 sd1"
    "last_token ?p1 = end_array \<Longrightarrow>
      sax_parse_internal st states False ?p sd = sax_parse_internal st states True ?p1 (sd1\<lparr>ref_stack := ref_stack sd\<rparr>)"
    using opens_array [OF assms(4,3), of st states] by metis
  show ?thesis
  proof (cases "last_token ?p1 = end_array")
    case True
    then obtain ws where ws: "list_all is_ws ws" "moved ?p (ws @ [93]) ?p1"
      using got_mark [OF ok(1), of 93 st] ok(2) by (auto simp: punctuation_def blank_later)
    have ?read
      using u(1) text_no_elements [OF ws(1), of st] moved_trans [OF u(2) ws(2)] sd1(1) sd1(3) [OF True]
      by (intro exI [of _ u] exI [of _ "91 # ws @ [93]"] exI [of _ "JArray []"] exI [of _ ?p1] exI [of _ "sd1\<lparr>ref_stack := ref_stack sd\<rparr>"])
        (simp add: inside_def)
    then show ?thesis by blast
  next
    case False
    have up_or: "gives_up (sax_parse_internal st (True # states) False ?p1 sd1) \<or>
        (\<exists>t js p2 sd2. elements_text st js t \<and> moved ?p (t @ [93]) p2 \<and>
           sax_parse_internal st (True # states) False ?p1 sd1 = sax_parse_internal st states True p2 sd2 \<and>
           root sd2 = R (JArray ([] @ js)) \<and> ref_stack sd2 = ref_stack sd)"
      using assms(1) [OF ok(3)] ok(1,2) sd1(1) unfolding sound_elements_def by blast
    then show ?thesis
    proof (elim disjE exE conjE)
      fix t js p2 sd2
      assume e: "elements_text st js t" "moved ?p (t @ [93]) p2"
        "sax_parse_internal st (True # states) False ?p1 sd1 = sax_parse_internal st states True p2 sd2"
        "root sd2 = R (JArray ([] @ js))" "ref_stack sd2 = ref_stack sd"
      have "moved p (u @ 91 # t @ [93]) p2" using moved_trans [OF u(2) e(2)] by simp
      then show ?thesis using u(1) text_array [OF e(1)] e sd1(2) [OF False] by auto
    qed (use sd1(2) [OF False] in simp)
  qed
qed

lemma object_sound:
  assumes "\<And>p'. left p' < left p \<Longrightarrow> sound_members st p'" and "parser_ok p" and "storable sd q R"
    and "last_token (get_token st p) = begin_object"
  shows "gives_up (sax_parse_internal st states False (get_token st p) sd) \<or>
    (\<exists>u t j p2 sd2. blank (at_start p) u \<and> json_text st j t \<and> moved p (u @ t) p2 \<and>
       sax_parse_internal st states False (get_token st p) sd = sax_parse_internal st states True p2 sd2 \<and>
       root sd2 = R j \<and> ref_stack sd2 = ref_stack sd)" (is "?up \<or> ?read")
proof -
  let ?p = "get_token st p" and ?p1 = "get_token st (get_token st p)"
  obtain u where u: "blank (at_start p) u" "moved p (u @ [123]) ?p"
    using got_mark [OF assms(2), of 123 st] assms(4) by (auto simp: punctuation_def)
  have ok: "parser_ok ?p" "\<not> at_start ?p" "left ?p < left p"
    using moved_ok [OF u(2) assms(2)] moved_on [OF u(2)] moved_left [OF u(2)] by auto
  obtain sd1 where sd1: "inside sd1 q R (ref_stack sd) (JObject [])"
    "last_token ?p1 \<noteq> end_object \<Longrightarrow> sax_parse_internal st states False ?p sd = resume st (parse_key st (False # states) ?p1 sd1)"
    "last_token ?p1 = end_object \<Longrightarrow>
      sax_parse_internal st states False ?p sd = sax_parse_internal st states True ?p1 (sd1\<lparr>ref_stack := ref_stack sd\<rparr>)"
    using opens_object [OF assms(4,3), of st states] by metis
  show ?thesis
  proof (cases "last_token ?p1 = end_object")
    case True
    then obtain ws where ws: "list_all is_ws ws" "moved ?p (ws @ [125]) ?p1"
      using got_mark [OF ok(1), of 125 st] ok(2) by (auto simp: punctuation_def blank_later)
    have ?read
      using u(1) text_no_members [OF ws(1), of st] moved_trans [OF u(2) ws(2)] sd1(1) sd1(3) [OF True]
      by (intro exI [of _ u] exI [of _ "123 # ws @ [125]"] exI [of _ "JObject []"] exI [of _ ?p1] exI [of _ "sd1\<lparr>ref_stack := ref_stack sd\<rparr>"])
        (simp add: inside_def)
    then show ?thesis by blast
  next
    case False
    have "map_ok ([] :: (bytes \<times> json) list)" by (simp add: map_ok_def)
    then have up_or: "gives_up (resume st (parse_key st (False # states) ?p1 sd1)) \<or>
        (\<exists>t ms p2 sd2. members_text st ms t \<and> moved ?p (t @ [125]) p2 \<and>
           resume st (parse_key st (False # states) ?p1 sd1) = sax_parse_internal st states True p2 sd2 \<and>
           root sd2 = R (object_of ms) \<and> ref_stack sd2 = ref_stack sd)"
      using assms(1) [OF ok(3)] ok(1,2) sd1(1) unfolding sound_members_def object_of_def by blast
    then show ?thesis
    proof (elim disjE exE conjE)
      fix t ms p2 sd2
      assume e: "members_text st ms t" "moved ?p (t @ [125]) p2"
        "resume st (parse_key st (False # states) ?p1 sd1) = sax_parse_internal st states True p2 sd2"
        "root sd2 = R (object_of ms)" "ref_stack sd2 = ref_stack sd"
      have "moved p (u @ 123 # t @ [125]) p2" using moved_trans [OF u(2) e(2)] by simp
      then show ?thesis using u(1) text_object [OF e(1)] e sd1(2) [OF False] by auto
    qed (use sd1(2) [OF False] in simp)
  qed
qed

lemma value_sound:
  assumes "\<And>p'. left p' < left p \<Longrightarrow> sound_elements st p'" and "\<And>p'. left p' < left p \<Longrightarrow> sound_members st p'"
  shows "sound_value st p"
  unfolding sound_value_def
proof (intro allI impI)
  fix states sd q R
  assume *: "parser_ok p" "storable sd q R"
  let ?p = "get_token st p"
  let ?goal = "gives_up (sax_parse_internal st states False ?p sd) \<or>
    (\<exists>u t j p2 sd2. blank (at_start p) u \<and> json_text st j t \<and> moved p (u @ t) p2 \<and>
       sax_parse_internal st states False ?p sd = sax_parse_internal st states True p2 sd2 \<and>
       root sd2 = R j \<and> ref_stack sd2 = ref_stack sd)"
  consider v where "token_json (last_token ?p) (m_lexer ?p) = Some v" | "last_token ?p = begin_array" | "last_token ?p = begin_object"
    | "\<exists>m. parse_switch st states ?p sd = Throw (create_101 ?p m)"
    by (cases "last_token ?p"; cases "chars_read_total (m_lexer ?p) = 1") (auto simp: token_json_def parse_switch_def)
  then show ?goal
  proof cases
    case (1 v)
    then obtain u tx where u: "blank (at_start p) u" "moved p (u @ tx) ?p" "scalar_text st v tx" using got_scalar [OF *(1)] by blast
    show ?thesis
    proof (cases "finite_number v")
      case True
      then have "sax_parse_internal st states False ?p sd = sax_parse_internal st states True ?p (sd\<lparr>root := R v\<rparr>)"
        using switch_scalar [OF 1 *(2), of st states] by (simp add: loop_value)
      then show ?thesis
        using u text_scalar [OF u(3) True]
        by (intro disjI2 exI [of _ u] exI [of _ tx] exI [of _ v] exI [of _ ?p] exI [of _ "sd\<lparr>root := R v\<rparr>"]) simp
    next
      case False
      then show ?thesis using switch_scalar [OF 1 *(2), of st states] by (auto simp: loop_value)
    qed
  next
    case 2
    then show ?thesis using array_sound [OF assms(1) *] by blast
  next
    case 3
    then show ?thesis using object_sound [OF assms(2) *] by blast
  next
    case 4
    then show ?thesis by (auto simp: loop_value)
  qed
qed

lemma elements_sound:
  assumes "sound_value st p" and "\<And>p'. left p' < left p \<Longrightarrow> sound_elements st p'"
  shows "sound_elements st p"
  unfolding sound_elements_def
proof (intro allI impI)
  fix states sd js0 q R rs
  assume *: "parser_ok p" "\<not> at_start p" "inside sd q R rs (JArray js0)"
  let ?r = "sax_parse_internal st (True # states) False (get_token st p) sd"
  let ?goal = "gives_up ?r \<or> (\<exists>t js p2 sd2. elements_text st js t \<and> moved p (t @ [93]) p2 \<and>
    ?r = sax_parse_internal st states True p2 sd2 \<and> root sd2 = R (JArray (js0 @ js)) \<and> ref_stack sd2 = rs)"
  show ?goal
  proof (cases "gives_up ?r")
    case False
    obtain u t j p2 sd2 where b: "blank (at_start p) u" and v: "json_text st j t" "moved p (u @ t) p2"
      "?r = sax_parse_internal st (True # states) True p2 sd2" "root sd2 = R (JArray (js0 @ [j]))" "ref_stack sd2 = ref_stack sd"
      by (rule sound_valueE [OF assms(1) *(1) storable_element [OF *(3)] False])
    then have v: "blank False u" "json_text st j t" "moved p (u @ t) p2"
      "?r = sax_parse_internal st (True # states) True p2 sd2" "root sd2 = R (JArray (js0 @ [j]))" "ref_stack sd2 = ref_stack sd"
      using *(2) by simp_all
    let ?p3 = "get_token st p2"
    have ins: "inside sd2 q R rs (JArray (js0 @ [j]))" using inside_next [OF *(3) v(5,6)] .
    have ok2: "parser_ok p2" using moved_ok [OF v(3) *(1)] .
    have on2: "\<not> at_start p2" using v(3) *(2) by (auto simp: moved_def came_def at_start_def)
    have "last_token ?p3 \<in> {value_separator, end_array}"
      using after_element(3) [OF ins, of st p2 states] v(4) False gives_up_errors(2) by metis
    then consider "last_token ?p3 = end_array" | "last_token ?p3 = value_separator" by blast
    then show ?thesis
    proof cases
      case 1
      obtain ws where ws: "list_all is_ws ws" "moved p2 (ws @ [93]) ?p3"
        using got_mark [OF ok2, of 93 st] 1 on2 by (auto simp: punctuation_marks blank_later)
      have "elements_text st [j] (u @ t @ ws)" using v(1) ws(1) by (intro element_last [OF v(2)]) (auto simp: padded_def blank_later)
      then show ?thesis
        using moved_trans [OF v(3) ws(2)] v(4) after_element(2) [OF ins 1, of states] ins
        by (intro disjI2 exI [of _ "u @ t @ ws"] exI [of _ "[j]"] exI [of _ ?p3] exI [of _ "sd2\<lparr>ref_stack := rs\<rparr>"])
          (simp add: inside_def)
    next
      case 2
      obtain ws where ws: "list_all is_ws ws" "moved p2 (ws @ [44]) ?p3"
        using got_mark [OF ok2, of 44 st] 2 on2 by (auto simp: punctuation_marks blank_later)
      have m: "moved p ((u @ t @ ws) @ [44]) ?p3" using moved_trans [OF v(3) ws(2)] by simp
      have r: "?r = sax_parse_internal st (True # states) False (get_token st ?p3) sd2"
        using v(4) after_element(1) [OF ins 2, of states] by simp
      have snd: "sound_elements st ?p3" "\<not> at_start ?p3" using assms(2) moved_left [OF m] moved_on [OF m] by simp_all
      obtain ts js p4 sd4 where e: "elements_text st js ts" "moved ?p3 (ts @ [93]) p4"
        "?r = sax_parse_internal st states True p4 sd4" "root sd4 = R (JArray ((js0 @ [j]) @ js))" "ref_stack sd4 = rs"
        unfolding r by (rule sound_elementsE [OF snd(1) moved_ok [OF m *(1)] snd(2) ins False [unfolded r]])
      have "padded t (u @ t @ ws)" using v(1) ws(1) by (auto simp: padded_def blank_later)
      from element_more [OF v(2) this e(1)] show ?thesis
        using moved_trans [OF m e(2)] e(3,4,5)
        by (intro disjI2 exI [of _ "(u @ t @ ws) @ 44 # ts"] exI [of _ "j # js"] exI [of _ p4] exI [of _ sd4]) simp
    qed
  qed blast
qed

lemma key_sound:
  assumes "parser_ok p" and "\<not> at_start p" and "inside sd q R rs (JObject ms)" and "map_ok ms"
    and "\<not> gives_up (resume st (parse_key st states (get_token st p) sd))"
  obtains kt k kp p1 sd1 where "string_body kt k" and "padded (quoted kt) kp" and "moved p (kp @ [58]) p1"
    and "storable sd1 (q @ [Member k]) (\<lambda>v. R (JObject (map_set k v ms)))" and "ref_stack sd1 = q # rs"
    and "resume st (parse_key st states (get_token st p) sd) = sax_parse_internal st states False (get_token st p1) sd1"
proof -
  let ?p = "get_token st p" and ?p1 = "get_token st (get_token st p)"
  have s: "last_token ?p = value_string"
    using assms(5) by (cases "last_token ?p = value_string") (simp_all add: parse_key_def)
  let ?k = "token_buffer (m_lexer ?p)"
  have "token_json (last_token ?p) (m_lexer ?p) = Some (JString ?k)" using s by (simp add: token_json_def)
  then obtain u tx where u: "blank (at_start p) u" "moved p (u @ tx) ?p" "scalar_text st (JString ?k) tx"
    using got_scalar [OF assms(1)] by blast
  obtain kt where kt: "tx = quoted kt" "string_body kt ?k"
    using u(3) by cases (auto simp: number_text_def number_value_def Let_def split: if_splits)
  obtain sd1 where sd1: "storable sd1 (q @ [Member ?k]) (\<lambda>v. R (JObject (map_set ?k v ms)))" "ref_stack sd1 = q # rs"
    "last_token ?p1 = name_separator \<Longrightarrow> resume st (parse_key st states ?p sd) = sax_parse_internal st states False (get_token st ?p1) sd1"
    "last_token ?p1 \<noteq> name_separator \<Longrightarrow> \<exists>n m. resume st (parse_key st states ?p sd) = Inl (Parse_error n m)"
    using key_resumes [OF s assms(3,4), of st states] by metis
  have n: "last_token ?p1 = name_separator"
  proof (rule ccontr)
    assume "last_token ?p1 \<noteq> name_separator"
    from sd1(4) [OF this] show False using assms(5) gives_up_errors(2) by metis
  qed
  have "parser_ok ?p" "\<not> at_start ?p" using moved_ok [OF u(2) assms(1)] moved_on [OF u(2)] kt(1) by (auto simp: quoted_def)
  then obtain ws where ws: "list_all is_ws ws" "moved ?p (ws @ [58]) ?p1"
    using got_mark [of ?p 58 st] n by (auto simp: punctuation_marks blank_later)
  have "padded (quoted kt) (u @ quoted kt @ ws)" using u(1) assms(2) ws(1) by (auto simp: padded_def blank_later)
  then show ?thesis
    using that [OF kt(2) _ _ sd1(1,2) sd1(3) [OF n]] moved_trans [OF u(2) ws(2)] kt(1) by simp
qed

lemma members_sound:
  assumes "\<And>p'. left p' < left p \<Longrightarrow> sound_value st p'" and "\<And>p'. left p' < left p \<Longrightarrow> sound_members st p'"
  shows "sound_members st p"
  unfolding sound_members_def
proof (intro allI impI)
  fix states sd ms0 q R rs
  assume *: "parser_ok p" "\<not> at_start p" "inside sd q R rs (JObject ms0)" "map_ok ms0"
  let ?r = "resume st (parse_key st (False # states) (get_token st p) sd)"
  let ?goal = "gives_up ?r \<or> (\<exists>t ms p2 sd2. members_text st ms t \<and> moved p (t @ [125]) p2 \<and>
    ?r = sax_parse_internal st states True p2 sd2 \<and> root sd2 = R (JObject (fold (\<lambda>(k, v). map_set k v) ms ms0)) \<and> ref_stack sd2 = rs)"
  show ?goal
  proof (cases "gives_up ?r")
    case False
    obtain kt k kp p1 sd1 where k: "string_body kt k" "padded (quoted kt) kp" "moved p (kp @ [58]) p1"
      "storable sd1 (q @ [Member k]) (\<lambda>v. R (JObject (map_set k v ms0)))" "ref_stack sd1 = q # rs"
      "?r = sax_parse_internal st (False # states) False (get_token st p1) sd1"
      using key_sound [OF * False] by metis
    have ok1: "parser_ok p1" "\<not> at_start p1" "left p1 < left p"
      using moved_ok [OF k(3) *(1)] moved_on [OF k(3)] moved_left [OF k(3)] by auto
    obtain u t j p2 sd2 where b: "blank (at_start p1) u" and w: "json_text st j t" "moved p1 (u @ t) p2"
      "?r = sax_parse_internal st (False # states) True p2 sd2" "root sd2 = R (JObject (map_set k j ms0))" "ref_stack sd2 = ref_stack sd1"
      unfolding k(6) by (rule sound_valueE [OF assms(1) [OF ok1(3)] ok1(1) k(4) False [unfolded k(6)]])
    then have v: "blank False u" "json_text st j t" "moved p1 (u @ t) p2"
      "?r = sax_parse_internal st (False # states) True p2 sd2" "root sd2 = R (JObject (map_set k j ms0))" "ref_stack sd2 = ref_stack sd1"
      using ok1(2) by simp_all
    let ?p3 = "get_token st p2"
    have ins: "inside sd2 q R rs (JObject (map_set k j ms0))" using *(3) v(5,6) k(5) by (simp add: inside_def)
    have mok: "map_ok (map_set k j ms0)" using *(4) by (rule map_set_post(1))
    have m2: "moved p (kp @ [58] @ u @ t) p2" using moved_trans [OF k(3) v(3)] by simp
    have ok2: "parser_ok p2" using moved_ok [OF m2 *(1)] .
    have on2: "\<not> at_start p2" using moved_on [OF m2] by simp
    have "last_token ?p3 \<in> {value_separator, end_object}"
      using after_member(3) [OF ins, of st p2 states] v(4) False gives_up_errors(2) by metis
    then consider "last_token ?p3 = end_object" | "last_token ?p3 = value_separator" by blast
    then show ?thesis
    proof cases
      case 1
      obtain ws where ws: "list_all is_ws ws" "moved p2 (ws @ [125]) ?p3"
        using got_mark [OF ok2, of 125 st] 1 on2 by (auto simp: punctuation_marks blank_later)
      have "padded t (u @ t @ ws)" using v(1) ws(1) by (auto simp: padded_def blank_later)
      from member_last [OF k(1,2) v(2) this] show ?thesis
        using moved_trans [OF m2 ws(2)] v(4) after_member(2) [OF ins 1, of states] ins
        by (intro disjI2 exI [of _ "kp @ 58 # u @ t @ ws"] exI [of _ "[(k, j)]"] exI [of _ ?p3] exI [of _ "sd2\<lparr>ref_stack := rs\<rparr>"])
          (simp add: inside_def)
    next
      case 2
      obtain ws where ws: "list_all is_ws ws" "moved p2 (ws @ [44]) ?p3"
        using got_mark [OF ok2, of 44 st] 2 on2 by (auto simp: punctuation_marks blank_later)
      have m: "moved p (kp @ 58 # (u @ t @ ws) @ [44]) ?p3" using moved_trans [OF m2 ws(2)] by simp
      have r: "?r = resume st (parse_key st (False # states) (get_token st ?p3) sd2)"
        using v(4) after_member(1) [OF ins 2, of states] by simp
      have snd: "sound_members st ?p3" "\<not> at_start ?p3" using assms(2) moved_left [OF m] moved_on [OF m] by simp_all
      obtain ts ms p4 sd4 where e: "members_text st ms ts" "moved ?p3 (ts @ [125]) p4"
        "?r = sax_parse_internal st states True p4 sd4" "root sd4 = R (JObject (fold (\<lambda>(k, v). map_set k v) ms (map_set k j ms0)))"
        "ref_stack sd4 = rs"
        unfolding r by (rule sound_membersE [OF snd(1) moved_ok [OF m *(1)] snd(2) ins mok False [unfolded r]])
      have "padded t (u @ t @ ws)" using v(1) ws(1) by (auto simp: padded_def blank_later)
      from member_more [OF k(1,2) v(2) this e(1)] show ?thesis
        using moved_trans [OF m e(2)] e(3,4,5)
        by (intro disjI2 exI [of _ "kp @ 58 # (u @ t @ ws) @ 44 # ts"] exI [of _ "(k, j) # ms"] exI [of _ p4] exI [of _ sd4]) simp
    qed
  qed blast
qed

lemma parser_sound: "sound_value st p \<and> sound_elements st p \<and> sound_members st p"
proof (induction "left p" arbitrary: p rule: less_induct)
  case less
  then have v: "sound_value st p" by (intro value_sound) auto
  then show ?case using less elements_sound [OF v] members_sound [of p st] by blast
qed

section \<open>The whole input\<close>

lemma end_of_document:
  assumes "parser_ok p"
  shows "last_token (get_token st p) = end_of_input \<longleftrightarrow>
    (\<exists>u z. blank (at_start p) u \<and> todo p = u @ z \<and> (z = [] \<or> hd z = 0))"
proof -
  obtain t lx where s: "scan st (m_lexer p) = (t, lx)" by fastforce
  then have g: "last_token (get_token st p) = t" by (simp add: get_token_def)
  show ?thesis
    using scan_sound [OF s] scan_end [of "m_lexer p" _ _ st] s g assms by (auto simp: parser_ok_def at_start_def)
qed

definition first_parser :: "bytes \<Rightarrow> parser" where
  "first_parser input = \<lparr>last_token = uninitialized, m_lexer = new_lexer input False\<rparr>"

lemma first_parser_ok: "parser_ok (first_parser input)" "at_start (first_parser input)" "todo (first_parser input) = input"
  by (simp_all add: first_parser_def new_lexer_def parser_ok_def at_start_def lexer_ok_def rest_def)

lemma parse_unfold:
  "basic_json_parse st input False =
     (case sax_parse_internal st [] False (get_token st (first_parser input)) \<lparr>root = JNull, ref_stack = [], object_element = None\<rparr> of
        Inl e \<Rightarrow> Inl e
      | Inr (p1, sd) \<Rightarrow>
          (let p2 = get_token st p1
           in if last_token p2 \<noteq> end_of_input then Inl (create_101 p2 (exception_message p2 end_of_input (lit ''value'')))
              else Inr (root sd)))"
  by (simp add: basic_json_parse_def parser_parse_def new_parser_def first_parser_def)

lemma parse_complete:
  assumes "json_document st j input"
  shows "basic_json_parse st input False = Inr j"
proof -
  obtain u t ws z where d: "input = u @ t @ ws @ z" "blank True u" "json_text st j t" "list_all is_ws ws" "z = [] \<or> hd z = 0"
    using assms by (auto simp: json_document_def)
  let ?p = "first_parser input" and ?sd = "\<lparr>root = JNull, ref_stack = [], object_element = None\<rparr>"
  have "stops (ws @ z)"
    using d(4,5) by (cases ws; cases z) (auto simp: stops_def is_ws_def is_digit_def is_exp_def)
  moreover have "todo ?p = u @ t @ (ws @ z)" "blank (at_start ?p) u" "storable ?sd [] (\<lambda>v. v)"
    using d(1,2) first_parser_ok [of input] storable_root [of ?sd] by simp_all
  ultimately obtain p2 sd2 where r: "sax_parse_internal st [] False (get_token st ?p) ?sd = sax_parse_internal st [] True p2 sd2"
    "moved ?p (u @ t) p2" "root sd2 = j"
    using text_read(1) [OF d(3), unfolded reads_value_def, rule_format, OF first_parser_ok(1), of input u "ws @ z" ?sd "[]" "\<lambda>v. v" "[]"]
    by blast
  have "todo p2 = ws @ z" using moved_todo [OF r(2)] d(1) first_parser_ok(3) by simp
  then have "last_token (get_token st p2) = end_of_input"
    using end_of_document [OF moved_ok [OF r(2) first_parser_ok(1)], of st] blank_ws [OF d(4)] d(5) by blast
  then show ?thesis using r by (simp add: parse_unfold loop_skip evaluate_state_def)
qed

lemma parse_sound:
  "gives_up (basic_json_parse st input False) \<or> (\<exists>j. basic_json_parse st input False = Inr j \<and> json_document st j input)"
proof -
  let ?p = "first_parser input" and ?sd = "\<lparr>root = JNull, ref_stack = [], object_element = None\<rparr>"
  let ?r = "sax_parse_internal st [] False (get_token st ?p) ?sd"
  have "storable ?sd [] (\<lambda>v. v)" by (simp add: storable_root)
  note so = sound_valueE [OF conjunct1 [OF parser_sound] first_parser_ok(1) this, of st "[]"]
  from so consider "gives_up ?r" | u t j p2 sd2 where "blank True u" "json_text st j t" "moved ?p (u @ t) p2"
      "?r = sax_parse_internal st [] True p2 sd2" "root sd2 = j"
    using first_parser_ok(2) [of input] by (metis (full_types))
  then show ?thesis
  proof cases
    case 1
    then show ?thesis by (auto simp: parse_unfold gives_up_def)
  next
    case (2 u t j p2 sd2)
    then have r: "?r = Inr (p2, sd2)" by (simp add: loop_skip evaluate_state_def)
    have ok: "parser_ok p2" "todo ?p = (u @ t) @ todo p2" using moved_ok [OF 2(3) first_parser_ok(1)] moved_todo [OF 2(3)] by simp_all
    show ?thesis
    proof (cases "last_token (get_token st p2) = end_of_input")
      case True
      then obtain ws z where w: "blank (at_start p2) ws" "todo p2 = ws @ z" "z = [] \<or> hd z = 0" using end_of_document [OF ok(1)] by blast
      have "t \<noteq> []" using 2(2) by cases (auto dest: scalar_not_Nil)
      then have "list_all is_ws ws" using w(1) moved_on [OF 2(3)] by (simp add: blank_later)
      then have "json_document st j input"
        unfolding json_document_def using 2(1,2) ok(2) w(2,3) first_parser_ok(3) by (metis append.assoc)
      then show ?thesis using True r 2(5) by (simp add: parse_unfold)
    next
      case False
      then show ?thesis using r by (simp add: parse_unfold Let_def)
    qed
  qed
qed

lemma parse_result:
  "case basic_json_parse st input False of Inl e \<Rightarrow> e \<noteq> Assert_failed | Inr j \<Rightarrow> json_document st j input"
  using parse_sound [of st input] by (auto simp: gives_up_def split: sum.splits)

text \<open>A text stands for one value.\<close>

lemma document_unique: "json_document st j input \<Longrightarrow> json_document st j' input \<Longrightarrow> j = j'"
  using parse_complete [of st j input] parse_complete [of st j' input] by simp

text \<open>
  C19: the parser accepts exactly the JSON texts: \<^verbatim>\<open>json::parse\<close> returns the value \<open>j\<close> if and only if the input is,
  up to a byte order mark, white space and what follows a null byte, a text of the grammar that stands for \<open>j\<close>.
\<close>

theorem parse_grammar: "basic_json_parse st input False = Inr j \<longleftrightarrow> json_document st j input"
  using parse_complete [of st j input] parse_result [of st input] by auto

text \<open>
  C34: what \<^verbatim>\<open>json::parse\<close> returns is a well-formed value (the members of every object sorted by distinct names, every
  string and name in UTF-8, every floating-point number finite), and where it throws, it is for the text and not for a
  failed assertion of the document builder.
\<close>

theorem parse_well_typed:
  "case basic_json_parse st input False of Inl e \<Rightarrow> e \<noteq> Assert_failed | Inr j \<Rightarrow> json_wf j"
  using parse_result [of st input] text_wf(1) by (auto simp: json_document_def split: sum.splits)

end
