(* ===== verification/Json_Roundtrip.thy ===== *)
theory Json_Roundtrip
  imports Json_Correct Json_Serializer
begin

text \<open>
  The serializer of \<^verbatim>\<open>json/json.hpp\<close> prints a text of the grammar that stands for the value printed, compact or
  indented, with or without escapes for everything that is not ASCII; so the parser reads back what was printed.
\<close>

section \<open>Strings\<close>

lemma hex_nat_digit: "d < 16 \<Longrightarrow> hex_nat (hex_digit d) = Some d"
proof -
  assume "d < 16"
  then have "d \<in> {0, 1, 2, 3, 4, 5, 6, 7, 8, 9, 10, 11, 12, 13, 14, 15}" by simp presburger
  then show ?thesis by (elim insertE emptyE) (simp_all add: hex_nat_def hex_digit_def)
qed

lemma u_escape_hex4: "u_escape w = 92 # 117 # drop 2 (u_escape w)" "hex4 (drop 2 (u_escape w)) (unat w)"
proof -
  let ?u = "unat w"
  have "?u < 65536" using unat_bound [of w] by simp
  then have ds: "map hex_nat (drop 2 (u_escape w)) = [Some (?u div 4096), Some (?u div 256 mod 16), Some (?u div 16 mod 16), Some (?u mod 16)]"
    by (simp add: u_escape_def hex_nat_digit)
  have sum: "?u = 4096 * (?u div 4096) + 256 * (?u div 256 mod 16) + 16 * (?u div 16 mod 16) + ?u mod 16"
  proof -
    have "?u = ?u div 16 * 16 + ?u mod 16" "?u div 16 = ?u div 256 * 16 + ?u div 16 mod 16"
      "?u div 256 = ?u div 4096 * 16 + ?u div 256 mod 16"
      using div_mult_mod_eq [of "?u div 16" 16] div_mult_mod_eq [of "?u div 256" 16] by (simp_all flip: div_mult2_eq)
    then show ?thesis by linarith
  qed
  show "hex4 (drop 2 (u_escape w)) ?u" unfolding hex4_def by (intro exI conjI) (rule ds, rule sum)
qed (simp add: u_escape_def)

lemma escaped_pair:
  fixes cp :: int32
  assumes "0x10000 \<le> unat cp" and "unat cp < 0x110000"
  defines "hi \<equiv> ucast (0xD7C0 + drop_bit 10 cp) :: int16" and "lo \<equiv> ucast (0xDC00 + (cp AND 0x3FF)) :: int16"
  shows "unat hi = 0xD7C0 + unat cp div 1024" and "unat lo = 0xDC00 + unat cp mod 1024"
proof -
  have d: "unat (drop_bit 10 cp) = unat cp div 1024" by (simp add: unat_drop_bit)
  have m: "unat (cp AND 0x3FF) = unat cp mod 1024"
    using unat_take_bit [of 10 cp] by (simp add: take_bit_eq_mask mask_eq_exp_minus_1)
  have s: "unat (0xD7C0 + drop_bit 10 cp) = 0xD7C0 + unat cp div 1024" "unat (0xDC00 + (cp AND 0x3FF)) = 0xDC00 + unat cp mod 1024"
    using assms(2) by (simp_all add: unat_word_ariths d m)
  have b: "0xD7C0 + unat cp div 1024 < 65536" "0xDC00 + unat cp mod 1024 < 65536" using assms(2) by auto
  show "unat hi = 0xD7C0 + unat cp div 1024" and "unat lo = 0xDC00 + unat cp mod 1024"
    using s b by (simp_all add: hi_def lo_def unsigned_ucast_eq take_bit_nat_eq_self)
qed

lemma chunk_u_escape:
  assumes "scalar_value cp" and "unat cp < 0x10000"
  shows "string_chunk (u_escape (ucast cp)) (codepoint_bytes cp)"
proof -
  have u: "unat (ucast cp :: int16) = unat cp" using assms(2) by (simp add: unsigned_ucast_eq take_bit_nat_eq_self)
  moreover have "\<not> (0xD800 \<le> unat cp \<and> unat cp \<le> 0xDFFF)" using assms(1) by (auto simp: scalar_value_unat)
  ultimately show ?thesis using chunk_hex [OF u_escape_hex4(2), of "ucast cp"] u_escape_hex4(1) [of "ucast cp"] by simp
qed

lemma chunk_escaped_pair:
  assumes "0x10000 \<le> unat cp" and "unat cp < 0x110000"
  shows "string_chunk (u_escape (ucast (0xD7C0 + drop_bit 10 cp)) @ u_escape (ucast (0xDC00 + (cp AND 0x3FF)))) (codepoint_bytes cp)"
proof -
  define hi lo :: int16 where "hi = ucast (0xD7C0 + drop_bit 10 cp)" and "lo = ucast (0xDC00 + (cp AND 0x3FF))"
  note p = escaped_pair [OF assms, folded hi_def lo_def]
  have q: "unat cp div 1024 < 0x440" "0x40 \<le> unat cp div 1024" using assms by auto
  have n: "0x10000 + (unat hi - 0xD800) * 0x400 + (unat lo - 0xDC00) = unat cp"
    using p q by (simp add: algebra_simps)
  have "string_chunk (92 # 117 # drop 2 (u_escape hi) @ 92 # 117 # drop 2 (u_escape lo))
      (codepoint_bytes (word_of_nat (0x10000 + (unat hi - 0xD800) * 0x400 + (unat lo - 0xDC00))))"
    using p q by (intro chunk_pair u_escape_hex4(2)) simp_all
  moreover have "92 # 117 # drop 2 (u_escape hi) @ 92 # 117 # drop 2 (u_escape lo) = u_escape hi @ u_escape lo"
    using u_escape_hex4(1) by (metis append_Cons)
  ultimately have "string_chunk (u_escape hi @ u_escape lo) (codepoint_bytes (word_of_nat (unat cp)))" unfolding n by metis
  then show ?thesis unfolding hi_def lo_def by simp
qed

lemma escaped_chunk:
  assumes "scalar_value cp"
  shows "string_chunk (escaped ea cp) (codepoint_bytes cp)"
proof (cases "needs_escape ea cp")
  case False
  then have "escaped ea cp = codepoint_bytes cp" "0x20 \<le> cp" "cp \<noteq> 0x22" "cp \<noteq> 0x5C"
    by (auto simp: escaped_def needs_escape_def word_nat_simps)
  then show ?thesis using chunk_plain [OF assms] by simp
next
  case True
  have u: "unat cp < 0x110000" using assms by (auto simp: scalar_value_unat)
  consider "cp \<in> {0x08, 0x09, 0x0A, 0x0C, 0x0D, 0x22, 0x5C}"
    | "cp \<notin> {0x08, 0x09, 0x0A, 0x0C, 0x0D, 0x22, 0x5C}" "unat cp < 0x10000"
    | "0x10000 \<le> unat cp" by linarith
  then show ?thesis
  proof cases
    case 1
    then show ?thesis
      using True by (elim insertE emptyE) (auto simp: escaped_def escape_char_def codepoint_bytes_def short_escapes_def intro!: chunk_short)
  next
    case 2
    then have "escaped ea cp = u_escape (ucast cp)" using True
      by (auto simp: escaped_def escape_char_def needs_escape_def word_nat_simps)
    then show ?thesis using chunk_u_escape [OF assms 2(2)] by simp
  next
    case 3
    then have "escaped ea cp = u_escape (ucast (0xD7C0 + drop_bit 10 cp)) @ u_escape (ucast (0xDC00 + (cp AND 0x3FF)))"
      using True by (auto simp: escaped_def escape_char_def needs_escape_def word_nat_simps)
    then show ?thesis using chunk_escaped_pair [OF 3 u] by simp
  qed
qed

lemma escaped_body: "list_all scalar_value cps \<Longrightarrow> string_body (concat (map (escaped ea) cps)) (utf8_text cps)"
  by (induction cps) (auto simp: utf8_text_def intro: body_nil body_chunk escaped_chunk)

lemma dump_escaped_body:
  assumes "dump_escaped ea Strict s = Inr es"
  shows "string_body es s"
proof -
  have "valid_utf8 s" using assms dump_escaped_strict by blast
  then obtain cps where "list_all scalar_value cps" "s = utf8_text cps" using valid_utf8_iff by blast
  then show ?thesis using assms dump_escaped_text [of cps ea Strict] escaped_body [of cps ea] by simp
qed

section \<open>Numbers\<close>

lemma nat_digits_lead: "nat_digits n = c # cs \<Longrightarrow> (c = 48 \<longrightarrow> n = 0 \<and> cs = []) \<and> (c \<noteq> 48 \<longrightarrow> is_digit19 c)"
proof (induction n arbitrary: cs rule: nat_digits.induct)
  case (1 n)
  show ?case
  proof (cases "n < 10")
    case True
    then have "n \<in> {0, 1, 2, 3, 4, 5, 6, 7, 8, 9}" by auto
    then show ?thesis using "1.prems" by (auto simp: nat_digits_one is_digit19_def)
  next
    case False
    then have "nat_digits n = nat_digits (n div 10) @ [48 + word_of_nat (n mod 10)]" by (subst nat_digits.simps) simp
    moreover obtain c' cs' where "nat_digits (n div 10) = c' # cs'" using nat_digits_digits by (cases "nat_digits (n div 10)") auto
    moreover have "n div 10 \<noteq> 0" using False by (simp add: div_eq_0_iff)
    ultimately show ?thesis using 1 False by auto
  qed
qed

lemma int_text_digits: "int_text (nat_digits n)"
proof -
  obtain c cs where "nat_digits n = c # cs" using nat_digits_digits [of n] by (cases "nat_digits n") auto
  then show ?thesis
    using nat_digits_lead [of n c cs] nat_digits_digits [of n] by (cases "c = 48") (auto simp: int_text_def digits_def)
qed

lemma number_text_int:
  "number_text st (if neg then 45 # nat_digits n else nat_digits n) (number_value st neg (nat_digits n) [])"
  unfolding number_text_def
  by (rule exI [of _ neg], rule exI [of _ "nat_digits n"], rule exI [of _ "[]"], rule exI [of _ "[]"])
    (simp add: int_text_digits frac_text_def)

lemma number_unsigned: "number_text st (print_int (uint x)) (JUnsigned (x :: int64))"
proof -
  have "number_value st False (nat_digits (unat x)) [] = JUnsigned x"
    using unsigned_less [where 'a = int, of x] by (simp add: number_value_def digits_value_nat_digits)
  moreover have "print_int (int n) = nat_digits n" for n by (simp add: print_int_def)
  ultimately show ?thesis using number_text_int [of st False "unat x"] by (metis uint_nat)
qed

lemma number_negative:
  assumes "sint x < 0"
  shows "number_text st (print_int (sint x)) (JInt (x :: int64))"
proof -
  have "- (2 ^ 63) \<le> sint x" using sint_ge [of x] by simp
  then have "number_value st True (nat_digits (nat (- sint x))) [] = JInt x"
    using assms by (simp add: number_value_def digits_value_nat_digits)
  moreover have "print_int (sint x) = 45 # nat_digits (nat (- sint x))" using assms by (simp add: print_int_def)
  ultimately show ?thesis using number_text_int [of st True "nat (- sint x)"] by simp
qed

section \<open>Values\<close>

text \<open>
  What is read back: an integer that is not negative comes back in the unsigned kind, and a number that is not finite
  has been printed as \<^verbatim>\<open>null\<close>.
\<close>

fun read_back :: "json \<Rightarrow> json" where
  "read_back (JInt x) = (if sint x < 0 then JInt x else JUnsigned x)"
| "read_back (JFloat x) = (if is_finite x then JFloat x else JNull)"
| "read_back (JArray js) = JArray (map read_back js)"
| "read_back (JObject ms) = JObject (map (\<lambda>m. (fst m, read_back (snd m))) ms)"
| "read_back j = j"

text \<open>The floating-point numbers of a value, and that each is printed as a text that \<^verbatim>\<open>strtod\<close> reads as it.\<close>

fun floats :: "json \<Rightarrow> int64 set" where
  "floats (JFloat x) = {x}"
| "floats (JArray js) = \<Union> (set (map floats js))"
| "floats (JObject ms) = \<Union> (set (map (\<lambda>m. floats (snd m)) ms))"
| "floats _ = {}"

definition float_printed :: "(bytes \<Rightarrow> int64) \<Rightarrow> (int64 \<Rightarrow> bytes option) \<Rightarrow> int64 \<Rightarrow> bool" where
  "float_printed st df x \<longleftrightarrow> (\<exists>tx. df x = Some tx \<and> (if is_finite x then number_text st tx (JFloat x) else tx = lit ''null''))"

lemma dump_integer_text:
  "json_text st (read_back (JInt x)) (dump_integer True number_buffer x)"
  "json_text st (JUnsigned x) (dump_integer False number_buffer x)"
proof -
  have b: "64 \<le> length number_buffer" by (simp add: number_buffer_def)
  have "0 \<le> sint x \<Longrightarrow> sint x = uint x" by (rule sint_nonneg)
  then show "json_text st (read_back (JInt x)) (dump_integer True number_buffer x)"
    using number_negative [of x st] number_unsigned [of st x]
    by (cases "sint x < 0") (auto simp: dump_integer_eq [OF b] intro!: text_scalar scalar_number)
  show "json_text st (JUnsigned x) (dump_integer False number_buffer x)"
    using number_unsigned [of st x] by (auto simp: dump_integer_eq [OF b] intro!: text_scalar scalar_number)
qed

lemma float_text:
  assumes "float_printed st df x" and "df x = Some tx"
  shows "json_text st (read_back (JFloat x)) tx"
  using assms by (auto simp: float_printed_def intro!: text_scalar scalar_number scalar_null split: if_splits)

lemma fold_set_sorted: "map_ok (m @ ms) \<Longrightarrow> fold (\<lambda>(k, v). map_set k v) ms m = m @ ms"
proof (induction ms arbitrary: m)
  case (Cons p ms)
  obtain k v where p: "p = (k, v)" by (cases p)
  have less: "\<forall>q\<in>set m. fst q < k" using Cons.prems p by (auto simp: map_ok_def sorted_wrt_append)
  then have "map_find k m = None" by (auto simp: map_find_None)
  then have "map_set k v m = m @ [(k, v)]" using map_insert_last [OF less] by (simp add: map_set_def)
  then show ?case using Cons p by simp
qed simp

lemma object_of_sorted: "map_ok ms \<Longrightarrow> object_of ms = JObject ms"
  using fold_set_sorted [of "[]" ms] by (simp add: object_of_def)

lemma map_ok_snd: "map_ok (map (\<lambda>m. (fst m, f (snd m))) ms) = map_ok ms"
  by (simp add: map_ok_def comp_def)

lemma indent_ws:
  "list_all is_ws istr \<Longrightarrow> list_all is_ws (grow_indent n istr)"
  "list_all is_ws istr \<Longrightarrow> write_indent pp n istr = Inr sp \<Longrightarrow> list_all is_ws sp"
  by (auto simp: grow_indent_def write_indent_def list_all_iff is_ws_def dest: in_set_takeD split: if_splits)

lemma padded_both: "list_all is_ws ws \<Longrightarrow> list_all is_ws ws' \<Longrightarrow> padded t (ws @ t @ ws')"
  by (auto simp: padded_def)

lemma separator_ws:
  "list_all is_ws (if pp then [10] else [])" "list_all is_ws (if pp then [32] else [])"
  "list_all is_ws sp \<Longrightarrow> list_all is_ws (if pp then 10 # sp else [])"
  by (auto simp: is_ws_def)

lemma dump_text:
  "dump df c cur istr j = Inr (tx, istr') \<Longrightarrow> error_handler c = Strict \<Longrightarrow> list_all is_ws istr \<Longrightarrow> json_ok j \<Longrightarrow>
     \<forall>x\<in>floats j. float_printed st df x \<Longrightarrow> json_text st (read_back j) tx \<and> list_all is_ws istr'"
  "dump_members df c ind istr ms = Inr (tx, istr') \<Longrightarrow> error_handler c = Strict \<Longrightarrow> list_all is_ws istr \<Longrightarrow>
     list_all (\<lambda>m. json_ok (snd m)) ms \<Longrightarrow> \<forall>m\<in>set ms. \<forall>x\<in>floats (snd m). float_printed st df x \<Longrightarrow> ms \<noteq> [] \<Longrightarrow>
     list_all is_ws pre \<Longrightarrow> list_all is_ws post \<Longrightarrow>
     members_text st (map (\<lambda>m. (fst m, read_back (snd m))) ms) (pre @ tx @ post) \<and> list_all is_ws istr'"
  "dump_elements df c ind istr js = Inr (tx, istr') \<Longrightarrow> error_handler c = Strict \<Longrightarrow> list_all is_ws istr \<Longrightarrow>
     list_all json_ok js \<Longrightarrow> \<forall>j\<in>set js. \<forall>x\<in>floats j. float_printed st df x \<Longrightarrow> js \<noteq> [] \<Longrightarrow>
     list_all is_ws pre \<Longrightarrow> list_all is_ws post \<Longrightarrow>
     elements_text st (map read_back js) (pre @ tx @ post) \<and> list_all is_ws istr'"
proof (induction df c cur istr j and df c ind istr ms and df c ind istr js arbitrary: tx istr' and tx istr' pre post and tx istr' pre post
    rule: dump_dump_members_dump_elements.induct)
  case (1 df c cur istr ms)
  show ?case
  proof (cases "ms = []")
    case True
    then show ?thesis using "1.prems" text_no_members [of "[]" st] by (auto simp: lit_def)
  next
    case False
    let ?pp = "pretty_print c"
    define ind where "ind = (if ?pp then cur + indent_step c else cur)"
    define is1 where "is1 = (if ?pp then grow_indent ind istr else istr)"
    obtain t is2 sp where d: "dump_members df c ind is1 ms = Inr (t, is2)" "write_indent ?pp cur is2 = Inr sp"
      "tx = (if ?pp then [123, 10] else [123]) @ t @ (if ?pp then 10 # sp else []) @ [125]" "istr' = is2"
      using "1.prems"(1) False unfolding ind_def is1_def by (auto simp: Let_def split: sum.splits)
    have w1: "list_all is_ws is1" using "1.prems"(3) by (simp add: is1_def indent_ws(1))
    have ih: "list_all is_ws pre \<Longrightarrow> list_all is_ws post \<Longrightarrow>
        members_text st (map (\<lambda>m. (fst m, read_back (snd m))) ms) (pre @ t @ post) \<and> list_all is_ws is2" for pre post
      using "1.IH" [OF False refl ind_def is1_def d(1) "1.prems"(2) w1] "1.prems"(4,5) False by auto
    then have is2: "list_all is_ws is2" using ih [of "[]" "[]"] by simp
    then have "list_all is_ws (if ?pp then 10 # sp else [])" using indent_ws(2) [OF _ d(2)] separator_ws(3) by blast
    then have "members_text st (map (\<lambda>m. (fst m, read_back (snd m))) ms) ((if ?pp then [10] else []) @ t @ (if ?pp then 10 # sp else []))"
      using ih separator_ws(1) by blast
    from text_object [OF this] have "json_text st (read_back (JObject ms)) tx"
      using "1.prems"(4) d(3) by (cases ?pp) (simp_all add: object_of_sorted map_ok_snd)
    then show ?thesis using is2 d(4) by simp
  qed
next
  case (2 df c cur istr js)
  show ?case
  proof (cases "js = []")
    case True
    then show ?thesis using "2.prems" text_no_elements [of "[]" st] by (auto simp: lit_def)
  next
    case False
    let ?pp = "pretty_print c"
    define ind where "ind = (if ?pp then cur + indent_step c else cur)"
    define is1 where "is1 = (if ?pp then grow_indent ind istr else istr)"
    obtain t is2 sp where d: "dump_elements df c ind is1 js = Inr (t, is2)" "write_indent ?pp cur is2 = Inr sp"
      "tx = (if ?pp then [91, 10] else [91]) @ t @ (if ?pp then 10 # sp else []) @ [93]" "istr' = is2"
      using "2.prems"(1) False unfolding ind_def is1_def by (auto simp: Let_def split: sum.splits)
    have w1: "list_all is_ws is1" using "2.prems"(3) by (simp add: is1_def indent_ws(1))
    have ih: "list_all is_ws pre \<Longrightarrow> list_all is_ws post \<Longrightarrow>
        elements_text st (map read_back js) (pre @ t @ post) \<and> list_all is_ws is2" for pre post
      using "2.IH" [OF False refl ind_def is1_def d(1) "2.prems"(2) w1] "2.prems"(4,5) False by auto
    then have is2: "list_all is_ws is2" using ih [of "[]" "[]"] by simp
    then have "list_all is_ws (if ?pp then 10 # sp else [])" using indent_ws(2) [OF _ d(2)] separator_ws(3) by blast
    then have "elements_text st (map read_back js) ((if ?pp then [10] else []) @ t @ (if ?pp then 10 # sp else []))"
      using ih separator_ws(1) by blast
    from text_array [OF this] have "json_text st (read_back (JArray js)) tx" using d(3) by (cases ?pp) simp_all
    then show ?thesis using is2 d(4) by simp
  qed
next
  case (3 df c cur istr s)
  then obtain es where "dump_escaped (ensure_ascii c) Strict s = Inr es" "tx = quoted es" "istr' = istr"
    by (auto simp: quoted_def split: sum.splits)
  then show ?case
    using "3.prems"(3) text_scalar [OF scalar_string [OF dump_escaped_body]] by simp
next
  case (4 df c cur istr v)
  then show ?case by (cases v) (auto intro!: text_scalar scalar_true scalar_false)
next
  case (5 df c cur istr x)
  then show ?case using dump_integer_text(1) [of st x] by simp
next
  case (6 df c cur istr x)
  then show ?case using dump_integer_text(2) [of st x] by simp
next
  case (7 df c cur istr x)
  then show ?case using float_text [of st df x tx] by (cases "is_finite x") (auto split: option.splits)
next
  case (8 df c cur istr)
  then show ?case by (auto intro!: text_scalar scalar_null)
next
  case (9 df c ind istr)
  then show ?case by simp
next
  case (10 df c ind istr k v ms)
  let ?pp = "pretty_print c"
  obtain sp ek t is1 where d: "write_indent ?pp ind istr = Inr sp" "dump_escaped (ensure_ascii c) Strict k = Inr ek"
    "dump df c ind istr v = Inr (t, is1)"
    using "10.prems"(1,2) by (auto split: sum.splits)
  have sp: "list_all is_ws sp" using indent_ws(2) [OF "10.prems"(3) d(1)] .
  have v: "json_text st (read_back v) t" "list_all is_ws is1"
    using "10.IH"(1) [OF d(1) _ d(3) "10.prems"(2,3)] d(2) "10.prems"(2,4,5) by auto
  have kp: "padded (quoted ek) ((pre @ sp) @ quoted ek @ [])" using padded_both [of "pre @ sp" "[]" "quoted ek"] sp "10.prems"(7) by simp
  show ?case
  proof (cases "ms = []")
    case True
    then have tx: "tx = sp @ 34 # ek @ (if ?pp then [34, 58, 32] else [34, 58]) @ t" "istr' = is1"
      using "10.prems"(1,2) d by (auto simp: Let_def)
    have "padded t ((if ?pp then [32] else []) @ t @ post)" by (rule padded_both [OF separator_ws(2) "10.prems"(8)])
    from member_last [OF dump_escaped_body [OF d(2)] kp v(1) this] show ?thesis using True tx v(2) by (simp add: quoted_def split: if_splits)
  next
    case False
    then obtain ts is2 where ts: "dump_members df c ind is1 ms = Inr (ts, is2)"
      and tx: "tx = sp @ 34 # ek @ (if ?pp then [34, 58, 32] else [34, 58]) @ t @ (if ?pp then [44, 10] else [44]) @ ts" "istr' = is2"
      using "10.prems"(1,2) d by (auto simp: Let_def split: sum.splits)
    have ih: "members_text st (map (\<lambda>m. (fst m, read_back (snd m))) ms) ((if ?pp then [10] else []) @ ts @ post) \<and> list_all is_ws is2"
      using "10.IH"(2) [OF d(1) _ d(3) refl refl False ts "10.prems"(2) v(2) _ _ False separator_ws(1) "10.prems"(8)] d(2) "10.prems"(2,4,5)
      by auto
    have "padded t ((if ?pp then [32] else []) @ t @ [])" by (rule padded_both [OF separator_ws(2)]) simp
    from member_more [OF dump_escaped_body [OF d(2)] kp v(1) this conjunct1 [OF ih]] show ?thesis
      using tx ih by (simp add: quoted_def split: if_splits)
  qed
next
  case (11 df c ind istr)
  then show ?case by simp
next
  case (12 df c ind istr j js)
  let ?pp = "pretty_print c"
  obtain sp t is1 where d: "write_indent ?pp ind istr = Inr sp" "dump df c ind istr j = Inr (t, is1)"
    using "12.prems"(1) by (auto split: sum.splits)
  have sp: "list_all is_ws (pre @ sp)" using indent_ws(2) [OF "12.prems"(3) d(1)] "12.prems"(7) by simp
  have v: "json_text st (read_back j) t" "list_all is_ws is1"
    using "12.IH"(1) [OF d(1) d(2) "12.prems"(2,3)] "12.prems"(4,5) by auto
  show ?case
  proof (cases "js = []")
    case True
    then have tx: "tx = sp @ t" "istr' = is1" using "12.prems"(1) d by auto
    from element_last [OF v(1) padded_both [OF sp "12.prems"(8)]] show ?thesis using True tx v(2) by simp
  next
    case False
    then obtain ts is2 where ts: "dump_elements df c ind is1 js = Inr (ts, is2)"
      and tx: "tx = sp @ t @ (if ?pp then [44, 10] else [44]) @ ts" "istr' = is2"
      using "12.prems"(1) d by (auto split: sum.splits)
    have ih: "elements_text st (map read_back js) ((if ?pp then [10] else []) @ ts @ post) \<and> list_all is_ws is2"
      using "12.IH"(2) [OF d(1,2) refl False ts "12.prems"(2) v(2) _ _ False separator_ws(1) "12.prems"(8)] "12.prems"(4,5) by auto
    from element_more [OF v(1) padded_both [OF sp, of "[]"] conjunct1 [OF ih]] show ?thesis
      using tx ih by (simp split: if_splits)
  qed
qed

section \<open>The round trip\<close>

lemma dump_value_text:
  assumes "basic_json_dump df indent indent_char ea Strict j = Inr tx" and "is_ws indent_char" and "json_ok j"
    and "\<forall>x\<in>floats j. float_printed st df x"
  shows "json_text st (read_back j) tx"
proof -
  let ?c = "\<lparr>ensure_ascii = ea, error_handler = Strict, pretty_print = (0 \<le>s indent), indent_step = (if 0 \<le>s indent then indent else 0)\<rparr>"
  obtain istr where "dump df ?c 0 (replicate 512 indent_char) j = Inr (tx, istr)"
    using assms(1) by (auto simp: basic_json_dump_def Let_def split: sum.splits)
  then show ?thesis
    using dump_text(1) [of df ?c 0 "replicate 512 indent_char" j tx istr st] assms(2-4) by (simp add: list_all_iff)
qed

lemma document_text: "json_text st j t \<Longrightarrow> json_document st j t"
  unfolding json_document_def by (intro exI [of _ "[]"] exI [of _ t]) (simp add: blank_def bom_text_def)

lemmas dump_document = document_text [OF dump_value_text]

lemma dump_parse_roundtrip:
  assumes "basic_json_dump df indent indent_char ea Strict j = Inr tx" and "is_ws indent_char" and "json_ok j"
    and "\<forall>x\<in>floats j. float_printed st df x"
  shows "basic_json_parse st tx False = Inr (read_back j)"
  using parse_complete [OF dump_document [OF assms]] .

text \<open>The compact form is refused for strings that are not UTF-8, and for nothing else.\<close>

fun json_utf8 :: "json \<Rightarrow> bool" where
  "json_utf8 (JString s) = valid_utf8 s"
| "json_utf8 (JArray js) = list_all json_utf8 js"
| "json_utf8 (JObject ms) = list_all (\<lambda>m. valid_utf8 (fst m) \<and> json_utf8 (snd m)) ms"
| "json_utf8 _ = True"

lemma json_wf_utf8: "json_wf j \<Longrightarrow> json_utf8 j \<and> json_ok j"
  by (induction j rule: json_wf.induct) (auto simp: list_all_iff)

lemma dump_compact:
  "\<not> pretty_print c \<Longrightarrow> error_handler c = Strict \<Longrightarrow> \<forall>x\<in>floats j. df x \<noteq> None \<Longrightarrow>
     (\<exists>r. dump df c cur istr j = Inr r) \<longleftrightarrow> json_utf8 j"
  "\<not> pretty_print c \<Longrightarrow> error_handler c = Strict \<Longrightarrow> \<forall>m\<in>set ms. \<forall>x\<in>floats (snd m). df x \<noteq> None \<Longrightarrow>
     (\<exists>r. dump_members df c cur istr ms = Inr r) \<longleftrightarrow> list_all (\<lambda>m. valid_utf8 (fst m) \<and> json_utf8 (snd m)) ms"
  "\<not> pretty_print c \<Longrightarrow> error_handler c = Strict \<Longrightarrow> \<forall>j\<in>set js. \<forall>x\<in>floats j. df x \<noteq> None \<Longrightarrow>
     (\<exists>r. dump_elements df c cur istr js = Inr r) \<longleftrightarrow> list_all json_utf8 js"
proof (induction df c cur istr j and df c cur istr ms and df c cur istr js rule: dump_dump_members_dump_elements.induct)
  case (1 df c cur istr ms)
  then show ?case by (cases "ms = []") (fastforce simp: write_indent_def split: sum.splits)+
next
  case (2 df c cur istr js)
  then show ?case by (cases "js = []") (fastforce simp: write_indent_def split: sum.splits)+
next
  case (3 df c cur istr s)
  then show ?case using dump_escaped_strict [of "ensure_ascii c" s] by (auto split: sum.splits)
next
  case (7 df c cur istr x)
  then show ?case by (cases "df x") simp_all
next
  case (10 df c ind istr k v ms)
  have w: "write_indent (pretty_print c) ind istr = Inr []" using "10.prems" by (simp add: write_indent_def)
  show ?case
  proof (cases "dump_escaped (ensure_ascii c) Strict k")
    case (Inl e)
    then show ?thesis using "10.prems" w dump_escaped_strict [of "ensure_ascii c" k] by auto
  next
    case (Inr ek)
    then have k: "valid_utf8 k" using dump_escaped_strict by blast
    have v: "(\<exists>r. dump df c ind istr v = Inr r) \<longleftrightarrow> json_utf8 v" using "10.IH"(1) [OF w _ "10.prems"(1,2)] Inr "10.prems"(2,3) by auto
    show ?thesis
    proof (cases "dump df c ind istr v")
      case I: (Inr r)
      obtain t is1 where r: "r = (t, is1)" by (cases r)
      show ?thesis
      proof (cases "ms = []")
        case False
        have "(\<exists>r. dump_members df c ind is1 ms = Inr r) \<longleftrightarrow> list_all (\<lambda>m. valid_utf8 (fst m) \<and> json_utf8 (snd m)) ms"
          using "10.IH"(2) [OF w _ I [unfolded r] refl refl False "10.prems"(1,2)] Inr "10.prems"(2,3) by auto
        then show ?thesis using w Inr I r v k False "10.prems" by (auto simp: Let_def split: sum.splits)
      qed (use w Inr I r v k "10.prems" in \<open>auto simp: Let_def\<close>)
    qed (use w Inr v k "10.prems" in \<open>auto\<close>)
  qed
next
  case (12 df c ind istr j js)
  have w: "write_indent (pretty_print c) ind istr = Inr []" using "12.prems" by (simp add: write_indent_def)
  have v: "(\<exists>r. dump df c ind istr j = Inr r) \<longleftrightarrow> json_utf8 j" using "12.IH"(1) [OF w "12.prems"(1,2)] "12.prems"(3) by auto
  show ?case
  proof (cases "dump df c ind istr j")
    case I: (Inr r)
    obtain t is1 where r: "r = (t, is1)" by (cases r)
    show ?thesis
    proof (cases "js = []")
      case False
      have "(\<exists>r. dump_elements df c ind is1 js = Inr r) \<longleftrightarrow> list_all json_utf8 js"
        using "12.IH"(2) [OF w I [unfolded r] refl False "12.prems"(1,2)] "12.prems"(3) by auto
      then show ?thesis using w I r v False "12.prems" by (auto split: sum.splits)
    qed (use w I r v "12.prems" in auto)
  qed (use w v "12.prems" in auto)
qed auto

lemma dump_accepts:
  assumes "indent <s 0" and "\<forall>x\<in>floats j. df x \<noteq> None"
  shows "(\<exists>tx. basic_json_dump df indent indent_char ea Strict j = Inr tx) \<longleftrightarrow> json_utf8 j"
proof -
  let ?c = "\<lparr>ensure_ascii = ea, error_handler = Strict, pretty_print = False, indent_step = 0\<rparr>"
  have n: "\<not> 0 \<le>s indent" using assms(1) by (simp add: word_sless_alt word_sle_eq)
  have "(\<exists>r. dump df ?c 0 (replicate 512 indent_char) j = Inr r) \<longleftrightarrow> json_utf8 j"
    by (rule dump_compact(1)) (simp_all add: assms(2))
  then show ?thesis using n by (auto simp: basic_json_dump_def Let_def split: sum.splits)
qed

end
