(* ===== verification/Json_Grisu.thy ===== *)
theory Json_Grisu
  imports Json_Powers Json_Digits Json_Roundtrip
begin

text \<open>
  Grisu2 in \<^verbatim>\<open>json/json.hpp\<close> is correct: for every positive finite \<^verbatim>\<open>double\<close> no assertion of \<^verbatim>\<open>dtoa_impl\<close> fails and no loop
  runs for ever, there are at most 17 digits, and the decimal number they stand for lies strictly between the
  boundaries within which every number rounds to that \<^verbatim>\<open>double\<close>.  So a \<^verbatim>\<open>strtod\<close> that rounds correctly reads back what
  was printed.
\<close>

section \<open>The value of a double and its neighbourhood\<close>

text \<open>A positive \<^verbatim>\<open>double\<close> is its significand times a power of two.\<close>

definition significand :: "int64 \<Rightarrow> nat" where
  "significand x = (if unat x div 2 ^ 52 = 0 then unat x mod 2 ^ 52 else unat x mod 2 ^ 52 + 2 ^ 52)"

definition exponent :: "int64 \<Rightarrow> int" where
  "exponent x = (if unat x div 2 ^ 52 = 0 then - 1074 else int (unat x div 2 ^ 52) - 1075)"

text \<open>Halfway to the next \<^verbatim>\<open>double\<close> above, and to the next one below, which is closer when the significand is a power of two.\<close>

definition upper_bound :: "int64 \<Rightarrow> real" where
  "upper_bound x = (2 * real (significand x) + 1) * 2 powi (exponent x - 1)"

definition lower_bound :: "int64 \<Rightarrow> real" where
  "lower_bound x =
     (if unat x mod 2 ^ 52 = 0 \<and> 1 < unat x div 2 ^ 52 then (4 * real (significand x) - 1) * 2 powi (exponent x - 2)
      else (2 * real (significand x) - 1) * 2 powi (exponent x - 1))"

definition positive :: "int64 \<Rightarrow> bool" where
  "positive x \<longleftrightarrow> is_finite x \<and> x \<noteq> 0 \<and> drop_bit 63 x = 0"

lemma positive_range:
  assumes "positive x"
  shows "0 < significand x" and "significand x < 2 ^ 53" and "unat x div 2 ^ 52 < 2047"
    and "unat x div 2 ^ 52 \<noteq> 0 \<Longrightarrow> 2 ^ 52 \<le> significand x"
proof -
  have "unat (drop_bit 63 x) = unat x div 2 ^ 63" by (simp add: unat_drop_bit)
  then have "unat x div 2 ^ 63 = 0" using assms by (simp add: positive_def)
  then have b: "unat x < 2 ^ 63" by (simp add: div_eq_0_iff)
  then have e: "unat x div 2 ^ 52 < 2048" by (simp add: div_less_iff_less_mult)
  have "unat (drop_bit 52 x AND 0x7FF) = unat (drop_bit 52 x) mod 2 ^ 11"
    using unat_take_bit [of 11 "drop_bit 52 x"] by (simp add: take_bit_eq_mask mask_eq_exp_minus_1)
  moreover have "unat (drop_bit 52 x AND 0x7FF) \<noteq> unat (0x7FF :: int64)"
    using assms unfolding positive_def is_finite_def word_unat_eq_iff by blast
  ultimately have "unat x div 2 ^ 52 mod 2 ^ 11 \<noteq> 2047" by (simp add: unat_drop_bit)
  then show "unat x div 2 ^ 52 < 2047" using e by simp
  show "unat x div 2 ^ 52 \<noteq> 0 \<Longrightarrow> 2 ^ 52 \<le> significand x" by (simp add: significand_def)
  have "unat x \<noteq> 0" using assms unfolding positive_def by (metis unsigned_eq_0_iff)
  then have "unat x div 2 ^ 52 = 0 \<Longrightarrow> unat x mod 2 ^ 52 \<noteq> 0" by (metis add.right_neutral div_mult_mod_eq mult_0)
  then show "0 < significand x" by (auto simp: significand_def)
  have "(if b then r else r + 2 ^ 52) < (2 :: nat) ^ 53" if "r < 2 ^ 52" for b r using that by simp
  moreover have "unat x mod 2 ^ 52 < 2 ^ 52" by (rule mod_less_divisor) simp
  ultimately show "significand x < 2 ^ 53" unfolding significand_def by blast
qed

text \<open>How far the significand has to be shifted for 64 bits.\<close>

lemma normal_shift:
  assumes "0 < n" and "n < (2 :: nat) ^ 53"
  shows "\<exists>t. 2 ^ 63 \<le> n * 2 ^ t \<and> (n + 1) * 2 ^ t \<le> 2 ^ 64 \<and> 11 \<le> t \<and> t \<le> 63 \<and> (2 ^ 52 \<le> n \<longrightarrow> t = 11)"
proof -
  obtain b where b: "2 ^ b \<le> n" "n < 2 ^ (b + 1)" using ex_power_ivl1 [of 2 n] assms(1) by auto
  have "(2 :: nat) ^ b < 2 ^ 53" using b(1) assms(2) by (rule le_less_trans)
  then have "b < 53" using power_less_imp_less_exp [of "2 :: nat" b 53] by simp
  define t where "t = 63 - b"
  have t: "b + t = 63" using \<open>b < 53\<close> by (simp add: t_def)
  have "(2 :: nat) ^ b * 2 ^ t \<le> n * 2 ^ t" using b(1) by (intro mult_le_mono1)
  moreover have "(n + 1) * 2 ^ t \<le> 2 ^ (b + 1) * 2 ^ t" using b(2) by (intro mult_le_mono1) simp
  moreover have "(2 :: nat) ^ b * 2 ^ t = 2 ^ 63" "(2 :: nat) ^ (b + 1) * 2 ^ t = 2 ^ 64"
    using t by (simp_all only: power_add [symmetric]) simp_all
  moreover have "t = 11" if "2 ^ 52 \<le> n"
  proof -
    have "(2 :: nat) ^ 52 < 2 ^ (b + 1)" using that b(2) by (rule le_less_trans)
    then have "52 < b + 1" using power_less_imp_less_exp [of "2 :: nat" 52 "b + 1"] by simp
    then show ?thesis using \<open>b < 53\<close> by (simp add: t_def)
  qed
  ultimately show ?thesis using \<open>b < 53\<close> t by (intro exI [of _ t]) auto
qed

lemma unat_of_small: "n < 2 ^ 64 \<Longrightarrow> unat (word_of_nat n :: int64) = n"
  by (intro unat_word_of_nat_small) simp

text \<open>The lower boundary in units of the normalised significand.\<close>

definition lower_units :: "int64 \<Rightarrow> nat \<Rightarrow> nat" where
  "lower_units x t =
     (if unat x mod 2 ^ 52 = 0 \<and> 1 < unat x div 2 ^ 52 then (4 * significand x - 1) * 2 ^ (t - 2)
      else (2 * significand x - 1) * 2 ^ (t - 1))"

lemma diyfp_of_double:
  assumes "positive x"
  defines "F \<equiv> x AND (kHiddenBit - 1)" and "E \<equiv> drop_bit 52 x"
  shows "unat F = unat x mod 2 ^ 52" and "unat E = unat x div 2 ^ 52"
    and "unat (F + kHiddenBit) = unat x mod 2 ^ 52 + 2 ^ 52" and "E = 0 \<longleftrightarrow> unat x div 2 ^ 52 = 0"
    and "F = 0 \<longleftrightarrow> unat x mod 2 ^ 52 = 0" and "1 < E \<longleftrightarrow> 1 < unat x div 2 ^ 52"
proof -
  show F: "unat F = unat x mod 2 ^ 52" unfolding F_def kHiddenBit_def by (rule unat_low_bits) simp
  show E: "unat E = unat x div 2 ^ 52" by (simp add: E_def unat_drop_bit)
  have h: "unat kHiddenBit = 2 ^ 52" unfolding kHiddenBit_def by (rule unat_one_shl) simp
  have "unat x mod 2 ^ 52 < 2 ^ 52" by simp
  then show "unat (F + kHiddenBit) = unat x mod 2 ^ 52 + 2 ^ 52" using unat_add64 [of F kHiddenBit] F h by simp
  show "E = 0 \<longleftrightarrow> unat x div 2 ^ 52 = 0" using E by (metis unsigned_eq_0_iff)
  show "F = 0 \<longleftrightarrow> unat x mod 2 ^ 52 = 0" using F by (metis unsigned_eq_0_iff)
  show "1 < E \<longleftrightarrow> 1 < unat x div 2 ^ 52" using E by (simp add: word_less_nat_alt)
qed

lemma double_shift: "0 < t \<Longrightarrow> (2 * n + a) * 2 ^ (t - 1) = n * 2 ^ t + a * (2 :: nat) ^ (t - 1)"
  by (cases t) (simp_all add: algebra_simps)

lemma lower_units_eq:
  assumes "0 < significand x" and "2 \<le> t"
  shows "lower_units x t + (if unat x mod 2 ^ 52 = 0 \<and> 1 < unat x div 2 ^ 52 then 2 ^ (t - 2) else 2 ^ (t - 1)) = significand x * 2 ^ t"
proof -
  obtain u where "t = 2 + u" using assms(2) le_Suc_ex by blast
  then have u: "t = Suc (Suc u)" by simp
  have pred: "(k - 1) * a + a = k * a" if "0 < k" for k a :: nat using that by (cases k) simp_all
  have "(4 * significand x - 1) * 2 ^ u + 2 ^ u = significand x * 2 ^ t" "(2 * significand x - 1) * 2 ^ Suc u + 2 ^ Suc u = significand x * 2 ^ t"
    using pred [of "4 * significand x" "2 ^ u"] pred [of "2 * significand x" "2 ^ Suc u"] assms(1) by (simp_all add: u)
  moreover have "t - 2 = u" "t - 1 = Suc u" by (simp_all add: u)
  ultimately show ?thesis
    unfolding lower_units_def by (cases "unat x mod 2 ^ 52 = 0 \<and> 1 < unat x div 2 ^ 52") (simp_all only: if_True if_False simp_thms)
qed

lemma compute_boundaries_ok:
  assumes "positive x"
  shows "\<exists>t. 11 \<le> t \<and> t \<le> 63 \<and> 2 ^ 63 \<le> significand x * 2 ^ t \<and> (significand x + 1) * 2 ^ t \<le> 2 ^ 64 \<and>
    (2 ^ 52 \<le> significand x \<longrightarrow> t = 11) \<and>
    compute_boundaries x = Some \<lparr>b_w = \<lparr>fp_f = word_of_nat (significand x * 2 ^ t), fp_e = exponent x - int t\<rparr>,
      b_minus = \<lparr>fp_f = word_of_nat (lower_units x t), fp_e = exponent x - int t\<rparr>,
      b_plus = \<lparr>fp_f = word_of_nat ((2 * significand x + 1) * 2 ^ (t - 1)), fp_e = exponent x - int t\<rparr>\<rparr>"
proof -
  define n where "n = significand x"
  note range = positive_range [OF assms, folded n_def]
  obtain t where t: "2 ^ 63 \<le> n * 2 ^ t" "(n + 1) * 2 ^ t \<le> 2 ^ 64" "11 \<le> t" "t \<le> 63" "2 ^ 52 \<le> n \<longrightarrow> t = 11"
    using normal_shift [OF range(1,2)] by blast
  define F E where "F = x AND (kHiddenBit - 1)" and "E = drop_bit 52 x"
  note parts = diyfp_of_double [OF assms, folded F_def E_def]
  define f where "f = (if E = 0 then F else F + kHiddenBit)"
  define closer where "closer \<longleftrightarrow> F = 0 \<and> 1 < E"
  have f: "unat f = n" using parts by (simp add: f_def n_def significand_def)
  have e: "(if E = 0 then \<lparr>fp_f = F, fp_e = 1 - kBias\<rparr> else \<lparr>fp_f = F + kHiddenBit, fp_e = int (unat E) - kBias\<rparr>) =
      \<lparr>fp_f = f, fp_e = exponent x\<rparr>"
    using parts(2,4) by (simp add: f_def exponent_def kBias_def)
  have u2: "unat (2 * f) = 2 * n" and u4: "unat (4 * f) = 4 * n"
    using unat_mult64 [of 2 f] unat_mult64 [of 4 f] f range(2) by simp_all
  have plus: "unat (2 * f + 1) = 2 * n + 1" using unat_add64 [of "2 * f" 1] u2 range(2) by simp
  have minus: "unat (2 * f - 1) = 2 * n - 1" "unat (4 * f - 1) = 4 * n - 1"
    using unat_sub [of 1 "2 * f"] unat_sub [of 1 "4 * f"] u2 u4 range(1) by (simp_all add: word_le_nat_alt)
  have up: "(2 * n + 1) * 2 ^ (t - 1) = n * 2 ^ t + 2 ^ (t - 1)" using double_shift [of t n 1] t(3) by simp
  have "(2 :: nat) ^ (t - 1) < 2 ^ t" using t(3) by (intro power_strict_increasing) simp_all
  then have P: "2 ^ 63 \<le> (2 * n + 1) * 2 ^ (t - 1)" "(2 * n + 1) * 2 ^ (t - 1) < 2 ^ 64" unfolding up using t(1,2) [unfolded distrib_right] by linarith+
  have W: "n * 2 ^ t < 2 ^ 64"
  proof -
    have "n * 2 ^ t < (n + 1) * 2 ^ t" by simp
    then show ?thesis using t(2) by (rule less_le_trans)
  qed
  have "0 < (if unat x mod 2 ^ 52 = 0 \<and> 1 < unat x div 2 ^ 52 then 2 ^ (t - 2) else (2 :: nat) ^ (t - 1))" by simp
  then have "lower_units x t < n * 2 ^ t" using lower_units_eq [of x t] range(1) t(3) unfolding n_def by linarith
  then have L: "lower_units x t < 2 ^ 64" using W by (rule less_trans)
  have lu: "lower_units x t = (if closer then (4 * n - 1) * 2 ^ (t - 2) else (2 * n - 1) * 2 ^ (t - 1))"
    unfolding lower_units_def closer_def n_def parts(5,6) by simp
  have ex: "exponent x - 1 - int (t - 1) = exponent x - int t" "exponent x - 2 - int (t - 2) = exponent x - int t" using t(3) by auto
  have norm_plus: "diyfp_normalize \<lparr>fp_f = 2 * f + 1, fp_e = exponent x - 1\<rparr> =
      Some \<lparr>fp_f = word_of_nat ((2 * n + 1) * 2 ^ (t - 1)), fp_e = exponent x - int t\<rparr>"
    using normalize_eq [of "2 * f + 1" "t - 1" "exponent x - 1"] P unfolding plus ex by simp
  have norm_v: "diyfp_normalize \<lparr>fp_f = f, fp_e = exponent x\<rparr> = Some \<lparr>fp_f = word_of_nat (n * 2 ^ t), fp_e = exponent x - int t\<rparr>"
    using normalize_eq [of f t "exponent x"] t(1) W unfolding f by simp
  have norm_minus: "diyfp_normalize_to (if closer then \<lparr>fp_f = 4 * f - 1, fp_e = exponent x - 2\<rparr> else \<lparr>fp_f = 2 * f - 1, fp_e = exponent x - 1\<rparr>)
      (exponent x - int t) = Some \<lparr>fp_f = word_of_nat (lower_units x t), fp_e = exponent x - int t\<rparr>"
    using normalize_to_eq [of "4 * f - 1" "t - 2" "exponent x - 2"] normalize_to_eq [of "2 * f - 1" "t - 1" "exponent x - 1"] L
    unfolding minus ex lu by (cases closer) simp_all
  define ww wm wp :: int64 where "ww = word_of_nat (n * 2 ^ t)" and "wm = word_of_nat (lower_units x t)"
    and "wp = word_of_nat ((2 * n + 1) * 2 ^ (t - 1))"
  note w_defs = ww_def wm_def wp_def
  have "compute_boundaries x = Some \<lparr>b_w = \<lparr>fp_f = ww, fp_e = exponent x - int t\<rparr>,
      b_minus = \<lparr>fp_f = wm, fp_e = exponent x - int t\<rparr>, b_plus = \<lparr>fp_f = wp, fp_e = exponent x - int t\<rparr>\<rparr>"
    using assms norm_plus [folded w_defs] norm_v [folded w_defs] norm_minus [folded w_defs]
    unfolding compute_boundaries_def Let_def F_def [symmetric] E_def [symmetric] e closer_def [symmetric]
    by (cases closer) (simp_all add: positive_def)
  then show ?thesis using t unfolding n_def w_defs by blast
qed

section \<open>Scaling by the cached power\<close>

lemma scaled_product:
  assumes "X < 2 ^ 64" and "\<bar>real C - \<gamma>\<bar> \<le> 1 / 2"
  shows "\<bar>real ((X * C + 2 ^ 63) div 2 ^ 64) - real X * (\<gamma> / 2 ^ 64)\<bar> < 1"
proof -
  define y where "y = (X * C + 2 ^ 63) div 2 ^ 64"
  have "y * 2 ^ 64 \<le> X * C + 2 ^ 63" "X * C + 2 ^ 63 < (y + 1) * 2 ^ 64"
    unfolding y_def using div_mult_mod_eq [of "X * C + 2 ^ 63" "2 ^ 64"] mod_less_divisor [of "2 ^ 64" "X * C + 2 ^ 63"] by simp_all
  then have "real (y * 2 ^ 64) \<le> real (X * C + 2 ^ 63)" "real (X * C + 2 ^ 63) < real ((y + 1) * 2 ^ 64)"
    by (simp_all only: of_nat_le_iff of_nat_less_iff)
  then have y: "real y * 2 ^ 64 \<le> real X * real C + 2 ^ 63" "real X * real C + 2 ^ 63 < real y * 2 ^ 64 + 2 ^ 64"
    by (simp_all add: algebra_simps)
  have "\<bar>real X * (real C - \<gamma>)\<bar> \<le> real X * (1 / 2)" unfolding abs_mult using assms(2) by (intro mult_mono) simp_all
  moreover have "real X < 2 ^ 64" using assms(1) by (simp only: of_nat_less_iff [where 'a = real, symmetric] of_nat_power of_nat_numeral)
  ultimately have "\<bar>real X * real C - real X * \<gamma>\<bar> < 2 ^ 63" by (simp add: right_diff_distrib)
  then have "\<bar>real y * 2 ^ 64 - real X * \<gamma>\<bar> < 2 ^ 64" using y by simp
  moreover have "real y * 2 ^ 64 - real X * \<gamma> = (real y - real X * (\<gamma> / 2 ^ 64)) * 2 ^ 64" by (simp add: field_simps)
  ultimately show ?thesis unfolding y_def [symmetric] by (simp add: abs_mult)
qed

lemma mul_cached:
  assumes "X < 2 ^ 64"
  shows "unat (fp_f (diyfp_mul \<lparr>fp_f = word_of_nat X, fp_e = q\<rparr> \<lparr>fp_f = c, fp_e = ec\<rparr>)) = (X * unat c + 2 ^ 63) div 2 ^ 64"
  using diyfp_mul_eq(1) [of "\<lparr>fp_f = word_of_nat X, fp_e = q\<rparr>" "\<lparr>fp_f = c, fp_e = ec\<rparr>"] unat_of_small [OF assms] by simp

text \<open>The width of the interval in units of the normalised significand.\<close>

lemma interval_width:
  assumes "positive x" and "2 \<le> t"
  defines "P \<equiv> (2 * significand x + 1) * 2 ^ (t - 1)" and "M \<equiv> lower_units x t" and "W \<equiv> significand x * 2 ^ t"
  shows "M + 2 ^ (t - 2) \<le> W" and "P = W + 2 ^ (t - 1)" and "P \<le> 2 ^ 53 * (P - M)"
proof -
  obtain u where "t = 2 + u" using assms(2) le_Suc_ex by blast
  then have u: "t - 2 = u" "t - 1 = Suc u" "t = Suc (Suc u)" by simp_all
  note n = positive_range [OF assms(1)]
  define closer where "closer \<longleftrightarrow> unat x mod 2 ^ 52 = 0 \<and> 1 < unat x div 2 ^ 52"
  have m: "M + (if closer then 2 ^ u else 2 ^ Suc u) = W"
    using lower_units_eq [OF n(1) assms(2)] unfolding closer_def M_def W_def u(1,2) .
  then show "M + 2 ^ (t - 2) \<le> W" unfolding u by (cases closer) simp_all
  show p: "P = W + 2 ^ (t - 1)" using double_shift [of t "significand x" 1] assms(2) by (simp add: P_def W_def)
  show "P \<le> 2 ^ 53 * (P - M)"
  proof (cases closer)
    case True
    then have "significand x = 2 ^ 52" by (auto simp: significand_def closer_def)
    then have "P = (2 * 2 ^ 53 + 2) * 2 ^ u" by (simp add: P_def u)
    moreover have "P - M = 3 * 2 ^ u" using m p True by (simp add: u)
    ultimately show ?thesis by simp
  next
    case False
    have "P - M = 2 * 2 ^ Suc u" using m p False by (simp add: u)
    moreover have "(2 * significand x + 1) * 2 ^ Suc u \<le> 2 ^ 54 * 2 ^ Suc u" using n(2) by (intro mult_le_mono1) simp
    then have "P \<le> 2 ^ 54 * 2 ^ Suc u" unfolding P_def u(2) .
    ultimately show ?thesis by simp
  qed
qed

lemma exponent_range:
  assumes "positive x" and "11 \<le> t" and "t \<le> 63" and "2 ^ 52 \<le> significand x \<longrightarrow> t = 11"
  shows "- 1137 \<le> exponent x - int t" and "exponent x - int t \<le> 960"
proof -
  have "unat x div 2 ^ 52 \<noteq> 0 \<Longrightarrow> t = 11" using positive_range(4) [OF assms(1)] assms(4) by blast
  moreover have "unat x div 2 ^ 52 < 2047" by (rule positive_range(3) [OF assms(1)])
  ultimately show "- 1137 \<le> exponent x - int t" and "exponent x - int t \<le> 960"
    unfolding exponent_def using assms(2,3) by (cases "unat x div 2 ^ 52 = 0"; simp)+
qed

lemma bounds_in_units:
  assumes "positive x" and "2 \<le> t"
  shows "upper_bound x = real ((2 * significand x + 1) * 2 ^ (t - 1)) * 2 powi (exponent x - int t)"
    and "lower_bound x = real (lower_units x t) * 2 powi (exponent x - int t)"
proof -
  have two: "(2 :: real) powi (int u + v) = 2 ^ u * 2 powi v" for u v by (subst power_int_add) (simp_all only: power_int_of_nat, simp)
  have "exponent x - 1 = int (t - 1) + (exponent x - int t)" "exponent x - 2 = int (t - 2) + (exponent x - int t)" using assms(2) by auto
  then have pw: "(2 :: real) powi (exponent x - 1) = 2 ^ (t - 1) * 2 powi (exponent x - int t)"
    "(2 :: real) powi (exponent x - 2) = 2 ^ (t - 2) * 2 powi (exponent x - int t)" by (metis two)+
  show "upper_bound x = real ((2 * significand x + 1) * 2 ^ (t - 1)) * 2 powi (exponent x - int t)"
    unfolding upper_bound_def pw by (simp add: distrib_right)
  have "real (4 * significand x - 1) = 4 * real (significand x) - 1" "real (2 * significand x - 1) = 2 * real (significand x) - 1"
    using positive_range(1) [OF assms(1)] by (simp_all add: of_nat_diff)
  then show "lower_bound x = real (lower_units x t) * 2 powi (exponent x - int t)"
    unfolding lower_bound_def lower_units_def pw by (simp only: of_nat_mult of_nat_power of_nat_numeral split: if_split) simp
qed

section \<open>Grisu2\<close>

text \<open>The scaled significands are ordered, far apart, and large enough for the digit loops.\<close>

lemma scaled_bounds:
  fixes W M P a b c t :: nat and g :: real
  assumes "\<bar>real a - real M * g\<bar> < 1" and "\<bar>real b - real W * g\<bar> < 1" and "\<bar>real c - real P * g\<bar> < 1" and "49 / 100 \<le> g"
    and "M + 2 ^ (t - 2) \<le> W" and "P = W + 2 ^ (t - 1)" and "P \<le> 2 ^ 53 * (P - M)" and "11 \<le> t" and "2 ^ 63 \<le> W"
  shows "real M * g < real (a + 1)" and "a + 1 \<le> b" and "b \<le> c - 1" and "2 ^ 60 \<le> c - 1" and "real (c - 1) < real P * g"
    and "real (c - 1) < 10 ^ 16 * real (c - 1 - (a + 1))"
proof -
  have "(2 :: nat) ^ 9 \<le> 2 ^ (t - 2)" "(2 :: nat) ^ 10 \<le> 2 ^ (t - 1)" using assms(8) by (intro power_increasing; simp)+
  then have wm: "M + 512 \<le> W" and pw: "W + 1024 \<le> P" using assms(5,6) by simp_all
  have "real M + 512 \<le> real W" "real W + 1024 \<le> real P" using wm pw by linarith+
  then have "512 * g \<le> (real W - real M) * g" "1024 * g \<le> (real P - real W) * g" using assms(4) by (intro mult_right_mono; simp)+
  then have wg: "real M * g + 250 \<le> real W * g" and pg: "real W * g + 501 \<le> real P * g" using assms(4) by (simp_all add: left_diff_distrib)
  have "real (2 ^ 63) \<le> real P" using assms(9) pw by (simp only: of_nat_le_iff)
  then have "real (2 ^ 63) * (49 / 100) \<le> real P * g" using assms(4) by (intro mult_mono) simp_all
  then have big: "real (2 ^ 60 + 1) < real c" using assms(3) by simp
  show "real M * g < real (a + 1)" using assms(1) by simp
  have "real (a + 1) < real b" "real b + 1 < real c" using assms(1-3) wg pg by simp_all
  then have abc: "a + 1 < b" "b + 1 < c" by linarith+
  show "a + 1 \<le> b" "b \<le> c - 1" using abc by simp_all
  show "2 ^ 60 \<le> c - 1" using big by (simp only: of_nat_less_iff)
  have c1: "real (c - 1) = real c - 1" using abc by (simp add: of_nat_diff)
  show up: "real (c - 1) < real P * g" using assms(3) c1 by simp
  have d: "real (c - 1 - (a + 1)) = real c - real a - 2" using abc by (simp add: of_nat_diff)
  define Y where "Y = (real P - real M) * g"
  have Y: "751 \<le> Y" using wg pg by (simp add: Y_def left_diff_distrib)
  have low: "Y - 4 < real (c - 1 - (a + 1))" using assms(1,3) d by (simp add: Y_def left_diff_distrib)
  have "real P \<le> real (2 ^ 53 * (P - M))" using assms(7) by (simp only: of_nat_le_iff)
  then have "real P \<le> 2 ^ 53 * (real P - real M)" using wm pw by (simp add: of_nat_diff)
  then have "real P * g \<le> 2 ^ 53 * (real P - real M) * g" using assms(4) by (intro mult_right_mono) simp_all
  with up have "real (c - 1) < 2 ^ 53 * (real P - real M) * g" by (rule less_le_trans)
  then have "real (c - 1) < 2 ^ 53 * Y" unfolding Y_def by (simp only: mult.assoc)
  moreover have "2 ^ 53 * Y \<le> 10 ^ 16 * (Y - 4)" using Y by simp
  moreover have "10 ^ 16 * (Y - 4) < 10 ^ 16 * real (c - 1 - (a + 1))" using low by simp
  ultimately show "real (c - 1) < 10 ^ 16 * real (c - 1 - (a + 1))" by linarith
qed

lemma grisu2_digits:
  assumes "positive x"
  shows "\<exists>ds dexp. grisu2 x = Some (ds, dexp) \<and> ds \<noteq> [] \<and> (\<forall>c\<in>set ds. is_digit c) \<and> hd ds \<noteq> 48 \<and> length ds \<le> 17 \<and>
    lower_bound x < real_of_int (digits_value ds) * 10 powi dexp \<and> real_of_int (digits_value ds) * 10 powi dexp < upper_bound x \<and>
    - 400 < dexp \<and> dexp < 400"
proof -
  define n where "n = significand x"
  obtain t where t: "11 \<le> t" "t \<le> 63" "2 ^ 63 \<le> n * 2 ^ t" "(n + 1) * 2 ^ t \<le> 2 ^ 64" "2 ^ 52 \<le> n \<longrightarrow> t = 11"
    and cb: "compute_boundaries x = Some \<lparr>b_w = \<lparr>fp_f = word_of_nat (n * 2 ^ t), fp_e = exponent x - int t\<rparr>,
      b_minus = \<lparr>fp_f = word_of_nat (lower_units x t), fp_e = exponent x - int t\<rparr>,
      b_plus = \<lparr>fp_f = word_of_nat ((2 * n + 1) * 2 ^ (t - 1)), fp_e = exponent x - int t\<rparr>\<rparr>"
    using compute_boundaries_ok [OF assms] unfolding n_def by blast
  define W M P q where "W = n * 2 ^ t" and "M = lower_units x t" and "P = (2 * n + 1) * 2 ^ (t - 1)" and "q = exponent x - int t"
  have t2: "2 \<le> t" using t(1) by simp
  note iw = interval_width [OF assms t2, folded n_def, folded W_def M_def P_def]
  have "(2 :: nat) ^ (t - 1) < 2 ^ t" using t(1) by (intro power_strict_increasing) simp_all
  then have small: "W < 2 ^ 64" "M < 2 ^ 64" "P < 2 ^ 64" using t(4) [unfolded distrib_right, folded W_def] iw(1,2) by linarith+
  obtain C ec k where c: "get_cached_power_for_binary_exponent q = Some (C, ec, k)" "accurate (C, ec, k)" "- 60 \<le> ec + q + 64" "ec + q + 64 \<le> - 32"
    "- 300 \<le> k" "k \<le> 324"
    using cached_power_found exponent_range [OF assms t(1,2) t(5) [unfolded n_def]] unfolding q_def by metis
  define \<gamma> g where "\<gamma> = (10 :: real) powi k / 2 powi ec" and "g = \<gamma> / 2 ^ 64"
  have C: "2 ^ 63 \<le> uint C" "\<bar>real (unat C) - \<gamma>\<bar> \<le> 1 / 2" using c(2) by (simp_all add: accurate_def \<gamma>_def)
  have "real_of_int (2 ^ 63) \<le> real_of_int (uint C)" using C(1) by (simp only: of_int_le_iff)
  then have "(2 :: real) ^ 63 \<le> real (unat C)" by simp
  then have "2 ^ 63 - 1 / 2 \<le> \<gamma>" using C(2) by linarith
  then have g: "49 / 100 \<le> g" by (simp add: g_def)
  define mm ww pp where "mm = diyfp_mul \<lparr>fp_f = word_of_nat M, fp_e = q\<rparr> \<lparr>fp_f = C, fp_e = ec\<rparr>"
    and "ww = diyfp_mul \<lparr>fp_f = word_of_nat W, fp_e = q\<rparr> \<lparr>fp_f = C, fp_e = ec\<rparr>"
    and "pp = diyfp_mul \<lparr>fp_f = word_of_nat P, fp_e = q\<rparr> \<lparr>fp_f = C, fp_e = ec\<rparr>"
  define e where "e = ec + q + 64"
  have fe: "fp_e mm = e" "fp_e ww = e" "fp_e pp = e" by (simp_all add: mm_def ww_def pp_def diyfp_mul_eq(2) e_def)
  have close: "\<bar>real (unat (fp_f mm)) - real M * g\<bar> < 1" "\<bar>real (unat (fp_f ww)) - real W * g\<bar> < 1" "\<bar>real (unat (fp_f pp)) - real P * g\<bar> < 1"
    unfolding mm_def ww_def pp_def g_def mul_cached [OF small(1)] mul_cached [OF small(2)] mul_cached [OF small(3)]
    by (intro scaled_product small C(2))+
  note sb = scaled_bounds [OF close g iw t(1) t(3) [folded W_def]]
  define fm fw fp where "fm = fp_f mm + 1" and "fw = fp_f ww" and "fp = fp_f pp - 1"
  have fm: "unat fm = unat (fp_f mm) + 1" unfolding fm_def using unat_add64 [of "fp_f mm" 1] sb(2) unat64_less [of "fp_f ww"] by simp
  have fp: "unat fp = unat (fp_f pp) - 1" unfolding fp_def using unat_sub [of 1 "fp_f pp"] sb(4) by (simp add: word_le_nat_alt)
  have "(2 :: nat) ^ nat (- e) \<le> 2 ^ 60" using c(3) by (intro power_increasing) (simp_all add: e_def)
  then have lead: "2 ^ nat (- e) \<le> unat fp" using sb(4) fp by simp
  have e: "- 60 \<le> e" "e \<le> - 32" using c(3,4) by (simp_all add: e_def)
  have "unat fm \<noteq> unat fp" using sb(6) fm fp by auto
  then have ord: "0 < unat fm" "unat fm \<le> unat fw" "unat fw \<le> unat fp" "unat fm < unat fp"
    using sb(2,3) fm fp unfolding fw_def by linarith+
  obtain ds pos where ds: "grisu2_digit_gen (- k) \<lparr>fp_f = fm, fp_e = e\<rparr> \<lparr>fp_f = fw, fp_e = e\<rparr> \<lparr>fp_f = fp, fp_e = e\<rparr> =
      Some (ds, - k + pos - int (length ds))"
    "digits_near (nat (- e)) pos (real (unat fp)) (real (unat fp - unat fm)) ds"
    "10 powi (pos - 1) * 2 ^ nat (- e) \<le> real (unat fp)" "1 \<le> pos" "pos \<le> 10"
    using grisu2_digit_gen_ok [OF e ord lead, of "- k"] by blast
  have len: "length ds \<le> 17" by (rule digits_near_length [OF ds(2,3)]) (unfold fm fp, rule sb(6))
  have rec: "r\<lparr>fp_f := f\<rparr> = \<lparr>fp_f = f, fp_e = fp_e r\<rparr>" "\<lparr>fp_f = fp_f r, fp_e = fp_e r\<rparr> = r" for r f by (cases r; simp)+
  have w: "\<lparr>fp_f = fp_f ww, fp_e = e\<rparr> = ww" unfolding fe(2) [symmetric] by (rule rec(2))
  have "grisu2_scaled \<lparr>fp_f = word_of_nat M, fp_e = q\<rparr> \<lparr>fp_f = word_of_nat W, fp_e = q\<rparr> \<lparr>fp_f = word_of_nat P, fp_e = q\<rparr> =
      Some (ds, - k + pos - int (length ds))"
    using ds(1) [unfolded fm_def fw_def fp_def w] c(1) unfolding grisu2_scaled_def rec(1)
    by (simp add: Let_def fe flip: mm_def ww_def pp_def)
  then have run: "grisu2 x = Some (ds, - k + pos - int (length ds))"
    using assms cb unfolding grisu2_def positive_def W_def M_def P_def q_def by simp
  define V where "V = real_of_int (digits_value ds) * 10 powi (pos - int (length ds)) * 2 ^ nat (- e)"
  have near: "ds \<noteq> []" "\<forall>c\<in>set ds. is_digit c" "hd ds \<noteq> 48" "V \<le> real (unat fp)" "real (unat fp) \<le> V + real (unat fp - unat fm)"
    using ds(2) by (simp_all add: digits_near_def Let_def V_def)
  have "real (unat fp - unat fm) = real (unat fp) - real (unat fm)" using ord(4) by (simp add: of_nat_diff)
  then have V: "real M * g < V" "V < real P * g" using near(4,5) sb(1,5) unfolding fm [symmetric] fp [symmetric] by simp_all
  define s where "s = (2 :: real) powi e * 10 powi (- k)"
  have s: "0 < s" by (simp add: s_def)
  have gs: "g * s = 2 powi q"
  proof -
    have "(2 :: real) powi e = 2 powi ec * 2 powi q * 2 ^ 64" unfolding e_def by (simp add: power_int_add)
    then show ?thesis by (simp add: g_def s_def \<gamma>_def power_int_minus)
  qed
  have "(2 :: real) powi e * 2 ^ nat (- e) = 1"
    using e power_int_add [of "2 :: real" e "int (nat (- e))"] by (simp add: power_int_of_nat [symmetric] del: power_int_of_nat)
  then have Vs: "real_of_int (digits_value ds) * 10 powi (- k + pos - int (length ds)) = V * s"
    using power_int_add [of "10 :: real" "pos - int (length ds)" "- k"] by (simp add: V_def s_def algebra_simps)
  have "real M * g * s < V * s" "V * s < real P * g * s" using V s by simp_all
  then have "lower_bound x < V * s" "V * s < upper_bound x"
    unfolding bounds_in_units [OF assms t2] n_def [symmetric] P_def [symmetric] M_def [symmetric] q_def [symmetric] gs [symmetric]
    by (simp_all only: mult.assoc)
  moreover have "1 \<le> length ds" using near(1) by (simp add: Suc_le_eq)
  ultimately show ?thesis using run near(1-3) len c(5,6) ds(4,5) unfolding Vs [symmetric] by (intro exI) auto
qed

section \<open>The text\<close>

text \<open>The value of a decimal text with integer digits \<open>ip\<close>, fraction \<open>fr\<close> and exponent \<open>ex\<close>.\<close>

definition exp_value :: "bytes \<Rightarrow> int" where
  "exp_value ex =
     (case drop 1 ex of
        [] \<Rightarrow> 0
      | s # ds \<Rightarrow> if s = 45 then - digits_value ds else if s = 43 then digits_value ds else digits_value (s # ds))"

definition decimal_value :: "bytes \<Rightarrow> bytes \<Rightarrow> bytes \<Rightarrow> real" where
  "decimal_value ip fr ex = real_of_int (digits_value (ip @ drop 1 fr)) * 10 powi (exp_value ex - int (length (drop 1 fr)))"

lemma digits_value_append: "digits_value (a @ b) = digits_value a * 10 ^ length b + digits_value b"
proof (induction b rule: rev_induct)
  case (snoc c b)
  have "digits_value (a @ b @ [c]) = 10 * digits_value (a @ b) + (uint c - 48)" using digits_value_snoc [of "a @ b" c] by simp
  then show ?case using snoc digits_value_snoc [of b c] by (simp add: algebra_simps)
qed (simp add: digits_value_def)

lemma digits_value_zeros: "digits_value (replicate m 48) = 0"
  by (induction m) (simp_all add: digits_value_def replicate_append_same [symmetric] del: replicate.simps(2), simp add: digits_value_def)

lemma digit_ok: "k < 10 \<Longrightarrow> uint (digit k) = 48 + int k \<and> is_digit (digit k)"
proof -
  assume k: "k < 10"
  then have "unat (digit k) = 48 + k" by (simp add: digit_def unat_word_ariths unat_of_nat)
  then show ?thesis using k uint_nat [of "digit k"] digit_is_digit [of "digit k" k] by simp
qed

lemma append_exponent_ok:
  assumes "- 1000 < e" and "e < 1000"
  shows "\<exists>s ds. append_exponent e = Some (s # ds) \<and> s \<in> {43, 45} \<and> ds \<noteq> [] \<and> digits ds \<and> exp_value (101 # s # ds) = e"
proof -
  define k where "k = nat \<bar>e\<bar>"
  define ds where "ds = (if k < 10 then [48, digit k] else if k < 100 then [digit (k div 10), digit (k mod 10)]
    else [digit (k div 100), digit (k mod 100 div 10), digit (k mod 100 mod 10)])"
  have k: "k < 1000" using assms by (simp add: k_def)
  have z: "digit 0 = 48" by (simp add: digit_def)
  have b: "k div 100 < 10" "k mod 100 div 10 < 10" "k mod 100 mod 10 < 10" "k mod 10 < 10" using k by (auto simp: div_less_iff_less_mult)
  have "digits ds \<and> digits_value ds = int k"
  proof -
    consider "k < 10" | "10 \<le> k" "k < 100" | "100 \<le> k" by linarith
    then show ?thesis
    proof cases
      case 1
      then show ?thesis using digit_ok [of k] digit_ok [of 0] z by (simp add: ds_def digits_def digits_value_def)
    next
      case 2
      have "k = 10 * (k div 10) + k mod 10" by simp
      then have "int k = 10 * int (k div 10) + int (k mod 10)" by linarith
      then show ?thesis using 2 digit_ok [of "k div 10"] digit_ok [OF b(4)] by (simp add: ds_def digits_def digits_value_def div_less_iff_less_mult)
    next
      case 3
      have "k = 100 * (k div 100) + 10 * (k mod 100 div 10) + k mod 100 mod 10" by presburger
      then have "int k = 100 * int (k div 100) + 10 * int (k mod 100 div 10) + int (k mod 100 mod 10)" by linarith
      then show ?thesis using 3 digit_ok [OF b(1)] digit_ok [OF b(2)] digit_ok [OF b(3)] by (simp add: ds_def digits_def digits_value_def)
    qed
  qed
  moreover have "append_exponent e = Some ((if e < 0 then 45 else 43) # ds)"
    using assms by (simp add: append_exponent_def Let_def ds_def k_def)
  ultimately show ?thesis using k by (cases "e < 0") (auto simp: exp_value_def ds_def k_def)
qed

lemma int_text_lead: "ds \<noteq> [] \<Longrightarrow> \<forall>c\<in>set ds. is_digit c \<Longrightarrow> hd ds \<noteq> 48 \<Longrightarrow> int_text ds"
proof (cases ds)
  case (Cons c cs)
  assume "\<forall>c\<in>set ds. is_digit c" "hd ds \<noteq> 48"
  then have "is_digit19 c" "digits cs" using Cons by (auto simp: is_digit19_def is_digit_def digits_def word_nat_simps)
  then show ?thesis using Cons by (simp add: int_text_def)
qed simp

lemma format_buffer_ok:
  assumes "ds \<noteq> []" and "\<forall>c\<in>set ds. is_digit c" and "hd ds \<noteq> 48" and "- 400 < dexp" and "dexp < 400" and "length ds \<le> 17"
  shows "\<exists>ip fr ex. format_buffer ds dexp (- 4) 15 = Some (ip @ fr @ ex) \<and> int_text ip \<and> frac_text fr \<and> exp_text ex \<and> fr @ ex \<noteq> [] \<and>
    decimal_value ip fr ex = real_of_int (digits_value ds) * 10 powi dexp"
proof -
  define k n where "k = length ds" and "n = int k + dexp"
  have k1: "1 \<le> k" using assms(1) by (simp add: k_def Suc_le_eq)
  have zero: "is_digit 48" by (simp add: is_digit_def)
  have dv: "decimal_value ip fr ex = real_of_int (digits_value ds) * 10 powi dexp"
    if "digits_value (ip @ drop 1 fr) = digits_value ds" "exp_value ex - int (length (drop 1 fr)) = dexp" for ip fr ex
    using that by (simp add: decimal_value_def)
  have e0: "exp_value [] = 0" "exp_text []" by (simp_all add: exp_value_def exp_text_def)
  have mem: "\<forall>c\<in>set (take m ds). is_digit c" "\<forall>c\<in>set (drop m ds). is_digit c" for m
    using assms(2) by (meson in_set_takeD in_set_dropD)+
  consider "int k \<le> n" "n \<le> 15" | "0 < n" "n \<le> 15" "n < int k" | "- 4 < n" "n \<le> 0" | "15 < n \<or> n \<le> - 4" by linarith
  then show ?thesis
  proof cases
    case 1
    have f: "format_buffer ds dexp (- 4) 15 = Some ((ds @ replicate (nat (n - int k)) 48) @ [46, 48] @ [])"
      using 1 by (simp add: format_buffer_def Let_def n_def k_def)
    have "n - int k = dexp" by (simp add: n_def)
    then obtain m where m: "dexp = int m" "nat (n - int k) = m" using 1(1) by (metis diff_ge_0_iff_ge nat_0_le)
    have v: "digits_value ((ds @ replicate m 48) @ drop 1 [46, 48]) = digits_value ds * 10 ^ Suc m"
      by (simp add: digits_value_append digits_value_zeros) (simp add: digits_value_def)
    have "(10 :: real) powi (0 - int 1) * 10 ^ Suc m = 10 powi dexp" by (simp add: m(1) power_int_minus)
    then have "decimal_value (ds @ replicate m 48) [46, 48] [] = real_of_int (digits_value ds) * 10 powi dexp"
      unfolding decimal_value_def v e0 by simp
    moreover have "int_text (ds @ replicate m 48)" by (rule int_text_lead) (use assms(1-3) zero in auto)
    moreover have "frac_text [46, 48]" using zero by (simp add: frac_text_def digits_def)
    ultimately show ?thesis using f e0(2) unfolding m(2) by blast
  next
    case 2
    have f: "format_buffer ds dexp (- 4) 15 = Some (take (nat n) ds @ (46 # drop (nat n) ds) @ [])"
      using 2 by (simp add: format_buffer_def Let_def n_def k_def)
    have "int_text (take (nat n) ds)" by (rule int_text_lead) (use assms(1,3) 2(1) mem in \<open>auto simp: hd_take\<close>)
    moreover have "frac_text (46 # drop (nat n) ds)" using 2 mem(2) by (auto simp: frac_text_def digits_def k_def)
    moreover have "decimal_value (take (nat n) ds) (46 # drop (nat n) ds) [] = real_of_int (digits_value ds) * 10 powi dexp"
      by (rule dv) (use 2 in \<open>simp_all add: e0 n_def k_def\<close>)
    ultimately show ?thesis using f e0(2) by blast
  next
    case 3
    have f: "format_buffer ds dexp (- 4) 15 = Some ([48] @ (46 # replicate (nat (- n)) 48 @ ds) @ [])"
      using 3 k1 unfolding format_buffer_def Let_def k_def [symmetric] n_def [symmetric] by simp
    have "int_text [48]" by (simp add: int_text_def)
    moreover have "frac_text (46 # replicate (nat (- n)) 48 @ ds)" using assms(1,2) zero by (auto simp: frac_text_def digits_def)
    moreover have "digits_value (replicate (Suc (nat (- n))) 48 @ ds) = digits_value ds"
      unfolding digits_value_append digits_value_zeros by simp
    then have "decimal_value [48] (46 # replicate (nat (- n)) 48 @ ds) [] = real_of_int (digits_value ds) * 10 powi dexp"
      by (intro dv) (use 3 in \<open>simp_all add: e0 n_def k_def\<close>)
    ultimately show ?thesis using f e0(2) by blast
  next
    case 4
    obtain s es where x: "append_exponent (n - 1) = Some (s # es)" "s \<in> {43, 45}" "es \<noteq> []" "digits es" "exp_value (101 # s # es) = n - 1"
      using append_exponent_ok [of "n - 1"] assms(4-6) by (auto simp: n_def k_def)
    define fr where "fr = (if k = 1 then [] else 46 # drop 1 ds)"
    have t: "take 1 ds @ drop 1 fr = ds" using k1 by (cases "k = 1") (simp_all add: fr_def k_def)
    have out: "\<not> (int k \<le> n \<and> n \<le> 15)" "\<not> (0 < n \<and> n \<le> 15)" "\<not> (- 4 < n \<and> n \<le> 0)" using 4 by linarith+
    have f: "format_buffer ds dexp (- 4) 15 = Some (take 1 ds @ fr @ (101 # s # es))"
      unfolding format_buffer_def Let_def k_def [symmetric] n_def [symmetric] x(1)
      by (simp only: out if_False) (simp add: fr_def k_def)
    have "int_text (take 1 ds)" by (rule int_text_lead) (use assms(1,3) mem in \<open>auto simp: hd_take\<close>)
    moreover have "frac_text fr"
    proof (cases "k = 1")
      case False
      then have "drop 1 ds \<noteq> []" using k1 by (simp add: k_def)
      then show ?thesis using False mem(2) [of 1] by (simp add: fr_def frac_text_def digits_def)
    qed (simp add: fr_def frac_text_def)
    moreover have "exp_text (101 # s # es)" using x(2-4) unfolding exp_text_def by (intro disjI2 exI [of _ 101] exI [of _ "[s]"] exI [of _ es]) auto
    moreover have "decimal_value (take 1 ds) fr (101 # s # es) = real_of_int (digits_value ds) * 10 powi dexp"
      by (rule dv) (use t x(5) k1 in \<open>auto simp: fr_def n_def k_def\<close>)
    ultimately show ?thesis using f by blast
  qed
qed

section \<open>What is printed is read back\<close>

text \<open>
  \<^verbatim>\<open>strtod\<close> rounds to the nearest \<^verbatim>\<open>double\<close>, as IEEE 754 demands: a decimal text with the sign of \<open>x\<close> whose value lies
  strictly inside the boundaries of \<open>x\<close> is read as \<open>x\<close>, and one whose value is 0 as the zero of its sign.
\<close>

definition magnitude :: "int64 \<Rightarrow> int64" where
  "magnitude x = x AND 0x7FFFFFFFFFFFFFFF"

definition strtod_rounds :: "(bytes \<Rightarrow> int64) \<Rightarrow> int64 \<Rightarrow> bool" where
  "strtod_rounds strtod x \<longleftrightarrow>
     (\<forall>ip fr ex. int_text ip \<longrightarrow> frac_text fr \<longrightarrow> exp_text ex \<longrightarrow>
        (if magnitude x = 0 then decimal_value ip fr ex = 0
         else lower_bound (magnitude x) < decimal_value ip fr ex \<and> decimal_value ip fr ex < upper_bound (magnitude x)) \<longrightarrow>
        strtod ((if drop_bit 63 x \<noteq> 0 then [45] else []) @ ip @ fr @ ex) = x)"

lemma magnitude_positive:
  assumes "is_finite x" and "magnitude x \<noteq> 0"
  shows "positive (magnitude x)"
proof -
  have m: "magnitude x = take_bit 63 x" by (simp add: magnitude_def take_bit_eq_mask mask_eq_exp_minus_1)
  have f: "is_finite y \<longleftrightarrow> take_bit 11 (drop_bit 52 y) \<noteq> 0x7FF" for y :: int64
    by (simp add: is_finite_def take_bit_eq_mask mask_eq_exp_minus_1)
  have "drop_bit 52 (take_bit 63 x) = take_bit 11 (drop_bit 52 x)" "drop_bit 63 (take_bit 63 x) = 0"
    by (simp_all add: drop_bit_take_bit)
  then show ?thesis using assms unfolding positive_def f m by simp
qed

lemma to_chars_text:
  assumes "is_finite x"
  shows "\<exists>ip fr ex. to_chars x = Some ((if drop_bit 63 x \<noteq> 0 then [45] else []) @ ip @ fr @ ex) \<and> int_text ip \<and> frac_text fr \<and> exp_text ex \<and>
    fr @ ex \<noteq> [] \<and> (if magnitude x = 0 then decimal_value ip fr ex = 0
      else lower_bound (magnitude x) < decimal_value ip fr ex \<and> decimal_value ip fr ex < upper_bound (magnitude x))"
proof (cases "magnitude x = 0")
  case True
  have "to_chars x = Some ((if drop_bit 63 x \<noteq> 0 then [45] else []) @ [48] @ [46, 48] @ [])"
    using assms True by (simp add: to_chars_def magnitude_def Let_def)
  moreover have "int_text [48]" "frac_text [46, 48]" "exp_text []" "decimal_value [48] [46, 48] [] = 0"
    by (simp_all add: int_text_def frac_text_def exp_text_def digits_def is_digit_def decimal_value_def digits_value_def)
  ultimately show ?thesis using True by (intro exI [of _ "[48]"] exI [of _ "[46, 48]"] exI [of _ "[]"]) simp
next
  case False
  obtain ds dexp where g: "grisu2 (magnitude x) = Some (ds, dexp)" "ds \<noteq> []" "\<forall>c\<in>set ds. is_digit c" "hd ds \<noteq> 48" "length ds \<le> 17"
    "lower_bound (magnitude x) < real_of_int (digits_value ds) * 10 powi dexp"
    "real_of_int (digits_value ds) * 10 powi dexp < upper_bound (magnitude x)" "- 400 < dexp" "dexp < 400"
    using grisu2_digits [OF magnitude_positive [OF assms False]] by blast
  obtain ip fr ex where f: "format_buffer ds dexp (- 4) 15 = Some (ip @ fr @ ex)" "int_text ip" "frac_text fr" "exp_text ex" "fr @ ex \<noteq> []"
    "decimal_value ip fr ex = real_of_int (digits_value ds) * 10 powi dexp"
    using format_buffer_ok [OF g(2-4,8,9,5)] by blast
  have "to_chars x = Some ((if drop_bit 63 x \<noteq> 0 then [45] else []) @ ip @ fr @ ex)"
    using assms False g(1,5) f(1) by (simp add: to_chars_def Let_def flip: magnitude_def)
  then show ?thesis using False f(2-5) g(6,7) unfolding f(6) [symmetric] by (intro exI [of _ ip] exI [of _ fr] exI [of _ ex]) simp
qed

text \<open>Printing a \<^verbatim>\<open>double\<close> never fails, whatever \<^verbatim>\<open>strtod\<close> does.\<close>

lemma dump_float_total: "dump_float x \<noteq> None"
  using to_chars_text [of x] by (cases "is_finite x") (auto simp: dump_float_def)

lemma dump_float_printed:
  assumes "is_finite x \<Longrightarrow> strtod_rounds strtod x"
  shows "float_printed strtod dump_float x"
proof (cases "is_finite x")
  case True
  let ?neg = "drop_bit 63 x \<noteq> 0"
  obtain ip fr ex where t: "to_chars x = Some ((if ?neg then [45] else []) @ ip @ fr @ ex)" "int_text ip" "frac_text fr" "exp_text ex"
    "fr @ ex \<noteq> []" "if magnitude x = 0 then decimal_value ip fr ex = 0
      else lower_bound (magnitude x) < decimal_value ip fr ex \<and> decimal_value ip fr ex < upper_bound (magnitude x)"
    using to_chars_text [OF True] by blast
  have "strtod ((if ?neg then [45] else []) @ ip @ fr @ ex) = x"
    using assms [OF True] t(2-4,6) unfolding strtod_rounds_def by blast
  then have "number_value strtod ?neg ip (fr @ ex) = JFloat x" using t(5) by (auto simp: number_value_def Let_def)
  then have "number_text strtod ((if ?neg then [45] else []) @ ip @ fr @ ex) (JFloat x)"
    unfolding number_text_def using t(2-4) by metis
  then show ?thesis using True t(1) by (simp add: float_printed_def dump_float_def)
qed (simp add: float_printed_def dump_float_def)

section \<open>Properties\<close>

text \<open>
  C33: Grisu2 is correct.  For every positive finite \<^verbatim>\<open>double\<close> the algorithm returns: no assertion fails and no loop runs
  for ever.  It yields between 1 and 17 digits, and the decimal number they stand for lies strictly between the
  midpoints to the neighbouring numbers, so that it rounds to the \<^verbatim>\<open>double\<close> it was printed for and to no other.
\<close>

theorem grisu2_correct:
  assumes "is_finite x" and "x \<noteq> 0" and "drop_bit 63 x = 0"
  shows "\<exists>ds dexp. grisu2 x = Some (ds, dexp) \<and> 1 \<le> length ds \<and> length ds \<le> 17 \<and> (\<forall>c\<in>set ds. is_digit c) \<and>
    lower_bound x < real_of_int (digits_value ds) * 10 powi dexp \<and> real_of_int (digits_value ds) * 10 powi dexp < upper_bound x"
proof -
  have "positive x" using assms by (simp add: positive_def)
  then obtain ds dexp where "grisu2 x = Some (ds, dexp)" "ds \<noteq> []" "\<forall>c\<in>set ds. is_digit c" "length ds \<le> 17"
    "lower_bound x < real_of_int (digits_value ds) * 10 powi dexp" "real_of_int (digits_value ds) * 10 powi dexp < upper_bound x"
    using grisu2_digits by metis
  then show ?thesis by (intro exI [of _ ds] exI [of _ dexp]) (simp add: Suc_le_eq)
qed

theorem grisu2_correct_witness:
  "\<exists>ds dexp. grisu2 0x3FB999999999999A = Some (ds, dexp) \<and> 1 \<le> length ds \<and> length ds \<le> 17 \<and> (\<forall>c\<in>set ds. is_digit c) \<and>
    lower_bound 0x3FB999999999999A < real_of_int (digits_value ds) * 10 powi dexp \<and>
    real_of_int (digits_value ds) * 10 powi dexp < upper_bound 0x3FB999999999999A"
proof (rule grisu2_correct)
  show "is_finite 0x3FB999999999999A" and "0x3FB999999999999A \<noteq> (0 :: int64)" and "drop_bit 63 (0x3FB999999999999A :: int64) = 0"
    by code_simp+
qed

text \<open>
  C21: what \<^verbatim>\<open>dump\<close> prints, \<^verbatim>\<open>parse\<close> reads.  Take a value with sorted members and UTF-8 strings, and a \<^verbatim>\<open>strtod\<close> that
  rounds correctly around the floating-point numbers in it, if any.  Then \<^verbatim>\<open>dump()\<close> returns, and any text printed,
  compact or indented by any amount, with or without escapes for what is not ASCII, is parsed as the same value (a
  non-negative integer in the unsigned kind, and \<^verbatim>\<open>null\<close> in the place of an infinity or a NaN).
\<close>

theorem dump_then_parse:
  assumes "json_ok j" and "json_utf8 j" and "\<forall>x\<in>floats j. is_finite x \<longrightarrow> strtod_rounds strtod x"
  shows "(\<exists>tx. basic_json_dump dump_float (- 1) 32 ea Strict j = Inr tx) \<and>
    (\<forall>indent ea' tx. basic_json_dump dump_float indent 32 ea' Strict j = Inr tx \<longrightarrow> basic_json_parse strtod tx False = Inr (read_back j))"
proof -
  have f: "\<forall>x\<in>floats j. float_printed strtod dump_float x" using assms(3) dump_float_printed by blast
  have "\<exists>tx. basic_json_dump dump_float (- 1) 32 ea Strict j = Inr tx"
    using dump_accepts [of "- 1" j dump_float] dump_float_total assms(2) by (simp add: word_sless_alt)
  then show ?thesis using dump_parse_roundtrip [OF _ _ assms(1) f] by (simp add: is_ws_def)
qed

theorem dump_then_parse_witness:
  "\<exists>tx. basic_json_dump dump_float (- 1) 32 True Strict (JObject [([97], JArray [JFloat 0x3FB999999999999A, JInt (- 7), JString [120]])]) = Inr tx \<and>
     basic_json_parse (\<lambda>_. 0x3FB999999999999A) tx False = Inr (JObject [([97], JArray [JFloat 0x3FB999999999999A, JInt (- 7), JString [120]])])"
proof -
  let ?st = "\<lambda>_. 0x3FB999999999999A" and ?j = "JObject [([97], JArray [JFloat 0x3FB999999999999A, JInt (- 7), JString [120]])]"
  have "valid_utf8 [97]" "valid_utf8 [120]" by code_simp+
  then have "json_ok ?j" "json_utf8 ?j" by (simp_all add: map_ok_def)
  moreover have "\<forall>x\<in>floats ?j. is_finite x \<longrightarrow> strtod_rounds ?st x" by (simp add: strtod_rounds_def)
  ultimately have "(\<exists>tx. basic_json_dump dump_float (- 1) 32 True Strict ?j = Inr tx) \<and>
      (\<forall>indent ea' tx. basic_json_dump dump_float indent 32 ea' Strict ?j = Inr tx \<longrightarrow> basic_json_parse ?st tx False = Inr (read_back ?j))"
    by (rule dump_then_parse)
  moreover have "read_back ?j = ?j" by code_simp
  ultimately show ?thesis by metis
qed

end
