(* ===== verification/Chat_Json.thy ===== *)
theory Chat_Json
  imports Json_Grisu Chat_Sessions
begin

text \<open>
  The chat server on the JSON library of the repository: what a login request is as a text, what the clients can read in
  the replies with the users and with the message history, and what one message that is not JSON does to the history.
  The only parameter left is \<^verbatim>\<open>strtod\<close> of the C library.
\<close>

section \<open>The library as the server calls it\<close>

text \<open>\<^verbatim>\<open>json::parse(data)\<close> and \<^verbatim>\<open>j.dump()\<close> with their default arguments; \<open>None\<close> is a thrown exception.\<close>

definition server_json :: "(bytes \<Rightarrow> int64) \<Rightarrow> json_api" where
  "server_json strtod =
     \<lparr>json_parse = (\<lambda>d. case basic_json_parse strtod d False of Inl _ \<Rightarrow> None | Inr j \<Rightarrow> Some j),
      json_dump = (\<lambda>j. case basic_json_dump dump_float (- 1) 32 False Strict j of Inl _ \<Rightarrow> None | Inr tx \<Rightarrow> Some tx)\<rparr>"

lemma server_parse: "json_parse (server_json strtod) d = Some j \<longleftrightarrow> json_document strtod j d"
  using parse_complete [of strtod j d] parse_result [of strtod d] by (auto simp: server_json_def split: sum.splits)

lemma server_parse_None: "json_parse (server_json strtod) d = None \<longleftrightarrow> (\<forall>j. \<not> json_document strtod j d)"
  using server_parse [of strtod d] by (metis option.exhaust option.distinct(1))

lemma server_dump_document:
  assumes "json_dump (server_json strtod) j = Some tx" and "json_ok j" and "\<forall>x\<in>floats j. strtod_rounds strtod x"
  shows "json_text strtod (read_back j) tx"
  using assms dump_value_text [of dump_float "- 1" 32 False j tx strtod] dump_float_printed [of _ strtod]
  by (auto simp: server_json_def is_ws_def split: sum.splits)

lemma server_dump_accepts: "json_dump (server_json strtod) j \<noteq> None \<longleftrightarrow> json_utf8 j"
  using dump_accepts [of "- 1" j dump_float 32 False] dump_float_total
  by (auto simp: server_json_def word_sless_alt split: sum.splits)

section \<open>The texts of the replies\<close>

lemma plain_body: "list_all (\<lambda>c. 0x20 \<le> c \<and> c < 0x80 \<and> c \<noteq> 34 \<and> c \<noteq> 92) s \<Longrightarrow> string_body s s"
proof (induction s)
  case (Cons c s)
  have u: "unat (ucast c :: int32) = unat c" using unat_bound [of c] by (simp add: unsigned_ucast_eq take_bit_nat_eq_self)
  have c: "unat c < 128" "32 \<le> unat c" "unat c \<noteq> 34" "unat c \<noteq> 92" using Cons.prems by (auto simp: word_nat_simps)
  have "(ucast c :: int32) \<noteq> 0x22" "(ucast c :: int32) \<noteq> 0x5C" using c u by (auto simp: word_nat_simps)
  moreover have "(ucast (ucast c :: int32) :: byte) = c" by (rule bit_word_eqI) (simp add: bit_simps)
  then have "scalar_value (ucast c)" "0x20 \<le> (ucast c :: int32)" "codepoint_bytes (ucast c) = [c]"
    using c u by (auto simp: scalar_value_unat codepoint_bytes_def word_nat_simps)
  ultimately have "string_chunk [c] [c]" using chunk_plain [of "ucast c"] by simp
  from body_chunk [OF this, of s s] show ?case using Cons by simp
qed (rule body_nil)

lemma text_zero: "json_text strtod (JUnsigned 0) [48]"
proof -
  have "print_int (uint (0 :: int64)) = [48]" by (simp add: print_int_def nat_digits.simps)
  then show ?thesis using number_unsigned [of strtod 0] by (auto intro!: text_scalar scalar_number)
qed

lemma padded_space: "padded t t" "padded t (32 # t)"
  using padded_both [of "[]" "[]" t] padded_both [of "[32]" "[]" t] by (simp_all add: is_ws_def)

text \<open>The members \<^verbatim>\<open>"code": 0, "msg": "ok"\<close> and one more.\<close>

definition ok_members :: "bytes \<Rightarrow> json \<Rightarrow> (bytes \<times> json) list" where
  "ok_members k v = [(lit ''code'', JUnsigned 0), (lit ''msg'', JString (lit ''ok'')), (k, v)]"

lemma ok_members_text:
  assumes "string_body k k" and "padded t p" and "json_text strtod v t"
  shows "members_text strtod (ok_members k v)
    (lit ''\"code\": 0, \"msg\": \"ok\", '' @ quoted k @ 58 # p)"
proof -
  have ok: "json_text strtod (JString (lit ''ok'')) (quoted (lit ''ok''))"
    by (intro text_scalar scalar_string plain_body) (simp_all add: lit_def)
  have c: "string_body (lit ''code'') (lit ''code'')" "string_body (lit ''msg'') (lit ''msg'')"
    by (intro plain_body, simp add: lit_def)+
  have kp: "padded (quoted k) (32 # quoted k)" by (rule padded_space)
  show ?thesis
    using member_more [OF c(1) padded_space(1) text_zero padded_space(2) member_more [OF c(2) padded_space(2) ok padded_space(2)
      member_last [OF assms(1) kp assms(3,2)]]]
    unfolding ok_members_def by (simp add: quoted_def lit_def)
qed

lemma reply_document:
  assumes "json_text strtod v t" and "padded t p" and "string_body k k"
  shows "json_document strtod (object_of (ok_members k v))
    (lit ''{\"code\": 0, \"msg\": \"ok\", '' @ quoted k @ 58 # p @ lit ''}'')"
  using document_text [OF text_object [OF ok_members_text [OF assms(3,2,1)]]] by (simp add: lit_def)

lemma ok_objects:
  "object_of (ok_members (lit ''msgs'') v) = JObject (ok_members (lit ''msgs'') v)"
  "object_of (ok_members (lit ''userlistinfo'') v) = JObject (ok_members (lit ''userlistinfo'') v)"
  "object_of (ok_members (lit ''msg'') v) = JObject [(lit ''code'', JUnsigned 0), (lit ''msg'', v)]"
  by (simp_all add: object_of_def ok_members_def map_set_def lit_def)

text \<open>The text of a broadcast: the name \<^verbatim>\<open>msg\<close> comes twice, and the second one counts.\<close>

lemma chat_text_document:
  assumes "json_text strtod v t" and "padded t data"
  shows "json_document strtod (JObject [(lit ''code'', JUnsigned 0), (lit ''msg'', v)]) (chat_text data)"
proof -
  have "string_body (lit ''msg'') (lit ''msg'')" by (rule plain_body) (simp add: lit_def)
  moreover obtain ws ws' where "list_all is_ws ws" "list_all is_ws ws'" "data = ws @ t @ ws'" using assms(2) by (auto simp: padded_def)
  then have "padded t (32 # data)" using padded_both [of "32 # ws" ws' t] by (simp add: is_ws_def)
  ultimately show ?thesis
    using reply_document [OF assms(1), where p = "32 # data" and k = "lit ''msg''"] unfolding ok_objects by (simp add: chat_text_def quoted_def lit_def)
qed

section \<open>Values without floating-point numbers\<close>

lemma read_back_array: "read_back (json_array js) = json_array (map read_back js)"
  by (simp add: json_array_def)

lemma array_simps:
  "json_utf8 (json_array js) = list_all json_utf8 js" "json_ok (json_array js) = list_all json_ok js"
  "floats (json_array js) = \<Union> (floats ` set js)"
  by (auto simp: json_array_def)

lemma user_simps:
  "json_utf8 (json_of_user u) = valid_utf8 (username u)" "json_ok (json_of_user u)" "floats (json_of_user u) = {}"
proof -
  have "valid_utf8 (lit ''userid'')" "valid_utf8 (lit ''username'')" by (rule body_valid, rule plain_body, simp add: lit_def)+
  then show "json_utf8 (json_of_user u) = valid_utf8 (username u)" by (simp add: json_of_user_def)
qed (simp_all add: json_of_user_def map_ok_def lit_def)

lemma msg_simps:
  "json_utf8 (json_of_msg m) = (valid_utf8 (senderusername m) \<and> valid_utf8 (msgcontent m) \<and> valid_utf8 (sendtime_str m))"
  "json_ok (json_of_msg m)" "floats (json_of_msg m) = {}"
proof -
  have "valid_utf8 (lit ''msgcontent'')" "valid_utf8 (lit ''msgid'')" "valid_utf8 (lit ''senderid'')"
    "valid_utf8 (lit ''senderusername'')" "valid_utf8 (lit ''sendtime_str'')" by (rule body_valid, rule plain_body, simp add: lit_def)+
  then show "json_utf8 (json_of_msg m) = (valid_utf8 (senderusername m) \<and> valid_utf8 (msgcontent m) \<and> valid_utf8 (sendtime_str m))"
    by (auto simp: json_of_msg_def)
qed (simp_all add: json_of_msg_def map_ok_def lit_def)

section \<open>The history\<close>

lemma parse_all_documents:
  "parse_all (server_json strtod) ms = Some js \<longleftrightarrow> list_all2 (json_document strtod) js ms"
proof (induction ms arbitrary: js)
  case (Cons m ms)
  show ?case
  proof (cases "json_parse (server_json strtod) m")
    case None
    then show ?thesis using server_parse_None [of strtod m] by (auto simp: list_all2_Cons2)
  next
    case (Some j)
    then have d: "json_document strtod j' m \<longleftrightarrow> j' = j" for j' using server_parse [of strtod m j'] by auto
    show ?thesis
    proof (cases "parse_all (server_json strtod) ms")
      case None
      then show ?thesis using Some Cons by (auto simp: list_all2_Cons2)
    next
      case (Some js')
      then have "list_all2 (json_document strtod) zs ms \<longleftrightarrow> zs = js'" for zs using Cons [of zs] by auto
      then show ?thesis using Some \<open>json_parse (server_json strtod) m = Some j\<close> by (auto simp: list_all2_Cons2 d)
    qed
  qed
qed (auto simp: list_all2_Nil2)

lemma parse_all_refuses:
  assumes "m \<in> set ms" and "\<forall>j. \<not> json_document strtod j m"
  shows "parse_all (server_json strtod) ms = None"
proof (rule ccontr)
  assume "\<not> ?thesis"
  then obtain js where "list_all2 (json_document strtod) js ms" using parse_all_documents by fastforce
  then show False using assms by (auto simp: list_all2_conv_all_nth in_set_conv_nth)
qed

lemma document_ok: "json_document strtod j d \<Longrightarrow> json_utf8 j \<and> json_ok j"
  using text_wf(1) json_wf_utf8 by (auto simp: json_document_def)

lemma documents_ok:
  assumes "list_all2 (json_document strtod) js ms"
  shows "list_all json_utf8 js" and "list_all json_ok js"
  using assms document_ok by (fastforce simp: list_all2_conv_all_nth list_all_length)+

lemma history_reply:
  assumes "env_json env = server_json strtod" and "redis_lists (env_redis env) view (m_strRedisUrl (msg_cache st))"
    and "list_all2 (json_document strtod) js (view (redis_world st) msgs_key)"
    and "\<forall>j\<in>set js. \<forall>x\<in>floats j. strtod_rounds strtod x"
  shows "\<exists>tx. onGetMsgsResponse env s st = TcpSession_send env (tmpConn s) msg_type_getMsgs (m_seq s) tx st \<and>
    json_document strtod (JObject (ok_members (lit ''msgs'') (json_array (map read_back js)))) tx"
proof -
  have f: "\<forall>x\<in>floats (json_array js). strtod_rounds strtod x" using assms(4) by (auto simp: array_simps)
  obtain t where t: "json_dump (server_json strtod) (json_array js) = Some t"
    using server_dump_accepts [of strtod "json_array js"] documents_ok(1) [OF assms(3)] by (auto simp: array_simps)
  let ?tx = "lit ''{\"code\": 0, \"msg\": \"ok\", \"msgs\":'' @ t @ lit ''}''"
  have tt: "json_text strtod (json_array (map read_back js)) t"
    using server_dump_document [OF t _ f] documents_ok(2) [OF assms(3)] by (simp add: array_simps read_back_array)
  have "string_body (lit ''msgs'') (lit ''msgs'')" by (rule plain_body) (simp add: lit_def)
  from reply_document [OF tt padded_space(1) this, unfolded ok_objects]
  have "json_document strtod (JObject (ok_members (lit ''msgs'') (json_array (map read_back js)))) ?tx"
    by (simp add: quoted_def lit_def)
  moreover have "onGetMsgsResponse env s st = TcpSession_send env (tmpConn s) msg_type_getMsgs (m_seq s) ?tx st"
    using assms(1,3) t by (simp add: onGetMsgsResponse_def loadMsgs_view [OF assms(2)] parse_all_documents [THEN iffD2])
  ultimately show ?thesis by blast
qed

lemma history_refused:
  assumes "env_json env = server_json strtod" and "redis_lists (env_redis env) view (m_strRedisUrl (msg_cache st))"
    and "m \<in> set (view (redis_world st) msgs_key)" and "\<forall>j. \<not> json_document strtod j m"
  shows "onGetMsgsResponse env s st = Inl Bad_json"
  using parse_all_refuses [OF assms(3,4)] assms(1) by (simp add: onGetMsgsResponse_def loadMsgs_view [OF assms(2)])

text \<open>What is in the log stays in it, whatever the clients do.\<close>

lemma handlers_keep_log:
  assumes "redis_lists (env_redis env) view (m_strRedisUrl (msg_cache st))"
  shows "onLoginResponse env p s data st = Inr st1 \<Longrightarrow> redis_world st1 = redis_world st \<and> msg_cache st1 = msg_cache st"
    and "onGetUserListResponse env s st = Inr st1 \<Longrightarrow> redis_world st1 = redis_world st \<and> msg_cache st1 = msg_cache st"
    and "onGetMsgsResponse env s st = Inr st1 \<Longrightarrow> redis_world st1 = redis_world st \<and> msg_cache st1 = msg_cache st"
    and "onChatResponse env s data st = Inr st1 \<Longrightarrow> msg_cache st1 = msg_cache st \<and>
       view (redis_world st1) msgs_key = view (redis_world st) msgs_key @ [data]"
proof -
  have k: "kick_user env u n st = Inr st1 \<Longrightarrow> redis_world st1 = redis_world st \<and> msg_cache st1 = msg_cache st" for u n st1
    by (auto simp: kick_user_def sends_only_def dest!: TcpSession_send_sends_only split: option.splits sum.splits)
  have r: "login_reply env p s tx st0 = Inr st1 \<Longrightarrow> redis_world st1 = redis_world st0 \<and> msg_cache st1 = msg_cache st0" for tx st0
    by (auto simp: login_reply_def sends_only_def dest!: TcpSession_send_sends_only split: sum.splits)
  show "onLoginResponse env p s data st = Inr st1 \<Longrightarrow> redis_world st1 = redis_world st \<and> msg_cache st1 = msg_cache st"
    by (auto simp: onLoginResponse_def Let_def dest!: r k split: option.splits sum.splits if_splits)
  show "onGetUserListResponse env s st = Inr st1 \<Longrightarrow> redis_world st1 = redis_world st \<and> msg_cache st1 = msg_cache st"
    by (auto simp: onGetUserListResponse_def sends_only_def dest!: TcpSession_send_sends_only split: option.splits)
  show "onGetMsgsResponse env s st = Inr st1 \<Longrightarrow> redis_world st1 = redis_world st \<and> msg_cache st1 = msg_cache st"
    by (auto simp: onGetMsgsResponse_def loadMsgs_view [OF assms] sends_only_def dest!: TcpSession_send_sends_only split: option.splits)
  show "onChatResponse env s data st = Inr st1 \<Longrightarrow> msg_cache st1 = msg_cache st \<and>
      view (redis_world st1) msgs_key = view (redis_world st) msgs_key @ [data]"
    using addChatMsg_view(2) [OF assms, of data "redis_world st"]
    by (auto simp: onChatResponse_def Let_def sends_only_def dest!: send_to_all_sends_only split: prod.splits)
qed

definition stored :: "('r \<Rightarrow> bytes \<Rightarrow> bytes list) \<Rightarrow> msg_cache_manager \<Rightarrow> bytes \<Rightarrow> 'r chat_server \<Rightarrow> bool" where
  "stored view mc m st \<longleftrightarrow> msg_cache st = mc \<and> m \<in> set (view (redis_world st) msgs_key)"

lemma stored_upd [simp]:
  "stored view mc m (upd_session p f st) = stored view mc m st" "stored view mc m (emit e st) = stored view mc m st"
  "stored view mc m (touch env p st) = stored view mc m st"
  by (simp_all add: stored_def emit_def touch_def)

lemma dispatch_keeps_log:
  assumes "redis_lists (env_redis env) view (m_strRedisUrl mc)" and "stored view mc m st"
    and "dispatch env p cmd data st = Inr (ok, st1)"
  shows "stored view mc m st1"
proof -
  have l: "redis_lists (env_redis env) view (m_strRedisUrl (msg_cache st))" using assms(1,2) by (simp add: stored_def)
  have t: "TcpSession_send env c cm n d st = Inr st1 \<Longrightarrow> redis_world st1 = redis_world st \<and> msg_cache st1 = msg_cache st" for c cm n d
    by (auto simp: sends_only_def dest!: TcpSession_send_sends_only)
  obtain s where "map_of (m_sessions st) p = Some s" using assms(3) by (auto simp: dispatch_def split: option.splits)
  then show ?thesis
    using assms(2,3) by (auto simp: stored_def dispatch_def map_sum_Inr split: if_splits dest!: handlers_keep_log [OF l] t)
qed

lemma process_keeps_log:
  assumes "redis_lists (env_redis env) view (m_strRedisUrl mc)" and "stored view mc m st"
    and "process env p inbuf st = Inr (ok, st1)"
  shows "stored view mc m st1"
  using process_cases [OF assms(3)]
proof (elim disjE exE conjE)
  fix cmd seq data st2
  assume "dispatch env p cmd data (upd_session p (set_seq seq) st) = Inr (ok, st2)"
    and "st1 = (if ok then upd_session p bump_seq st2 else st2)"
  then show ?thesis using dispatch_keeps_log [OF assms(1), of m "upd_session p (set_seq seq) st"] assms(2) by simp
qed (use assms(2) in simp_all)

interpretation logged: session_invariant env p
  "\<lambda>st. chat_inv st \<and> p \<in> fst ` set (m_sessions st) \<and>
     (redis_lists (env_redis env) view (m_strRedisUrl mc) \<longrightarrow> stored view mc m st)" for env p view mc m
proof unfold_locales
  fix st st1 :: "'a chat_server" and inbuf ok
  assume "chat_inv st \<and> p \<in> fst ` set (m_sessions st) \<and> (redis_lists (env_redis env) view (m_strRedisUrl mc) \<longrightarrow> stored view mc m st)"
    and "process env p inbuf st = Inr (ok, st1)"
  then show "chat_inv st1 \<and> p \<in> fst ` set (m_sessions st1) \<and> (redis_lists (env_redis env) view (m_strRedisUrl mc) \<longrightarrow> stored view mc m st1)"
    using live_session.process_keeps [of st p env inbuf ok st1] process_keeps_log [of env view mc m st p inbuf ok st1] by blast
next
  fix st :: "'a chat_server"
  assume "chat_inv st \<and> p \<in> fst ` set (m_sessions st) \<and> (redis_lists (env_redis env) view (m_strRedisUrl mc) \<longrightarrow> stored view mc m st)"
  then show "process env p inbuf st \<noteq> Inl Bad_session"
    and "chat_inv (touch env p st) \<and> p \<in> fst ` set (m_sessions (touch env p st)) \<and>
      (redis_lists (env_redis env) view (m_strRedisUrl mc) \<longrightarrow> stored view mc m (touch env p st))"
    and "chat_inv (emit e st) \<and> p \<in> fst ` set (m_sessions (emit e st)) \<and>
      (redis_lists (env_redis env) view (m_strRedisUrl mc) \<longrightarrow> stored view mc m (emit e st))" for inbuf e
    using live_session.process_safe [of st p env inbuf] live_session.touch_keeps [of st p env] live_session.emit_keeps [of st p e]
    unfolding stored_upd by blast+
qed

lemma step_keeps_log:
  assumes "redis_lists (env_redis env) view (m_strRedisUrl mc)" and "chat_inv (server sys)" and "stored view mc m (server sys)"
    and "chat_step env e sys = Inr sys'"
  shows "stored view mc m (server sys')"
proof (cases e)
  case (Receive c d)
  show ?thesis
  proof (cases "c \<in> set (live_conns (server sys)) \<and> callbacks (server sys) c \<noteq> None")
    case True
    then obtain p where c: "c \<in> set (live_conns (server sys))" "callbacks (server sys) c = Some p" by auto
    then show ?thesis
      using logged.onRead_keeps [of "server sys" p env view mc m c "append_data d (inputs sys c)"] callback_session [OF assms(2) c] assms Receive
      by (auto simp: chat_step_def split: sum.splits)
  qed (use assms Receive in \<open>auto simp: chat_step_def split: if_splits option.splits\<close>)
qed (use assms in \<open>auto simp: chat_step_def stored_def onConnected_def onDisconnected_def Let_def split: if_splits\<close>)

lemma run_keeps_log:
  assumes "redis_lists (env_redis env) view (m_strRedisUrl mc)"
  shows "chat_inv (server sys) \<Longrightarrow> stored view mc m (server sys) \<Longrightarrow> chat_run env es sys = Inr sys' \<Longrightarrow> stored view mc m (server sys')"
proof (induction es arbitrary: sys)
  case (Cons e es)
  then obtain sys1 where "chat_step env e sys = Inr sys1" "chat_run env es sys1 = Inr sys'" by (auto split: sum.splits)
  then show ?case using Cons step_keeps_log [OF assms, of sys m e sys1] chat_step_inv [of sys env e] by blast
qed simp

section \<open>The database messages\<close>

lemma dump_msgs_documents:
  "dump_msgs (server_json strtod) junk rs = Inr ds \<Longrightarrow>
     list_all2 (\<lambda>r d. \<exists>m. msg_of_row junk r = Inr m \<and> json_document strtod (read_back (json_of_msg m)) d) rs ds"
proof (induction rs arbitrary: ds)
  case (Cons r rs)
  then obtain m d ds' where *: "msg_of_row junk r = Inr m" "json_dump (server_json strtod) (json_of_msg m) = Some d"
    "dump_msgs (server_json strtod) junk rs = Inr ds'" "ds = d # ds'"
    by (auto split: sum.splits option.splits)
  moreover have "json_document strtod (read_back (json_of_msg m)) d"
    using document_text [OF server_dump_document [OF *(2)]] by (simp add: msg_simps)
  ultimately show ?case using Cons.IH by auto
qed simp

section \<open>A server on the library\<close>

definition library_env :: "(bytes \<Rightarrow> int64) \<Rightarrow> (bytes \<Rightarrow> bytes list) chat_env" where
  "library_env strtod = demo_env\<lparr>env_json := server_json strtod\<rparr>"

lemma library_env_simps [simp]:
  "env_json (library_env strtod) = server_json strtod" "env_redis (library_env strtod) = mem_redis"
  by (simp_all add: library_env_def demo_env_def)

text \<open>The letter \<^verbatim>\<open>A\<close> alone is not a JSON text.\<close>

lemma letter_no_document: "\<not> json_document strtod j [65]"
proof -
  have "isl (basic_json_parse strtod [65] False)" by code_simp
  then show ?thesis using parse_complete [of strtod j "[65]"] by auto
qed

lemma demo_chat:
  "\<exists>st1. dispatch (library_env strtod) 0 msg_type_chat [65] (upd_session 0 set_login demo_server) = Inr (True, st1) \<and>
     m_sessions st1 = m_sessions (upd_session 0 set_login demo_server)"
proof -
  let ?st = "upd_session 0 set_login demo_server" and ?m = "packet (\<lambda>_. 170) msg_type_chat 0 (chat_text [65])"
  have "length (chat_text [65]) = 34" by (simp add: chat_text_def lit_def)
  then have "length ?m < 2 ^ 31" using length_packet [of "chat_text [65]" "\<lambda>_. 170" msg_type_chat 0] by simp
  then have "sendPackage 7 ?m (?st\<lparr>redis_world := r\<rparr>) = Inr (emit (ConnSend 7 (frame ?m)) (?st\<lparr>redis_world := r\<rparr>))" for r
    by (intro sendPackage_ok) (simp_all add: demo_server_def)
  then show ?thesis
    by (auto simp: dispatch_def onChatResponse_def msg_type_defs getSessions_def Let_def library_env_def demo_env_def demo_server_def
        upd_session_def set_login_def ChatSession_def emit_def split: prod.splits)
qed

section \<open>Properties\<close>

text \<open>
  C13: what a login request is.  The handler finds a user name and a password in the data if and only if the data is a
  JSON text for an object whose members \<^verbatim>\<open>username\<close> and \<^verbatim>\<open>password\<close> (the last ones of these names) are strings, and
  then it finds these strings, with their escapes resolved.
\<close>

theorem login_request_text:
  "login_request (server_json strtod) data = Some (name, pw) \<longleftrightarrow>
     (\<exists>ms. json_document strtod (JObject ms) data \<and> map_find (lit ''username'') ms = Some (JString name) \<and>
        map_find (lit ''password'') ms = Some (JString pw))"
proof -
  have ok: "json_document strtod (JObject ms) data \<Longrightarrow> map_ok ms" for ms using document_ok by fastforce
  have "login_request (server_json strtod) data = Some (name, pw) \<longleftrightarrow>
      (\<exists>j. json_document strtod j data \<and> json_string (lit ''username'') j = Some name \<and> json_string (lit ''password'') j = Some pw)"
    unfolding server_parse [symmetric] by (auto simp: login_request_def split: option.splits)
  also have "\<dots> \<longleftrightarrow> (\<exists>ms. json_document strtod (JObject ms) data \<and> json_string (lit ''username'') (JObject ms) = Some name \<and>
      json_string (lit ''password'') (JObject ms) = Some pw)"
    using json_string_only_object by blast
  also have "\<dots> \<longleftrightarrow> (\<exists>ms. json_document strtod (JObject ms) data \<and> map_find (lit ''username'') ms = Some (JString name) \<and>
      map_find (lit ''password'') ms = Some (JString pw))"
    using ok by (auto split: option.splits json.splits)
  finally show ?thesis .
qed

text \<open>
  C37: the clients can read the user list.  If every user name in the cache is UTF-8, the reply to a request for the user
  list is a JSON text for an object with \<^verbatim>\<open>code\<close> 0, \<^verbatim>\<open>msg\<close> \<^verbatim>\<open>ok\<close> and under \<^verbatim>\<open>userlistinfo\<close> all the users in order
  (\<^verbatim>\<open>null\<close> when there are none); if one is not, the printer throws and nobody catches it.
\<close>

theorem user_list_reply:
  assumes "env_json env = server_json strtod"
  shows "if list_all (\<lambda>u. valid_utf8 (username u)) (getUserListInfo (users st))
    then \<exists>tx. onGetUserListResponse env s st = TcpSession_send env (tmpConn s) msg_type_getuserlist (m_seq s) tx st \<and>
      json_document strtod (JObject [(lit ''code'', JUnsigned 0), (lit ''msg'', JString (lit ''ok'')),
        (lit ''userlistinfo'', json_array (map (\<lambda>u. read_back (json_of_user u)) (getUserListInfo (users st))))]) tx
    else onGetUserListResponse env s st = Inl Bad_json"
proof -
  let ?j = "json_array (map json_of_user (getUserListInfo (users st)))"
  have f: "\<forall>x\<in>floats ?j. strtod_rounds strtod x" by (simp add: array_simps user_simps)
  have u: "json_utf8 ?j = list_all (\<lambda>u. valid_utf8 (username u)) (getUserListInfo (users st))"
    by (simp add: array_simps user_simps list.pred_map comp_def)
  show ?thesis
  proof (cases "json_dump (server_json strtod) ?j")
    case None
    then show ?thesis using u server_dump_accepts [of strtod ?j] assms by (auto simp: onGetUserListResponse_def makeUpUserListInfo_def)
  next
    case (Some t)
    let ?tx = "lit ''{\"code\": 0, \"msg\": \"ok\", \"userlistinfo\":'' @ t @ lit ''}''"
    have tt: "json_text strtod (json_array (map (\<lambda>u. read_back (json_of_user u)) (getUserListInfo (users st)))) t"
      using server_dump_document [OF Some _ f] by (simp add: array_simps user_simps read_back_array list_all_iff comp_def)
    have "string_body (lit ''userlistinfo'') (lit ''userlistinfo'')" by (rule plain_body) (simp add: lit_def)
    from reply_document [OF tt padded_space(1) this, unfolded ok_objects]
    have "json_document strtod (JObject (ok_members (lit ''userlistinfo'')
        (json_array (map (\<lambda>u. read_back (json_of_user u)) (getUserListInfo (users st)))))) ?tx"
      by (simp add: quoted_def lit_def)
    moreover have "onGetUserListResponse env s st = TcpSession_send env (tmpConn s) msg_type_getuserlist (m_seq s) ?tx st"
      using Some assms by (simp add: onGetUserListResponse_def makeUpUserListInfo_def)
    ultimately show ?thesis using u server_dump_accepts [of strtod ?j] Some by (auto simp: ok_members_def)
  qed
qed

theorem user_list_reply_witness:
  "\<exists>tx. onGetUserListResponse (library_env (\<lambda>_. 0)) (ChatSession 7 1 0 0 0) demo_server =
       TcpSession_send (library_env (\<lambda>_. 0)) 7 msg_type_getuserlist 0 tx demo_server \<and>
     json_document (\<lambda>_. 0) (JObject [(lit ''code'', JUnsigned 0), (lit ''msg'', JString (lit ''ok'')),
       (lit ''userlistinfo'', JArray [JObject [(lit ''userid'', JUnsigned 1), (lit ''username'', JString [109])]])]) tx"
proof -
  have "valid_utf8 [109]" by code_simp
  moreover have "sint (scast (1 :: int32) :: int64) = 1" "(scast (1 :: int32) :: int64) = 1" by simp_all
  ultimately show ?thesis
    using user_list_reply [of "library_env (\<lambda>_. 0)" "\<lambda>_. 0" demo_server "ChatSession 7 1 0 0 0"]
    by (simp add: demo_server_def ChatSession_def getUserListInfo_def json_array_def json_of_user_def lit_def)
qed

text \<open>
  C17: the clients can read the history.  If every message of the log is a JSON text, the reply to a request for the
  history is a JSON text for an object with \<^verbatim>\<open>code\<close> 0, \<^verbatim>\<open>msg\<close> \<^verbatim>\<open>ok\<close> and under \<^verbatim>\<open>msgs\<close> the values of all the messages,
  in the order of the log (\<^verbatim>\<open>null\<close> when there are none), provided \<^verbatim>\<open>strtod\<close> rounds correctly around the floating-point
  numbers in them, if any.
\<close>

theorem history_readable:
  assumes "env_json env = server_json strtod" and "redis_lists (env_redis env) view (m_strRedisUrl (msg_cache st))"
    and "list_all2 (json_document strtod) js (view (redis_world st) msgs_key)"
    and "\<forall>j\<in>set js. \<forall>x\<in>floats j. strtod_rounds strtod x"
  shows "\<exists>tx. onGetMsgsResponse env s st = TcpSession_send env (tmpConn s) msg_type_getMsgs (m_seq s) tx st \<and>
    json_document strtod (JObject [(lit ''code'', JUnsigned 0), (lit ''msg'', JString (lit ''ok'')),
      (lit ''msgs'', json_array (map read_back js))]) tx"
  using history_reply [OF assms] by (simp add: ok_members_def)

theorem history_readable_witness:
  "\<exists>tx. onGetMsgsResponse (library_env (\<lambda>_. 0)) (ChatSession 7 1 0 0 0)
         (demo_server\<lparr>redis_world := (\<lambda>_. [])(msgs_key := [lit ''7'', lit ''[true]''])\<rparr>) =
       TcpSession_send (library_env (\<lambda>_. 0)) 7 msg_type_getMsgs 0 tx
         (demo_server\<lparr>redis_world := (\<lambda>_. [])(msgs_key := [lit ''7'', lit ''[true]''])\<rparr>) \<and>
     json_document (\<lambda>_. 0) (JObject [(lit ''code'', JUnsigned 0), (lit ''msg'', JString (lit ''ok'')),
       (lit ''msgs'', JArray [JUnsigned 7, JArray [JBool True]])]) tx"
proof -
  have "basic_json_parse (\<lambda>_. 0) (lit ''7'') False = Inr (JUnsigned 7)"
    "basic_json_parse (\<lambda>_. 0) (lit ''[true]'') False = Inr (JArray [JBool True])" by code_simp+
  then have "list_all2 (json_document (\<lambda>_. 0)) [JUnsigned 7, JArray [JBool True]] [lit ''7'', lit ''[true]'']"
    using parse_result [of "\<lambda>_. 0" "lit ''7''"] parse_result [of "\<lambda>_. 0" "lit ''[true]''"] by simp
  then show ?thesis
    using history_readable [of "library_env (\<lambda>_. 0)" "\<lambda>_. 0" "\<lambda>r. r"
        "demo_server\<lparr>redis_world := (\<lambda>_. [])(msgs_key := [lit ''7'', lit ''[true]''])\<rparr>" "[JUnsigned 7, JArray [JBool True]]"
        "ChatSession 7 1 0 0 0"]
    by (simp add: mem_redis_lists json_array_def ChatSession_def)
qed

text \<open>
  C16: one chat message can end the server for good.  The chat handler stores what a client sends without looking at it.
  Once a message that is not a JSON text has been handled, then whatever happens afterwards and as long as the server
  runs, the next request for the history by any session that is logged in makes the parser throw in the handler, where
  nothing catches it.
\<close>

theorem poisoned_history:
  assumes "env_json env = server_json strtod" and "redis_lists (env_redis env) view (m_strRedisUrl (msg_cache st))"
    and "chat_inv st" and "dispatch env p msg_type_chat data st = Inr (ok, st1)"
    and "map_of (m_sessions st) p = Some s" and "m_isLogin s" and "\<forall>j. \<not> json_document strtod j data"
    and "chat_run env es \<lparr>server = st1, inputs = bufs\<rparr> = Inr sys"
    and "map_of (m_sessions (server sys)) q = Some t" and "m_isLogin t"
  shows "dispatch env q msg_type_getMsgs d (server sys) = Inl Bad_json"
proof -
  have c: "onChatResponse env s data st = Inr st1" using assms(4-6) by (auto simp: dispatch_def msg_type_defs map_sum_Inr)
  have st1: "stored view (msg_cache st) data st1" using handlers_keep_log(4) [OF assms(2) c] by (simp add: stored_def)
  have inv: "chat_inv st1"
    using dispatch_post [OF assms(4)] assms(3) chat_inv_frame [of st st1] by (simp add: chat_inv_def)
  have "stored view (msg_cache st) data (server sys)"
    using run_keeps_log [OF assms(2), of "\<lparr>server = st1, inputs = bufs\<rparr>" data es sys] inv st1 assms(8) by simp
  then have "onGetMsgsResponse env t (server sys) = Inl Bad_json"
    using history_refused [OF assms(1), of view "server sys" data t] assms(2,7) by (simp add: stored_def)
  then show ?thesis using assms(9,10) by (simp add: dispatch_def msg_type_defs)
qed

theorem poisoned_history_witness:
  "\<exists>st1. dispatch (library_env (\<lambda>_. 0)) 0 msg_type_chat [65] (upd_session 0 set_login demo_server) = Inr (True, st1) \<and>
     dispatch (library_env (\<lambda>_. 0)) 0 msg_type_getMsgs [] st1 = Inl Bad_json"
proof -
  let ?st = "upd_session 0 set_login demo_server" and ?s = "(ChatSession 7 1 0 0 0)\<lparr>m_isLogin := True\<rparr>"
  have s: "map_of (m_sessions ?st) 0 = Some ?s" by (simp add: demo_server_def set_login_def)
  have inv: "chat_inv ?st"
    by (simp add: demo_server_def upd_session_def set_login_def ChatSession_def chat_inv_def skeleton_def uids_def unique_users_def)
  have red: "redis_lists (env_redis (library_env (\<lambda>_. 0))) (\<lambda>r. r) (m_strRedisUrl (msg_cache ?st))" by (simp add: mem_redis_lists)
  obtain st1 where d: "dispatch (library_env (\<lambda>_. 0)) 0 msg_type_chat [65] ?st = Inr (True, st1)" and s1: "m_sessions st1 = m_sessions ?st"
    using demo_chat by blast
  have "dispatch (library_env (\<lambda>_. 0)) 0 msg_type_getMsgs [] (server \<lparr>server = st1, inputs = \<lambda>_. ByteBuffer 16\<rparr>) = Inl Bad_json"
    by (rule poisoned_history [OF _ red inv d s _ _, of "\<lambda>_. 0" "[]" "\<lambda>_. ByteBuffer 16" _ 0 ?s "[]"])
      (use s s1 letter_no_document in simp_all)
  then show ?thesis using d by auto
qed

end
