(* ===== verification/Spec2Isabelle.thy ===== *)
theory Spec2Isabelle
  imports Chat_Framing Chat_Sessions Poller Tcp_Connection Timers Event_Loop Config_File Tcp_Server
    Chat_Loops Acceptor_Model Async_Log Connector_Model Tcp_Client Loop_Threads Poller_Wait Server_Main Chat_Over_Tcp
    Chat_Json
begin

text \<open>
  A chat room server in C++: a network library in the style of muduo (\<^verbatim>\<open>net/\<close>, \<^verbatim>\<open>base/\<close>) under an application
  (\<^verbatim>\<open>chatserversrc/\<close>) that keeps users in MySQL (\<^verbatim>\<open>mysqlapi/\<close>, \<^verbatim>\<open>mysqlmgr/\<close>) and the message log in redis, and talks
  JSON to its clients (\<^verbatim>\<open>json/json.hpp\<close>).

  \<^bold>\<open>How the program works.\<close>  \<^verbatim>\<open>main\<close> reads the configuration file, initialises three singletons from the
  database, starts a \<^verbatim>\<open>TcpServer\<close> with six worker threads and enters the event loop.  The acceptor hands each
  new socket to the server, which wraps it in a \<^verbatim>\<open>TcpConnection\<close> of one of the worker loops.  A loop waits in its
  poller, runs the callbacks of ready channels and then the functors other threads have queued.  A connection
  reads into its input buffer and calls the message callback, which is \<^verbatim>\<open>onRead\<close> of the session made for it:
  it cuts the stream into frames and runs a handler for each; replies go out through the output buffer.

  \<^bold>\<open>Theories and sources.\<close>
  \<^item> \<^verbatim>\<open>Prelude\<close>: machine integers as bytes in both orders (\<^verbatim>\<open>net/Endian.h\<close>), segments of lists, search, and the
    locale \<open>stepping\<close> of state machines whose steps keep an invariant.
  \<^item> \<^verbatim>\<open>Byte_Buffer\<close>: \<^verbatim>\<open>net/ByteBuffer\<close>, with the indices of the source over the vector; locale \<open>byte_fifo\<close>.
  \<^item> \<^verbatim>\<open>Protocol_Stream\<close>: \<^verbatim>\<open>net/ProtocolStream\<close>: 7-bit integers, checksum, reader and writer of messages.
  \<^item> \<^verbatim>\<open>Mysql_Api\<close>: \<^verbatim>\<open>mysqlapi/\<close> and \<^verbatim>\<open>mysqlmgr/\<close>; \<^verbatim>\<open>Chat_Data\<close>: \<^verbatim>\<open>utils/\<close>, \<^verbatim>\<open>UserManager\<close>, \<^verbatim>\<open>MsgCacheManager\<close>.
  \<^item> \<^verbatim>\<open>Chat_Server\<close>: \<^verbatim>\<open>TcpSession\<close>, \<^verbatim>\<open>ChatSession\<close>, \<^verbatim>\<open>ChatServer\<close> as functions on one state record;
    \<^verbatim>\<open>Chat_Framing\<close> and \<^verbatim>\<open>Chat_Sessions\<close> hold what is proved of single handlers and of runs in which one handler
    follows the other.  \<^verbatim>\<open>Chat_Loops\<close>: the same handlers in the worker loops, where their steps interleave, under
    the callbacks of \<^verbatim>\<open>net/Channel\<close> and \<^verbatim>\<open>TcpConnection::handleClose\<close>.
  \<^item> \<^verbatim>\<open>Poller\<close>: \<^verbatim>\<open>net/Channel\<close>, \<^verbatim>\<open>EpollPoller\<close>, \<^verbatim>\<open>PollPoller\<close>, \<^verbatim>\<open>SelectPoller\<close>; locale \<open>poller\<close>, the contract of a
    poller, with interpretations for epoll and select.  \<^verbatim>\<open>Poller_Wait\<close>: their waiting calls, and the poller
    of an event loop with its wake-up channel.
  \<^item> \<^verbatim>\<open>Tcp_Connection\<close>: \<^verbatim>\<open>net/TcpConnection\<close>; \<^verbatim>\<open>Chat_Over_Tcp\<close>: the session on its connection.
  \<^item> \<^verbatim>\<open>Timers\<close>: \<^verbatim>\<open>net/Timer\<close>, \<^verbatim>\<open>net/TimerQueue\<close>, \<^verbatim>\<open>base/Timestamp\<close> and the timer calls of \<^verbatim>\<open>net/EventLoop\<close>.
  \<^item> \<^verbatim>\<open>Event_Loop\<close>: \<^verbatim>\<open>net/EventLoop\<close>, the iteration and the functor queue.  \<^verbatim>\<open>Loop_Threads\<close>: \<^verbatim>\<open>base/CountDownLatch\<close>
    and \<^verbatim>\<open>net/EventLoopThread\<close>; locale \<open>monitor_protocol\<close>, the law of waiting on a condition variable,
    interpreted for both.
  \<^item> \<^verbatim>\<open>Std_Map\<close>: \<^verbatim>\<open>std::map\<close> as a sorted association list; locale \<open>finite_map_interface\<close>.
  \<^item> \<^verbatim>\<open>Inet_Address\<close>: \<^verbatim>\<open>net/InetAddress\<close> and the address functions of \<^verbatim>\<open>net/Sockets\<close>; \<^verbatim>\<open>Acceptor_Model\<close>:
    \<^verbatim>\<open>net/Acceptor\<close> and \<^verbatim>\<open>sockets::accept\<close> over a table of descriptors; \<^verbatim>\<open>Tcp_Server\<close>: \<^verbatim>\<open>net/TcpServer\<close> and
    \<^verbatim>\<open>net/EventLoopThreadPool\<close>.
  \<^item> \<^verbatim>\<open>Connector_Model\<close>, \<^verbatim>\<open>Tcp_Client\<close>: \<^verbatim>\<open>net/Connector\<close> and \<^verbatim>\<open>net/TcpClient\<close>.
  \<^item> \<^verbatim>\<open>Log_Format\<close>, \<^verbatim>\<open>Async_Log\<close>: \<^verbatim>\<open>base/AsyncLog\<close>, the text of lines, and the threads as a step relation.
  \<^item> \<^verbatim>\<open>Config_File\<close>: \<^verbatim>\<open>base/ConfigFileReader\<close>; \<^verbatim>\<open>Server_Main\<close>: \<^verbatim>\<open>chatserversrc/main.cpp\<close> and \<^verbatim>\<open>ChatServer::init\<close>.

  \<^item> The JSON library \<^verbatim>\<open>json/json.hpp\<close>: \<^verbatim>\<open>Json_Value\<close> the values and the access to members and elements; \<^verbatim>\<open>Json_Utf8\<close>
    the table-driven UTF-8 decoder; \<^verbatim>\<open>Json_Lexer\<close> and \<^verbatim>\<open>Json_Parser\<close> the scanner, the document builder and the parser
    loop with its explicit stack; \<^verbatim>\<open>Json_Serializer\<close> printing through the 512-byte buffer; \<^verbatim>\<open>Json_Float\<close> the Grisu2
    printing of \<^verbatim>\<open>double\<close>.  \<^verbatim>\<open>Json_Grammar\<close> is the specification, RFC 8259 as inductive relations; \<^verbatim>\<open>Json_Tokens\<close>,
    \<^verbatim>\<open>Json_Correct\<close> and \<^verbatim>\<open>Json_Roundtrip\<close> show the code to implement it.  \<^verbatim>\<open>Json_Diyfp\<close> (the 64-bit arithmetic),
    \<^verbatim>\<open>Json_Powers\<close> (the table of powers of ten), \<^verbatim>\<open>Json_Digits\<close> (the digit loops) and \<^verbatim>\<open>Json_Grisu\<close> show that Grisu2 is
    correct.  \<^verbatim>\<open>Chat_Json\<close> puts the library under the server.

  \<^bold>\<open>Conventions.\<close>  Names are those of the source where HOL has no constant of that name, else with a suffix
  or the name of the class.  Objects that are shared live in stores under their number.  Integers are words
  of their width where they come from the wire or may wrap, else \<open>int\<close> or \<open>nat\<close>.  Whatever ends the process
  (an uncaught exception, a null pointer, undefined behaviour) is an error value.  So is \<^verbatim>\<open>LOGF\<close>, but for the case
  in which it returns, because the log file is not open and cannot be created; the models of its callers in
  \<^verbatim>\<open>net/Sockets\<close> go on from there.  A call that waits
  for ever is a step that is never enabled.  What uninitialised memory holds, and what the kernel answers
  (bytes read and written, error codes, readiness, the time), are arguments.  Code that is not part of the
  repository's own sources is a parameter with named assumptions about its documented behaviour: the MySQL
  client and redis (records \<open>mysql_api\<close>, \<open>redis_api\<close>), and \<^verbatim>\<open>strtod\<close>, a function from texts to the 64 bits of a
  \<^verbatim>\<open>double\<close> (\<open>strtod_rounds\<close>: it rounds correctly around a given number).  The handlers of the server take the JSON
  library as a record \<open>json_api\<close>, which \<open>server_json\<close> fills with the model of the library.

  \<^bold>\<open>What is shown.\<close>
  \<^item> The application, in every interleaving of the loops: one session per connection; a user id is held only by
    a session that gave the password, and by one session unless two logins of the user overlap; and no handler
    runs on a session that is gone unless an event closes the connection and then reads.  Both exceptions are
    shown to happen.  For single handlers: a login that takes over, broadcast to every session, refusal before
    login; and the errors: a negative size field, a wrong password that logs in, an unknown user that is
    accepted.
  \<^item> The way of a request: frames are handed to the handlers one by one whatever the pieces they arrive in,
    from the output buffer of the peer to the handler, and a packet is read as it was written.
  \<^item> The library: the buffer is a queue of bytes; the output stream of a connection is never lost or
    reordered and is flushed before the write half closes; the kernel's interest set is what the channels
    want as long as \<^verbatim>\<open>epoll_ctl\<close> refuses nothing, and a wake-up descriptor stays watched once the kernel has taken
    it; functors run once and in order, and those that may wait for a poll without a wake-up are exactly the
    ones queued by the frame functor and by timer callbacks; one-shot timers run when due; every connection
    of the server is established and destroyed once in its own loop; the acceptor works off its backlog as long
    as no other thread takes the descriptor it frees, and loses its reserve when one does; the connector and
    the client own every socket they opened.
  \<^item> The JSON library: the parser accepts exactly the texts of the grammar and returns the value they stand
    for, which is well-formed; Grisu2 prints at most 17 digits that round to the number printed, and no assertion
    of it fails; what is printed is read back as the same value; the UTF-8 decoder accepts
    exactly UTF-8; printing a string stays in its buffer.  And the server on it: what a login request is, that
    the clients can read the user list and the history, and that one chat message that is not JSON makes
    every later request for the history end the server.
  \<^item> Threads: \<^verbatim>\<open>startLoop\<close> misses no wake-up, a latch opens exactly at its count, no queued log line is lost,
    doubled or reordered between the threads, and without a \<^verbatim>\<open>FATAL\<close> call the writer ends after a bounded number of
    steps with all of them printed; and the interleavings in which \<^verbatim>\<open>stopLoop\<close> and \<^verbatim>\<open>CAsyncLog::uninit\<close> wait for ever.
  \<^item> Start-up and data: a server listens exactly where its configuration says, unless \<^verbatim>\<open>LOGF\<close> returns;
    configuration, addresses, messages, varints and the message log round-trip; the binary dump writes every byte.

  \<^bold>\<open>Termination and bounds.\<close>  Loops that are not structural recursions have a termination proof (the receive
  loop by the readable bytes, the scanner and the parser by the input that is left, the loops over files,
  dumps and writes by what is left); there is no fuel.  The one loop defined without such a measure, the
  fractional digits of Grisu2, is an \<open>option\<close> in which not returning would be \<open>None\<close>; \<open>grisu2_correct\<close> shows that it
  returns.  Runs of a component are lists of events, or reachability in an inductive step
  relation, so statements about them hold for runs of every length.

  \<^bold>\<open>Not modelled.\<close>  Of \<^verbatim>\<open>json/json.hpp\<close> what the program never calls: parsing with a callback or without
  exceptions, the binary formats, iterators, JSON pointer and patch, the other input and output adapters, and
  the conversion templates.  \<^verbatim>\<open>include/sw/redis++\<close> declares a compiled library and appears as a parameter.
  \<^verbatim>\<open>net/Callbacks.h\<close>, \<^verbatim>\<open>base/Singleton.h\<close> and \<^verbatim>\<open>base/RAIIWrapper.h\<close> have no behaviour of their own.  The remaining
  functions of \<^verbatim>\<open>net/Sockets.cpp\<close> each forward to one system call.  Of \<^verbatim>\<open>net/EventLoop.cpp\<close> the Windows branch
  that makes a pair of sockets, of \<^verbatim>\<open>base/Timestamp.cpp\<close> the formatting with \<^verbatim>\<open>localtime\<close>, and of
  \<^verbatim>\<open>net/EventLoopThreadPool.cpp\<close> the printing of thread numbers are left out.  Large parts of
  \<^verbatim>\<open>UserManager.cpp\<close>, \<^verbatim>\<open>ChatSession.cpp\<close> and \<^verbatim>\<open>Msg.h\<close> are comments.  The programs under \<^verbatim>\<open>test/\<close> are manual trials.
  Of the handlers of the application \<^verbatim>\<open>onLoginResponse\<close>, \<^verbatim>\<open>onConnected\<close> and the callbacks of an event interleave step
  by step (\<^verbatim>\<open>Chat_Loops\<close>); preemption inside the other handlers, which read the shared singletons under their
  mutexes and send, is not modelled.  \<open>chat_step\<close> is the schedule in which no handler is interrupted.
\<close>

end
